(* ===== verification/Float_Model.thy ===== *)
theory Float_Model
  imports Complex_Main "HOL-Library.Log_Nat"
begin

text \<open>
  The binary floating-point arithmetic of the sources (\<open>float\<close> in the hash table's load
  factors, \<open>double\<close> in the filters' parameters) on rationals: an operation computes the exact
  result and rounds it to \<open>p\<close> significant bits, ties to even, as IEEE 754 does for results
  in the normal range. Every value that the modelled code computes in floating point is a
  table size, a load factor or their product or quotient, all of them far inside the normal
  range, so exponent overflow, subnormal numbers, infinities and NaN do not arise; a division by
  zero is an error of the operation that makes it.
\<close>

section \<open>Rounding\<close>

text \<open>The exponent of the leading bit of a positive rational.\<close>

definition ilog2 :: "rat \<Rightarrow> int" where
  "ilog2 x = (let (a, b) = quotient_of x;
                  e = int (floorlog 2 (nat a)) - int (floorlog 2 (nat b))
              in if 2 powi e \<le> x then e else e - 1)"

definition round_half_even :: "rat \<Rightarrow> int" where
  "round_half_even x =
     (let f = \<lfloor>x\<rfloor>; r = x - of_int f in
      if r < 1 / 2 then f else if r > 1 / 2 then f + 1 else if even f then f else f + 1)"

definition round_fp :: "nat \<Rightarrow> rat \<Rightarrow> rat" where
  "round_fp p x =
     (if x \<le> 0 then 0
      else let e = ilog2 x - int (p - 1) in of_int (round_half_even (x / 2 powi e)) * 2 powi e)"

text \<open>\<open>float\<close> has 24 significant bits, \<open>double\<close> 53.\<close>

definition flt :: "rat \<Rightarrow> rat" where
  "flt x = round_fp 24 x"

definition dbl :: "rat \<Rightarrow> rat" where
  "dbl x = round_fp 53 x"

section \<open>The rounding error\<close>

lemma floorlog_nat_bounds: "0 < n \<Longrightarrow> 2 ^ (floorlog 2 n - 1) \<le> n \<and> n < 2 ^ floorlog 2 n"
  using floorlog_bounds [of n 2] by simp

lemma floorlog_powi_bounds:
  assumes "0 < a"
  shows "(2 :: rat) powi (int (floorlog 2 (nat a)) - 1) \<le> of_int a"
    and "of_int a < (2 :: rat) powi int (floorlog 2 (nat a))"
proof -
  define l where "l = floorlog 2 (nat a)"
  have l: "2 ^ (l - 1) \<le> nat a" "nat a < 2 ^ l" "0 < l"
    using floorlog_nat_bounds [of "nat a"] assms by (auto simp: l_def floorlog_def)
  have ai: "(of_int a :: rat) = of_nat (nat a)" using assms by simp
  have "(2 :: rat) powi (int l - 1) = 2 ^ (l - 1)"
    using l(3) by (simp add: power_int_def nat_diff_distrib)
  also have "\<dots> \<le> of_nat (nat a)"
    using l(1) by (metis of_nat_le_iff of_nat_numeral of_nat_power)
  finally show "(2 :: rat) powi (int (floorlog 2 (nat a)) - 1) \<le> of_int a"
    by (simp add: ai l_def)
  have "of_nat (nat a) < (2 :: rat) ^ l"
    using l(2) by (metis of_nat_less_iff of_nat_numeral of_nat_power)
  then show "of_int a < (2 :: rat) powi int (floorlog 2 (nat a))"
    by (simp add: ai l_def)
qed

lemma ilog2_bounds:
  assumes "0 < x"
  shows "2 powi (ilog2 x) \<le> x" and "x < 2 powi (ilog2 x + 1)"
proof -
  obtain a b where q: "quotient_of x = (a, b)" by (cases "quotient_of x")
  have x: "x = of_int a / of_int b" and b: "0 < b"
    using q by (auto simp: quotient_of_div quotient_of_denom_pos)
  have a: "0 < a" using assms b by (simp add: x zero_less_divide_iff)
  define la lb where "la = floorlog 2 (nat a)" and "lb = floorlog 2 (nat b)"
  note A = floorlog_powi_bounds [OF a, folded la_def]
  note B = floorlog_powi_bounds [OF b, folded lb_def]
  define e where "e = int la - int lb"
  have b': "(0 :: rat) < of_int b" using b by simp
  have "(2 :: rat) powi (e + 1) * of_int b \<ge> 2 powi (e + 1) * 2 powi (int lb - 1)"
    using B(1) by (simp add: mult_left_mono)
  moreover have "(2 :: rat) powi (e + 1) * 2 powi (int lb - 1) = 2 powi int la"
    by (simp add: e_def flip: power_int_add)
  ultimately have "of_int a < (2 :: rat) powi (e + 1) * of_int b"
    using A(2) by linarith
  then have hi: "x < 2 powi (e + 1)"
    using b' by (simp add: x divide_less_eq)
  have "(2 :: rat) powi (e - 1) * of_int b \<le> 2 powi (e - 1) * 2 powi int lb"
    using B(2) by (simp add: mult_left_mono)
  moreover have "(2 :: rat) powi (e - 1) * 2 powi int lb = 2 powi (int la - 1)"
    by (subst power_int_add [symmetric]) (simp_all add: e_def)
  ultimately have "(2 :: rat) powi (e - 1) * of_int b \<le> of_int a"
    using A(1) by linarith
  then have lo: "2 powi (e - 1) \<le> x"
    using b' by (simp add: x le_divide_eq)
  show "2 powi (ilog2 x) \<le> x" and "x < 2 powi (ilog2 x + 1)"
    using lo hi by (auto simp: ilog2_def q la_def [symmetric] lb_def [symmetric] e_def [symmetric] Let_def)
qed

lemma ilog2_unique:
  assumes "2 powi e \<le> x" "x < 2 powi (e + 1)"
  shows "ilog2 x = e"
proof -
  have x: "0 < x" using assms(1) by (rule less_le_trans [rotated]) simp
  have "2 powi e < (2 :: rat) powi (ilog2 x + 1)" "2 powi ilog2 x < (2 :: rat) powi (e + 1)"
    using ilog2_bounds [OF x] assms by linarith+
  then have "e < ilog2 x + 1" "ilog2 x < e + 1"
    using power_int_increasing [of "ilog2 x + 1" e "2 :: rat"] power_int_increasing [of "e + 1" "ilog2 x" "2 :: rat"]
    by linarith+
  then show ?thesis by simp
qed

lemma round_half_even_near:
  assumes "\<bar>x - of_int n\<bar> < 1 / 2"
  shows "round_half_even x = n"
proof (cases "of_int n \<le> x")
  case True
  with assms have "\<lfloor>x\<rfloor> = n" by (intro floor_unique) linarith+
  with True assms show ?thesis by (simp add: round_half_even_def)
next
  case False
  with assms have "\<lfloor>x\<rfloor> = n - 1" by (intro floor_unique) (simp, linarith)+
  with False assms show ?thesis by (simp add: round_half_even_def)
qed

text \<open>The rounded value, from the binade the argument is in.\<close>

lemma round_fp_at:
  assumes "2 powi e \<le> x" "x < 2 powi (e + 1)"
  shows "round_fp p x = of_int (round_half_even (x / 2 powi (e - int (p - 1)))) * 2 powi (e - int (p - 1))"
proof -
  have "0 < x" using assms(1) by (rule less_le_trans [rotated]) simp
  then show ?thesis by (simp add: round_fp_def ilog2_unique [OF assms] Let_def)
qed

lemma round_half_even_error: "\<bar>of_int (round_half_even x) - x\<bar> \<le> 1 / 2"
proof -
  have "of_int \<lfloor>x\<rfloor> \<le> x" "x < of_int \<lfloor>x\<rfloor> + 1" by linarith+
  then show ?thesis
    by (simp add: round_half_even_def Let_def abs_le_iff)
qed

lemma round_half_even_of_int [simp]: "round_half_even (of_int n) = n"
  by (simp add: round_half_even_def)

text \<open>Rounding to \<open>p\<close> bits changes a positive value by at most one part in \<open>2 ^ p\<close>.\<close>

lemma round_fp_error:
  assumes "0 < x" "0 < p"
  shows "\<bar>round_fp p x - x\<bar> \<le> x / 2 ^ p"
proof -
  define e where "e = ilog2 x - int (p - 1)"
  define m where "m = of_int (round_half_even (x / 2 powi e)) - x / 2 powi e"
  have pe: "(0 :: rat) < 2 powi e" by simp
  have "round_fp p x - x = m * 2 powi e"
    using assms(1) by (simp add: round_fp_def e_def m_def Let_def algebra_simps)
  then have "\<bar>round_fp p x - x\<bar> = \<bar>m\<bar> * 2 powi e"
    by (simp add: abs_mult)
  also have "\<dots> \<le> 1 / 2 * 2 powi e"
    unfolding m_def using pe by (intro mult_right_mono round_half_even_error) simp
  also have "\<dots> = 2 powi (ilog2 x) / 2 ^ p"
    using assms(2) by (simp add: e_def power_int_diff of_nat_diff power_int_add power_diff field_simps
        flip: power_Suc)
  also have "\<dots> \<le> x / 2 ^ p"
    using ilog2_bounds(1) [OF assms(1)] by (simp add: divide_right_mono)
  finally show ?thesis .
qed

lemma round_fp_nonneg: "0 \<le> round_fp p x"
proof -
  have "0 \<le> round_half_even y" if "0 \<le> y" for y
    using that by (simp add: round_half_even_def Let_def)
  then show ?thesis
    by (auto simp: round_fp_def Let_def)
qed

lemma round_fp_lower: "0 \<le> x \<Longrightarrow> 0 < p \<Longrightarrow> x * (1 - 1 / 2 ^ p) \<le> round_fp p x"
  using round_fp_error [of x p] by (cases "x = 0") (auto simp: round_fp_def abs_le_iff algebra_simps)

lemma round_fp_upper: "0 \<le> x \<Longrightarrow> 0 < p \<Longrightarrow> round_fp p x \<le> x * (1 + 1 / 2 ^ p)"
  using round_fp_error [of x p] by (cases "x = 0") (auto simp: round_fp_def abs_le_iff algebra_simps)

lemmas flt_lower = round_fp_lower [of _ 24, folded flt_def, simplified]
lemmas flt_upper = round_fp_upper [of _ 24, folded flt_def, simplified]
lemmas dbl_lower = round_fp_lower [of _ 53, folded dbl_def, simplified]
lemmas dbl_upper = round_fp_upper [of _ 53, folded dbl_def, simplified]

lemma flt_nonneg [simp]: "0 \<le> flt x"
  by (simp add: flt_def round_fp_nonneg)

lemma dbl_nonneg [simp]: "0 \<le> dbl x"
  by (simp add: dbl_def round_fp_nonneg)

text \<open>A value with at most \<open>p\<close> significant bits is not changed.\<close>

lemma round_fp_exact:
  assumes "n < 2 ^ p" "0 < p"
  shows "round_fp p (of_nat n * 2 powi k) = of_nat n * 2 powi k"
proof (cases "n = 0")
  case False
  define x :: rat where "x = of_nat n * 2 powi k"
  have x: "0 < x" using False by (simp add: x_def)
  define d where "d = k - (ilog2 x - int (p - 1))"
  have "(of_nat n :: rat) < 2 ^ p"
    using assms(1) by (metis of_nat_less_iff of_nat_numeral of_nat_power)
  then have "x < 2 ^ p * 2 powi k" by (simp add: x_def)
  then have "x < 2 powi (int p + k)" by (simp add: power_int_add)
  then have "2 powi ilog2 x < (2 :: rat) powi (int p + k)" using ilog2_bounds(1) [OF x] by linarith
  then have "ilog2 x < int p + k"
    using power_int_increasing [of "int p + k" "ilog2 x" "2 :: rat"] by linarith
  then have d: "0 \<le> d" using assms(2) by (simp add: d_def)
  have "x / 2 powi (ilog2 x - int (p - 1)) = of_nat n * 2 powi d"
    by (simp add: x_def d_def power_int_diff)
  also have "\<dots> = of_int (int n * 2 ^ nat d)" using d by (simp add: power_int_def)
  finally have "round_half_even (x / 2 powi (ilog2 x - int (p - 1))) = int n * 2 ^ nat d"
    by (metis round_half_even_of_int)
  moreover have "(2 :: rat) ^ nat d * 2 powi (ilog2 x - int (p - 1)) = 2 powi k"
    using d by (simp add: d_def flip: power_int_of_nat power_int_add)
  ultimately have "round_fp p x = x" using x by (simp add: round_fp_def Let_def x_def mult.assoc)
  then show ?thesis by (simp add: x_def)
qed (simp add: round_fp_def)

lemma dbl_exact: "n < 2 ^ 53 \<Longrightarrow> dbl (of_nat n * 2 powi k) = of_nat n * 2 powi k"
  unfolding dbl_def by (rule round_fp_exact) simp_all

lemma dbl_of_nat: "n < 2 ^ 53 \<Longrightarrow> dbl (of_nat n) = of_nat n"
  using dbl_exact [of n 0] by simp

lemma round_fp_value:
  assumes "2 powi e \<le> x" "x < 2 powi (e + 1)" "\<bar>x / 2 powi (e - int (p - 1)) - of_int n\<bar> < 1 / 2"
  shows "round_fp p x = of_int n * 2 powi (e - int (p - 1))"
  using round_fp_at [OF assms(1,2), of p] round_half_even_near [OF assms(3)] by simp

lemma powi_neg: "(2 :: rat) powi (- int n) = 1 / 2 ^ n"
  by (simp add: power_int_minus divide_inverse)

lemma flt_of_nat: "n < 2 ^ 24 \<Longrightarrow> flt (of_nat n) = of_nat n"
  using round_fp_exact [of n 24 0] by (simp add: flt_def)

text \<open>The rounding of a value of either sign.\<close>

definition sdbl :: "rat \<Rightarrow> rat" where
  "sdbl x = (if x < 0 then - dbl (- x) else dbl x)"

definition sflt :: "rat \<Rightarrow> rat" where
  "sflt x = (if x < 0 then - flt (- x) else flt x)"

lemma sflt_nonneg: "0 \<le> x \<Longrightarrow> sflt x = flt x"
  by (simp add: sflt_def)

section \<open>Doubles with infinities\<close>

text \<open>The values of a \<open>double\<close> when they need not be finite, and their comparison.\<close>

datatype double = Fin rat | PInf | MInf | NaN

fun double_less :: "double \<Rightarrow> double \<Rightarrow> bool" where
  "double_less (Fin a) (Fin b) = (a < b)"
| "double_less (Fin a) PInf = True"
| "double_less MInf (Fin b) = True"
| "double_less MInf PInf = True"
| "double_less _ _ = False"

instantiation double :: ord
begin

definition less_double :: "double \<Rightarrow> double \<Rightarrow> bool" where
  "x < y \<longleftrightarrow> double_less x y"

definition less_eq_double :: "double \<Rightarrow> double \<Rightarrow> bool" where
  "x \<le> y \<longleftrightarrow> double_less x y \<or> x = y \<and> x \<noteq> NaN"

instance ..

end

lemma Fin_less [simp]: "Fin a < Fin b \<longleftrightarrow> a < b"
  by (simp add: less_double_def)

end
