(* ===== verification/ELH_Prelude.thy ===== *)
theory ELH_Prelude
  imports Main "HOL-Library.Word" "HOL-Library.Monad_Syntax"
begin

text \<open>
  Shared material of the development: the machine integers of the C++ sources, byte
  buffers with checked little-endian reads, the 128-bit multiply, and the generic lemmas on
  lists, words and cyclic indices that the component theories use.

  A C++ pointer and the memory it may be used to read is a byte list; a read is given an
  offset and answers \<open>None\<close> when any byte of it lies outside the list (undefined behaviour
  of the program). So a function of the model that answers \<open>Some\<close> has made only reads
  inside its buffer.
\<close>

unbundle bit_operations_syntax

section \<open>Machine integers\<close>

type_synonym u8 = "8 word"
type_synonym u16 = "16 word"
type_synonym u32 = "32 word"
type_synonym u64 = "64 word"
type_synonym u128 = "128 word"

type_synonym bytes = "u8 list"

named_theorems elh_defs \<open>definitions that proofs about hash functions unfold\<close>
named_theorems safe_reads \<open>reads that stay inside their buffer\<close>

abbreviation shr :: "'a::len word \<Rightarrow> nat \<Rightarrow> 'a word" where
  "shr x n \<equiv> drop_bit n x"

abbreviation shl :: "'a::len word \<Rightarrow> nat \<Rightarrow> 'a word" where
  "shl x n \<equiv> push_bit n x"

text \<open>A byte as a value of type \<open>char\<close>, which is signed on the platforms of the Makefile.\<close>

definition char_to_u64 :: "u8 \<Rightarrow> u64" where
  "char_to_u64 b = scast b"

section \<open>Byte buffers\<close>

primrec le_word :: "bytes \<Rightarrow> 'a::len word" where
  "le_word [] = 0"
| "le_word (b # bs) = ucast b OR push_bit 8 (le_word bs)"

definition mem_read :: "nat \<Rightarrow> bytes \<Rightarrow> nat \<Rightarrow> bytes option" where
  "mem_read n p off = (if off + n \<le> length p then Some (take n (drop off p)) else None)"

definition read8 :: "bytes \<Rightarrow> nat \<Rightarrow> u8 option" where
  "read8 p off = (if off < length p then Some (p ! off) else None)"

definition read32 :: "bytes \<Rightarrow> nat \<Rightarrow> u32 option" where
  "read32 p off = map_option le_word (mem_read 4 p off)"

definition read64 :: "bytes \<Rightarrow> nat \<Rightarrow> u64 option" where
  "read64 p off = map_option le_word (mem_read 8 p off)"

text \<open>The bytes a read of \<open>n\<close> bytes at \<open>off\<close> sees.\<close>

definition window :: "nat \<Rightarrow> bytes \<Rightarrow> nat \<Rightarrow> bytes" where
  "window n p off = take n (drop off p)"

lemma mem_read_Some [safe_reads]: "off + n \<le> length p \<Longrightarrow> mem_read n p off = Some (window n p off)"
  by (simp add: mem_read_def window_def)

lemma read8_Some [safe_reads]: "off < length p \<Longrightarrow> read8 p off = Some (p ! off)"
  by (simp add: read8_def)

lemma read32_Some [safe_reads]:
  "off + 4 \<le> length p \<Longrightarrow> read32 p off = Some (le_word (window 4 p off))"
  by (simp add: read32_def mem_read_Some)

lemma read64_Some [safe_reads]:
  "off + 8 \<le> length p \<Longrightarrow> read64 p off = Some (le_word (window 8 p off))"
  by (simp add: read64_def mem_read_Some)

lemma read8_None: "read8 p off = None \<longleftrightarrow> length p \<le> off"
  by (auto simp: read8_def)

lemma read32_None: "read32 p off = None \<longleftrightarrow> length p < off + 4"
  by (auto simp: read32_def mem_read_def)

lemma read64_None: "read64 p off = None \<longleftrightarrow> length p < off + 8"
  by (auto simp: read64_def mem_read_def)

lemma read64_cong: "window 8 p off = window 8 q off \<Longrightarrow> length p = length q \<Longrightarrow> read64 p off = read64 q off"
  by (simp add: read64_def mem_read_def window_def)

lemma read32_cong: "window 4 p off = window 4 q off \<Longrightarrow> length p = length q \<Longrightarrow> read32 p off = read32 q off"
  by (simp add: read32_def mem_read_def window_def)

lemma window_sub:
  assumes "window n p off = window n q off" "off \<le> o2" "o2 + m \<le> off + n"
  shows "window m p o2 = window m q o2"
proof -
  have w: "window m r o2 = take m (drop (o2 - off) (window n r off))" for r
    using assms(2,3) by (simp add: window_def drop_take min_def)
  show ?thesis by (simp add: w assms(1))
qed

text \<open>The element of a C++ array, \<open>None\<close> outside it.\<close>

definition nth_opt :: "'a list \<Rightarrow> nat \<Rightarrow> 'a option" where
  "nth_opt xs i = (if i < length xs then Some (xs ! i) else None)"

lemma nth_opt_Some [safe_reads]: "i < length xs \<Longrightarrow> nth_opt xs i = Some (xs ! i)"
  by (simp add: nth_opt_def)

lemma nth_opt_None: "nth_opt xs i = None \<longleftrightarrow> length xs \<le> i"
  by (auto simp: nth_opt_def)

text \<open>What a read sees of a buffer does not change when the buffer is cut after it.\<close>

lemma window_take: "off + n \<le> m \<Longrightarrow> window n (take m p) off = window n p off"
  by (simp add: window_def drop_take min_def)

lemma read8_take: "off < m \<Longrightarrow> read8 (take m p) off = read8 p off"
  by (auto simp: read8_def)

lemma read32_take: "off + 4 \<le> m \<Longrightarrow> read32 (take m p) off = read32 p off"
  using window_take [of off 4 m p] by (auto simp: read32_def mem_read_def window_def)

lemma read64_take: "off + 8 \<le> m \<Longrightarrow> read64 (take m p) off = read64 p off"
  using window_take [of off 8 m p] by (auto simp: read64_def mem_read_def window_def)

section \<open>Words\<close>

lemma unat_ucast_up:
  "LENGTH('a::len) \<le> LENGTH('b::len) \<Longrightarrow> unat (ucast (x :: 'a word) :: 'b word) = unat x"
  by (metis unsigned_ucast_eq take_bit_nat_eq_self_iff unsigned_less order_less_le_trans
      one_le_numeral power_increasing)

lemma unat_shr: "unat (shr (x :: 'a::len word) n) = unat x div 2 ^ n"
  by (metis unat_drop_bit_eq drop_bit_eq_div)

lemma unat_and_mask: "unat ((x :: 'a::len word) AND mask n) = unat x mod 2 ^ n"
  by (metis unsigned_take_bit_eq take_bit_eq_mod take_bit_eq_mask)

lemma unat_ucast_down:
  "unat (ucast (x :: 'a::len word) :: 'b::len word) = unat x mod 2 ^ LENGTH('b)"
  by (metis unsigned_ucast_eq take_bit_eq_mod)

lemma unat_of_nat_small: "n < 2 ^ LENGTH('a) \<Longrightarrow> unat (of_nat n :: 'a::len word) = n"
  by (simp add: unat_of_nat take_bit_nat_eq_self)

lemma bit_shl1_iff: "bit (shl (1 :: 'a::len word) k) n \<longleftrightarrow> n = k \<and> k < LENGTH('a)"
  by (auto simp: bit_exp_iff)

lemma and_shl1_nonzero: "((x :: 'a::len word) AND shl 1 k \<noteq> 0) \<longleftrightarrow> bit x k"
  by (metis and_exp_eq_0_iff_not_bit push_bit_of_1)

text \<open>The bound of a word, in the form arithmetic uses.\<close>

lemma unat_u32_less [simp]: "unat (x :: u32) < 2 ^ 32"
  using unsigned_less [of x] by simp

lemma unat_u64_less [simp]: "unat (x :: u64) < 2 ^ 64"
  using unsigned_less [of x] by simp

lemma unat_u32_mult: "unat ((ucast (a :: u32) :: u64) * ucast (b :: u32)) = unat a * unat b"
  and unat_u32_mult_less: "unat (a :: u32) * unat (b :: u32) < 2 ^ 32 * 2 ^ 32"
proof -
  have a: "unat a < 2 ^ 32" and b: "unat b < 2 ^ 32" by (rule unat_u32_less)+
  have "unat a * unat b < 2 ^ 32 * 2 ^ 32" using a b by (intro mult_strict_mono) simp_all
  then show "unat a * unat b < 2 ^ 32 * 2 ^ 32" .
  then show "unat ((ucast a :: u64) * ucast b) = unat a * unat b"
    by (simp add: unat_word_ariths unat_ucast_up)
qed

section \<open>Bits of a byte array\<close>

text \<open>
  \<open>bytes[byte] |= mask\<close> and \<open>(bytes[byte] & mask) != 0\<close> with an \<open>unsigned int\<close> mask, for the
  byte array of a filter. Both filters on bytes use them.
\<close>

definition byte_or :: "bytes \<Rightarrow> nat \<Rightarrow> u32 \<Rightarrow> bytes option" where
  "byte_or bs i m =
     (if i < length bs then Some (bs[i := ucast ((ucast (bs ! i) :: u32) OR m)]) else None)"

definition byte_test :: "bytes \<Rightarrow> nat \<Rightarrow> u32 \<Rightarrow> bool option" where
  "byte_test bs i m =
     (if i < length bs then Some ((ucast (bs ! i) :: u32) AND m \<noteq> 0) else None)"

text \<open>\<open>bytes_le bs cs\<close>: every bit set in \<open>bs\<close> is set in \<open>cs\<close>.\<close>

definition bytes_le :: "bytes \<Rightarrow> bytes \<Rightarrow> bool" where
  "bytes_le bs cs \<longleftrightarrow> length bs = length cs \<and>
     (\<forall>i < length bs. \<forall>k. bit (bs ! i) k \<longrightarrow> bit (cs ! i) k)"

lemma bytes_le_refl [simp]: "bytes_le bs bs"
  by (simp add: bytes_le_def)

lemma bytes_le_trans: "bytes_le as bs \<Longrightarrow> bytes_le bs cs \<Longrightarrow> bytes_le as cs"
  by (simp add: bytes_le_def)

lemma byte_test_bit:
  "byte_test bs i (shl 1 k) = (if i < length bs then Some (bit (bs ! i) k) else None)"
  by (simp add: byte_test_def and_shl1_nonzero bit_ucast_iff del: push_bit_of_1)
    (auto dest: bit_imp_le_length)

lemma byte_or_Some:
  assumes "i < length bs"
  obtains cs where "byte_or bs i (shl 1 k) = Some cs" "bytes_le bs cs"
    "k < 8 \<Longrightarrow> byte_test cs i (shl 1 k) = Some True"
proof
  let ?cs = "bs[i := ucast ((ucast (bs ! i) :: u32) OR shl 1 k)]"
  show "byte_or bs i (shl 1 k) = Some ?cs" using assms by (simp add: byte_or_def)
  show "bytes_le bs ?cs"
    using assms by (auto simp: bytes_le_def nth_list_update bit_ucast_iff bit_or_iff
        dest: bit_imp_le_length)
  show "k < 8 \<Longrightarrow> byte_test ?cs i (shl 1 k) = Some True"
    using assms by (simp add: byte_test_bit bit_ucast_iff bit_or_iff bit_shl1_iff del: push_bit_of_1)
qed

lemma byte_test_mono: "bytes_le bs cs \<Longrightarrow> byte_test bs i (shl 1 k) = Some True \<Longrightarrow>
    byte_test cs i (shl 1 k) = Some True"
  by (auto simp: byte_test_bit bytes_le_def simp del: push_bit_of_1 split: if_splits)

text \<open>The set of bits of a byte array, by their index: the abstraction of a filter.\<close>

definition bits_of :: "bytes \<Rightarrow> nat set" where
  "bits_of bs = {p. p < 8 * length bs \<and> bit (bs ! (p div 8)) (p mod 8)}"

lemma byte_or_bits:
  assumes "byte_or bs i (shl 1 k) = Some cs" "k < 8"
  shows "bits_of cs = insert (8 * i + k) (bits_of bs)"
proof -
  have i: "i < length bs" and cs: "cs = bs[i := ucast ((ucast (bs ! i) :: u32) OR shl 1 k)]"
    using assms(1) by (auto simp: byte_or_def split: if_splits)
  have b: "bit (cs ! j) l \<longleftrightarrow> bit (bs ! j) l \<or> j = i \<and> l = k" if "j < length bs" "l < 8" for j l
    using that i assms(2)
    by (simp add: cs nth_list_update bit_ucast_iff bit_or_iff bit_shl1_iff del: push_bit_of_1)
  have len: "length cs = length bs" by (simp add: cs)
  have "p \<in> bits_of cs \<longleftrightarrow> p = 8 * i + k \<or> p \<in> bits_of bs" for p
  proof (cases "p < 8 * length bs")
    case True
    then have "p div 8 < length bs" by (simp add: less_mult_imp_div_less)
    moreover have "p = 8 * i + k \<longleftrightarrow> p div 8 = i \<and> p mod 8 = k" using assms(2) by auto
    ultimately show ?thesis using True b [of "p div 8" "p mod 8"] by (simp add: bits_of_def len) blast
  next
    case False
    with i assms(2) show ?thesis by (simp add: bits_of_def len)
  qed
  then show ?thesis by blast
qed

lemma byte_test_bits:
  "i < length bs \<Longrightarrow> k < 8 \<Longrightarrow> byte_test bs i (shl 1 k) = Some (8 * i + k \<in> bits_of bs)"
  by (simp add: byte_test_bit bits_of_def del: push_bit_of_1)

lemma bits_of_replicate_0 [simp]: "bits_of (replicate n 0) = {}"
  by (auto simp: bits_of_def)

section \<open>Loops that may fail\<close>

text \<open>
  A counted C++ loop whose body may fail: \<open>for_opt [a..<b] body\<close> is
  \<open>for (i = a; i < b; i++) body\<close>. A loop that tests a condition and stops at the first failure
  is \<open>all_opt\<close>.
\<close>

primrec for_opt :: "'i list \<Rightarrow> ('i \<Rightarrow> 's \<Rightarrow> 's option) \<Rightarrow> 's \<Rightarrow> 's option" where
  "for_opt [] body s = Some s"
| "for_opt (i # is) body s = body i s \<bind> for_opt is body"

primrec all_opt :: "'i list \<Rightarrow> ('i \<Rightarrow> bool option) \<Rightarrow> bool option" where
  "all_opt [] test = Some True"
| "all_opt (i # is) test = test i \<bind> (\<lambda>b. if b then all_opt is test else Some False)"

lemma for_opt_append: "for_opt (xs @ ys) body s = for_opt xs body s \<bind> for_opt ys body"
  by (induction xs arbitrary: s) (auto split: bind_splits)

text \<open>A loop whose body keeps an invariant and does not fail where it holds, does not fail.\<close>

lemma for_opt_invar:
  assumes "I s" "\<And>i s. i \<in> set is \<Longrightarrow> I s \<Longrightarrow> \<exists>s'. body i s = Some s' \<and> I s' \<and> R s s'"
    "\<And>s. R s s" "\<And>s t u. R s t \<Longrightarrow> R t u \<Longrightarrow> R s u"
  shows "\<exists>s'. for_opt is body s = Some s' \<and> I s' \<and> R s s'"
  using assms(1,2)
proof (induction "is" arbitrary: s)
  case Nil
  then show ?case using assms(3) by simp
next
  case (Cons i "is")
  obtain t where t: "body i s = Some t" "I t" "R s t" using Cons.prems by fastforce
  moreover obtain u where "for_opt is body t = Some u" "I u" "R t u"
    using Cons.IH [OF t(2)] Cons.prems(2) by fastforce
  ultimately show ?case using assms(4) by auto
qed

lemma for_opt_total:
  assumes "I s" "\<And>i s. i \<in> set is \<Longrightarrow> I s \<Longrightarrow> \<exists>s'. body i s = Some s' \<and> I s'"
  shows "\<exists>s'. for_opt is body s = Some s' \<and> I s'"
  using for_opt_invar [of I s "is" body "\<lambda>_ _. True"] assms by auto

lemma for_opt_None: "i \<in> set js \<Longrightarrow> (\<And>s. body i s = None) \<Longrightarrow> for_opt js body s = None"
  by (induction js arbitrary: s) (auto split: bind_splits)

lemma for_opt_cong:
  "\<forall>i \<in> set xs. \<forall>s. f i s = g i s \<Longrightarrow> for_opt xs f s = for_opt xs g s"
  by (induction xs arbitrary: s) (auto intro!: bind_option_cong)

lemma all_opt_True_iff: "all_opt is test = Some True \<longleftrightarrow> (\<forall>i \<in> set is. test i = Some True)"
  by (induction "is") (auto split: bind_splits)

lemma all_opt_total:
  "(\<And>i. i \<in> set is \<Longrightarrow> test i \<noteq> None) \<Longrightarrow> \<exists>b. all_opt is test = Some b"
  by (induction "is") (auto split: bind_splits)

text \<open>A loop of writes to a byte array sets exactly the bits it names.\<close>

lemma byte_ors_bits:
  assumes "\<And>i. i \<in> set js \<Longrightarrow> B i < length bs \<and> K i < 8"
  shows "\<exists>cs. for_opt js (\<lambda>i bs. byte_or bs (B i) (shl 1 (K i))) bs = Some cs \<and>
              length cs = length bs \<and> bits_of cs = bits_of bs \<union> (\<lambda>i. 8 * B i + K i) ` set js"
  using assms
proof (induction js arbitrary: bs)
  case Nil
  then show ?case by simp
next
  case (Cons j js)
  obtain ds where ds: "byte_or bs (B j) (shl 1 (K j)) = Some ds" "length ds = length bs"
    using Cons.prems [of j] by (simp add: byte_or_def del: push_bit_of_1)
  then have b: "bits_of ds = insert (8 * B j + K j) (bits_of bs)"
    using byte_or_bits Cons.prems [of j] by simp
  obtain cs where "for_opt js (\<lambda>i bs. byte_or bs (B i) (shl 1 (K i))) ds = Some cs"
    "length cs = length ds" "bits_of cs = bits_of ds \<union> (\<lambda>i. 8 * B i + K i) ` set js"
    using Cons.IH [of ds] Cons.prems ds(2) by auto
  with ds b show ?case by (auto simp del: push_bit_of_1)
qed

end
