(* ===== verification/Wyhash.thy ===== *)
theory Wyhash
  imports ELH_Prelude Float_Model
begin

text \<open>
  The wyhash family (include/hash/wyhash.hh), which the partial-key hash functions of the
  repository are built from: the 64 by 64 to 128 bit multiply in both of its compiled forms,
  the reads, the hash itself with its two loops, and the random numbers and secrets derived from the
  multiply. The lemmas show that the portable multiply is the 128-bit one, that a hash reads
  only the first \<open>len\<close> bytes of its key and always returns, and that \<open>wy2u0k\<close> answers a
  number below its bound.
\<close>

section \<open>The multiply\<close>

definition wyrot :: "u64 \<Rightarrow> u64" where
  "wyrot x = shr x 32 OR shl x 32"

text \<open>\<open>_wymum\<close> overwrites its two arguments, so the model answers the pair.\<close>

definition wymum :: "u64 \<Rightarrow> u64 \<Rightarrow> u64 \<times> u64" where
  "wymum A B = (let r = (ucast A :: u128) * ucast B in (ucast r, ucast (shr r 64)))"

definition wymum_portable :: "u64 \<Rightarrow> u64 \<Rightarrow> u64 \<times> u64" where
  "wymum_portable A B =
     (let ha = shr A 32; hb = shr B 32;
          la = ucast (ucast A :: u32); lb = ucast (ucast B :: u32);
          rh = ha * hb; rm0 = ha * lb; rm1 = hb * la; rl = la * lb;
          t = rl + shl rm0 32;
          c = (if t < rl then 1 else 0);
          lo = t + shl rm1 32;
          c = c + (if lo < t then 1 else 0);
          hi = rh + shr rm0 32 + shr rm1 32 + c
      in (lo, hi))"

definition wymix :: "u64 \<Rightarrow> u64 \<Rightarrow> u64" where
  "wymix A B = (let (A, B) = wymum A B in A XOR B)"

lemma unat_wymum:
  "unat (fst (wymum A B)) = unat A * unat B mod 2 ^ 64"
  "unat (snd (wymum A B)) = unat A * unat B div 2 ^ 64"
proof -
  have A: "unat A < 2 ^ 64" and B: "unat B < 2 ^ 64" by (rule unat_u64_less)+
  have lt: "unat A * unat B < 2 ^ 64 * 2 ^ 64" using A B by (intro mult_strict_mono) simp_all
  then have r: "unat ((ucast A :: u128) * ucast B) = unat A * unat B"
    by (simp add: unat_word_ariths unat_ucast_up)
  show "unat (fst (wymum A B)) = unat A * unat B mod 2 ^ 64"
    by (simp add: wymum_def Let_def unat_ucast_down r)
  have "unat A * unat B div 2 ^ 64 < 2 ^ 64" using lt by (intro less_mult_imp_div_less) simp
  then show "unat (snd (wymum A B)) = unat A * unat B div 2 ^ 64"
    by (simp add: wymum_def Let_def unat_ucast_down unat_shr r)
qed

text \<open>The carry of an addition of 64-bit words, as the portable multiply detects it.\<close>

lemma unat_add_carry:
  fixes x y :: u64
  shows "unat x + unat y = unat (x + y) + (if x + y < x then 2 ^ 64 else 0)"
proof -
  have x: "unat x < 2 ^ 64" and y: "unat y < 2 ^ 64" by (rule unat_u64_less)+
  have s: "unat (x + y) = (unat x + unat y) mod 2 ^ 64" by (simp add: unat_word_ariths)
  show ?thesis
  proof (cases "unat x + unat y < 2 ^ 64")
    case True
    then show ?thesis using s by (simp add: word_less_nat_alt)
  next
    case False
    then have "(unat x + unat y) mod 2 ^ 64 = unat x + unat y - 2 ^ 64"
      using x y by (simp add: le_mod_geq)
    then show ?thesis using s x y False by (simp add: word_less_nat_alt)
  qed
qed

lemma unat_shl32: "unat (shl (x :: u64) 32) = unat x mod 2 ^ 32 * 2 ^ 32"
proof -
  have "shl x 32 = x * 4294967296" by (simp add: push_bit_eq_mult)
  then have "unat (shl x 32) = 4294967296 * unat x mod (4294967296 * 4294967296)"
    by (simp add: unat_word_ariths mult.commute)
  also have "\<dots> = 4294967296 * (unat x mod 4294967296)" by (rule mod_mult_mult1)
  finally show ?thesis by simp
qed

lemma portable_split:
  fixes a1 a0 b1 b0 c1 c2 t lo :: nat
  assumes t: "a0 * b0 + a1 * b0 mod 2 ^ 32 * 2 ^ 32 = t + c1 * 2 ^ 64"
    and lo: "t + b1 * a0 mod 2 ^ 32 * 2 ^ 32 = lo + c2 * 2 ^ 64"
  shows "(a1 * 2 ^ 32 + a0) * (b1 * 2 ^ 32 + b0) =
    (a1 * b1 + a1 * b0 div 2 ^ 32 + b1 * a0 div 2 ^ 32 + (c1 + c2)) * 2 ^ 64 + lo"
proof -
  let ?K = "2 ^ 32 :: nat"
  have m: "x * ?K = x div ?K * 2 ^ 64 + x mod ?K * ?K" for x :: nat
  proof -
    have "x * ?K = (x div ?K * ?K + x mod ?K) * ?K" by (simp only: div_mult_mod_eq)
    also have "\<dots> = x div ?K * (?K * ?K) + x mod ?K * ?K" by (simp only: add_mult_distrib mult.assoc)
    also have "?K * ?K = 2 ^ 64" by simp
    finally show ?thesis .
  qed
  have "(a1 * ?K + a0) * (b1 * ?K + b0) = a1 * b1 * 2 ^ 64 + a1 * b0 * ?K + b1 * a0 * ?K + a0 * b0"
    by (simp add: algebra_simps)
  also have "\<dots> = a1 * b1 * 2 ^ 64 + (a1 * b0 div ?K * 2 ^ 64 + a1 * b0 mod ?K * ?K)
      + (b1 * a0 div ?K * 2 ^ 64 + b1 * a0 mod ?K * ?K) + a0 * b0"
    using m [of "a1 * b0"] m [of "b1 * a0"] by presburger
  also have "\<dots> = (a1 * b1 + a1 * b0 div ?K + b1 * a0 div ?K + (c1 + c2)) * 2 ^ 64 + lo"
    using t lo by (simp add: add_mult_distrib)
  finally show ?thesis .
qed

text \<open>
  The multiply compiled where there is no 128-bit integer, from four 32-bit products and two
  carries, computes the same two words as the 128-bit multiply, for all arguments.
\<close>

theorem wymum_portable_eq: "wymum_portable A B = wymum A B"
proof -
  define ha hb la lb where d: "ha = shr A 32" "hb = shr B 32"
    "la = (ucast (ucast A :: u32) :: u64)" "lb = (ucast (ucast B :: u32) :: u64)"
  define t where "t = la * lb + shl (ha * lb) 32"
  define lo where "lo = t + shl (hb * la) 32"
  define c1 c2 :: nat where c: "c1 = (if t < la * lb then 1 else 0)" "c2 = (if lo < t then 1 else 0)"
  have s: "x div 2 ^ 32 < 2 ^ 32" if "x < 2 ^ 64" for x :: nat using that by simp
  have lt: "unat ha < 2 ^ 32" "unat hb < 2 ^ 32" "unat la < 2 ^ 32" "unat lb < 2 ^ 32"
    using s [OF unat_u64_less [of A]] s [OF unat_u64_less [of B]]
    by (simp_all add: d unat_shr unat_ucast_up unat_ucast_down)
  have prod: "unat (x * y) = unat x * unat y" if "unat x < 2 ^ 32" "unat y < 2 ^ 32" for x y :: u64
  proof -
    have "unat x * unat y < 2 ^ 32 * 2 ^ 32" using that by (intro mult_strict_mono) simp_all
    then show ?thesis by (simp add: unat_word_ariths)
  qed
  have AB: "unat A = unat ha * 2 ^ 32 + unat la" "unat B = unat hb * 2 ^ 32 + unat lb"
    by (simp_all add: d unat_shr unat_ucast_up unat_ucast_down)
  have t': "unat la * unat lb + unat ha * unat lb mod 2 ^ 32 * 2 ^ 32 = unat t + c1 * 2 ^ 64"
    using unat_add_carry [of "la * lb" "shl (ha * lb) 32"] lt
    by (simp add: t_def c prod unat_shl32 del: power_numeral)
  have lo': "unat t + unat hb * unat la mod 2 ^ 32 * 2 ^ 32 = unat lo + c2 * 2 ^ 64"
    using unat_add_carry [of t "shl (hb * la) 32"] lt
    by (simp add: lo_def c prod unat_shl32 del: power_numeral)
  let ?hi = "unat ha * unat hb + unat ha * unat lb div 2 ^ 32 + unat hb * unat la div 2 ^ 32 + (c1 + c2)"
  have P: "unat A * unat B = ?hi * 2 ^ 64 + unat lo"
    unfolding AB by (rule portable_split [OF t' lo'])
  have mod: "unat A * unat B mod 2 ^ 64 = unat lo" and dv: "unat A * unat B div 2 ^ 64 = ?hi"
    unfolding P using unat_u64_less [of lo] by (simp_all only: mod_mult_self3 div_mult_self3 mod_less div_less
        add_0_right power_not_zero zero_neq_numeral [symmetric] not_False_eq_True)
  have hi: "ha * hb + shr (ha * lb) 32 + shr (hb * la) 32 + of_nat (c1 + c2) = (of_nat ?hi :: u64)"
  proof -
    have "of_nat (unat x * unat y div 2 ^ 32) = shr (x * y) 32" if "unat x < 2 ^ 32" "unat y < 2 ^ 32"
      for x y :: u64
      using that by (metis of_nat_unat prod ucast_id unat_shr)
    then show ?thesis using lt by (simp del: power_numeral)
  qed
  have "fst (wymum A B) = lo" using unat_wymum(1) [of A B] mod by (simp add: word_unat_eq_iff)
  moreover have "snd (wymum A B) = of_nat ?hi"
    using unat_wymum(2) [of A B] dv by (metis of_nat_unat ucast_id)
  moreover have "wymum_portable A B =
      (lo, ha * hb + shr (ha * lb) 32 + shr (hb * la) 32 + of_nat (c1 + c2))"
    by (simp add: wymum_portable_def Let_def d t_def lo_def c)
  ultimately show ?thesis by (metis hi prod.collapse)
qed

section \<open>Reads\<close>

text \<open>The pointer of a read is the offset of the byte it points to in the buffer of the key.\<close>

definition wyr8 :: "bytes \<Rightarrow> nat \<Rightarrow> u64 option" where
  "wyr8 p off = read64 p off"

definition wyr4 :: "bytes \<Rightarrow> nat \<Rightarrow> u64 option" where
  "wyr4 p off = map_option ucast (read32 p off)"

definition wyr3 :: "bytes \<Rightarrow> nat \<Rightarrow> u64 option" where
  "wyr3 p k = do {
     x \<leftarrow> read8 p 0;
     y \<leftarrow> read8 p (k div 2);
     z \<leftarrow> read8 p (k - 1);
     Some (shl (ucast x) 16 OR shl (ucast y) 8 OR ucast z)
   }"

lemmas wyr_defs = wyr8_def wyr4_def wyr3_def

section \<open>The hash\<close>

text \<open>
  The two loops carry the offset \<open>off\<close> of \<open>p\<close> and the bytes \<open>i\<close> that are left. The first is a
  \<open>do ... while\<close>: its body runs before its test.
\<close>

function wyloop48 :: "bytes \<Rightarrow> u64 list \<Rightarrow> nat \<Rightarrow> nat \<Rightarrow> u64 \<Rightarrow> u64 \<Rightarrow> u64 \<Rightarrow>
    (nat \<times> nat \<times> u64 \<times> u64 \<times> u64) option" where
  "wyloop48 p secret off i seed see1 see2 = do {
     w0 \<leftarrow> wyr8 p off; w1 \<leftarrow> wyr8 p (off + 8);
     w2 \<leftarrow> wyr8 p (off + 16); w3 \<leftarrow> wyr8 p (off + 24);
     w4 \<leftarrow> wyr8 p (off + 32); w5 \<leftarrow> wyr8 p (off + 40);
     s1 \<leftarrow> nth_opt secret 1; s2 \<leftarrow> nth_opt secret 2; s3 \<leftarrow> nth_opt secret 3;
     let seed = wymix (w0 XOR s1) (w1 XOR seed);
         see1 = wymix (w2 XOR s2) (w3 XOR see1);
         see2 = wymix (w4 XOR s3) (w5 XOR see2)
     in if i - 48 > 48 then wyloop48 p secret (off + 48) (i - 48) seed see1 see2
        else Some (off + 48, i - 48, seed, see1, see2)
   }"
  by pat_completeness auto
termination by (relation "measure (\<lambda>(p, secret, off, i, _). i)") auto

function wyloop16 :: "bytes \<Rightarrow> u64 list \<Rightarrow> nat \<Rightarrow> nat \<Rightarrow> u64 \<Rightarrow> (nat \<times> nat \<times> u64) option" where
  "wyloop16 p secret off i seed =
     (if i > 16 then do {
        w0 \<leftarrow> wyr8 p off; w1 \<leftarrow> wyr8 p (off + 8);
        s1 \<leftarrow> nth_opt secret 1;
        wyloop16 p secret (off + 16) (i - 16) (wymix (w0 XOR s1) (w1 XOR seed))
      } else Some (off, i, seed))"
  by pat_completeness auto
termination by (relation "measure (\<lambda>(p, secret, off, i, _). i)") auto

definition wyhash_long :: "bytes \<Rightarrow> nat \<Rightarrow> u64 \<Rightarrow> u64 list \<Rightarrow> (u64 \<times> u64 \<times> u64) option" where
  "wyhash_long p n seed secret = do {
     (off, i, seed) \<leftarrow>
       (if n > 48 then do {
          (off, i, seed, see1, see2) \<leftarrow> wyloop48 p secret 0 n seed seed seed;
          Some (off, i, seed XOR (see1 XOR see2))
        } else Some (0, n, seed));
     (off, i, seed) \<leftarrow> wyloop16 p secret off i seed;
     a \<leftarrow> wyr8 p (off + i - 16); b \<leftarrow> wyr8 p (off + i - 8);
     Some (a, b, seed)
   }"

definition wyhash :: "bytes \<Rightarrow> u64 \<Rightarrow> u64 \<Rightarrow> u64 list \<Rightarrow> u64 option" where
  "wyhash p len seed secret = do {
     s0 \<leftarrow> nth_opt secret 0;
     let seed = seed XOR s0;
     let n = unat len;
     (a, b, seed) \<leftarrow>
       (if n \<le> 16 then
          (if n \<le> 8 then
             (if n \<ge> 4 then do { a \<leftarrow> wyr4 p 0; b \<leftarrow> wyr4 p (n - 4); Some (a, b, seed) }
              else if n \<noteq> 0 then do { a \<leftarrow> wyr3 p n; Some (a, 0, seed) }
              else Some (0, 0, seed))
           else do { a \<leftarrow> wyr8 p 0; b \<leftarrow> wyr8 p (n - 8); Some (a, b, seed) })
        else wyhash_long p n seed secret);
     s1 \<leftarrow> nth_opt secret 1;
     Some (wymix (s1 XOR len) (wymix (a XOR s1) (b XOR seed)))
   }"

definition wyp :: "u64 list" where
  "wyp = [0xa0761d6478bd642f, 0xe7037ed1a0b428db, 0x8ebc6af09c88c6e3, 0x589965cc75374cc3]"

definition wyhash_default :: "bytes \<Rightarrow> u64 \<Rightarrow> u64 option" where
  "wyhash_default p len = wyhash p len 0 wyp"

declare wyloop48.simps [simp del] wyloop16.simps [simp del]

text \<open>
  A loop keeps \<open>off + i\<close>, the length of the key, and stays inside the buffer while that
  is: it ends in a state with \<open>i\<close> in the range its exit test leaves, and does so on the
  first \<open>off + i\<close> bytes of the buffer alone.
\<close>

lemma wyloop48_total:
  assumes "off + i \<le> length p" "48 < i" "4 \<le> length secret"
  shows "\<exists>off' i' s s1 s2. wyloop48 p secret off i seed see1 see2 = Some (off', i', s, s1, s2) \<and>
    off' + i' = off + i \<and> 1 \<le> i' \<and> i' \<le> 48 \<and> 48 \<le> off'"
  using assms
proof (induction i arbitrary: off seed see1 see2 rule: less_induct)
  case (less i)
  show ?case
  proof (cases "48 < i - 48")
    case True
    note IH = less.IH [of "i - 48" "off + 48"]
    show ?thesis using True less.prems IH
      by (subst wyloop48.simps) (simp add: wyr8_def safe_reads Let_def)
  next
    case False
    then show ?thesis using less.prems
      by (subst wyloop48.simps) (simp add: wyr8_def safe_reads Let_def)
  qed
qed

lemma wyloop16_total:
  assumes "off + i \<le> length p" "1 \<le> i" "2 \<le> length secret"
  shows "\<exists>off' i' s. wyloop16 p secret off i seed = Some (off', i', s) \<and>
    off' + i' = off + i \<and> 1 \<le> i' \<and> i' \<le> 16 \<and> off \<le> off'"
  using assms
proof (induction i arbitrary: off seed rule: less_induct)
  case (less i)
  show ?case
  proof (cases "16 < i")
    case True
    define sd where "sd = wymix (le_word (window 8 p off) XOR secret ! 1)
      (le_word (window 8 p (off + 8)) XOR seed)"
    have "wyloop16 p secret off i seed = wyloop16 p secret (off + 16) (i - 16) sd"
      using True less.prems by (subst wyloop16.simps) (simp add: wyr8_def safe_reads sd_def)
    moreover have "off + 16 + (i - 16) = off + i" using True by simp
    ultimately show ?thesis using less.IH [of "i - 16" "off + 16" sd] True less.prems
      by (metis One_nat_def Suc_leI add_leD1 diff_less less_imp_Suc_add less_nat_zero_code
          zero_less_Suc zero_less_diff zero_less_numeral neq0_conv)
  next
    case False
    then show ?thesis using less.prems by (subst wyloop16.simps) simp
  qed
qed

lemma wyloop48_take:
  "off + i \<le> m \<Longrightarrow> 48 < i \<Longrightarrow>
    wyloop48 (take m p) secret off i seed see1 see2 = wyloop48 p secret off i seed see1 see2"
proof (induction i arbitrary: off seed see1 see2 rule: less_induct)
  case (less i)
  have r: "wyr8 (take m p) (off + k) = wyr8 p (off + k)" if "k \<le> 40" for k
    using less.prems that by (simp add: wyr8_def read64_take)
  have r0: "wyr8 (take m p) off = wyr8 p off" using r [of 0] by simp
  have IH: "wyloop48 (take m p) secret (off + 48) (i - 48) a b c = wyloop48 p secret (off + 48) (i - 48) a b c"
    if "48 < i - 48" for a b c
    using less.IH [of "i - 48" "off + 48"] less.prems that by simp
  show ?case
    by (subst (1 2) wyloop48.simps) (simp add: r r0 IH Let_def cong: if_cong)
qed

lemma wyloop16_take:
  "off + i \<le> m \<Longrightarrow> wyloop16 (take m p) secret off i seed = wyloop16 p secret off i seed"
proof (induction i arbitrary: off seed rule: less_induct)
  case (less i)
  have r: "wyr8 (take m p) (off + k) = wyr8 p (off + k)" if "k \<le> 8" "16 < i" for k
    using less.prems that by (simp add: wyr8_def read64_take)
  have r0: "wyr8 (take m p) off = wyr8 p off" if "16 < i" using r [of 0] that by simp
  have IH: "wyloop16 (take m p) secret (off + 16) (i - 16) a = wyloop16 p secret (off + 16) (i - 16) a"
    if "16 < i" for a
    using less.IH [of "i - 16" "off + 16"] less.prems that by simp
  show ?case
    by (subst (1 2) wyloop16.simps) (simp add: r r0 IH cong: if_cong)
qed


lemma wyhash_long_total:
  assumes "n \<le> length p" "16 < n" "4 \<le> length secret"
  shows "\<exists>r. wyhash_long p n seed secret = Some r"
proof -
  obtain off i sd where 1: "(if n > 48 then do {
          (off, i, seed, see1, see2) \<leftarrow> wyloop48 p secret 0 n seed seed seed;
          Some (off, i, seed XOR (see1 XOR see2))
        } else Some (0, n, seed)) = Some (off, i, sd)" "off + i = n" "1 \<le> i"
    using wyloop48_total [of 0 n p secret seed seed seed] assms by (cases "n > 48") fastforce+
  obtain off' i' sd' where 2: "wyloop16 p secret off i sd = Some (off', i', sd')"
      "off' + i' = n" "i' \<le> 16"
    using wyloop16_total [of off i p secret sd] assms 1 by auto
  have "off' + i' - 16 + 8 \<le> length p" "off' + i' - 8 + 8 \<le> length p" using 2 assms by linarith+
  then show ?thesis unfolding wyhash_long_def 1(1) using 2 by (simp add: wyr8_def safe_reads)
qed

lemma wyhash_long_take:
  assumes "n \<le> length p" "16 < n" "4 \<le> length secret"
  shows "wyhash_long (take n p) n seed secret = wyhash_long p n seed secret"
proof -
  obtain off i sd where 1: "(if n > 48 then do {
          (off, i, seed, see1, see2) \<leftarrow> wyloop48 p secret 0 n seed seed seed;
          Some (off, i, seed XOR (see1 XOR see2))
        } else Some (0, n, seed)) = Some (off, i, sd)" "off + i = n" "1 \<le> i"
    using wyloop48_total [of 0 n p secret seed seed seed] assms by (cases "n > 48") fastforce+
  obtain off' i' sd' where 2: "wyloop16 p secret off i sd = Some (off', i', sd')"
      "off' + i' = n" "i' \<le> 16"
    using wyloop16_total [of off i p secret sd] assms 1 by auto
  have t: "wyloop16 (take n p) secret off i sd = Some (off', i', sd')"
    using wyloop16_take [of off i n p secret sd] 1 2 by simp
  have 3: "(if n > 48 then do {
          (off, i, seed, see1, see2) \<leftarrow> wyloop48 (take n p) secret 0 n seed seed seed;
          Some (off, i, seed XOR (see1 XOR see2))
        } else Some (0, n, seed)) = Some (off, i, sd)"
    using 1(1) by (simp add: wyloop48_take split: if_splits)
  have "off' + i' - 16 + 8 \<le> n" "off' + i' - 8 + 8 \<le> n" using 2 assms by linarith+
  then show ?thesis unfolding wyhash_long_def 1(1) 3 using 2(1) t by (simp add: wyr8_def read64_take)
qed

lemma wyhash_total:
  assumes "unat len \<le> length p" "4 \<le> length secret"
  shows "\<exists>h. wyhash p len seed secret = Some h"
proof -
  have d: "unat len div 2 < length p" if "unat len \<noteq> 0" using that assms by linarith
  have r0: "read8 p 0 = Some (p ! 0)" if "unat len \<noteq> 0"
    using that assms by (intro read8_Some) linarith
  have s0: "nth_opt secret 0 = Some (secret ! 0)" using assms(2) by (intro nth_opt_Some) linarith
  show ?thesis
  proof (cases "16 < unat len")
    case True
    obtain a b s where "wyhash_long p (unat len) (seed XOR secret ! 0) secret = Some (a, b, s)"
      using wyhash_long_total [OF assms(1) True assms(2)] by (metis prod_cases3)
    with True assms(2) show ?thesis by (simp add: wyhash_def Let_def s0 r0 safe_reads)
  next
    case False
    then show ?thesis using assms d
      by (cases "8 < unat len"; cases "4 \<le> unat len"; cases "unat len = 0")
        (simp_all add: wyhash_def Let_def s0 r0 safe_reads wyr_defs)
  qed
qed

lemma wyhash_take:
  assumes "unat len \<le> length p" "4 \<le> length secret"
  shows "wyhash (take (unat len) p) len seed secret = wyhash p len seed secret"
proof -
  have d: "unat len div 2 < unat len" if "unat len \<noteq> 0" using that by linarith
  show ?thesis
  proof (cases "16 < unat len")
    case True
    then show ?thesis using wyhash_long_take [OF assms(1) True assms(2)] by (simp add: wyhash_def Let_def)
  next
    case False
    then show ?thesis using assms d
      by (cases "8 < unat len"; cases "4 \<le> unat len"; cases "unat len = 0")
        (simp_all add: wyhash_def Let_def wyr_defs read64_take read32_take read8_take)
  qed
qed

section \<open>Random numbers\<close>

definition wyhash64 :: "u64 \<Rightarrow> u64 \<Rightarrow> u64" where
  "wyhash64 A B = (let (A, B) = wymum (A XOR wyp ! 0) (B XOR wyp ! 1)
                   in wymix (A XOR wyp ! 0) (B XOR wyp ! 1))"

text \<open>\<open>wyrand\<close> advances its seed: the model answers the number and the new seed.\<close>

definition wyrand :: "u64 \<Rightarrow> u64 \<times> u64" where
  "wyrand seed = (let seed = seed + wyp ! 0 in (wymix seed (seed XOR wyp ! 1), seed))"

definition wy2u01 :: "u64 \<Rightarrow> rat" where
  "wy2u01 r = dbl (dbl (of_nat (unat (shr r 12))) * dbl (1 / 2 ^ 52))"

definition wy2gau :: "u64 \<Rightarrow> rat" where
  "wy2gau r = sdbl (dbl (dbl (of_nat (unat ((r AND 0x1fffff) + (shr r 21 AND 0x1fffff)
                + (shr r 42 AND 0x1fffff)))) * dbl (1 / 2 ^ 20)) - 3)"

definition wy2u0k :: "u64 \<Rightarrow> u64 \<Rightarrow> u64" where
  "wy2u0k r k = snd (wymum r k)"

lemma wy2u01_exact: "wy2u01 r = of_nat (unat r div 2 ^ 12) / 2 ^ 52"
proof -
  have n: "unat r div 2 ^ 12 < 2 ^ 53" using unat_u64_less [of r] by simp
  have "(1 :: rat) / 2 ^ 52 = of_nat 1 * 2 powi (-52)" by (simp add: power_int_def power_one_over)
  then have "dbl (1 / 2 ^ 52) = 1 / 2 ^ 52" using dbl_exact [of 1 "-52"]
    by (metis one_less_numeral_iff one_less_power semiring_norm(76) zero_less_numeral)
  moreover have "dbl (of_nat (unat r div 2 ^ 12) * (1 / 2 ^ 52)) = of_nat (unat r div 2 ^ 12) / 2 ^ 52"
    using dbl_exact [OF n, of "-52"] by (simp add: power_int_def power_one_over)
  ultimately show ?thesis unfolding wy2u01_def unat_shr dbl_of_nat [OF n] by (simp only:)
qed

text \<open>
  The three conversions of a 64-bit random number stay in their ranges: \<open>wy2u0k r k\<close> is the
  high word of the product, a number below \<open>k\<close> for every \<open>k > 0\<close> (and \<open>0\<close> for \<open>k = 0\<close>);
  \<open>wy2u01 r\<close> is a number of the half-open interval from 0 to 1, with no rounding up to 1.
\<close>

theorem wy2u0k_range:
  "unat (wy2u0k r k) = unat r * unat k div 2 ^ 64 \<and> (wy2u0k r k < k \<or> k = 0 \<and> wy2u0k r k = 0) \<and>
   0 \<le> wy2u01 r \<and> wy2u01 r < 1"
proof (intro conjI)
  have u: "unat (wy2u0k r k) = unat r * unat k div 2 ^ 64"
    unfolding wy2u0k_def by (rule unat_wymum(2))
  show "unat (wy2u0k r k) = unat r * unat k div 2 ^ 64" by (rule u)
  show "wy2u0k r k < k \<or> k = 0 \<and> wy2u0k r k = 0"
  proof (cases "k = 0")
    case False
    then have "0 < unat k" by (simp add: unat_gt_0)
    then have "unat r * unat k < 2 ^ 64 * unat k"
      using unat_u64_less [of r] by (intro mult_strict_right_mono)
    then have "unat r * unat k div 2 ^ 64 < unat k"
      by (intro less_mult_imp_div_less) (simp only: mult.commute)
    then show ?thesis unfolding u [symmetric] by (simp add: word_less_nat_alt)
  qed (use u in \<open>simp add: unat_eq_zero\<close>)
  show "0 \<le> wy2u01 r" by (simp add: wy2u01_exact)
  have "unat r div 2 ^ 12 < 2 ^ 52" using unat_u64_less [of r] by simp
  then have "(of_nat (unat r div 2 ^ 12) :: rat) < of_nat (2 ^ 52)" by (simp only: of_nat_less_iff)
  then show "wy2u01 r < 1" unfolding wy2u01_exact by simp
qed

section \<open>Secrets\<close>

definition secret_bytes :: "u8 list" where
  "secret_bytes = [15, 23, 27, 29, 30, 39, 43, 45, 46, 51, 53, 54, 57, 58, 60, 71, 75, 77, 78, 83,
     85, 86, 89, 90, 92, 99, 101, 102, 105, 106, 108, 113, 114, 116, 120, 135, 139, 141, 142, 147,
     149, 150, 153, 154, 156, 163, 165, 166, 169, 170, 172, 177, 178, 180, 184, 195, 197, 198, 201,
     202, 204, 209, 210, 212, 216, 225, 226, 228, 232, 240]"

definition popcount :: "'a::len word \<Rightarrow> nat" where
  "popcount x = length (filter (bit x) [0..<LENGTH('a)])"

text \<open>The eight draws that make one candidate, for the shifts \<open>js\<close> that are left.\<close>

primrec secret_draw :: "nat list \<Rightarrow> u64 \<Rightarrow> u64 \<Rightarrow> u64 \<times> u64" where
  "secret_draw [] seed s = (s, seed)"
| "secret_draw (j # js) seed s =
     (let (r, seed) = wyrand seed
      in secret_draw js seed (s OR shl (ucast (secret_bytes ! (unat r mod length secret_bytes))) j))"

text \<open>
  \<open>has_divisor s j n\<close>: one of the \<open>n\<close> odd numbers from \<open>j\<close> on divides \<open>s\<close>. The loop of the code
  starts at 3 and ends below \<open>2 ^ 32\<close>.
\<close>

fun has_divisor :: "u64 \<Rightarrow> u64 \<Rightarrow> nat \<Rightarrow> bool" where
  "has_divisor s j 0 = False"
| "has_divisor s j (Suc n) = (s mod j = 0 \<or> has_divisor s (j + 2) n)"

definition secret_ok :: "u64 list \<Rightarrow> u64 \<Rightarrow> bool" where
  "secret_ok made s \<longleftrightarrow> s mod 2 \<noteq> 0 \<and> (\<forall>t \<in> set made. popcount (t XOR s) = 32) \<and>
     \<not> has_divisor s 3 (2 ^ 31 - 1)"

text \<open>The \<open>do ... while (!ok)\<close> loop may not end; \<open>None\<close> stands for that.\<close>

partial_function (option) secret_loop :: "u64 list \<Rightarrow> u64 \<Rightarrow> (u64 \<times> u64) option" where
  "secret_loop made seed =
     (let (s, seed) = secret_draw [0, 8, 16, 24, 32, 40, 48, 56] seed 0
      in if secret_ok made s then Some (s, seed) else secret_loop made seed)"

primrec secret_fill :: "nat \<Rightarrow> u64 list \<Rightarrow> u64 \<Rightarrow> u64 list option" where
  "secret_fill 0 made seed = Some made"
| "secret_fill (Suc i) made seed =
     secret_loop made seed \<bind> (\<lambda>(s, seed). secret_fill i (made @ [s]) seed)"

definition make_secret :: "u64 \<Rightarrow> u64 list option" where
  "make_secret seed = secret_fill 4 [] seed"

lemma secret_loop_ok:
  assumes "secret_loop made seed = Some (s, seed')"
  shows "secret_ok made s"
proof -
  have "secret_ok made (fst (s, seed'))"
  proof (rule secret_loop.raw_induct [where P = "\<lambda>made seed r. secret_ok made (fst r)", OF _ assms])
    fix loop :: "u64 list \<Rightarrow> u64 \<Rightarrow> (u64 \<times> u64) option" and made seed r
    assume IH: "\<And>made seed r. loop made seed = Some r \<Longrightarrow> secret_ok made (fst r)"
      and r: "(let (s, seed) = secret_draw [0, 8, 16, 24, 32, 40, 48, 56] seed 0
          in if secret_ok made s then Some (s, seed) else loop made seed) = Some r"
    obtain s seed'' where d: "secret_draw [0, 8, 16, 24, 32, 40, 48, 56] seed 0 = (s, seed'')"
      by (rule prod.exhaust)
    show "secret_ok made (fst r)" using r IH [of made seed'' r] unfolding d by (auto split: if_splits)
  qed
  then show ?thesis by simp
qed

text \<open>Every secret of a list passed the tests against those before it.\<close>

lemma secret_fill_ok:
  "secret_fill n made seed = Some ss \<Longrightarrow> (\<And>k. k < length made \<Longrightarrow> secret_ok (take k made) (made ! k)) \<Longrightarrow>
     length ss = length made + n \<and> (\<forall>k < length ss. secret_ok (take k ss) (ss ! k))"
proof (induction n arbitrary: made seed)
  case (Suc n)
  obtain s seed' where s: "secret_loop made seed = Some (s, seed')"
    and f: "secret_fill n (made @ [s]) seed' = Some ss"
    using Suc.prems(1) by (auto split: bind_splits)
  have "secret_ok (take k (made @ [s])) ((made @ [s]) ! k)" if "k < length (made @ [s])" for k
    using that Suc.prems(2) [of k] secret_loop_ok [OF s] by (cases "k = length made") (auto simp: nth_append)
  then show ?case using Suc.IH [OF f] by simp
qed simp

lemma make_secret_ok:
  assumes "make_secret seed = Some ss"
  shows "length ss = 4 \<and> (\<forall>k < 4. odd (unat (ss ! k))) \<and>
    (\<forall>k < 4. \<forall>j < k. popcount (ss ! j XOR ss ! k) = 32)"
proof -
  have l: "length ss = 4" and ok: "\<And>k. k < 4 \<Longrightarrow> secret_ok (take k ss) (ss ! k)"
    using secret_fill_ok [of 4 "[]" seed ss] assms by (auto simp: make_secret_def)
  have "odd (unat (ss ! k))" if "k < 4" for k
    using ok [OF that]
    by (simp add: secret_ok_def odd_iff_mod_2_eq_one word_unat_eq_iff unat_mod_distrib)
  moreover have "popcount (ss ! j XOR ss ! k) = 32" if "k < 4" "j < k" for k j
  proof -
    have "ss ! j \<in> set (take k ss)" using that l by (auto simp: in_set_conv_nth)
    then show ?thesis using ok [OF that(1)] by (simp add: secret_ok_def)
  qed
  ultimately show ?thesis using l by blast
qed

end
