(* ===== verification/Partial_Hash.thy ===== *)
theory Partial_Hash
  imports ELH_Prelude
begin

text \<open>
  What the partial-key hash functions of include/hash/wyhash_customs.hh, crc_wyhash_customs.hh and
  xxhash_customs.hh have in common: the arrays of byte locations their functors are built with, the
  view they have of a \<open>std::string\<close>, and the contract of a function that reads only the
  words at its locations when the key is long enough and hashes the whole key otherwise. The
  contract is the locale \<open>partial_hash\<close>; the theories of the three families interpret it.
\<close>

section \<open>Keys\<close>

text \<open>
  \<open>str.data()\<close> of a \<open>std::string\<close> may be read up to and including the terminating NUL, and
  \<open>str.length()\<close> is a 64-bit number.
\<close>

definition str_data :: "bytes \<Rightarrow> bytes" where
  "str_data s = s @ [0]"

definition str_len :: "bytes \<Rightarrow> u64" where
  "str_len s = of_nat (length s)"

lemma unat_str_len: "length s < 2 ^ 64 \<Longrightarrow> unat (str_len s) = length s"
  unfolding str_len_def by (rule unat_of_nat_small) simp

lemma length_str_data [simp]: "length (str_data s) = Suc (length s)"
  by (simp add: str_data_def)

lemma window_str_data: "off + n \<le> length s \<Longrightarrow> window n (str_data s) off = window n s off"
  by (simp add: window_def str_data_def)

lemma take_str_data [simp]: "take (length s) (str_data s) = s"
  by (simp add: str_data_def)

section \<open>Locations\<close>

text \<open>
  A functor is constructed from an array of \<open>int\<close> word indices. It keeps the byte offsets
  \<open>(unsigned int)8 * locs[i]\<close>, and the functors that check the length of the key also keep the end
  of the last word, \<open>(unsigned int)(locs[k-1] * 8) + 8\<close>, where the product is computed on
  \<open>int\<close>: its overflow is undefined.
\<close>

definition scaled_locations :: "nat \<Rightarrow> int list \<Rightarrow> u32 list option" where
  "scaled_locations k locs =
     (if k \<le> length locs then Some (map (\<lambda>l. 8 * of_int l) (take k locs)) else None)"

definition cached_locations :: "nat \<Rightarrow> int list \<Rightarrow> u32 list option" where
  "cached_locations k locs = do {
     ls \<leftarrow> scaled_locations k locs;
     l \<leftarrow> nth_opt locs (k - 1);
     if - (2 ^ 31) \<le> l * 8 \<and> l * 8 < 2 ^ 31 then Some (ls @ [of_int (l * 8) + 8]) else None
   }"

text \<open>
  The locations that the functors are meant for: \<open>k\<close> word indices, none negative, none past the last
  one, and the end of the last word an \<open>int\<close>.
\<close>

definition good_locs :: "nat \<Rightarrow> int list \<Rightarrow> bool" where
  "good_locs k locs \<longleftrightarrow> 0 < k \<and> k \<le> length locs \<and>
     (\<forall>i < k. 0 \<le> locs ! i \<and> locs ! i \<le> locs ! (k - 1)) \<and> 8 * locs ! (k - 1) + 8 < 2 ^ 31"

lemma unat_of_int_u32: "0 \<le> x \<Longrightarrow> x < 2 ^ 32 \<Longrightarrow> unat (of_int x :: u32) = nat x"
  using unat_of_nat_small [where 'a = 32, of "nat x"] by (simp add: nat_less_iff)

lemma good_locs_entry:
  assumes "good_locs k locs" "i < k"
  shows "unat (8 * of_int (locs ! i) :: u32) = 8 * nat (locs ! i)"
    and "8 * nat (locs ! i) + 8 \<le> 8 * nat (locs ! (k - 1)) + 8"
proof -
  have l: "0 \<le> locs ! i" "locs ! i \<le> locs ! (k - 1)" "8 * locs ! (k - 1) + 8 < 2 ^ 31"
    using assms by (auto simp: good_locs_def)
  then have "unat (of_int (8 * (locs ! i)) :: u32) = nat (8 * (locs ! i))"
    by (intro unat_of_int_u32) simp_all
  then show "unat (8 * of_int (locs ! i) :: u32) = 8 * nat (locs ! i)"
    using l(1) by (simp add: nat_mult_distrib)
  show "8 * nat (locs ! i) + 8 \<le> 8 * nat (locs ! (k - 1)) + 8" using l by simp
qed

lemma cached_locations_good:
  assumes "good_locs k locs"
  shows "cached_locations k locs =
    Some (map (\<lambda>l. 8 * of_int l) (take k locs) @ [of_int (8 * locs ! (k - 1)) + 8])"
    and "unat (of_int (8 * locs ! (k - 1)) + 8 :: u32) = 8 * nat (locs ! (k - 1)) + 8"
proof -
  have l: "0 < k" "k \<le> length locs" "0 \<le> locs ! (k - 1)" "8 * locs ! (k - 1) + 8 < 2 ^ 31"
    using assms by (auto simp: good_locs_def)
  then show "cached_locations k locs =
      Some (map (\<lambda>l. 8 * of_int l) (take k locs) @ [of_int (8 * locs ! (k - 1)) + 8])"
    by (simp add: cached_locations_def scaled_locations_def nth_opt_def mult.commute)
  have "unat (of_int (8 * locs ! (k - 1) + 8) :: u32) = nat (8 * locs ! (k - 1) + 8)"
    using l by (intro unat_of_int_u32) simp_all
  then show "unat (of_int (8 * locs ! (k - 1)) + 8 :: u32) = 8 * nat (locs ! (k - 1)) + 8"
    using l(3) by (simp add: nat_add_distrib nat_mult_distrib)
qed

section \<open>The contract of a partial-key hash\<close>

text \<open>
  \<open>fixed\<close> hashes a key from the words at \<open>k\<close> locations, reading the spans \<open>reads\<close> (offset and
  width); \<open>full\<close> hashes the whole key; \<open>guarded\<close> chooses by the length of the key and the end that is
  cached behind the locations, with the comparison \<open>past\<close>.
\<close>

definition spans_in :: "(nat \<times> nat) list \<Rightarrow> nat \<Rightarrow> bool" where
  "spans_in ss n \<longleftrightarrow> (\<forall>(off, w) \<in> set ss. off + w \<le> n)"

definition spans_agree :: "(nat \<times> nat) list \<Rightarrow> bytes \<Rightarrow> bytes \<Rightarrow> bool" where
  "spans_agree ss p q \<longleftrightarrow> (\<forall>(off, w) \<in> set ss. window w p off = window w q off)"

definition word_spans :: "u32 list \<Rightarrow> (nat \<times> nat) list" where
  "word_spans ls = map (\<lambda>l. (unat l, 8)) ls"

text \<open>The spans of the first \<open>k\<close> locations, one by one.\<close>

lemma take_spans:
  "1 \<le> length ls \<Longrightarrow> take 1 ls = [ls ! 0]" "2 \<le> length ls \<Longrightarrow> take 2 ls = [ls ! 0, ls ! 1]"
  "3 \<le> length ls \<Longrightarrow> take 3 ls = [ls ! 0, ls ! 1, ls ! 2]"
  "4 \<le> length ls \<Longrightarrow> take 4 ls = [ls ! 0, ls ! 1, ls ! 2, ls ! 3]"
  by (simp_all add: list_eq_iff_nth_eq nth_Cons' eval_nat_numeral less_Suc_eq)

text \<open>The first locations, for arrays of at least \<open>k\<close>.\<close>

lemma nth_opt_le: "i < k \<Longrightarrow> k \<le> length ls \<Longrightarrow> nth_opt ls i = Some (ls ! i)"
  by (simp add: nth_opt_def)

lemma spans_in_Cons [simp]: "spans_in ((off, w) # ss) n \<longleftrightarrow> off + w \<le> n \<and> spans_in ss n"
  by (simp add: spans_in_def)

lemma spans_in_Nil [simp]: "spans_in [] n"
  by (simp add: spans_in_def)

lemma spans_agree_Cons [simp]:
  "spans_agree ((off, w) # ss) p q \<longleftrightarrow> window w p off = window w q off \<and> spans_agree ss p q"
  by (simp add: spans_agree_def)

lemma word_spans_Cons [simp]: "word_spans (l # ls) = (unat l, 8) # word_spans ls" "word_spans [] = []"
  by (simp_all add: word_spans_def)

lemma window8_split:
  assumes "window 8 p off = window 8 q off"
  shows "window 4 p off = window 4 q off" "window 4 p (off + 4) = window 4 q (off + 4)"
  using window_sub [OF assms, of off 4] window_sub [OF assms, of "off + 4" 4] by simp_all

locale partial_hash =
  fixes k :: nat
    and reads :: "u32 list \<Rightarrow> (nat \<times> nat) list"
    and past :: "u64 \<Rightarrow> u32 \<Rightarrow> bool"
    and fixed :: "bytes \<Rightarrow> u64 \<Rightarrow> u32 list \<Rightarrow> u64 option"
    and full :: "bytes \<Rightarrow> u64 \<Rightarrow> u64 option"
    and guarded :: "bytes \<Rightarrow> u64 \<Rightarrow> u32 list \<Rightarrow> u64 option"
  assumes fixed_total: "k \<le> length ls \<Longrightarrow> spans_in (reads ls) (length p) \<Longrightarrow> \<exists>h. fixed p len ls = Some h"
    and fixed_local: "k \<le> length ls \<Longrightarrow> spans_in (reads ls) (length p) \<Longrightarrow>
          spans_in (reads ls) (length q) \<Longrightarrow> spans_agree (reads ls) p q \<Longrightarrow>
          fixed p len ls = fixed q len ls"
    and full_total: "unat len \<le> length p \<Longrightarrow> \<exists>h. full p len = Some h"
    and past_end: "past len e \<Longrightarrow> unat e \<le> unat len"
    and guarded_eq: "guarded p len ls =
          nth_opt ls k \<bind> (\<lambda>e. if past len e then fixed p len ls else full p len)"
begin

text \<open>
  The spans that are read lie before the cached end. For the functions that read exactly the words
  at their locations this follows from \<open>good_locs\<close>.
\<close>

definition ends_ok :: "u32 list \<Rightarrow> bool" where
  "ends_ok ls \<longleftrightarrow> k < length ls \<and> spans_in (reads ls) (unat (ls ! k))"

lemma spans_before_end:
  "ends_ok ls \<Longrightarrow> past len (ls ! k) \<Longrightarrow> unat len \<le> length p \<Longrightarrow> spans_in (reads ls) (length p)"
  using past_end [of len "ls ! k"] by (fastforce simp: ends_ok_def spans_in_def)

lemma guarded_total:
  assumes "ends_ok ls" "unat len \<le> length p"
  shows "\<exists>h. guarded p len ls = Some h"
proof (cases "past len (ls ! k)")
  case True
  then show ?thesis
    using assms fixed_total [of ls p len] spans_before_end [OF assms(1) True assms(2)]
    by (simp add: guarded_eq nth_opt_def ends_ok_def)
next
  case False
  then show ?thesis using assms full_total by (simp add: guarded_eq nth_opt_def ends_ok_def)
qed

lemma guarded_short: "k < length ls \<Longrightarrow> \<not> past len (ls ! k) \<Longrightarrow> guarded p len ls = full p len"
  by (simp add: guarded_eq nth_opt_def)

lemma guarded_local:
  assumes "ends_ok ls" "past len (ls ! k)" "unat len \<le> length p" "unat len \<le> length q"
    "spans_agree (reads ls) p q"
  shows "guarded p len ls = guarded q len ls"
  using assms fixed_local [of ls p q len] spans_before_end [OF assms(1-3)]
    spans_before_end [OF assms(1,2,4)]
  by (simp add: guarded_eq nth_opt_def ends_ok_def)

text \<open>
  A functor built from good locations, whose function reads the words there: it hashes every
  string, the short ones like \<open>full\<close>, and two long ones of the same length that agree in
  those words alike.
\<close>

lemma functor_total:
  assumes "cached_locations k locs = Some ls" "ends_ok ls" "length s < 2 ^ 64"
  shows "\<exists>h. guarded (str_data s) (str_len s) ls = Some h"
  using guarded_total [of ls "str_len s" "str_data s"] assms by (simp add: unat_str_len)

lemma functor_local:
  assumes "ends_ok ls" "past (str_len s) (ls ! k)" "length s < 2 ^ 64" "length t = length s"
    "spans_agree (reads ls) s t"
  shows "guarded (str_data s) (str_len s) ls = guarded (str_data t) (str_len t) ls"
proof -
  have len: "str_len t = str_len s" by (simp add: str_len_def assms(4))
  have "spans_in (reads ls) (length s)"
    using spans_before_end [OF assms(1,2), of s] assms(3) by (simp add: unat_str_len)
  then have "spans_agree (reads ls) (str_data s) (str_data t)"
    using assms(4,5) by (auto simp: spans_agree_def spans_in_def window_str_data split: prod.splits)
  then show ?thesis unfolding len
    using assms by (intro guarded_local) (simp_all add: unat_str_len)
qed

end

text \<open>Good locations put the words that are read before the cached end.\<close>

lemma word_spans_good:
  assumes "good_locs k locs" "cached_locations k locs = Some ls"
  shows "k < length ls" "spans_in (word_spans (take k ls)) (unat (ls ! k))"
    "unat (ls ! k) = 8 * nat (locs ! (k - 1)) + 8"
    "word_spans (take k ls) = map (\<lambda>l. (8 * nat l, 8)) (take k locs)"
proof -
  have k: "0 < k" "k \<le> length locs" using assms(1) by (auto simp: good_locs_def)
  have ls: "ls = map (\<lambda>l. 8 * of_int l) (take k locs) @ [of_int (8 * locs ! (k - 1)) + 8]"
    using cached_locations_good(1) [OF assms(1)] assms(2) by simp
  then show "k < length ls" using k by simp
  have "ls ! k = of_int (8 * locs ! (k - 1)) + 8" using k by (simp add: ls nth_append)
  then show e: "unat (ls ! k) = 8 * nat (locs ! (k - 1)) + 8"
    using cached_locations_good(2) [OF assms(1)] by simp
  have "take k ls = map (\<lambda>l. 8 * of_int l) (take k locs)" using k by (simp add: ls)
  then show w: "word_spans (take k ls) = map (\<lambda>l. (8 * nat l, 8)) (take k locs)"
    using good_locs_entry(1) [OF assms(1)] k
    by (auto simp: word_spans_def list_eq_iff_nth_eq)
  show "spans_in (word_spans (take k ls)) (unat (ls ! k))"
    unfolding w e using good_locs_entry(2) [OF assms(1)] k
    by (auto simp: spans_in_def in_set_conv_nth)
qed

lemma scaled_locations_good:
  assumes "good_locs k locs" "scaled_locations k locs = Some ls"
  shows "length ls = k" "word_spans ls = map (\<lambda>l. (8 * nat l, 8)) (take k locs)"
    "\<And>i. i < k \<Longrightarrow> unat (ls ! i) = 8 * nat (locs ! i)"
proof -
  have k: "0 < k" "k \<le> length locs" using assms(1) by (auto simp: good_locs_def)
  have ls: "ls = map (\<lambda>l. 8 * of_int l) (take k locs)"
    using assms(2) k by (simp add: scaled_locations_def)
  then show "length ls = k" using k by simp
  show u: "unat (ls ! i) = 8 * nat (locs ! i)" if "i < k" for i
    using good_locs_entry(1) [OF assms(1) that] that k by (simp add: ls)
  show "word_spans ls = map (\<lambda>l. (8 * nat l, 8)) (take k locs)"
    using good_locs_entry(1) [OF assms(1)] k by (auto simp: ls word_spans_def list_eq_iff_nth_eq)
qed

lemma cached_locations_entry:
  assumes "good_locs k locs" "cached_locations k locs = Some ls" "i < k"
  shows "unat (ls ! i) = 8 * nat (locs ! i)"
proof -
  have k: "k \<le> length locs" using assms(1) by (simp add: good_locs_def)
  have "ls ! i = 8 * of_int (locs ! i)"
    using cached_locations_good(1) [OF assms(1)] assms(2,3) k by (auto simp: nth_append)
  then show ?thesis using good_locs_entry(1) [OF assms(1,3)] by simp
qed

text \<open>Two keys agree in the words at the first \<open>k\<close> locations.\<close>

definition words_agree :: "nat \<Rightarrow> int list \<Rightarrow> bytes \<Rightarrow> bytes \<Rightarrow> bool" where
  "words_agree k locs s t \<longleftrightarrow> (\<forall>i < k. window 8 s (8 * nat (locs ! i)) = window 8 t (8 * nat (locs ! i)))"

text \<open>A key is long enough for fixed-length hashing by the locations \<open>hl\<close>.\<close>

definition long_for :: "int list \<Rightarrow> bytes \<Rightarrow> bool" where
  "long_for hl s \<longleftrightarrow> (\<forall>l \<in> set hl. 8 * nat l + 8 \<le> length s)"

lemma long_for_last: "long_for hl s \<Longrightarrow> length hl = k \<Longrightarrow> 0 < k \<Longrightarrow> 8 * nat (hl ! (k - 1)) + 8 \<le> length s"
  by (simp add: long_for_def)

text \<open>A functor can be constructed, and is defined on every key it is meant for.\<close>

definition functor_ok :: "bool \<Rightarrow> int list \<Rightarrow> (bytes \<Rightarrow> u64 option) option \<Rightarrow> bool" where
  "functor_ok fixedLength hl f \<longleftrightarrow>
     (\<exists>g. f = Some g \<and> (\<forall>s. length s < 2 ^ 64 \<longrightarrow> (fixedLength \<longrightarrow> long_for hl s) \<longrightarrow> (\<exists>h. g s = Some h)))"

lemma functor_okI:
  assumes "c = Some (ls :: u32 list)"
    "\<And>s. length s < 2 ^ 64 \<Longrightarrow> (fixedLength \<Longrightarrow> long_for hl s) \<Longrightarrow> \<exists>h. call ls s = Some h"
  shows "functor_ok fixedLength hl (map_option call c)"
  using assms by (simp add: functor_ok_def)

lemma cached_defined: "good_locs k hl \<Longrightarrow> \<exists>ls. cached_locations k hl = Some ls"
  using cached_locations_good(1) by blast

lemma scaled_defined: "good_locs k hl \<Longrightarrow> \<exists>ls. scaled_locations k hl = Some ls"
  by (simp add: scaled_locations_def good_locs_def)

named_theorems functor_defs \<open>constructors and call operators of the functors\<close>

context partial_hash
begin

text \<open>The functors on good locations, for a function that reads the words there.\<close>

lemma word_functor_total:
  assumes "\<And>ls. reads ls = word_spans (take k ls)" "good_locs k locs" "length s < 2 ^ 64"
  shows "\<exists>ls h. cached_locations k locs = Some ls \<and> guarded (str_data s) (str_len s) ls = Some h"
proof -
  obtain ls where ls: "cached_locations k locs = Some ls" using cached_locations_good(1) [OF assms(2)] by blast
  then have "ends_ok ls" using word_spans_good(1,2) [OF assms(2) ls] by (simp add: ends_ok_def assms(1))
  then show ?thesis using functor_total [OF ls _ assms(3)] ls by blast
qed

lemma word_functor_fixed:
  assumes "\<And>ls. reads ls = word_spans (take k ls)" "good_locs k locs" "8 * nat (locs ! (k - 1)) + 8 \<le> length s"
  shows "\<exists>ls h. scaled_locations k locs = Some ls \<and> fixed (str_data s) (str_len s) ls = Some h"
proof -
  obtain ls where ls: "scaled_locations k locs = Some ls"
    using assms(2) by (auto simp: scaled_locations_def good_locs_def)
  note g = scaled_locations_good [OF assms(2) ls]
  have k: "k \<le> length locs" using assms(2) by (simp add: good_locs_def)
  have "spans_in (reads ls) (length (str_data s))"
    unfolding assms(1) using g(1,2) good_locs_entry(2) [OF assms(2)] assms(3) k
    by (fastforce simp: spans_in_def in_set_conv_nth)
  then show ?thesis using fixed_total [of ls "str_data s" "str_len s"] g(1) ls by auto
qed

lemma word_functor_local:
  assumes "\<And>ls. reads ls = word_spans (take k ls)" "good_locs k locs" "cached_locations k locs = Some ls"
    "past (str_len s) (ls ! k)" "length s < 2 ^ 64" "length t = length s" "words_agree k locs s t"
  shows "guarded (str_data s) (str_len s) ls = guarded (str_data t) (str_len t) ls"
proof (rule functor_local [OF _ assms(4-6)])
  show "ends_ok ls" using word_spans_good(1,2) [OF assms(2,3)] by (simp add: ends_ok_def assms(1))
  have k: "k \<le> length locs" using assms(2) by (simp add: good_locs_def)
  show "spans_agree (reads ls) s t"
    unfolding assms(1) word_spans_good(4) [OF assms(2,3)] using assms(7) k
    by (fastforce simp: spans_agree_def words_agree_def in_set_conv_nth)
qed

lemma word_functors_ok:
  assumes "\<And>ls. reads ls = word_spans (take k ls)" "good_locs k hl" "length hl = k"
  shows "functor_ok False hl (map_option (\<lambda>ls s. guarded (str_data s) (str_len s) ls) (cached_locations k hl))"
    and "functor_ok True hl (map_option (\<lambda>ls s. fixed (str_data s) (str_len s) ls) (scaled_locations k hl))"
proof -
  have k: "0 < k" using assms(2) by (simp add: good_locs_def)
  obtain ls where c: "cached_locations k hl = Some ls" using cached_defined [OF assms(2)] by blast
  show "functor_ok False hl (map_option (\<lambda>ls s. guarded (str_data s) (str_len s) ls) (cached_locations k hl))"
    using word_functor_total [OF assms(1,2)] c by (intro functor_okI [OF c]) simp
  obtain ls where d: "scaled_locations k hl = Some ls" using scaled_defined [OF assms(2)] by blast
  show "functor_ok True hl (map_option (\<lambda>ls s. fixed (str_data s) (str_len s) ls) (scaled_locations k hl))"
    using word_functor_fixed [OF assms(1,2)] long_for_last [OF _ assms(3) k] d by (intro functor_okI [OF d]) simp
qed

text \<open>The same for a function with other spans, given that they end in time.\<close>

lemma span_functors_ok:
  assumes "good_locs k hl" "length hl = k" "\<And>ls. cached_locations k hl = Some ls \<Longrightarrow> ends_ok ls"
    "\<And>ls n. scaled_locations k hl = Some ls \<Longrightarrow> 8 * nat (hl ! (k - 1)) + 8 \<le> n \<Longrightarrow> spans_in (reads ls) n"
  shows "functor_ok False hl (map_option (\<lambda>ls s. guarded (str_data s) (str_len s) ls) (cached_locations k hl))"
    and "functor_ok True hl (map_option (\<lambda>ls s. fixed (str_data s) (str_len s) ls) (scaled_locations k hl))"
proof -
  have k: "0 < k" using assms(1) by (simp add: good_locs_def)
  obtain ls where c: "cached_locations k hl = Some ls" using cached_defined [OF assms(1)] by blast
  show "functor_ok False hl (map_option (\<lambda>ls s. guarded (str_data s) (str_len s) ls) (cached_locations k hl))"
    using functor_total [OF c assms(3) [OF c]] by (intro functor_okI [OF c]) simp
  obtain ls where d: "scaled_locations k hl = Some ls" using scaled_defined [OF assms(1)] by blast
  have "\<exists>h. fixed (str_data s) (str_len s) ls = Some h" if "long_for hl s" for s
    using fixed_total [of ls "str_data s"] scaled_locations_good(1) [OF assms(1) d]
      assms(4) [OF d, of "length (str_data s)"] long_for_last [OF that assms(2) k] by simp
  then show "functor_ok True hl (map_option (\<lambda>ls s. fixed (str_data s) (str_len s) ls) (scaled_locations k hl))"
    by (intro functor_okI [OF d]) simp
qed

end

end
