(* ===== verification/Wyhash_Customs.thy ===== *)
theory Wyhash_Customs
  imports Wyhash Partial_Hash
begin

text \<open>
  The wyhash functions that read one to four words of a key (include/hash/wyhash_customs.hh), each in
  the variant for keys known to be long enough (\<open>fixed\<close>) and in the one that checks the length of the
  key and falls back to wyhash, and the functors around them. The default arguments \<open>seed = 0\<close>
  and \<open>secret = _wyp\<close> are written out at the calls that omit them: the guarded functions pass neither
  their seed nor their secret on to the fixed ones.
\<close>

section \<open>One to four words\<close>

definition wyhash_1loc_fixed :: "bytes \<Rightarrow> u64 \<Rightarrow> u32 list \<Rightarrow> u64 \<Rightarrow> u64 list \<Rightarrow> u64 option" where
  "wyhash_1loc_fixed p len locations seed secret = do {
     l0 \<leftarrow> nth_opt locations 0;
     a \<leftarrow> wyr4 p (unat l0); b \<leftarrow> wyr4 p (unat l0 + 4);
     s1 \<leftarrow> nth_opt secret 1;
     Some (wymix (s1 XOR len) (wymix (a XOR s1) (b XOR seed)))
   }"

definition wyhash_1loc :: "bytes \<Rightarrow> u64 \<Rightarrow> u32 list \<Rightarrow> u64 \<Rightarrow> u64 list \<Rightarrow> u64 option" where
  "wyhash_1loc p len locations seed secret = do {
     e \<leftarrow> nth_opt locations 1;
     if len \<ge> ucast e then wyhash_1loc_fixed p len locations 0 wyp
     else wyhash p len seed secret
   }"

definition wyhash_2loc_fixed :: "bytes \<Rightarrow> u64 \<Rightarrow> u32 list \<Rightarrow> u64 \<Rightarrow> u64 list \<Rightarrow> u64 option" where
  "wyhash_2loc_fixed p len locations seed secret = do {
     s0 \<leftarrow> nth_opt secret 0; s1 \<leftarrow> nth_opt secret 1;
     let seed = seed XOR s0;
     l0 \<leftarrow> nth_opt locations 0; l1 \<leftarrow> nth_opt locations 1;
     a \<leftarrow> wyr8 p (unat l0); b \<leftarrow> wyr8 p (unat l1);
     Some (wymix (s1 XOR len) (wymix (a XOR s1) (b XOR seed)))
   }"

definition wyhash_2loc :: "bytes \<Rightarrow> u64 \<Rightarrow> u32 list \<Rightarrow> u64 \<Rightarrow> u64 list \<Rightarrow> u64 option" where
  "wyhash_2loc p len locations seed secret = do {
     e \<leftarrow> nth_opt locations 2;
     if len \<ge> ucast e then wyhash_2loc_fixed p len locations 0 wyp
     else wyhash p len seed secret
   }"

definition wyhash_3loc_fixed :: "bytes \<Rightarrow> u64 \<Rightarrow> u32 list \<Rightarrow> u64 \<Rightarrow> u64 list \<Rightarrow> u64 option" where
  "wyhash_3loc_fixed p len locations seed secret = do {
     s0 \<leftarrow> nth_opt secret 0; s1 \<leftarrow> nth_opt secret 1;
     let seed = seed XOR s0;
     l0 \<leftarrow> nth_opt locations 0; l1 \<leftarrow> nth_opt locations 1; l2 \<leftarrow> nth_opt locations 2;
     a \<leftarrow> wyr8 p (unat l0); b \<leftarrow> wyr8 p (unat l1); c \<leftarrow> wyr8 p (unat l2);
     Some (wymix (wymix (s1 XOR len) c) (wymix (a XOR s1) (b XOR seed)))
   }"

definition wyhash_3loc :: "bytes \<Rightarrow> u64 \<Rightarrow> u32 list \<Rightarrow> u64 \<Rightarrow> u64 list \<Rightarrow> u64 option" where
  "wyhash_3loc p len locations seed secret = do {
     e \<leftarrow> nth_opt locations 3;
     if len \<ge> ucast e then wyhash_3loc_fixed p len locations 0 wyp
     else wyhash p len seed secret
   }"

definition wyhash_4loc_fixed :: "bytes \<Rightarrow> u64 \<Rightarrow> u32 list \<Rightarrow> u64 \<Rightarrow> u64 list \<Rightarrow> u64 option" where
  "wyhash_4loc_fixed p len locations seed secret = do {
     s0 \<leftarrow> nth_opt secret 0; s1 \<leftarrow> nth_opt secret 1; s2 \<leftarrow> nth_opt secret 2;
     let see1 = seed XOR s0;
     l0 \<leftarrow> nth_opt locations 0; l1 \<leftarrow> nth_opt locations 1;
     l2 \<leftarrow> nth_opt locations 2; l3 \<leftarrow> nth_opt locations 3;
     a \<leftarrow> wyr8 p (unat l0); b \<leftarrow> wyr8 p (unat l1); c \<leftarrow> wyr8 p (unat l2); d \<leftarrow> wyr8 p (unat l3);
     let seed = wymix a b;
     let see1 = wymix (c XOR s2) (d XOR see1);
     let seed = seed XOR see1;
     Some (wymix (s1 XOR len) seed)
   }"

definition wyhash_4loc :: "bytes \<Rightarrow> u64 \<Rightarrow> u32 list \<Rightarrow> u64 \<Rightarrow> u64 list \<Rightarrow> u64 option" where
  "wyhash_4loc p len locations seed secret = do {
     e \<leftarrow> nth_opt locations 4;
     if len \<ge> ucast e then wyhash_4loc_fixed p len locations 0 wyp
     else wyhash p len seed secret
   }"

section \<open>Functors\<close>

text \<open>
  The state of a functor is its array of locations: \<open>hash_wyhash_2loc_s\<close> is the
  constructor and \<open>hash_wyhash_2loc_call\<close> the call operator.
\<close>

definition hash_wyhash_1loc_fixed_s :: "int list \<Rightarrow> u32 list option" where
  "hash_wyhash_1loc_fixed_s locs = scaled_locations 1 locs"

definition hash_wyhash_1loc_fixed_call :: "u32 list \<Rightarrow> bytes \<Rightarrow> u64 option" where
  "hash_wyhash_1loc_fixed_call locations str = wyhash_1loc_fixed (str_data str) (str_len str) locations 0 wyp"

definition hash_wyhash_1loc_s :: "int list \<Rightarrow> u32 list option" where
  "hash_wyhash_1loc_s locs = cached_locations 1 locs"

definition hash_wyhash_1loc_call :: "u32 list \<Rightarrow> bytes \<Rightarrow> u64 option" where
  "hash_wyhash_1loc_call locations str = wyhash_1loc (str_data str) (str_len str) locations 0 wyp"

definition hash_wyhash_2loc_fixed_s :: "int list \<Rightarrow> u32 list option" where
  "hash_wyhash_2loc_fixed_s locs = scaled_locations 2 locs"

definition hash_wyhash_2loc_fixed_call :: "u32 list \<Rightarrow> bytes \<Rightarrow> u64 option" where
  "hash_wyhash_2loc_fixed_call locations str = wyhash_2loc_fixed (str_data str) (str_len str) locations 0 wyp"

definition hash_wyhash_2loc_s :: "int list \<Rightarrow> u32 list option" where
  "hash_wyhash_2loc_s locs = cached_locations 2 locs"

definition hash_wyhash_2loc_call :: "u32 list \<Rightarrow> bytes \<Rightarrow> u64 option" where
  "hash_wyhash_2loc_call locations str = wyhash_2loc (str_data str) (str_len str) locations 0 wyp"

definition hash_wyhash_3loc_fixed_s :: "int list \<Rightarrow> u32 list option" where
  "hash_wyhash_3loc_fixed_s locs = scaled_locations 3 locs"

definition hash_wyhash_3loc_fixed_call :: "u32 list \<Rightarrow> bytes \<Rightarrow> u64 option" where
  "hash_wyhash_3loc_fixed_call locations str = wyhash_3loc_fixed (str_data str) (str_len str) locations 0 wyp"

definition hash_wyhash_3loc_s :: "int list \<Rightarrow> u32 list option" where
  "hash_wyhash_3loc_s locs = cached_locations 3 locs"

definition hash_wyhash_3loc_call :: "u32 list \<Rightarrow> bytes \<Rightarrow> u64 option" where
  "hash_wyhash_3loc_call locations str = wyhash_3loc (str_data str) (str_len str) locations 0 wyp"

definition hash_wyhash_4loc_fixed_s :: "int list \<Rightarrow> u32 list option" where
  "hash_wyhash_4loc_fixed_s locs = scaled_locations 4 locs"

definition hash_wyhash_4loc_fixed_call :: "u32 list \<Rightarrow> bytes \<Rightarrow> u64 option" where
  "hash_wyhash_4loc_fixed_call locations str = wyhash_4loc_fixed (str_data str) (str_len str) locations 0 wyp"

definition hash_wyhash_4loc_s :: "int list \<Rightarrow> u32 list option" where
  "hash_wyhash_4loc_s locs = cached_locations 4 locs"

definition hash_wyhash_4loc_call :: "u32 list \<Rightarrow> bytes \<Rightarrow> u64 option" where
  "hash_wyhash_4loc_call locations str = wyhash_4loc (str_data str) (str_len str) locations 0 wyp"

text \<open>The functors as functions, for the proofs about the choice among them.\<close>

lemmas hash_wyhash_functor_defs [functor_defs] =
  hash_wyhash_1loc_s_def hash_wyhash_1loc_fixed_s_def hash_wyhash_1loc_call_def [abs_def] hash_wyhash_1loc_fixed_call_def [abs_def]
  hash_wyhash_2loc_s_def hash_wyhash_2loc_fixed_s_def hash_wyhash_2loc_call_def [abs_def] hash_wyhash_2loc_fixed_call_def [abs_def]
  hash_wyhash_3loc_s_def hash_wyhash_3loc_fixed_s_def hash_wyhash_3loc_call_def [abs_def] hash_wyhash_3loc_fixed_call_def [abs_def]
  hash_wyhash_4loc_s_def hash_wyhash_4loc_fixed_s_def hash_wyhash_4loc_call_def [abs_def] hash_wyhash_4loc_fixed_call_def [abs_def]

section \<open>The contract\<close>

text \<open>The reads of a fixed function, when its spans are in the buffer.\<close>

lemma wyp_at [simp]:
  "nth_opt wyp 0 = Some (wyp ! 0)" "nth_opt wyp 1 = Some (wyp ! 1)" "nth_opt wyp (Suc 0) = Some (wyp ! 1)"
  "nth_opt wyp 2 = Some (wyp ! 2)" "nth_opt wyp 3 = Some (wyp ! 3)" "length wyp = 4"
  by (simp_all add: nth_opt_def wyp_def)

interpretation wy1: partial_hash 1 "\<lambda>ls. word_spans (take 1 ls)" "\<lambda>len e. ucast e \<le> len"
  "\<lambda>p len ls. wyhash_1loc_fixed p len ls 0 wyp" "\<lambda>p len. wyhash p len 0 wyp"
  "\<lambda>p len ls. wyhash_1loc p len ls 0 wyp"
proof
  fix ls :: "u32 list" and p q :: bytes and len
  assume l: "1 \<le> length ls" and p: "spans_in (word_spans (take 1 ls)) (length p)"
  show "\<exists>h. wyhash_1loc_fixed p len ls 0 wyp = Some h"
    using p by (simp add: take_spans(1) [OF l, simplified] wyhash_1loc_fixed_def nth_opt_le [OF _ l] wyr_defs safe_reads)
  assume "spans_in (word_spans (take 1 ls)) (length q)" "spans_agree (word_spans (take 1 ls)) p q"
  then show "wyhash_1loc_fixed p len ls 0 wyp = wyhash_1loc_fixed q len ls 0 wyp"
    using p by (simp add: take_spans(1) [OF l, simplified] wyhash_1loc_fixed_def nth_opt_le [OF _ l] wyr_defs safe_reads
        window8_split [of p _ q])
qed (simp_all add: wyhash_total wyhash_1loc_def word_le_nat_alt unat_ucast_up)

interpretation wy2: partial_hash 2 "\<lambda>ls. word_spans (take 2 ls)" "\<lambda>len e. ucast e \<le> len"
  "\<lambda>p len ls. wyhash_2loc_fixed p len ls 0 wyp" "\<lambda>p len. wyhash p len 0 wyp"
  "\<lambda>p len ls. wyhash_2loc p len ls 0 wyp"
proof
  fix ls :: "u32 list" and p q :: bytes and len
  assume l: "2 \<le> length ls" and p: "spans_in (word_spans (take 2 ls)) (length p)"
  show "\<exists>h. wyhash_2loc_fixed p len ls 0 wyp = Some h"
    using p by (simp add: take_spans(2) [OF l] wyhash_2loc_fixed_def nth_opt_le [OF _ l] wyr_defs safe_reads)
  assume "spans_in (word_spans (take 2 ls)) (length q)" "spans_agree (word_spans (take 2 ls)) p q"
  then show "wyhash_2loc_fixed p len ls 0 wyp = wyhash_2loc_fixed q len ls 0 wyp"
    using p by (simp add: take_spans(2) [OF l] wyhash_2loc_fixed_def nth_opt_le [OF _ l] wyr_defs safe_reads
        window8_split [of p _ q])
qed (simp_all add: wyhash_total wyhash_2loc_def word_le_nat_alt unat_ucast_up)

interpretation wy3: partial_hash 3 "\<lambda>ls. word_spans (take 3 ls)" "\<lambda>len e. ucast e \<le> len"
  "\<lambda>p len ls. wyhash_3loc_fixed p len ls 0 wyp" "\<lambda>p len. wyhash p len 0 wyp"
  "\<lambda>p len ls. wyhash_3loc p len ls 0 wyp"
proof
  fix ls :: "u32 list" and p q :: bytes and len
  assume l: "3 \<le> length ls" and p: "spans_in (word_spans (take 3 ls)) (length p)"
  show "\<exists>h. wyhash_3loc_fixed p len ls 0 wyp = Some h"
    using p by (simp add: take_spans(3) [OF l] wyhash_3loc_fixed_def nth_opt_le [OF _ l] wyr_defs safe_reads)
  assume "spans_in (word_spans (take 3 ls)) (length q)" "spans_agree (word_spans (take 3 ls)) p q"
  then show "wyhash_3loc_fixed p len ls 0 wyp = wyhash_3loc_fixed q len ls 0 wyp"
    using p by (simp add: take_spans(3) [OF l] wyhash_3loc_fixed_def nth_opt_le [OF _ l] wyr_defs safe_reads
        window8_split [of p _ q])
qed (simp_all add: wyhash_total wyhash_3loc_def word_le_nat_alt unat_ucast_up)

interpretation wy4: partial_hash 4 "\<lambda>ls. word_spans (take 4 ls)" "\<lambda>len e. ucast e \<le> len"
  "\<lambda>p len ls. wyhash_4loc_fixed p len ls 0 wyp" "\<lambda>p len. wyhash p len 0 wyp"
  "\<lambda>p len ls. wyhash_4loc p len ls 0 wyp"
proof
  fix ls :: "u32 list" and p q :: bytes and len
  assume l: "4 \<le> length ls" and p: "spans_in (word_spans (take 4 ls)) (length p)"
  show "\<exists>h. wyhash_4loc_fixed p len ls 0 wyp = Some h"
    using p by (simp add: take_spans(4) [OF l] wyhash_4loc_fixed_def nth_opt_le [OF _ l] wyr_defs safe_reads)
  assume "spans_in (word_spans (take 4 ls)) (length q)" "spans_agree (word_spans (take 4 ls)) p q"
  then show "wyhash_4loc_fixed p len ls 0 wyp = wyhash_4loc_fixed q len ls 0 wyp"
    using p by (simp add: take_spans(4) [OF l] wyhash_4loc_fixed_def nth_opt_le [OF _ l] wyr_defs safe_reads
        window8_split [of p _ q])
qed (simp_all add: wyhash_total wyhash_4loc_def word_le_nat_alt unat_ucast_up)

end
