(* ===== verification/Crc_Hash.thy ===== *)
theory Crc_Hash
  imports Wyhash_Customs
begin

text \<open>
  The CRC-based hashes: the hash of a whole key in include/hash/crc32_hash.hh, and the partial-key
  functions and functors of include/hash/crc_wyhash_customs.hh. The instruction behind
  \<open>_mm_crc32_u64\<close> is modelled bit by bit. The lemmas show that every CRC fits in 32 bits,
  that the hashes read only their key and always return, and interpret the contract of a
  partial-key hash for one to four words.
\<close>

section \<open>The CRC instruction\<close>

text \<open>
  \<open>_mm_crc32_u64(crc, v)\<close> folds the 64 bits of \<open>v\<close> into the low 32 bits of \<open>crc\<close> modulo the
  polynomial of CRC32C, in its bit-reflected form, and zero-extends the remainder.
\<close>

definition crc32c_shift :: "u64 \<Rightarrow> u64" where
  "crc32c_shift x = (if bit x 0 then shr x 1 XOR 0x82F63B78 else shr x 1)"

definition mm_crc32_u64 :: "u64 \<Rightarrow> u64 \<Rightarrow> u64" where
  "mm_crc32_u64 crc v = (crc32c_shift ^^ 64) (ucast (ucast crc :: u32) XOR v)"

text \<open>A shift moves the highest bit that is set down, until it is in the low half.\<close>

lemma crc32c_poly_high: "32 \<le> i \<Longrightarrow> \<not> bit (0x82F63B78 :: u64) i"
proof -
  assume "32 \<le> i"
  moreover have "(0x82F63B78 :: u64) = take_bit 32 0x82F63B78" by code_simp
  ultimately show ?thesis by (metis bit_take_bit_iff not_le)
qed

lemma crc32c_shift_high:
  assumes "32 \<le> m" "\<And>i. Suc m \<le> i \<Longrightarrow> \<not> bit x i"
  shows "m \<le> i \<Longrightarrow> \<not> bit (crc32c_shift x) i"
  using assms(2) [of "Suc i"] assms(1) crc32c_poly_high [of i]
  by (simp add: crc32c_shift_def bit_drop_bit_eq bit_xor_iff)

lemma crc32c_shifts_high: "n \<le> 32 \<Longrightarrow> 64 - n \<le> i \<Longrightarrow> \<not> bit ((crc32c_shift ^^ n) x) i"
proof (induction n arbitrary: i)
  case 0
  then show ?case by (auto dest: bit_imp_le_length)
next
  case (Suc n)
  show ?case unfolding funpow.simps comp_apply
    by (rule crc32c_shift_high [of "64 - Suc n"])
      (use Suc in \<open>auto simp: Suc_diff_Suc\<close>)
qed

lemma crc32c_shifts_low:
  "(\<And>i. 32 \<le> i \<Longrightarrow> \<not> bit x i) \<Longrightarrow> 32 \<le> i \<Longrightarrow> \<not> bit ((crc32c_shift ^^ n) x) i"
proof (induction n arbitrary: i)
  case (Suc n)
  show ?case unfolding funpow.simps comp_apply
    by (rule crc32c_shift_high [of 32]) (use Suc in auto)
qed simp

lemma mm_crc32_u64_high: "32 \<le> i \<Longrightarrow> \<not> bit (mm_crc32_u64 crc v) i"
proof -
  let ?x = "ucast (ucast crc :: u32) XOR v"
  have "crc32c_shift ^^ 64 = crc32c_shift ^^ 32 \<circ> crc32c_shift ^^ 32"
    using funpow_add [of 32 32 crc32c_shift] by (simp only: numeral_plus_numeral semiring_norm)
  then have "mm_crc32_u64 crc v = (crc32c_shift ^^ 32) ((crc32c_shift ^^ 32) ?x)"
    by (simp only: mm_crc32_u64_def comp_apply)
  moreover have "32 \<le> i \<Longrightarrow> \<not> bit ((crc32c_shift ^^ 32) ?x) i" for i
    using crc32c_shifts_high [of 32 i ?x] by (simp only: order_refl) simp
  ultimately show "32 \<le> i \<Longrightarrow> \<not> bit (mm_crc32_u64 crc v) i"
    using crc32c_shifts_low [of "(crc32c_shift ^^ 32) ?x" i 32] by presburger
qed

lemma mm_crc32_u64_bound: "mm_crc32_u64 crc v < 2 ^ 32"
proof -
  have "mm_crc32_u64 crc v = take_bit 32 (mm_crc32_u64 crc v)"
    by (rule bit_word_eqI) (metis bit_take_bit_iff mm_crc32_u64_high not_le)
  then have "unat (mm_crc32_u64 crc v) < 2 ^ 32"
    by (metis take_bit_nat_less_exp unsigned_take_bit_eq)
  then show ?thesis by (simp add: word_less_nat_alt)
qed

section \<open>The hash of a whole key\<close>

definition Hash128to64 :: "u64 \<Rightarrow> u64 \<Rightarrow> u64" where
  "Hash128to64 x1 x2 =
     (let kMul = 0x9ddfea08eb382d69;
          a = (x1 XOR x2) * kMul;
          a = a XOR shr a 47;
          b = (x2 XOR a) * kMul;
          b = b XOR shr b 47;
          b = b * kMul
      in b)"

definition hashLen16 :: "u64 \<Rightarrow> u64 \<Rightarrow> u64" where
  "hashLen16 u v = Hash128to64 u v"

definition shiftMix :: "u64 \<Rightarrow> u64" where
  "shiftMix val = val XOR shr val 47"

definition rotateByAtLeast1 :: "u64 \<Rightarrow> nat \<Rightarrow> u64" where
  "rotateByAtLeast1 val shift = shr val shift OR shl val (64 - shift)"

definition hashLessThan8 :: "bytes \<Rightarrow> u64 \<Rightarrow> u64 option" where
  "hashLessThan8 data sz =
     (let k2 = 0x9ae16a3b2f90404f; k3 = 0xc949d7c7509e6557; n = unat sz in
      if n \<ge> 4 then do {
        a \<leftarrow> read32 data 0;
        b \<leftarrow> read32 data (n - 4);
        Some (hashLen16 (sz + shl (ucast a) 3) (ucast b))
      } else if n > 0 then do {
        a \<leftarrow> read8 data 0;
        b \<leftarrow> read8 data (n div 2);
        c \<leftarrow> read8 data (n - 1);
        let y = (ucast a + shl (ucast b) 8 :: u32);
        let z = (ucast (sz + ucast (shl (ucast c) 2 :: u32)) :: u32);
        Some (shiftMix (ucast y * k2 XOR ucast z * k3) * k2)
      } else Some k2)"

definition hashLessThan16 :: "bytes \<Rightarrow> u64 \<Rightarrow> u64 option" where
  "hashLessThan16 data sz =
     (if unat sz > 8 then do {
        a \<leftarrow> read64 data 0;
        b \<leftarrow> read64 data (unat sz - 8);
        Some (hashLen16 a (rotateByAtLeast1 (b + sz) (unat sz)) XOR b)
      } else hashLessThan8 data sz)"

function crc_loop :: "bytes \<Rightarrow> nat \<Rightarrow> nat \<Rightarrow> u64 \<Rightarrow> u64 option" where
  "crc_loop data pos fin res = do {
     word \<leftarrow> read64 data pos;
     let res = mm_crc32_u64 res word;
     if pos + 8 + 8 < fin then crc_loop data (pos + 8) fin res else Some res
   }"
  by pat_completeness auto
termination by (relation "measure (\<lambda>(data, pos, fin, res). fin - pos)") auto

declare crc_loop.simps [simp del]

definition crcHash :: "bytes \<Rightarrow> u64 \<Rightarrow> u64 option" where
  "crcHash data sz =
     (if sz = 0 then Some 0
      else if sz < 8 then hashLessThan8 data sz
      else do {
        let fin = unat sz;
        res \<leftarrow> crc_loop data 0 fin (- 1);
        word \<leftarrow> read64 data (fin - 8);
        Some (mm_crc32_u64 res word)
      })"

definition CRC32Hash_call :: "bytes \<Rightarrow> u64 option" where
  "CRC32Hash_call x = crcHash (str_data x) (str_len x)"

lemma hashLessThan8_total: "unat sz \<le> length data \<Longrightarrow> \<exists>h. hashLessThan8 data sz = Some h"
proof -
  assume l: "unat sz \<le> length data"
  have m: "unat sz div 2 < length data" "0 < length data" if "unat sz > 0" using that l by linarith+
  have r0: "read8 data 0 = Some (data ! 0)" if "unat sz > 0" using m [OF that] by (intro read8_Some)
  show ?thesis using l
    by (cases "unat sz \<ge> 4"; cases "unat sz > 0") (simp_all add: hashLessThan8_def Let_def safe_reads m r0)
qed

lemma hashLessThan16_total: "unat sz \<le> length data \<Longrightarrow> \<exists>h. hashLessThan16 data sz = Some h"
  using hashLessThan8_total by (cases "unat sz > 8") (simp_all add: hashLessThan16_def safe_reads)

lemma crc_loop_total: "pos + 8 \<le> fin \<Longrightarrow> fin \<le> length data \<Longrightarrow> \<exists>h. crc_loop data pos fin res = Some h"
proof (induction "fin - pos" arbitrary: pos res rule: less_induct)
  case less
  then show ?case by (subst crc_loop.simps) (simp add: safe_reads Let_def)
qed

lemma crcHash_total: "unat sz \<le> length data \<Longrightarrow> \<exists>h. crcHash data sz = Some h"
proof -
  assume l: "unat sz \<le> length data"
  show ?thesis
  proof (cases "sz < 8")
    case True
    then show ?thesis using hashLessThan8_total [OF l] by (simp add: crcHash_def)
  next
    case False
    then have "8 \<le> unat sz" by (simp add: word_less_nat_alt not_less)
    then show ?thesis using crc_loop_total [of 0 "unat sz" data "- 1"] l False
      by (auto simp: crcHash_def safe_reads)
  qed
qed

text \<open>
  The hash of a key of eight or more bytes is a CRC, so although the function answers a 64-bit
  number only its low 32 bits can be set; and the hash of any key is defined, whatever its
  length: the loop ends and no read leaves the key.
\<close>

theorem crcHash_32bit:
  assumes "unat sz \<le> length data"
  shows "\<exists>h. crcHash data sz = Some h \<and> (8 \<le> sz \<longrightarrow> h < 2 ^ 32)"
proof -
  obtain h where h: "crcHash data sz = Some h" using crcHash_total [OF assms] by blast
  have "h < 2 ^ 32" if "8 \<le> sz"
  proof -
    have "sz \<noteq> 0" "\<not> sz < 8" using that by (auto simp: word_le_nat_alt word_less_nat_alt)
    then show ?thesis using h mm_crc32_u64_bound by (auto simp: crcHash_def Let_def split: bind_splits)
  qed
  with h show ?thesis by blast
qed

theorem crcHash_32bit_witness:
  "\<exists>h. crcHash (replicate 9 0x61) 9 = Some h \<and> h < 2 ^ 32"
  using crcHash_32bit [of 9 "replicate 9 0x61"] by (auto simp: word_le_nat_alt)

section \<open>One to four words\<close>

definition crc32_wyhash_1loc_fixed :: "bytes \<Rightarrow> u64 \<Rightarrow> u32 list \<Rightarrow> u64 \<Rightarrow> u64 option" where
  "crc32_wyhash_1loc_fixed p len locations seed = do {
     let res = seed + len;
     l0 \<leftarrow> nth_opt locations 0;
     a \<leftarrow> wyr8 p (unat l0);
     Some (mm_crc32_u64 res a)
   }"

definition crc32_wyhash_2loc_fixed :: "bytes \<Rightarrow> u64 \<Rightarrow> u32 list \<Rightarrow> u64 \<Rightarrow> u64 option" where
  "crc32_wyhash_2loc_fixed p len locations seed = do {
     let res = seed + len;
     l0 \<leftarrow> nth_opt locations 0;
     a \<leftarrow> wyr8 p (unat l0);
     let res = mm_crc32_u64 res a;
     l1 \<leftarrow> nth_opt locations 1;
     b \<leftarrow> wyr8 p (unat l1);
     Some (mm_crc32_u64 res b)
   }"

definition crc32_wyhash_3loc_fixed :: "bytes \<Rightarrow> u64 \<Rightarrow> u32 list \<Rightarrow> u64 \<Rightarrow> u64 option" where
  "crc32_wyhash_3loc_fixed p len locations seed = do {
     l0 \<leftarrow> nth_opt locations 0; l1 \<leftarrow> nth_opt locations 1; l2 \<leftarrow> nth_opt locations 2;
     a \<leftarrow> wyr8 p (unat l0); b \<leftarrow> wyr8 p (unat l1); c \<leftarrow> wyr8 p (unat l2);
     let term1 = mm_crc32_u64 (seed + len) a;
     let term2 = mm_crc32_u64 b (c + term1);
     Some term2
   }"

definition crc32_wyhash_4loc_fixed :: "bytes \<Rightarrow> u64 \<Rightarrow> u32 list \<Rightarrow> u64 \<Rightarrow> u64 option" where
  "crc32_wyhash_4loc_fixed p len locations seed = do {
     l0 \<leftarrow> nth_opt locations 0; l1 \<leftarrow> nth_opt locations 1;
     l2 \<leftarrow> nth_opt locations 2; l3 \<leftarrow> nth_opt locations 3;
     a \<leftarrow> wyr8 p (unat l0); b \<leftarrow> wyr8 p (unat l1); c \<leftarrow> wyr8 p (unat l2); d \<leftarrow> wyr8 p (unat l3);
     let res = mm_crc32_u64 b a;
     let res1 = mm_crc32_u64 (seed + len) c;
     let res = res XOR res1;
     Some (mm_crc32_u64 d res)
   }"

text \<open>Only the function of one word passes its seed on.\<close>

definition crc32_wyhash_1loc :: "bytes \<Rightarrow> u64 \<Rightarrow> u32 list \<Rightarrow> u64 \<Rightarrow> u64 option" where
  "crc32_wyhash_1loc p len locations seed = do {
     e \<leftarrow> nth_opt locations 1;
     if len \<ge> ucast e then crc32_wyhash_1loc_fixed p len locations seed else crcHash p len
   }"

definition crc32_wyhash_2loc :: "bytes \<Rightarrow> u64 \<Rightarrow> u32 list \<Rightarrow> u64 \<Rightarrow> u64 option" where
  "crc32_wyhash_2loc p len locations seed = do {
     e \<leftarrow> nth_opt locations 2;
     if len \<ge> ucast e then crc32_wyhash_2loc_fixed p len locations 0 else crcHash p len
   }"

definition crc32_wyhash_3loc :: "bytes \<Rightarrow> u64 \<Rightarrow> u32 list \<Rightarrow> u64 \<Rightarrow> u64 option" where
  "crc32_wyhash_3loc p len locations seed = do {
     e \<leftarrow> nth_opt locations 3;
     if len \<ge> ucast e then crc32_wyhash_3loc_fixed p len locations 0 else crcHash p len
   }"

definition crc32_wyhash_4loc :: "bytes \<Rightarrow> u64 \<Rightarrow> u32 list \<Rightarrow> u64 \<Rightarrow> u64 option" where
  "crc32_wyhash_4loc p len locations seed = do {
     e \<leftarrow> nth_opt locations 4;
     if len \<ge> ucast e then crc32_wyhash_4loc_fixed p len locations 0 else crcHash p len
   }"

definition crc32_wyhash_hardcode :: "bytes \<Rightarrow> u64 \<Rightarrow> u64 option" where
  "crc32_wyhash_hardcode p len =
     (if len > 56 then do {
        let res = len;
        a \<leftarrow> wyr8 p 40;
        let res = mm_crc32_u64 res a;
        b \<leftarrow> wyr8 p 48;
        Some (mm_crc32_u64 res b)
      } else wyhash p len 0 wyp)"

section \<open>Functors\<close>

definition hash_wyhash_hardcode_call :: "bytes \<Rightarrow> u64 option" where
  "hash_wyhash_hardcode_call str = crc32_wyhash_hardcode (str_data str) (str_len str)"

definition hash_crc32wyhash_1loc_fixed_s :: "int list \<Rightarrow> u32 list option" where
  "hash_crc32wyhash_1loc_fixed_s locs = scaled_locations 1 locs"

definition hash_crc32wyhash_1loc_fixed_call :: "u32 list \<Rightarrow> bytes \<Rightarrow> u64 option" where
  "hash_crc32wyhash_1loc_fixed_call locations str =
     crc32_wyhash_1loc_fixed (str_data str) (str_len str) locations 0"

definition hash_crc32wyhash_1loc_s :: "int list \<Rightarrow> u32 list option" where
  "hash_crc32wyhash_1loc_s locs = cached_locations 1 locs"

definition hash_crc32wyhash_1loc_call :: "u32 list \<Rightarrow> bytes \<Rightarrow> u64 option" where
  "hash_crc32wyhash_1loc_call locations str =
     crc32_wyhash_1loc (str_data str) (str_len str) locations 0"

definition hash_crc32wyhash_2loc_fixed_s :: "int list \<Rightarrow> u32 list option" where
  "hash_crc32wyhash_2loc_fixed_s locs = scaled_locations 2 locs"

definition hash_crc32wyhash_2loc_fixed_call :: "u32 list \<Rightarrow> bytes \<Rightarrow> u64 option" where
  "hash_crc32wyhash_2loc_fixed_call locations str =
     crc32_wyhash_2loc_fixed (str_data str) (str_len str) locations 0"

definition hash_crc32wyhash_2loc_s :: "int list \<Rightarrow> u32 list option" where
  "hash_crc32wyhash_2loc_s locs = cached_locations 2 locs"

definition hash_crc32wyhash_2loc_call :: "u32 list \<Rightarrow> bytes \<Rightarrow> u64 option" where
  "hash_crc32wyhash_2loc_call locations str =
     crc32_wyhash_2loc (str_data str) (str_len str) locations 0"

definition hash_crc32wyhash_3loc_fixed_s :: "int list \<Rightarrow> u32 list option" where
  "hash_crc32wyhash_3loc_fixed_s locs = scaled_locations 3 locs"

definition hash_crc32wyhash_3loc_fixed_call :: "u32 list \<Rightarrow> bytes \<Rightarrow> u64 option" where
  "hash_crc32wyhash_3loc_fixed_call locations str =
     crc32_wyhash_3loc_fixed (str_data str) (str_len str) locations 0"

definition hash_crc32wyhash_3loc_s :: "int list \<Rightarrow> u32 list option" where
  "hash_crc32wyhash_3loc_s locs = cached_locations 3 locs"

definition hash_crc32wyhash_3loc_call :: "u32 list \<Rightarrow> bytes \<Rightarrow> u64 option" where
  "hash_crc32wyhash_3loc_call locations str =
     crc32_wyhash_3loc (str_data str) (str_len str) locations 0"

definition hash_crc32wyhash_4loc_fixed_s :: "int list \<Rightarrow> u32 list option" where
  "hash_crc32wyhash_4loc_fixed_s locs = scaled_locations 4 locs"

definition hash_crc32wyhash_4loc_fixed_call :: "u32 list \<Rightarrow> bytes \<Rightarrow> u64 option" where
  "hash_crc32wyhash_4loc_fixed_call locations str =
     crc32_wyhash_4loc_fixed (str_data str) (str_len str) locations 0"

definition hash_crc32wyhash_4loc_s :: "int list \<Rightarrow> u32 list option" where
  "hash_crc32wyhash_4loc_s locs = cached_locations 4 locs"

definition hash_crc32wyhash_4loc_call :: "u32 list \<Rightarrow> bytes \<Rightarrow> u64 option" where
  "hash_crc32wyhash_4loc_call locations str =
     crc32_wyhash_4loc (str_data str) (str_len str) locations 0"

text \<open>The functors as functions, for the proofs about the choice among them.\<close>

lemmas hash_crc32wyhash_functor_defs [functor_defs] =
  hash_crc32wyhash_1loc_s_def hash_crc32wyhash_1loc_fixed_s_def hash_crc32wyhash_1loc_call_def [abs_def] hash_crc32wyhash_1loc_fixed_call_def [abs_def]
  hash_crc32wyhash_2loc_s_def hash_crc32wyhash_2loc_fixed_s_def hash_crc32wyhash_2loc_call_def [abs_def] hash_crc32wyhash_2loc_fixed_call_def [abs_def]
  hash_crc32wyhash_3loc_s_def hash_crc32wyhash_3loc_fixed_s_def hash_crc32wyhash_3loc_call_def [abs_def] hash_crc32wyhash_3loc_fixed_call_def [abs_def]
  hash_crc32wyhash_4loc_s_def hash_crc32wyhash_4loc_fixed_s_def hash_crc32wyhash_4loc_call_def [abs_def] hash_crc32wyhash_4loc_fixed_call_def [abs_def]

section \<open>The contract\<close>

lemma crc32_wyhash_hardcode_total:
  assumes "unat len \<le> length p"
  shows "\<exists>h. crc32_wyhash_hardcode p len = Some h"
proof (cases "len > 56")
  case True
  then have "56 < unat len" by (simp add: word_less_nat_alt)
  with True assms show ?thesis by (simp add: crc32_wyhash_hardcode_def wyr8_def safe_reads Let_def)
next
  case False
  with assms show ?thesis using wyhash_total [of len p wyp 0] by (simp add: crc32_wyhash_hardcode_def)
qed

interpretation crc1: partial_hash 1 "\<lambda>ls. word_spans (take 1 ls)" "\<lambda>len e. ucast e \<le> len"
  "\<lambda>p len ls. crc32_wyhash_1loc_fixed p len ls 0" crcHash "\<lambda>p len ls. crc32_wyhash_1loc p len ls 0"
proof
  fix ls :: "u32 list" and p q :: bytes and len
  assume l: "1 \<le> length ls" and p: "spans_in (word_spans (take 1 ls)) (length p)"
  show "\<exists>h. crc32_wyhash_1loc_fixed p len ls 0 = Some h"
    using p by (simp add: take_spans(1) [OF l, simplified] crc32_wyhash_1loc_fixed_def nth_opt_le [OF _ l] wyr_defs safe_reads)
  assume "spans_in (word_spans (take 1 ls)) (length q)" "spans_agree (word_spans (take 1 ls)) p q"
  then show "crc32_wyhash_1loc_fixed p len ls 0 = crc32_wyhash_1loc_fixed q len ls 0"
    using p by (simp add: take_spans(1) [OF l, simplified] crc32_wyhash_1loc_fixed_def nth_opt_le [OF _ l] wyr_defs safe_reads)
qed (simp_all add: crcHash_total crc32_wyhash_1loc_def word_le_nat_alt unat_ucast_up)

interpretation crc2: partial_hash 2 "\<lambda>ls. word_spans (take 2 ls)" "\<lambda>len e. ucast e \<le> len"
  "\<lambda>p len ls. crc32_wyhash_2loc_fixed p len ls 0" crcHash "\<lambda>p len ls. crc32_wyhash_2loc p len ls 0"
proof
  fix ls :: "u32 list" and p q :: bytes and len
  assume l: "2 \<le> length ls" and p: "spans_in (word_spans (take 2 ls)) (length p)"
  show "\<exists>h. crc32_wyhash_2loc_fixed p len ls 0 = Some h"
    using p by (simp add: take_spans(2) [OF l] crc32_wyhash_2loc_fixed_def nth_opt_le [OF _ l] wyr_defs safe_reads)
  assume "spans_in (word_spans (take 2 ls)) (length q)" "spans_agree (word_spans (take 2 ls)) p q"
  then show "crc32_wyhash_2loc_fixed p len ls 0 = crc32_wyhash_2loc_fixed q len ls 0"
    using p by (simp add: take_spans(2) [OF l] crc32_wyhash_2loc_fixed_def nth_opt_le [OF _ l] wyr_defs safe_reads)
qed (simp_all add: crcHash_total crc32_wyhash_2loc_def word_le_nat_alt unat_ucast_up)

interpretation crc3: partial_hash 3 "\<lambda>ls. word_spans (take 3 ls)" "\<lambda>len e. ucast e \<le> len"
  "\<lambda>p len ls. crc32_wyhash_3loc_fixed p len ls 0" crcHash "\<lambda>p len ls. crc32_wyhash_3loc p len ls 0"
proof
  fix ls :: "u32 list" and p q :: bytes and len
  assume l: "3 \<le> length ls" and p: "spans_in (word_spans (take 3 ls)) (length p)"
  show "\<exists>h. crc32_wyhash_3loc_fixed p len ls 0 = Some h"
    using p by (simp add: take_spans(3) [OF l] crc32_wyhash_3loc_fixed_def nth_opt_le [OF _ l] wyr_defs safe_reads)
  assume "spans_in (word_spans (take 3 ls)) (length q)" "spans_agree (word_spans (take 3 ls)) p q"
  then show "crc32_wyhash_3loc_fixed p len ls 0 = crc32_wyhash_3loc_fixed q len ls 0"
    using p by (simp add: take_spans(3) [OF l] crc32_wyhash_3loc_fixed_def nth_opt_le [OF _ l] wyr_defs safe_reads)
qed (simp_all add: crcHash_total crc32_wyhash_3loc_def word_le_nat_alt unat_ucast_up)

interpretation crc4: partial_hash 4 "\<lambda>ls. word_spans (take 4 ls)" "\<lambda>len e. ucast e \<le> len"
  "\<lambda>p len ls. crc32_wyhash_4loc_fixed p len ls 0" crcHash "\<lambda>p len ls. crc32_wyhash_4loc p len ls 0"
proof
  fix ls :: "u32 list" and p q :: bytes and len
  assume l: "4 \<le> length ls" and p: "spans_in (word_spans (take 4 ls)) (length p)"
  show "\<exists>h. crc32_wyhash_4loc_fixed p len ls 0 = Some h"
    using p by (simp add: take_spans(4) [OF l] crc32_wyhash_4loc_fixed_def nth_opt_le [OF _ l] wyr_defs safe_reads)
  assume "spans_in (word_spans (take 4 ls)) (length q)" "spans_agree (word_spans (take 4 ls)) p q"
  then show "crc32_wyhash_4loc_fixed p len ls 0 = crc32_wyhash_4loc_fixed q len ls 0"
    using p by (simp add: take_spans(4) [OF l] crc32_wyhash_4loc_fixed_def nth_opt_le [OF _ l] wyr_defs safe_reads)
qed (simp_all add: crcHash_total crc32_wyhash_4loc_def word_le_nat_alt unat_ucast_up)

end
