(* ===== verification/Xxh_Common.thy ===== *)
theory Xxh_Common
  imports ELH_Prelude
begin

text \<open>
  What the hashes of include/hash/orig_xhash.hh share: the error code, rotations, byte
  swaps, the reads of both byte orders on a little-endian machine, and the bytes of a number in
  memory. A pointer is the list of the bytes from it on.
\<close>

datatype XXH_errorcode = XXH_OK | XXH_ERROR

definition XXH_rotl32 :: "u32 \<Rightarrow> nat \<Rightarrow> u32" where
  "XXH_rotl32 x r = shl x r OR shr x (32 - r)"

definition XXH_rotl64 :: "u64 \<Rightarrow> nat \<Rightarrow> u64" where
  "XXH_rotl64 x r = shl x r OR shr x (64 - r)"

definition XXH_swap32 :: "u32 \<Rightarrow> u32" where
  "XXH_swap32 x =
     (shl x 24 AND 0xff000000) OR
     (shl x 8 AND 0x00ff0000) OR
     (shr x 8 AND 0x0000ff00) OR
     (shr x 24 AND 0x000000ff)"

definition XXH_swap64 :: "u64 \<Rightarrow> u64" where
  "XXH_swap64 x =
     (shl x 56 AND 0xff00000000000000) OR
     (shl x 40 AND 0x00ff000000000000) OR
     (shl x 24 AND 0x0000ff0000000000) OR
     (shl x 8 AND 0x000000ff00000000) OR
     (shr x 8 AND 0x00000000ff000000) OR
     (shr x 24 AND 0x0000000000ff0000) OR
     (shr x 40 AND 0x000000000000ff00) OR
     (shr x 56 AND 0x00000000000000ff)"

definition XXH_readLE32 :: "bytes \<Rightarrow> nat \<Rightarrow> u32 option" where
  "XXH_readLE32 p off = read32 p off"

definition XXH_readBE32 :: "bytes \<Rightarrow> nat \<Rightarrow> u32 option" where
  "XXH_readBE32 p off = map_option XXH_swap32 (read32 p off)"

definition XXH_readLE64 :: "bytes \<Rightarrow> nat \<Rightarrow> u64 option" where
  "XXH_readLE64 p off = read64 p off"

definition XXH_readBE64 :: "bytes \<Rightarrow> nat \<Rightarrow> u64 option" where
  "XXH_readBE64 p off = map_option XXH_swap64 (read64 p off)"

lemmas xxh_read_defs = XXH_readLE32_def XXH_readBE32_def XXH_readLE64_def XXH_readBE64_def

text \<open>The \<open>n\<close> bytes of a number in memory, as \<open>memcpy(dst, &x, n)\<close> copies them.\<close>

primrec le_bytes :: "nat \<Rightarrow> 'a::len word \<Rightarrow> bytes" where
  "le_bytes 0 x = []"
| "le_bytes (Suc n) x = ucast x # le_bytes n (shr x 8)"

lemma length_le_bytes [simp]: "length (le_bytes n x) = n"
  by (induction n arbitrary: x) simp_all

lemma bit_le_word_le_bytes: "bit (le_word (le_bytes n (x :: 'a::len word)) :: 'a word) i \<longleftrightarrow> i < 8 * n \<and> bit x i"
proof (induction n arbitrary: x i)
  case (Suc n)
  show ?case
    by (auto simp: bit_or_iff bit_ucast_iff bit_push_bit_iff Suc.IH bit_drop_bit_eq
        dest: bit_imp_le_length)
qed simp

lemma le_word_le_bytes: "LENGTH('a::len) \<le> 8 * n \<Longrightarrow> le_word (le_bytes n (x :: 'a word)) = x"
  by (rule bit_word_eqI) (simp add: bit_le_word_le_bytes)

section \<open>Byte swaps\<close>

lemma swap32_masks:
  "(0xff000000 :: u32) = push_bit 24 (mask 8)" "(0x00ff0000 :: u32) = push_bit 16 (mask 8)"
  "(0x0000ff00 :: u32) = push_bit 8 (mask 8)" "(0x000000ff :: u32) = mask 8"
  by code_simp+

lemma swap64_masks:
  "(0xff00000000000000 :: u64) = push_bit 56 (mask 8)" "(0x00ff000000000000 :: u64) = push_bit 48 (mask 8)"
  "(0x0000ff0000000000 :: u64) = push_bit 40 (mask 8)" "(0x000000ff00000000 :: u64) = push_bit 32 (mask 8)"
  "(0x00000000ff000000 :: u64) = push_bit 24 (mask 8)" "(0x0000000000ff0000 :: u64) = push_bit 16 (mask 8)"
  "(0x000000000000ff00 :: u64) = push_bit 8 (mask 8)" "(0x00000000000000ff :: u64) = mask 8"
  by code_simp+

lemma bit_XXH_swap32: "i < 32 \<Longrightarrow> bit (XXH_swap32 x) i = bit x (8 * (3 - i div 8) + i mod 8)"
proof -
  assume i: "i < 32"
  define k r where kr: "k = i div 8" "r = i mod 8"
  have ir: "i = 8 * k + r" "r < 8" by (simp_all add: kr)
  consider "k = 0" | "k = 1" | "k = 2" | "k = 3" using i ir by linarith
  then show ?thesis unfolding kr [symmetric] using ir
    by cases (simp_all add: XXH_swap32_def swap32_masks bit_or_iff bit_and_iff bit_push_bit_iff
        bit_drop_bit_eq bit_mask_iff)
qed

lemma bit_XXH_swap64: "i < 64 \<Longrightarrow> bit (XXH_swap64 x) i = bit x (8 * (7 - i div 8) + i mod 8)"
proof -
  assume i: "i < 64"
  define k r where kr: "k = i div 8" "r = i mod 8"
  have ir: "i = 8 * k + r" "r < 8" by (simp_all add: kr)
  consider "k = 0" | "k = 1" | "k = 2" | "k = 3" | "k = 4" | "k = 5" | "k = 6" | "k = 7"
    using i ir by linarith
  then show ?thesis unfolding kr [symmetric] using ir
    by cases (simp_all add: XXH_swap64_def swap64_masks bit_or_iff bit_and_iff bit_push_bit_iff
        bit_drop_bit_eq bit_mask_iff)
qed

lemma XXH_swap32_swap32 [simp]: "XXH_swap32 (XXH_swap32 x) = x"
proof (rule bit_word_eqI)
  fix i assume "i < LENGTH(32)"
  then have i: "i < 32" by simp
  then have k: "i div 8 \<le> 3" by linarith
  have j: "8 * (3 - i div 8) + i mod 8 < 32" by linarith
  have "8 * (3 - (8 * (3 - i div 8) + i mod 8) div 8) + (8 * (3 - i div 8) + i mod 8) mod 8 = i"
    using k by simp
  then show "bit (XXH_swap32 (XXH_swap32 x)) i = bit x i" by (simp add: bit_XXH_swap32 i j)
qed

lemma XXH_swap64_swap64 [simp]: "XXH_swap64 (XXH_swap64 x) = x"
proof (rule bit_word_eqI)
  fix i assume "i < LENGTH(64)"
  then have i: "i < 64" by simp
  then have k: "i div 8 \<le> 7" by linarith
  have j: "8 * (7 - i div 8) + i mod 8 < 64" by linarith
  have "8 * (7 - (8 * (7 - i div 8) + i mod 8) div 8) + (8 * (7 - i div 8) + i mod 8) mod 8 = i"
    using k by simp
  then show "bit (XXH_swap64 (XXH_swap64 x)) i = bit x i" by (simp add: bit_XXH_swap64 i j)
qed

lemma nth_le_bytes: "k < n \<Longrightarrow> le_bytes n x ! k = ucast (shr x (8 * k))"
proof (induction n arbitrary: x k)
  case (Suc n)
  then show ?case by (cases k) (simp_all add: drop_bit_drop_bit add.commute)
qed simp

text \<open>In memory, a swapped number is the number with its bytes in the opposite order.\<close>

lemma le_bytes_swap64: "le_bytes 8 (XXH_swap64 h) = rev (le_bytes 8 h)"
proof (rule nth_equalityI)
  fix k assume "k < length (le_bytes 8 (XXH_swap64 h))"
  then have k: "k < 8" by simp
  have "(ucast (shr (XXH_swap64 h) (8 * k)) :: u8) = ucast (shr h (8 * (7 - k)))"
    by (rule bit_word_eqI) (use k in \<open>simp add: bit_ucast_iff bit_drop_bit_eq bit_XXH_swap64\<close>)
  then show "le_bytes 8 (XXH_swap64 h) ! k = rev (le_bytes 8 h) ! k"
    using k by (simp add: nth_le_bytes rev_nth)
qed simp

lemma le_bytes_swap32: "le_bytes 4 (XXH_swap32 h) = rev (le_bytes 4 h)"
proof (rule nth_equalityI)
  fix k assume "k < length (le_bytes 4 (XXH_swap32 h))"
  then have k: "k < 4" by simp
  have "(ucast (shr (XXH_swap32 h) (8 * k)) :: u8) = ucast (shr h (8 * (3 - k)))"
    by (rule bit_word_eqI) (use k in \<open>simp add: bit_ucast_iff bit_drop_bit_eq bit_XXH_swap32\<close>)
  then show "le_bytes 4 (XXH_swap32 h) ! k = rev (le_bytes 4 h) ! k"
    using k by (simp add: nth_le_bytes rev_nth)
qed simp

end
