(* ===== verification/Stripe_Stream.thy ===== *)
theory Stripe_Stream
  imports ELH_Prelude
begin

text \<open>
  Hashing a byte stream in stripes of a fixed width, as XXH32 and XXH64 do (include/hash/orig_xhash.hh):
  the loop that consumes the whole stripes of a buffer, and the algebra that relates
  consuming a stream piece by piece, with the bytes of an unfinished stripe kept in a buffer, to
  consuming it at once. Here a pointer is the list of the bytes from it on, and advancing it is
  \<open>drop\<close>.
\<close>

section \<open>The loop\<close>

text \<open>
  \<open>do { acc = eat(p, acc); p += W; } while (p <= bEnd - W);\<close> with \<open>n\<close> bytes left at \<open>p\<close>. The model answers
  the pointer, the bytes left and the accumulators after the loop.
\<close>

function stripe_loop :: "nat \<Rightarrow> (bytes \<Rightarrow> 'a \<Rightarrow> 'a option) \<Rightarrow> bytes \<Rightarrow> nat \<Rightarrow> 'a \<Rightarrow> (bytes \<times> nat \<times> 'a) option" where
  "stripe_loop W eat p n acc = do {
     acc \<leftarrow> eat p acc;
     if 0 < W \<and> W \<le> n - W then stripe_loop W eat (drop W p) (n - W) acc
     else Some (drop W p, n - W, acc)
   }"
  by pat_completeness auto
termination by (relation "measure (\<lambda>(W, eat, p, n, acc). n)") auto

declare stripe_loop.simps [simp del]

section \<open>The state of a stream\<close>

text \<open>
  The part of a streaming state that the hashes share: the accumulators, a buffer of one stripe and the number
  of its bytes in use. The states of XXH32 and XXH64 extend it by their counts of the bytes hashed.
\<close>

record 'a stripe_state =
  lanes :: 'a
  smem :: bytes
  smemsize :: u32

text \<open>
  \<open>memcpy\<close> of \<open>n\<close> bytes of \<open>src\<close> into a buffer at \<open>off\<close>: undefined when either is too short.
\<close>

definition mem_copy :: "bytes \<Rightarrow> nat \<Rightarrow> bytes \<Rightarrow> nat \<Rightarrow> bytes option" where
  "mem_copy dst off src n =
     (if off + n \<le> length dst \<and> n \<le> length src
      then Some (take off dst @ take n src @ drop (off + n) dst) else None)"

text \<open>
  The parts of an update, with \<open>n\<close> bytes left at \<open>p\<close>: the buffer is filled and consumed, the whole
  stripes are consumed, and what is left is kept; unless all of the new bytes fit the buffer.
\<close>

definition stripe_fill :: "nat \<Rightarrow> (bytes \<Rightarrow> 'a \<Rightarrow> 'a option) \<Rightarrow> ('a, 'b) stripe_state_scheme \<Rightarrow> bytes \<Rightarrow> nat \<Rightarrow>
    (('a, 'b) stripe_state_scheme \<times> bytes \<times> nat) option" where
  "stripe_fill W eat st p n =
     (if smemsize st \<noteq> 0 then do {
        let k = W - unat (smemsize st);
        mem \<leftarrow> mem_copy (smem st) (unat (smemsize st)) p k;
        v \<leftarrow> eat mem (lanes st);
        Some (st\<lparr>smem := mem, lanes := v, smemsize := 0\<rparr>, drop k p, n - k)
      } else Some (st, p, n))"

definition stripe_consume :: "nat \<Rightarrow> (bytes \<Rightarrow> 'a \<Rightarrow> 'a option) \<Rightarrow> ('a, 'b) stripe_state_scheme \<Rightarrow> bytes \<Rightarrow> nat \<Rightarrow>
    (('a, 'b) stripe_state_scheme \<times> bytes \<times> nat) option" where
  "stripe_consume W eat st p n =
     (if W \<le> n then do {
        (p, n, v) \<leftarrow> stripe_loop W eat p n (lanes st);
        Some (st\<lparr>lanes := v\<rparr>, p, n)
      } else Some (st, p, n))"

definition stripe_keep :: "('a, 'b) stripe_state_scheme \<Rightarrow> bytes \<Rightarrow> nat \<Rightarrow> ('a, 'b) stripe_state_scheme option" where
  "stripe_keep st p n =
     (if 0 < n then do {
        mem \<leftarrow> mem_copy (smem st) 0 p n;
        Some (st\<lparr>smem := mem, smemsize := of_nat n\<rparr>)
      } else Some st)"

definition stripe_update :: "nat \<Rightarrow> (bytes \<Rightarrow> 'a \<Rightarrow> 'a option) \<Rightarrow> ('a, 'b) stripe_state_scheme \<Rightarrow> bytes \<Rightarrow> u64 \<Rightarrow>
    ('a, 'b) stripe_state_scheme option" where
  "stripe_update W eat st p len =
     (if ucast (smemsize st) + len < of_nat W then do {
        mem \<leftarrow> mem_copy (smem st) (unat (smemsize st)) p (unat len);
        Some (st\<lparr>smem := mem, smemsize := smemsize st + ucast len\<rparr>)
      } else do {
        (st, p, n) \<leftarrow> stripe_fill W eat st p (unat len);
        (st, p, n) \<leftarrow> stripe_consume W eat st p n;
        stripe_keep st p n
      })"

section \<open>Whole stripes\<close>

function absorb :: "nat \<Rightarrow> ('a \<Rightarrow> bytes \<Rightarrow> 'a) \<Rightarrow> 'a \<Rightarrow> bytes \<Rightarrow> 'a" where
  "absorb W mix acc bs =
     (if 0 < W \<and> W \<le> length bs then absorb W mix (mix acc (take W bs)) (drop W bs) else acc)"
  by pat_completeness auto
termination by (relation "measure (\<lambda>(W, mix, acc, bs). length bs)") auto

declare absorb.simps [simp del]

definition residue :: "nat \<Rightarrow> bytes \<Rightarrow> bytes" where
  "residue W bs = drop (length bs - length bs mod W) bs"

lemma length_residue [simp]: "length (residue W bs) = length bs mod W"
  by (simp add: residue_def)

lemma absorb_short: "length bs < W \<Longrightarrow> absorb W mix acc bs = acc"
  by (simp add: absorb.simps)

lemma absorb_step:
  "0 < W \<Longrightarrow> W \<le> length bs \<Longrightarrow> absorb W mix acc bs = absorb W mix (mix acc (take W bs)) (drop W bs)"
  by (subst absorb.simps) simp

lemma residue_short [simp]: "length bs < W \<Longrightarrow> residue W bs = bs"
  by (simp add: residue_def)

lemma residue_step:
  assumes "W \<le> length bs"
  shows "residue W (drop W bs) = residue W bs"
proof -
  have m: "(length bs - W) mod W = length bs mod W" using assms by (simp add: le_mod_geq)
  have "length bs mod W \<le> length bs - W"
    using mod_less_eq_dividend [of "length bs - W" W] unfolding m .
  then show ?thesis using assms by (simp add: residue_def m)
qed

text \<open>Consuming \<open>d @ x\<close> is consuming \<open>d\<close>, and then its unfinished stripe followed by \<open>x\<close>.\<close>

lemma absorb_append:
  assumes "0 < W"
  shows "absorb W mix acc (d @ x) = absorb W mix (absorb W mix acc d) (residue W d @ x)"
proof (induction "length d" arbitrary: d acc rule: less_induct)
  case less
  show ?case
  proof (cases "W \<le> length d")
    case True
    then have "absorb W mix acc (d @ x) = absorb W mix (mix acc (take W d)) (drop W d @ x)"
      using assms by (simp add: absorb_step)
    also have "\<dots> = absorb W mix (absorb W mix (mix acc (take W d)) (drop W d)) (residue W (drop W d) @ x)"
      using True assms by (intro less) simp
    finally show ?thesis using True assms by (simp add: residue_step absorb_step [of W d])
  qed (simp add: absorb_short)
qed

lemma residue_append:
  assumes "0 < W"
  shows "residue W (d @ x) = residue W (residue W d @ x)"
proof (induction "length d" arbitrary: d rule: less_induct)
  case less
  show ?case
  proof (cases "W \<le> length d")
    case True
    then have "residue W (d @ x) = residue W (drop W d @ x)"
      using residue_step [of W "d @ x"] by simp
    also have "\<dots> = residue W (residue W (drop W d) @ x)" using True assms by (intro less) simp
    finally show ?thesis using True by (simp add: residue_step)
  qed simp
qed

text \<open>The state after the bytes \<open>d\<close>: their whole stripes, and the unfinished one.\<close>

definition stripe_rep :: "nat \<Rightarrow> ('a \<Rightarrow> bytes \<Rightarrow> 'a) \<Rightarrow> 'a \<Rightarrow> bytes \<Rightarrow> ('a, 'b) stripe_state_scheme \<Rightarrow> bool" where
  "stripe_rep W mix init d st \<longleftrightarrow> lanes st = absorb W mix init d \<and>
     length (smem st) = W \<and> smemsize st = of_nat (length d mod W) \<and>
     take (length d mod W) (smem st) = residue W d"

section \<open>The contract of a stripe reader\<close>

locale stripe_reader =
  fixes W :: nat and mix :: "'a \<Rightarrow> bytes \<Rightarrow> 'a" and eat :: "bytes \<Rightarrow> 'a \<Rightarrow> 'a option"
  assumes W_pos: "0 < W" and W_small: "W < 2 ^ 32"
    and eat_in: "W \<le> length p \<Longrightarrow> eat p acc = Some (mix acc (take W p))"
begin

text \<open>
  The loop consumes every whole stripe of the \<open>n\<close> bytes, reads nothing else, ends, and leaves the
  pointer at the unfinished one.
\<close>

lemma stripe_loop_eq:
  assumes "W \<le> n" "n \<le> length p"
  shows "stripe_loop W eat p n acc = Some (drop (n - n mod W) p, n mod W, absorb W mix acc (take n p))"
  using assms
proof (induction n arbitrary: p acc rule: less_induct)
  case (less n)
  have e: "eat p acc = Some (mix acc (take W p))" using less.prems by (intro eat_in) simp
  have a: "absorb W mix acc (take n p) = absorb W mix (mix acc (take W p)) (take (n - W) (drop W p))"
    using less.prems W_pos by (subst absorb_step) (simp_all add: drop_take min_def)
  have m: "(n - W) mod W = n mod W" using less.prems(1) by (simp add: le_mod_geq)
  show ?case
  proof (cases "W \<le> n - W")
    case True
    have "n - n mod W = W + (n - W - n mod W)"
    proof -
      have "n mod W < W" using W_pos by simp
      then show ?thesis using True by linarith
    qed
    then have d: "drop (n - W - n mod W) (drop W p) = drop (n - n mod W) p"
      by (simp add: drop_drop add.commute)
    have "stripe_loop W eat p n acc = stripe_loop W eat (drop W p) (n - W) (mix acc (take W p))"
      using True W_pos by (subst stripe_loop.simps) (simp add: e)
    also have "\<dots> = Some (drop (n - W - n mod W) (drop W p), n mod W,
        absorb W mix (mix acc (take W p)) (take (n - W) (drop W p)))"
      using less.IH [of "n - W" "drop W p"] True less.prems W_pos m by simp
    finally show ?thesis by (simp only: d a)
  next
    case False
    then have "n mod W = n - W" using less.prems(1) m by (metis mod_less not_le)
    with False less.prems show ?thesis
      by (subst stripe_loop.simps) (simp add: e a absorb_short)
  qed
qed

lemma stripe_loop_residue:
  assumes "W \<le> n" "n \<le> length p"
  shows "stripe_loop W eat p n acc = Some (drop (n - n mod W) p, n mod W, absorb W mix acc (take n p))"
    "take (n mod W) (drop (n - n mod W) p) = residue W (take n p)"
  using stripe_loop_eq [OF assms] assms by (simp_all add: residue_def drop_take)

text \<open>
  The parts of an update, for a state whose accumulators are those of \<open>st\<close> and whose buffer
  starts with \<open>r\<close>: together they consume \<open>r\<close> and the new bytes.
\<close>

lemma stripe_fill_eq:
  assumes "length (smem st) = W" "smemsize st = of_nat m" "m < W" "take m (smem st) = r"
    "n \<le> length p" "W \<le> m + n"
  shows "\<exists>st' q k. stripe_fill W eat st p n = Some (st', q, k) \<and> stripe_state.more st' = stripe_state.more st \<and>
    length (smem st') = W \<and> smemsize st' = 0 \<and> k \<le> length q \<and> k mod W = (m + n) mod W \<and>
    absorb W mix (lanes st') (take k q) = absorb W mix (lanes st) (r @ take n p) \<and>
    residue W (take k q) = residue W (r @ take n p)"
proof (cases "m = 0")
  case True
  then show ?thesis using assms by (simp add: stripe_fill_def)
next
  case False
  have m: "unat (smemsize st) = m"
    unfolding assms(2) using less_trans [OF assms(3) W_small] by (intro unat_of_nat_small) simp
  then have nz: "smemsize st \<noteq> 0" using False by auto
  have r: "length r = m" using assms(1,3,4) by auto
  let ?mem = "r @ take (W - m) p"
  have c: "mem_copy (smem st) m p (W - m) = Some ?mem"
    using assms by (auto simp: mem_copy_def)
  have l: "length ?mem = W" using r assms by simp
  have e: "eat ?mem (lanes st) = Some (mix (lanes st) ?mem)"
    using eat_in [of ?mem "lanes st"] l r by simp
  have kn: "W - m \<le> n" using assms(6) by simp
  have t: "take W (r @ take n p) = ?mem" "drop W (r @ take n p) = take (n - (W - m)) (drop (W - m) p)"
    "W \<le> length (r @ take n p)"
    using r assms kn by (simp_all add: drop_take min_absorb1)
  have k: "(n - (W - m)) mod W = (m + n) mod W"
    using assms by (metis add_diff_cancel_left' diff_diff_right le_mod_geq less_imp_le_nat add.commute)
  let ?st = "st\<lparr>smem := ?mem, lanes := mix (lanes st) ?mem, smemsize := 0\<rparr>"
  have f: "stripe_fill W eat st p n = Some (?st, drop (W - m) p, n - (W - m))"
    unfolding stripe_fill_def m Let_def using nz c e by simp
  have a: "absorb W mix (lanes st) (r @ take n p) =
      absorb W mix (mix (lanes st) ?mem) (take (n - (W - m)) (drop (W - m) p))"
    using absorb_step [OF W_pos t(3), of mix "lanes st"] unfolding t .
  have d: "residue W (take (n - (W - m)) (drop (W - m) p)) = residue W (r @ take n p)"
    using residue_step [OF t(3)] unfolding t .
  show ?thesis
    by (intro exI [of _ ?st] exI [of _ "drop (W - m) p"] exI [of _ "n - (W - m)"] conjI f)
      (use l k a d diff_le_mono [OF assms(5)] in simp_all)
qed

lemma stripe_consume_eq:
  assumes "n \<le> length p"
  shows "\<exists>q. stripe_consume W eat st p n =
      Some (st\<lparr>lanes := absorb W mix (lanes st) (take n p)\<rparr>, q, n mod W) \<and>
    n mod W \<le> length q \<and> take (n mod W) q = residue W (take n p)"
proof (cases "W \<le> n")
  case True
  show ?thesis using True assms stripe_loop_residue [OF True assms]
    by (simp add: stripe_consume_def)
next
  case False
  then show ?thesis using assms by (simp add: stripe_consume_def absorb_short)
qed

lemma stripe_keep_eq:
  assumes "length (smem st) = W" "smemsize st = 0" "n < W" "n \<le> length p"
  shows "\<exists>mem. stripe_keep st p n = Some (st\<lparr>smem := mem, smemsize := of_nat n\<rparr>) \<and>
    length mem = W \<and> take n mem = take n p"
proof (cases "n = 0")
  case True
  then show ?thesis using assms
    by (intro exI [of _ "smem st"]) (cases st, simp add: stripe_keep_def)
next
  case False
  then show ?thesis using assms
    by (intro exI [of _ "take n p @ drop n (smem st)"]) (simp add: stripe_keep_def mem_copy_def)
qed

lemma unat_mod_W: "unat (of_nat (n mod W) :: u32) = n mod W"
  using less_trans [OF mod_less_divisor [OF W_pos] W_small] by (intro unat_of_nat_small) simp

lemma stripe_rep_update:
  assumes "stripe_rep W mix init d st" "unat len \<le> length p" "length d + unat len < 2 ^ 64"
  shows "\<exists>st'. stripe_update W eat st p len = Some st' \<and> stripe_state.more st' = stripe_state.more st \<and>
    stripe_rep W mix init (d @ take (unat len) p) st'"
proof -
  let ?n = "unat len" and ?x = "take (unat len) p" and ?m = "length d mod W"
  have R: "lanes st = absorb W mix init d"
    "length (smem st) = W" "smemsize st = of_nat ?m" "take ?m (smem st) = residue W d"
    using assms(1) by (simp_all add: stripe_rep_def)
  have m: "unat (smemsize st) = ?m" unfolding R(3) by (rule unat_mod_W)
  have mW: "?m < W" using W_pos by simp
  have lm: "(length (d @ ?x)) mod W = (?m + ?n) mod W" using assms(2) by (simp add: mod_add_left_eq)
  have u: "unat (ucast (smemsize st) + len :: u64) = ?m + ?n"
  proof -
    have "?m + ?n < 2 ^ 64" using assms(3) mod_less_eq_dividend [of "length d" W] by linarith
    then show ?thesis by (simp add: unat_word_ariths unat_ucast_up m)
  qed
  have uW: "unat (of_nat W :: u64) = W" using W_small by (intro unat_of_nat_small) simp
  show ?thesis
  proof (cases "?m + ?n < W")
    case True
    then have "ucast (smemsize st) + len < of_nat W" by (simp add: word_less_nat_alt u uW)
    moreover have "mem_copy (smem st) ?m p ?n = Some (residue W d @ ?x @ drop (?m + ?n) (smem st))"
      using True R assms(2) by (simp add: mem_copy_def)
    moreover have "length (residue W d @ ?x) < W" using True assms(2) by simp
    moreover have "smemsize st + ucast len = of_nat (?m + ?n)"
      unfolding R(3) of_nat_add by (simp add: of_nat_unat)
    ultimately show ?thesis using True R lm m assms(2) W_pos
      by (simp add: stripe_update_def stripe_rep_def absorb_append residue_append [of W d] absorb_short)
  next
    case False
    then have nl: "\<not> ucast (smemsize st) + len < of_nat W" by (simp add: word_less_nat_alt u uW)
    obtain st1 q k where 1: "stripe_fill W eat st p ?n = Some (st1, q, k)"
      "stripe_state.more st1 = stripe_state.more st"
      "length (smem st1) = W" "smemsize st1 = 0" "k \<le> length q" "k mod W = (?m + ?n) mod W"
      "absorb W mix (lanes st1) (take k q) = absorb W mix (lanes st) (residue W d @ ?x)"
      "residue W (take k q) = residue W (residue W d @ ?x)"
      using stripe_fill_eq [OF R(2,3) mW R(4) assms(2)] False by auto
    obtain q' where 2: "stripe_consume W eat st1 q k =
        Some (st1\<lparr>lanes := absorb W mix (lanes st1) (take k q)\<rparr>, q', k mod W)"
      "k mod W \<le> length q'" "take (k mod W) q' = residue W (take k q)"
      using stripe_consume_eq [OF 1(5), of st1] by blast
    define st2 where "st2 = st1\<lparr>lanes := absorb W mix (lanes st1) (take k q)\<rparr>"
    have kW: "k mod W < W" using W_pos by simp
    obtain mem where 3: "stripe_keep st2 q' (k mod W) =
        Some (st2\<lparr>smem := mem, smemsize := of_nat (k mod W)\<rparr>)"
      "length mem = W" "take (k mod W) mem = take (k mod W) q'"
      using stripe_keep_eq [of st2 "k mod W" q', OF _ _ kW 2(2)] 1(3,4) by (auto simp: st2_def)
    have "stripe_update W eat st p len = Some (st2\<lparr>smem := mem, smemsize := of_nat (k mod W)\<rparr>)"
      using nl 1(1) 2(1) 3(1) by (simp add: stripe_update_def st2_def)
    moreover have "stripe_rep W mix init (d @ ?x) (st2\<lparr>smem := mem, smemsize := of_nat (k mod W)\<rparr>)"
      unfolding stripe_rep_def lm using 1(6-8) 2(3) 3(2,3) R(1) W_pos
      by (simp add: st2_def absorb_append [of W _ _ d] residue_append [of W d])
    moreover have "stripe_state.more (st2\<lparr>smem := mem, smemsize := of_nat (k mod W)\<rparr>) = stripe_state.more st"
      using 1(2) by (simp add: st2_def)
    ultimately show ?thesis by blast
  qed
qed

end

end
