(* ===== verification/XXH64_Hash.thy ===== *)
theory XXH64_Hash
  imports Xxh_Common Stripe_Stream
begin

text \<open>
  XXH64 (include/hash/orig_xhash.hh): the hash of a whole buffer, the streaming interface
  (reset, update, digest) and the canonical form of a hash. The main theorem is that streaming a
  buffer in any pieces gives the hash of the whole.
\<close>

section \<open>Rounds\<close>

definition XXH_PRIME64_1 :: u64 where "XXH_PRIME64_1 = 0x9E3779B185EBCA87"
definition XXH_PRIME64_2 :: u64 where "XXH_PRIME64_2 = 0xC2B2AE3D27D4EB4F"
definition XXH_PRIME64_3 :: u64 where "XXH_PRIME64_3 = 0x165667B19E3779F9"
definition XXH_PRIME64_4 :: u64 where "XXH_PRIME64_4 = 0x85EBCA77C2B2AE63"
definition XXH_PRIME64_5 :: u64 where "XXH_PRIME64_5 = 0x27D4EB2F165667C5"

definition XXH64_round :: "u64 \<Rightarrow> u64 \<Rightarrow> u64" where
  "XXH64_round acc input = XXH_rotl64 (acc + input * XXH_PRIME64_2) 31 * XXH_PRIME64_1"

definition XXH64_mergeRound :: "u64 \<Rightarrow> u64 \<Rightarrow> u64" where
  "XXH64_mergeRound acc val = (acc XOR XXH64_round 0 val) * XXH_PRIME64_1 + XXH_PRIME64_4"

definition XXH64_avalanche :: "u64 \<Rightarrow> u64" where
  "XXH64_avalanche h64 =
     (let h64 = h64 XOR shr h64 33;
          h64 = h64 * XXH_PRIME64_2;
          h64 = h64 XOR shr h64 29;
          h64 = h64 * XXH_PRIME64_3
      in h64 XOR shr h64 32)"

text \<open>The three loops of the last bytes, with \<open>len\<close> of them left at \<open>ptr\<close>.\<close>

function XXH64_tail8 :: "u64 \<Rightarrow> bytes \<Rightarrow> nat \<Rightarrow> (u64 \<times> bytes \<times> nat) option" where
  "XXH64_tail8 h64 ptr len =
     (if len \<ge> 8 then do {
        w \<leftarrow> XXH_readLE64 ptr 0;
        let h64 = XXH_rotl64 (h64 XOR XXH64_round 0 w) 27 * XXH_PRIME64_1 + XXH_PRIME64_4;
        XXH64_tail8 h64 (drop 8 ptr) (len - 8)
      } else Some (h64, ptr, len))"
  by pat_completeness auto
termination by (relation "measure (\<lambda>(h64, ptr, len). len)") auto

definition XXH64_tail4 :: "u64 \<Rightarrow> bytes \<Rightarrow> nat \<Rightarrow> (u64 \<times> bytes \<times> nat) option" where
  "XXH64_tail4 h64 ptr len =
     (if len \<ge> 4 then do {
        w \<leftarrow> XXH_readLE32 ptr 0;
        let h64 = h64 XOR ucast w * XXH_PRIME64_1;
        Some (XXH_rotl64 h64 23 * XXH_PRIME64_2 + XXH_PRIME64_3, drop 4 ptr, len - 4)
      } else Some (h64, ptr, len))"

fun XXH64_tail1 :: "u64 \<Rightarrow> bytes \<Rightarrow> nat \<Rightarrow> u64 option" where
  "XXH64_tail1 h64 ptr 0 = Some h64"
| "XXH64_tail1 h64 ptr (Suc len) = do {
     b \<leftarrow> read8 ptr 0;
     let h64 = h64 XOR ucast b * XXH_PRIME64_5;
     XXH64_tail1 (XXH_rotl64 h64 11 * XXH_PRIME64_1) (drop 1 ptr) len
   }"

definition XXH64_finalize :: "u64 \<Rightarrow> bytes \<Rightarrow> u64 \<Rightarrow> u64 option" where
  "XXH64_finalize h64 ptr len = do {
     (h64, ptr, n) \<leftarrow> XXH64_tail8 h64 ptr (unat (len AND 31));
     (h64, ptr, n) \<leftarrow> XXH64_tail4 h64 ptr n;
     h64 \<leftarrow> XXH64_tail1 h64 ptr n;
     Some (XXH64_avalanche h64)
   }"

section \<open>The hash of a buffer\<close>

type_synonym lanes64 = "u64 \<times> u64 \<times> u64 \<times> u64"

definition XXH64_init :: "u64 \<Rightarrow> lanes64" where
  "XXH64_init seed = (seed + XXH_PRIME64_1 + XXH_PRIME64_2, seed + XXH_PRIME64_2, seed + 0, seed - XXH_PRIME64_1)"

fun XXH64_eat :: "bytes \<Rightarrow> lanes64 \<Rightarrow> lanes64 option" where
  "XXH64_eat p (v1, v2, v3, v4) = do {
     w1 \<leftarrow> XXH_readLE64 p 0; w2 \<leftarrow> XXH_readLE64 p 8;
     w3 \<leftarrow> XXH_readLE64 p 16; w4 \<leftarrow> XXH_readLE64 p 24;
     Some (XXH64_round v1 w1, XXH64_round v2 w2, XXH64_round v3 w3, XXH64_round v4 w4)
   }"

fun XXH64_merge :: "lanes64 \<Rightarrow> u64" where
  "XXH64_merge (v1, v2, v3, v4) =
     (let h64 = XXH_rotl64 v1 1 + XXH_rotl64 v2 7 + XXH_rotl64 v3 12 + XXH_rotl64 v4 18;
          h64 = XXH64_mergeRound h64 v1;
          h64 = XXH64_mergeRound h64 v2;
          h64 = XXH64_mergeRound h64 v3
      in XXH64_mergeRound h64 v4)"

definition XXH64_endian_align :: "bytes \<Rightarrow> u64 \<Rightarrow> u64 \<Rightarrow> u64 option" where
  "XXH64_endian_align input len seed = do {
     (h64, input) \<leftarrow>
       (if len \<ge> 32 then do {
          (input, _, v) \<leftarrow> stripe_loop 32 XXH64_eat input (unat len) (XXH64_init seed);
          Some (XXH64_merge v, input)
        } else Some (seed + XXH_PRIME64_5, input));
     XXH64_finalize (h64 + len) input len
   }"

definition XXH64 :: "bytes \<Rightarrow> u64 \<Rightarrow> u64 \<Rightarrow> u64 option" where
  "XXH64 input len seed = XXH64_endian_align input len seed"

section \<open>Streaming\<close>

record XXH64_state = "lanes64 stripe_state" +
  total_len :: u64

definition XXH64_reset :: "u64 \<Rightarrow> XXH_errorcode \<times> XXH64_state" where
  "XXH64_reset seed =
     (XXH_OK, \<lparr>lanes = XXH64_init seed, smem = replicate 32 0, smemsize = 0, total_len = 0\<rparr>)"

definition XXH64_update :: "XXH64_state \<Rightarrow> bytes option \<Rightarrow> u64 \<Rightarrow> (XXH_errorcode \<times> XXH64_state) option" where
  "XXH64_update st input len =
     (case input of
        None \<Rightarrow> Some (XXH_ERROR, st)
      | Some p \<Rightarrow> do {
          let st = st\<lparr>total_len := total_len st + len\<rparr>;
          st \<leftarrow> stripe_update 32 XXH64_eat st p len;
          Some (XXH_OK, st)
        })"

definition XXH64_digest :: "XXH64_state \<Rightarrow> u64 option" where
  "XXH64_digest st =
     (let h64 = (if total_len st \<ge> 32 then XXH64_merge (lanes st)
                 else fst (snd (snd (lanes st))) + XXH_PRIME64_5)
      in XXH64_finalize (h64 + total_len st) (smem st) (total_len st))"

section \<open>Canonical form\<close>

definition XXH64_canonicalFromHash :: "u64 \<Rightarrow> bytes" where
  "XXH64_canonicalFromHash hash = le_bytes 8 (XXH_swap64 hash)"

definition XXH64_hashFromCanonical :: "bytes \<Rightarrow> u64 option" where
  "XXH64_hashFromCanonical src = XXH_readBE64 src 0"

section \<open>Reads of the last bytes\<close>

declare XXH64_tail8.simps [simp del]

text \<open>
  Each part reads at most the bytes that are left, so it ends and answers the same when the
  buffer is cut behind them.
\<close>

lemma XXH64_tail8_total:
  "len \<le> length ptr \<Longrightarrow> \<exists>h q m. XXH64_tail8 h64 ptr len = Some (h, q, m) \<and> m \<le> length q \<and> m < 8"
proof (induction len arbitrary: ptr h64 rule: less_induct)
  case (less len)
  show ?case
  proof (cases "len \<ge> 8")
    case True
    show ?thesis
      using less.IH [of "len - 8" "drop 8 ptr"] True less.prems
      by (subst XXH64_tail8.simps) (simp add: xxh_read_defs safe_reads Let_def)
  next
    case False
    then show ?thesis using less.prems by (subst XXH64_tail8.simps) auto
  qed
qed

lemma XXH64_tail8_take:
  "len \<le> length ptr \<Longrightarrow>
     XXH64_tail8 h64 (take len ptr) len = map_option (\<lambda>(h, q, m). (h, take m q, m)) (XXH64_tail8 h64 ptr len)"
proof (induction len arbitrary: ptr h64 rule: less_induct)
  case (less len)
  have t: "drop 8 (take len ptr) = take (len - 8) (drop 8 ptr)" by (simp add: drop_take)
  have r: "read64 (take len ptr) 0 = read64 ptr 0" if "8 \<le> len" using that by (simp add: read64_take)
  show ?case
    using less.IH [of "len - 8" "drop 8 ptr"] less.prems
    by (subst (1 2) XXH64_tail8.simps) (simp add: xxh_read_defs r t Let_def safe_reads window_take)
qed

lemma XXH64_tail4_total:
  "len \<le> length ptr \<Longrightarrow> \<exists>h q m. XXH64_tail4 h64 ptr len = Some (h, q, m) \<and> m \<le> length q"
  by (cases "4 \<le> len") (simp_all add: XXH64_tail4_def xxh_read_defs safe_reads Let_def)

lemma XXH64_tail4_take:
  "len \<le> length ptr \<Longrightarrow>
     XXH64_tail4 h64 (take len ptr) len = map_option (\<lambda>(h, q, m). (h, take m q, m)) (XXH64_tail4 h64 ptr len)"
  by (cases "4 \<le> len")
    (simp_all add: XXH64_tail4_def xxh_read_defs safe_reads Let_def window_take drop_take)

lemma XXH64_tail1_total: "len \<le> length ptr \<Longrightarrow> \<exists>h. XXH64_tail1 h64 ptr len = Some h"
  by (induction len arbitrary: ptr h64) (auto simp: read8_def Let_def)

lemma XXH64_tail1_take: "len \<le> length ptr \<Longrightarrow> XXH64_tail1 h64 (take len ptr) len = XXH64_tail1 h64 ptr len"
proof (induction len arbitrary: ptr h64)
  case (Suc len)
  then have "drop 1 (take (Suc len) ptr) = take len (drop 1 ptr)" by (simp add: drop_take)
  with Suc show ?case by (simp add: read8_take Let_def)
qed simp

lemma unat_and_31: "unat (len AND 31 :: u64) = unat len mod 32"
proof -
  have "(31 :: u64) = mask 5" by (simp add: mask_eq_exp_minus_1)
  then show ?thesis using unat_and_mask [of len 5] by simp
qed

lemma XXH64_finalize_total:
  assumes "unat len mod 32 \<le> length ptr"
  shows "\<exists>h. XXH64_finalize h64 ptr len = Some h"
proof -
  obtain h q m where 1: "XXH64_tail8 h64 ptr (unat len mod 32) = Some (h, q, m)" "m \<le> length q"
    using XXH64_tail8_total [OF assms] by blast
  obtain h' q' m' where 2: "XXH64_tail4 h q m = Some (h', q', m')" "m' \<le> length q'"
    using XXH64_tail4_total [OF 1(2)] by blast
  show ?thesis using 1 2 XXH64_tail1_total [OF 2(2), of h']
    by (auto simp: XXH64_finalize_def unat_and_31)
qed

lemma XXH64_finalize_take:
  assumes "unat len mod 32 \<le> length ptr"
  shows "XXH64_finalize h64 (take (unat len mod 32) ptr) len = XXH64_finalize h64 ptr len"
proof -
  obtain h q m where 1: "XXH64_tail8 h64 ptr (unat len mod 32) = Some (h, q, m)" "m \<le> length q"
    using XXH64_tail8_total [OF assms] by blast
  obtain h' q' m' where 2: "XXH64_tail4 h q m = Some (h', q', m')" "m' \<le> length q'"
    using XXH64_tail4_total [OF 1(2)] by blast
  show ?thesis using 1 2
    by (simp add: XXH64_finalize_def unat_and_31 XXH64_tail8_take [OF assms] XXH64_tail4_take XXH64_tail1_take)
qed

section \<open>The hash as a function of the bytes\<close>

fun XXH64_mix :: "lanes64 \<Rightarrow> bytes \<Rightarrow> lanes64" where
  "XXH64_mix (v1, v2, v3, v4) s =
     (XXH64_round v1 (le_word (window 8 s 0)), XXH64_round v2 (le_word (window 8 s 8)),
      XXH64_round v3 (le_word (window 8 s 16)), XXH64_round v4 (le_word (window 8 s 24)))"

interpretation x64: stripe_reader 32 XXH64_mix XXH64_eat
proof
  fix p :: bytes and acc :: lanes64
  assume "32 \<le> length p"
  then show "XXH64_eat p acc = Some (XXH64_mix acc (take 32 p))"
    by (cases acc) (simp add: xxh_read_defs safe_reads window_take)
qed simp_all

definition XXH64_spec :: "u64 \<Rightarrow> bytes \<Rightarrow> u64 option" where
  "XXH64_spec seed d =
     (let h = (if 32 \<le> length d then XXH64_merge (absorb 32 XXH64_mix (XXH64_init seed) d)
               else seed + XXH_PRIME64_5)
      in XXH64_finalize (h + of_nat (length d)) (residue 32 d) (of_nat (length d)))"

lemma XXH64_eq_spec:
  assumes "unat len \<le> length p"
  shows "XXH64 p len seed = XXH64_spec seed (take (unat len) p)"
proof -
  let ?n = "unat len" and ?d = "take (unat len) p"
  have d: "length ?d = ?n" using assms by simp
  have w: "of_nat ?n = len" by (simp add: of_nat_unat)
  have r: "take (?n mod 32) (drop (?n - ?n mod 32) p) = residue 32 ?d"
    using d by (simp add: residue_def drop_take)
  have f: "XXH64_finalize h (drop (?n - ?n mod 32) p) len = XXH64_finalize h (residue 32 ?d) len" for h
    using XXH64_finalize_take [of len "drop (?n - ?n mod 32) p" h] assms unfolding r by simp
  show ?thesis
  proof (cases "32 \<le> ?n")
    case True
    then have "len \<ge> 32" by (simp add: word_le_nat_alt)
    with True show ?thesis unfolding XXH64_spec_def d w
      using x64.stripe_loop_eq [OF True assms, of "XXH64_init seed"] f
      by (simp add: XXH64_def XXH64_endian_align_def)
  next
    case False
    then have "\<not> len \<ge> 32" by (simp add: word_le_nat_alt)
    moreover have "residue 32 ?d = ?d" using False by simp
    moreover have "XXH64_finalize h p len = XXH64_finalize h ?d len" for h
      using f [of h] False by simp
    ultimately show ?thesis unfolding XXH64_spec_def d w using False
      by (simp add: XXH64_def XXH64_endian_align_def)
  qed
qed

section \<open>The state of a stream\<close>

definition XXH64_rep :: "u64 \<Rightarrow> bytes \<Rightarrow> XXH64_state \<Rightarrow> bool" where
  "XXH64_rep seed d st \<longleftrightarrow> total_len st = of_nat (length d) \<and> stripe_rep 32 XXH64_mix (XXH64_init seed) d st"

lemma XXH64_rep_reset: "XXH64_rep seed [] (snd (XXH64_reset seed))"
  by (simp add: XXH64_rep_def stripe_rep_def XXH64_reset_def absorb_short residue_def)

lemma XXH64_rep_digest:
  assumes "XXH64_rep seed d st" "length d < 2 ^ 64"
  shows "XXH64_digest st = XXH64_spec seed d"
proof -
  have n: "unat (of_nat (length d) :: u64) = length d" using assms(2) by (intro unat_of_nat_small) simp
  have f: "XXH64_finalize h (smem st) (of_nat (length d)) = XXH64_finalize h (residue 32 d) (of_nat (length d))" for h
    using XXH64_finalize_take [of "of_nat (length d)" "smem st" h] assms(1)
    by (simp add: XXH64_rep_def stripe_rep_def n)
  have c: "(of_nat (length d) \<ge> (32 :: u64)) \<longleftrightarrow> 32 \<le> length d" by (simp add: word_le_nat_alt n)
  show ?thesis
  proof (cases "32 \<le> length d")
    case True
    then show ?thesis using assms(1) c
      by (simp add: XXH64_digest_def XXH64_spec_def XXH64_rep_def stripe_rep_def f)
  next
    case False
    then have "lanes st = XXH64_init seed" using assms(1) by (simp add: XXH64_rep_def stripe_rep_def absorb_short)
    then show ?thesis using False assms(1) c
      by (simp add: XXH64_digest_def XXH64_spec_def XXH64_rep_def f XXH64_init_def)
  qed
qed

lemma XXH64_rep_update:
  assumes "XXH64_rep seed d st" "unat len \<le> length p" "length d + unat len < 2 ^ 64"
  shows "\<exists>st'. XXH64_update st (Some p) len = Some (XXH_OK, st') \<and> XXH64_rep seed (d @ take (unat len) p) st'"
proof -
  let ?st = "st\<lparr>total_len := total_len st + len\<rparr>"
  have "stripe_rep 32 XXH64_mix (XXH64_init seed) d ?st"
    using assms(1) by (simp add: XXH64_rep_def stripe_rep_def)
  then obtain st' where st': "stripe_update 32 XXH64_eat ?st p len = Some st'"
    "stripe_state.more st' = stripe_state.more ?st"
    "stripe_rep 32 XXH64_mix (XXH64_init seed) (d @ take (unat len) p) st'"
    using x64.stripe_rep_update [OF _ assms(2,3)] by blast
  have "total_len st' = total_len st + len" using st'(2) by (cases st; cases st') simp
  moreover have "total_len st + len = of_nat (length (d @ take (unat len) p))"
    using assms(1,2) by (simp add: XXH64_rep_def of_nat_unat)
  ultimately show ?thesis using st'(1,3) by (simp add: XXH64_update_def XXH64_rep_def)
qed

section \<open>Streams\<close>

text \<open>A client of the streaming interface: reset, one update for every piece, digest.\<close>

primrec XXH64_updates :: "XXH64_state \<Rightarrow> bytes list \<Rightarrow> XXH64_state option" where
  "XXH64_updates st [] = Some st"
| "XXH64_updates st (x # xs) =
     XXH64_update st (Some x) (of_nat (length x)) \<bind>
       (\<lambda>(e, st). if e = XXH_OK then XXH64_updates st xs else None)"

definition XXH64_stream :: "u64 \<Rightarrow> bytes list \<Rightarrow> u64 option" where
  "XXH64_stream seed xs = XXH64_updates (snd (XXH64_reset seed)) xs \<bind> XXH64_digest"

lemma XXH64_rep_updates:
  "XXH64_rep seed d st \<Longrightarrow> length d + length (concat xs) < 2 ^ 64 \<Longrightarrow>
     \<exists>st'. XXH64_updates st xs = Some st' \<and> XXH64_rep seed (d @ concat xs) st'"
proof (induction xs arbitrary: d st)
  case (Cons x xs)
  have n: "unat (of_nat (length x) :: u64) = length x" using Cons.prems(2) by (intro unat_of_nat_small) simp
  obtain st1 where "XXH64_update st (Some x) (of_nat (length x)) = Some (XXH_OK, st1)"
    "XXH64_rep seed (d @ x) st1"
    using XXH64_rep_update [OF Cons.prems(1), of "of_nat (length x)" x] Cons.prems(2) n by auto
  moreover have "length (d @ x) + length (concat xs) < 2 ^ 64" using Cons.prems(2) by simp
  ultimately show ?case using Cons.IH [of "d @ x" st1] by simp
qed simp

text \<open>
  C20. Streaming and hashing at once agree: whatever pieces a buffer of less than \<open>2 ^ 64\<close> bytes is
  cut into, empty ones included, resetting a state, updating it with the pieces in order and taking
  the digest returns, never touches memory outside the pieces and the state, and gives the XXH64
  hash of the whole buffer.
\<close>

theorem XXH64_stream_eq:
  assumes "length (concat xs) < 2 ^ 64"
  shows "XXH64_stream seed xs = XXH64 (concat xs) (of_nat (length (concat xs))) seed \<and>
    XXH64_stream seed xs \<noteq> None"
proof -
  let ?d = "concat xs"
  have n: "unat (of_nat (length ?d) :: u64) = length ?d" using assms by (intro unat_of_nat_small) simp
  obtain st where st: "XXH64_updates (snd (XXH64_reset seed)) xs = Some st" "XXH64_rep seed ?d st"
    using XXH64_rep_updates [OF XXH64_rep_reset, of xs seed] assms by auto
  have e: "XXH64_stream seed xs = XXH64_spec seed ?d"
    using XXH64_rep_digest [OF st(2)] st(1) assms by (simp add: XXH64_stream_def)
  moreover have "XXH64 ?d (of_nat (length ?d)) seed = XXH64_spec seed ?d"
    using XXH64_eq_spec [of "of_nat (length ?d)" ?d seed] n by simp
  moreover have "XXH64_spec seed ?d \<noteq> None"
    using XXH64_finalize_total [of "of_nat (length ?d)" "residue 32 ?d"] n
    by (simp add: XXH64_spec_def Let_def)
  ultimately show ?thesis by simp
qed

theorem XXH64_stream_eq_witness:
  "XXH64_stream 7 [replicate 20 1, [], replicate 45 2] =
     XXH64 (replicate 20 1 @ replicate 45 2) 65 7"
  using XXH64_stream_eq [of "[replicate 20 1, [], replicate 45 2]" 7] by simp

text \<open>
  The canonical form of a hash is its eight bytes, most significant first, and reading it back gives
  the hash.
\<close>

theorem XXH64_canonical_roundtrip:
  "XXH64_hashFromCanonical (XXH64_canonicalFromHash h) = Some h \<and>
   XXH64_canonicalFromHash h = rev (le_bytes 8 h)"
proof
  show "XXH64_hashFromCanonical (XXH64_canonicalFromHash h) = Some h"
    by (simp add: XXH64_hashFromCanonical_def XXH64_canonicalFromHash_def xxh_read_defs safe_reads
        window_def le_word_le_bytes)
  show "XXH64_canonicalFromHash h = rev (le_bytes 8 h)"
    by (simp add: XXH64_canonicalFromHash_def le_bytes_swap64)
qed

end
