(* ===== verification/XXH32_Hash.thy ===== *)
theory XXH32_Hash
  imports Xxh_Common Stripe_Stream
begin

text \<open>
  XXH32 (include/hash/orig_xhash.hh): the hash of a whole buffer with both forms of its last step, the
  streaming interface and the canonical form. The theorems show that the unrolled last step is the
  rerolled one, and that streaming a buffer in any pieces gives the hash of the whole, also
  where the 32-bit count of the bytes wraps around.
\<close>

section \<open>Rounds\<close>

definition XXH_PRIME32_1 :: u32 where "XXH_PRIME32_1 = 0x9E3779B1"
definition XXH_PRIME32_2 :: u32 where "XXH_PRIME32_2 = 0x85EBCA77"
definition XXH_PRIME32_3 :: u32 where "XXH_PRIME32_3 = 0xC2B2AE3D"
definition XXH_PRIME32_4 :: u32 where "XXH_PRIME32_4 = 0x27D4EB2F"
definition XXH_PRIME32_5 :: u32 where "XXH_PRIME32_5 = 0x165667B1"

definition XXH32_round :: "u32 \<Rightarrow> u32 \<Rightarrow> u32" where
  "XXH32_round acc input = XXH_rotl32 (acc + input * XXH_PRIME32_2) 13 * XXH_PRIME32_1"

definition XXH32_avalanche :: "u32 \<Rightarrow> u32" where
  "XXH32_avalanche h32 =
     (let h32 = h32 XOR shr h32 15;
          h32 = h32 * XXH_PRIME32_2;
          h32 = h32 XOR shr h32 13;
          h32 = h32 * XXH_PRIME32_3
      in h32 XOR shr h32 16)"

text \<open>The macros \<open>XXH_PROCESS1\<close> and \<open>XXH_PROCESS4\<close> on the hash and the pointer.\<close>

fun XXH_PROCESS1 :: "u32 \<times> bytes \<Rightarrow> (u32 \<times> bytes) option" where
  "XXH_PROCESS1 (h32, ptr) = do {
     b \<leftarrow> read8 ptr 0;
     Some (XXH_rotl32 (h32 + ucast b * XXH_PRIME32_5) 11 * XXH_PRIME32_1, drop 1 ptr)
   }"

fun XXH_PROCESS4 :: "u32 \<times> bytes \<Rightarrow> (u32 \<times> bytes) option" where
  "XXH_PROCESS4 (h32, ptr) = do {
     w \<leftarrow> XXH_readLE32 ptr 0;
     Some (XXH_rotl32 (h32 + w * XXH_PRIME32_3) 17 * XXH_PRIME32_4, drop 4 ptr)
   }"

function XXH32_tail :: "u32 \<times> bytes \<Rightarrow> nat \<Rightarrow> (u32 \<times> bytes) option" where
  "XXH32_tail s n =
     (if n \<ge> 4 then XXH_PROCESS4 s \<bind> (\<lambda>s. XXH32_tail s (n - 4))
      else if n > 0 then XXH_PROCESS1 s \<bind> (\<lambda>s. XXH32_tail s (n - 1))
      else Some s)"
  by pat_completeness auto
termination by (relation "measure snd") auto

declare XXH32_tail.simps [simp del]

text \<open>One label of the \<open>switch\<close>: the macro runs when the jump was to this label or to one before it.\<close>

definition switch_step :: "bool \<Rightarrow> ('s \<Rightarrow> 's option) \<Rightarrow> 's \<Rightarrow> 's option" where
  "switch_step entered f s = (if entered then f s else Some s)"

definition XXH32_switch :: "u32 \<times> bytes \<Rightarrow> nat \<Rightarrow> (u32 \<times> bytes) option" where
  "XXH32_switch s n =
     (if n \<in> {12, 8, 4} then do {
        s \<leftarrow> switch_step (n = 12) XXH_PROCESS4 s;
        s \<leftarrow> switch_step (n = 12 \<or> n = 8) XXH_PROCESS4 s;
        XXH_PROCESS4 s
      } else if n \<in> {13, 9, 5} then do {
        s \<leftarrow> switch_step (n = 13) XXH_PROCESS4 s;
        s \<leftarrow> switch_step (n = 13 \<or> n = 9) XXH_PROCESS4 s;
        s \<leftarrow> XXH_PROCESS4 s;
        XXH_PROCESS1 s
      } else if n \<in> {14, 10, 6} then do {
        s \<leftarrow> switch_step (n = 14) XXH_PROCESS4 s;
        s \<leftarrow> switch_step (n = 14 \<or> n = 10) XXH_PROCESS4 s;
        s \<leftarrow> XXH_PROCESS4 s;
        s \<leftarrow> XXH_PROCESS1 s;
        XXH_PROCESS1 s
      } else do {
        s \<leftarrow> switch_step (n = 15) XXH_PROCESS4 s;
        s \<leftarrow> switch_step (n = 15 \<or> n = 11) XXH_PROCESS4 s;
        s \<leftarrow> switch_step (n = 15 \<or> n = 11 \<or> n = 7) XXH_PROCESS4 s;
        s \<leftarrow> switch_step (n = 15 \<or> n = 11 \<or> n = 7 \<or> n = 3) XXH_PROCESS1 s;
        s \<leftarrow> switch_step (n = 15 \<or> n = 11 \<or> n = 7 \<or> n = 3 \<or> n = 2) XXH_PROCESS1 s;
        switch_step (n \<noteq> 0) XXH_PROCESS1 s
      })"

text \<open>\<open>XXH_REROLL\<close> is chosen when the library is compiled.\<close>

definition XXH32_finalize :: "bool \<Rightarrow> u32 \<Rightarrow> bytes \<Rightarrow> u64 \<Rightarrow> u32 option" where
  "XXH32_finalize reroll h32 ptr len = do {
     (h32, _) \<leftarrow> (if reroll then XXH32_tail (h32, ptr) (unat (len AND 15))
                  else XXH32_switch (h32, ptr) (unat (len AND 15)));
     Some (XXH32_avalanche h32)
   }"

lemma XXH32_tail_4: "n \<ge> 4 \<Longrightarrow> XXH32_tail s n = XXH_PROCESS4 s \<bind> (\<lambda>s. XXH32_tail s (n - 4))"
  and XXH32_tail_1: "0 < n \<Longrightarrow> n < 4 \<Longrightarrow> XXH32_tail s n = XXH_PROCESS1 s \<bind> (\<lambda>s. XXH32_tail s (n - 1))"
  and XXH32_tail_0: "XXH32_tail s 0 = Some s"
  by (subst XXH32_tail.simps, simp)+

lemma switch_step_simps [simp]: "switch_step True f = f" "switch_step False f = Some"
  by (simp_all add: switch_step_def fun_eq_iff)

lemma XXH32_switch_eq_tail:
  assumes "n < 16"
  shows "XXH32_switch s n = XXH32_tail s n"
proof -
  have "n \<in> {0, 1, 2, 3, 4, 5, 6, 7, 8, 9, 10, 11, 12, 13, 14, 15}"
    using assms by (simp add: eval_nat_numeral less_Suc_eq)
  then show ?thesis
    by (elim insertE emptyE)
      (simp_all add: XXH32_switch_def XXH32_tail_4 XXH32_tail_1 XXH32_tail_0)
qed

lemma unat_and_15: "unat (len AND 15 :: u64) = unat len mod 16"
proof -
  have "(15 :: u64) = mask 4" by (simp add: mask_eq_exp_minus_1)
  then show ?thesis using unat_and_mask [of len 4] by simp
qed

lemma XXH32_finalize_reroll: "XXH32_finalize False h32 ptr len = XXH32_finalize True h32 ptr len"
  by (simp add: XXH32_finalize_def unat_and_15 XXH32_switch_eq_tail)

section \<open>The hash of a buffer\<close>

type_synonym lanes32 = "u32 \<times> u32 \<times> u32 \<times> u32"

definition XXH32_init :: "u32 \<Rightarrow> lanes32" where
  "XXH32_init seed = (seed + XXH_PRIME32_1 + XXH_PRIME32_2, seed + XXH_PRIME32_2, seed + 0, seed - XXH_PRIME32_1)"

fun XXH32_eat :: "bytes \<Rightarrow> lanes32 \<Rightarrow> lanes32 option" where
  "XXH32_eat p (v1, v2, v3, v4) = do {
     w1 \<leftarrow> XXH_readLE32 p 0; w2 \<leftarrow> XXH_readLE32 p 4;
     w3 \<leftarrow> XXH_readLE32 p 8; w4 \<leftarrow> XXH_readLE32 p 12;
     Some (XXH32_round v1 w1, XXH32_round v2 w2, XXH32_round v3 w3, XXH32_round v4 w4)
   }"

fun XXH32_merge :: "lanes32 \<Rightarrow> u32" where
  "XXH32_merge (v1, v2, v3, v4) = XXH_rotl32 v1 1 + XXH_rotl32 v2 7 + XXH_rotl32 v3 12 + XXH_rotl32 v4 18"

text \<open>The loop runs while \<open>input < bEnd - 15\<close>, that is while 16 bytes are left.\<close>

definition XXH32_endian_align :: "bool \<Rightarrow> bytes \<Rightarrow> u64 \<Rightarrow> u32 \<Rightarrow> u32 option" where
  "XXH32_endian_align reroll input len seed = do {
     (h32, input) \<leftarrow>
       (if len \<ge> 16 then do {
          (input, _, v) \<leftarrow> stripe_loop 16 XXH32_eat input (unat len) (XXH32_init seed);
          Some (XXH32_merge v, input)
        } else Some (seed + XXH_PRIME32_5, input));
     XXH32_finalize reroll (h32 + ucast len) input (len AND 15)
   }"

definition XXH32 :: "bool \<Rightarrow> bytes \<Rightarrow> u64 \<Rightarrow> u32 \<Rightarrow> u32 option" where
  "XXH32 reroll input len seed = XXH32_endian_align reroll input len seed"

section \<open>Streaming\<close>

record XXH32_state = "lanes32 stripe_state" +
  total_len_32 :: u32
  large_len :: u32

definition XXH32_reset :: "u32 \<Rightarrow> XXH_errorcode \<times> XXH32_state" where
  "XXH32_reset seed =
     (XXH_OK, \<lparr>lanes = XXH32_init seed, smem = replicate 16 0, smemsize = 0, total_len_32 = 0, large_len = 0\<rparr>)"

definition XXH32_update :: "XXH32_state \<Rightarrow> bytes option \<Rightarrow> u64 \<Rightarrow> (XXH_errorcode \<times> XXH32_state) option" where
  "XXH32_update st input len =
     (case input of
        None \<Rightarrow> Some (XXH_ERROR, st)
      | Some p \<Rightarrow> do {
          let st = st\<lparr>total_len_32 := total_len_32 st + ucast len\<rparr>;
          let st = st\<lparr>large_len := large_len st OR of_bool (len \<ge> 16 \<or> total_len_32 st \<ge> 16)\<rparr>;
          st \<leftarrow> stripe_update 16 XXH32_eat st p len;
          Some (XXH_OK, st)
        })"

definition XXH32_digest :: "bool \<Rightarrow> XXH32_state \<Rightarrow> u32 option" where
  "XXH32_digest reroll st =
     (let h32 = (if large_len st \<noteq> 0 then XXH32_merge (lanes st)
                 else fst (snd (snd (lanes st))) + XXH_PRIME32_5)
      in XXH32_finalize reroll (h32 + total_len_32 st) (smem st) (ucast (smemsize st)))"

section \<open>Canonical form\<close>

definition XXH32_canonicalFromHash :: "u32 \<Rightarrow> bytes" where
  "XXH32_canonicalFromHash hash = le_bytes 4 (XXH_swap32 hash)"

definition XXH32_hashFromCanonical :: "bytes \<Rightarrow> u32 option" where
  "XXH32_hashFromCanonical src = XXH_readBE32 src 0"

section \<open>The hash as a function of the bytes\<close>

lemma XXH32_tail_total: "n \<le> length ptr \<Longrightarrow> \<exists>r. XXH32_tail (h32, ptr) n = Some r"
proof (induction n arbitrary: h32 ptr rule: less_induct)
  case (less n)
  consider "4 \<le> n" | "0 < n" "n < 4" | "n = 0" by linarith
  then show ?case
  proof cases
    case 1
    then show ?thesis using less.IH [of "n - 4" "drop 4 ptr"] less.prems
      by (simp add: XXH32_tail_4 xxh_read_defs safe_reads)
  next
    case 2
    then have "read8 ptr 0 = Some (ptr ! 0)" using less.prems by (intro read8_Some) linarith
    with 2 show ?thesis using less.IH [of "n - 1" "drop 1 ptr"] less.prems by (simp add: XXH32_tail_1)
  qed (simp add: XXH32_tail_0)
qed

lemma XXH32_tail_take:
  "n \<le> length ptr \<Longrightarrow> map_option fst (XXH32_tail (h32, take n ptr) n) = map_option fst (XXH32_tail (h32, ptr) n)"
proof (induction n arbitrary: h32 ptr rule: less_induct)
  case (less n)
  consider "4 \<le> n" | "0 < n" "n < 4" | "n = 0" by linarith
  then show ?case
  proof cases
    case 1
    then show ?thesis using less.IH [of "n - 4" "drop 4 ptr"] less.prems
      by (simp add: XXH32_tail_4 xxh_read_defs safe_reads window_take drop_take)
  next
    case 2
    then have "read8 ptr 0 = Some (ptr ! 0)" using less.prems by (intro read8_Some) linarith
    moreover have "read8 (take n ptr) 0 = read8 ptr 0" using 2 by (intro read8_take)
    ultimately show ?thesis using less.IH [of "n - 1" "drop 1 ptr"] less.prems 2
      by (simp add: XXH32_tail_1 drop_take)
  qed (simp add: XXH32_tail_0)
qed

lemma XXH32_finalize_fst:
  "XXH32_finalize reroll h32 ptr len =
     map_option (XXH32_avalanche \<circ> fst) (XXH32_tail (h32, ptr) (unat len mod 16))"
  by (cases reroll; cases "XXH32_tail (h32, ptr) (unat len mod 16)")
    (auto simp: XXH32_finalize_def unat_and_15 XXH32_switch_eq_tail split: prod.splits)

lemma XXH32_finalize_total:
  "unat len mod 16 \<le> length ptr \<Longrightarrow> \<exists>h. XXH32_finalize reroll h32 ptr len = Some h"
  using XXH32_tail_total by (fastforce simp: XXH32_finalize_fst)

lemma XXH32_finalize_take:
  assumes "unat len mod 16 \<le> length ptr" "unat len mod 16 = unat len' mod 16"
  shows "XXH32_finalize reroll h32 (take (unat len mod 16) ptr) len = XXH32_finalize reroll' h32 ptr len'"
  using XXH32_tail_take [OF assms(1), of h32]
  by (simp add: XXH32_finalize_fst assms(2) flip: option.map_comp)

fun XXH32_mix :: "lanes32 \<Rightarrow> bytes \<Rightarrow> lanes32" where
  "XXH32_mix (v1, v2, v3, v4) s =
     (XXH32_round v1 (le_word (window 4 s 0)), XXH32_round v2 (le_word (window 4 s 4)),
      XXH32_round v3 (le_word (window 4 s 8)), XXH32_round v4 (le_word (window 4 s 12)))"

interpretation x32: stripe_reader 16 XXH32_mix XXH32_eat
proof
  fix p :: bytes and acc :: lanes32
  assume "16 \<le> length p"
  then show "XXH32_eat p acc = Some (XXH32_mix acc (take 16 p))"
    by (cases acc) (simp add: xxh_read_defs safe_reads window_take)
qed simp_all

definition XXH32_spec :: "u32 \<Rightarrow> bytes \<Rightarrow> u32 option" where
  "XXH32_spec seed d =
     (let h = (if 16 \<le> length d then XXH32_merge (absorb 16 XXH32_mix (XXH32_init seed) d)
               else seed + XXH_PRIME32_5)
      in XXH32_finalize True (h + of_nat (length d)) (residue 16 d) (of_nat (length d mod 16)))"

lemma XXH32_eq_spec:
  assumes "unat len \<le> length p"
  shows "XXH32 reroll p len seed = XXH32_spec seed (take (unat len) p)"
proof -
  let ?n = "unat len" and ?d = "take (unat len) p"
  have d: "length ?d = ?n" using assms by simp
  have w: "(of_nat ?n :: u32) = ucast len" by (simp add: of_nat_unat)
  have r: "take (?n mod 16) (drop (?n - ?n mod 16) p) = residue 16 ?d"
    using d by (simp add: residue_def drop_take)
  have a: "unat (len AND 15) mod 16 = ?n mod 16" by (simp add: unat_and_15)
  have "?n mod 16 < 16" by simp
  then have b: "unat (of_nat (?n mod 16) :: u64) mod 16 = ?n mod 16"
    by (subst unat_of_nat_small) auto
  have f: "XXH32_finalize reroll h (drop (?n - ?n mod 16) p) (len AND 15) =
      XXH32_finalize True h (residue 16 ?d) (of_nat (?n mod 16))" for h
    using XXH32_finalize_take [of "of_nat (?n mod 16)" "drop (?n - ?n mod 16) p" "len AND 15" True h reroll]
      assms a b unfolding r by (simp add: r)
  show ?thesis
  proof (cases "16 \<le> ?n")
    case True
    then have "len \<ge> 16" by (simp add: word_le_nat_alt)
    with True show ?thesis unfolding XXH32_spec_def d w
      using x32.stripe_loop_eq [OF True assms, of "XXH32_init seed"] f
      by (simp add: XXH32_def XXH32_endian_align_def)
  next
    case False
    then have "\<not> len \<ge> 16" by (simp add: word_le_nat_alt)
    moreover have "residue 16 ?d = ?d" using False by simp
    moreover have "XXH32_finalize reroll h p (len AND 15) = XXH32_finalize True h ?d (of_nat (?n mod 16))" for h
      using f [of h] False by simp
    ultimately show ?thesis unfolding XXH32_spec_def d w using False
      by (simp add: XXH32_def XXH32_endian_align_def)
  qed
qed

section \<open>The state of a stream\<close>

definition XXH32_rep :: "u32 \<Rightarrow> bytes \<Rightarrow> XXH32_state \<Rightarrow> bool" where
  "XXH32_rep seed d st \<longleftrightarrow> total_len_32 st = of_nat (length d) \<and> (large_len st \<noteq> 0 \<longleftrightarrow> 16 \<le> length d) \<and>
     stripe_rep 16 XXH32_mix (XXH32_init seed) d st"

lemma XXH32_rep_reset: "XXH32_rep seed [] (snd (XXH32_reset seed))"
  by (simp add: XXH32_rep_def stripe_rep_def XXH32_reset_def absorb_short residue_def)

lemma XXH32_rep_digest:
  assumes "XXH32_rep seed d st"
  shows "XXH32_digest reroll st = XXH32_spec seed d"
proof -
  let ?m = "length d mod 16"
  have m: "?m < 16" by simp
  have u: "unat (of_nat ?m :: u64) = ?m" using m by (intro unat_of_nat_small) simp
  have v: "unat (ucast (smemsize st) :: u64) = ?m"
    using assms x32.unat_mod_W [of "length d"] by (simp add: XXH32_rep_def stripe_rep_def unat_ucast_up)
  have t: "take (unat (of_nat ?m :: u64) mod 16) (smem st) = residue 16 d" "length (smem st) = 16"
    using assms u by (simp_all add: XXH32_rep_def stripe_rep_def)
  have f: "XXH32_finalize reroll h (smem st) (ucast (smemsize st)) =
      XXH32_finalize True h (residue 16 d) (of_nat ?m)" for h
    using XXH32_finalize_take [of "of_nat ?m" "smem st" "ucast (smemsize st)" True h reroll]
    unfolding t(1) using m t(2) by (simp add: u v)
  show ?thesis
  proof (cases "16 \<le> length d")
    case True
    then show ?thesis using assms unfolding XXH32_digest_def f
      by (simp add: XXH32_spec_def XXH32_rep_def stripe_rep_def)
  next
    case False
    then have "lanes st = XXH32_init seed" using assms by (simp add: XXH32_rep_def stripe_rep_def absorb_short)
    then show ?thesis using False assms unfolding XXH32_digest_def f
      by (simp add: XXH32_spec_def XXH32_rep_def XXH32_init_def)
  qed
qed

text \<open>The flag records that 16 bytes were seen, although the count of the bytes may wrap around.\<close>

lemma large_len_update:
  assumes "ll \<noteq> (0 :: u32) \<longleftrightarrow> 16 \<le> n"
  shows "ll OR of_bool (len \<ge> (16 :: u64) \<or> (of_nat (n + unat len) :: u32) \<ge> 16) \<noteq> 0 \<longleftrightarrow> 16 \<le> n + unat len"
proof -
  have l: "len \<ge> 16 \<longleftrightarrow> 16 \<le> unat len" by (simp add: word_le_nat_alt)
  have len32: "LENGTH(32) = 32" by simp
  have "unat (of_nat (n + unat len) :: u32) = (n + unat len) mod 2 ^ LENGTH(32)" by (rule unat_of_nat)
  then have u: "unat (of_nat (n + unat len) :: u32) = (n + unat len) mod 2 ^ 32" unfolding len32 .
  have t: "(of_nat (n + unat len) :: u32) \<ge> 16 \<longleftrightarrow> 16 \<le> (n + unat len) mod 2 ^ 32"
    unfolding word_le_nat_alt u by simp
  have big: "(len \<ge> 16 \<or> (of_nat (n + unat len) :: u32) \<ge> 16) \<or> 16 \<le> n \<longleftrightarrow> 16 \<le> n + unat len"
  proof (cases "16 \<le> unat len \<or> 16 \<le> n")
    case True
    then have "16 \<le> n + unat len" by linarith
    with True l show ?thesis by blast
  next
    case False
    then have "n + unat len < 32" by linarith
    then have "n + unat len < 2 ^ 32" by simp
    then have "(n + unat len) mod 2 ^ 32 = n + unat len" by (rule mod_less)
    then show ?thesis unfolding l t using False by linarith
  qed
  have or: "ll OR of_bool b \<noteq> 0 \<longleftrightarrow> ll \<noteq> 0 \<or> b" for b
    by (cases b) (simp_all add: or_eq_0_iff)
  show ?thesis unfolding or assms using big by blast
qed

lemma XXH32_rep_update:
  assumes "XXH32_rep seed d st" "unat len \<le> length p" "length d + unat len < 2 ^ 64"
  shows "\<exists>st'. XXH32_update st (Some p) len = Some (XXH_OK, st') \<and> XXH32_rep seed (d @ take (unat len) p) st'"
proof -
  let ?t = "total_len_32 st + ucast len"
  let ?l = "large_len st OR of_bool (len \<ge> 16 \<or> ?t \<ge> 16)"
  let ?st = "st\<lparr>total_len_32 := ?t, large_len := ?l\<rparr>"
  have "stripe_rep 16 XXH32_mix (XXH32_init seed) d ?st"
    using assms(1) by (simp add: XXH32_rep_def stripe_rep_def)
  then obtain st' where st': "stripe_update 16 XXH32_eat ?st p len = Some st'"
    "stripe_state.more st' = stripe_state.more ?st"
    "stripe_rep 16 XXH32_mix (XXH32_init seed) (d @ take (unat len) p) st'"
    using x32.stripe_rep_update [OF _ assms(2,3)] by blast
  have m: "total_len_32 st' = ?t" "large_len st' = ?l" using st'(2) by (cases st; cases st'; simp)+
  have t: "?t = of_nat (length d + unat len)" using assms(1) by (simp add: XXH32_rep_def of_nat_unat)
  have "?l \<noteq> 0 \<longleftrightarrow> 16 \<le> length d + unat len"
    unfolding t using assms(1) by (intro large_len_update) (simp add: XXH32_rep_def)
  with m t assms(2) have "XXH32_rep seed (d @ take (unat len) p) st'"
    using st'(3) by (simp add: XXH32_rep_def)
  with st'(1) show ?thesis by (simp add: XXH32_update_def)
qed

section \<open>Streams\<close>

primrec XXH32_updates :: "XXH32_state \<Rightarrow> bytes list \<Rightarrow> XXH32_state option" where
  "XXH32_updates st [] = Some st"
| "XXH32_updates st (x # xs) =
     XXH32_update st (Some x) (of_nat (length x)) \<bind>
       (\<lambda>(e, st). if e = XXH_OK then XXH32_updates st xs else None)"

definition XXH32_stream :: "bool \<Rightarrow> u32 \<Rightarrow> bytes list \<Rightarrow> u32 option" where
  "XXH32_stream reroll seed xs = XXH32_updates (snd (XXH32_reset seed)) xs \<bind> XXH32_digest reroll"

lemma XXH32_rep_updates:
  "XXH32_rep seed d st \<Longrightarrow> length d + length (concat xs) < 2 ^ 64 \<Longrightarrow>
     \<exists>st'. XXH32_updates st xs = Some st' \<and> XXH32_rep seed (d @ concat xs) st'"
proof (induction xs arbitrary: d st)
  case (Cons x xs)
  have n: "unat (of_nat (length x) :: u64) = length x" using Cons.prems(2) by (intro unat_of_nat_small) simp
  obtain st1 where "XXH32_update st (Some x) (of_nat (length x)) = Some (XXH_OK, st1)"
    "XXH32_rep seed (d @ x) st1"
    using XXH32_rep_update [OF Cons.prems(1), of "of_nat (length x)" x] Cons.prems(2) n by auto
  moreover have "length (d @ x) + length (concat xs) < 2 ^ 64" using Cons.prems(2) by simp
  ultimately show ?case using Cons.IH [of "d @ x" st1] by simp
qed simp

text \<open>
  XXH32 of a buffer of less than \<open>2 ^ 64\<close> bytes is the same number whether it is computed at once or
  streamed in any pieces, and whether the last step was compiled as two loops or as the unrolled
  \<open>switch\<close>: all four combinations return, and agree. The bytes may be more than the 32-bit counter
  of the state can count.
\<close>

theorem XXH32_stream_eq:
  assumes "length (concat xs) < 2 ^ 64"
  shows "XXH32_stream reroll seed xs = XXH32 reroll' (concat xs) (of_nat (length (concat xs))) seed \<and>
    XXH32_stream reroll seed xs \<noteq> None"
proof -
  let ?d = "concat xs"
  have n: "unat (of_nat (length ?d) :: u64) = length ?d" using assms by (intro unat_of_nat_small) simp
  obtain st where st: "XXH32_updates (snd (XXH32_reset seed)) xs = Some st" "XXH32_rep seed ?d st"
    using XXH32_rep_updates [OF XXH32_rep_reset, of xs seed] assms by auto
  have e: "XXH32_stream reroll seed xs = XXH32_spec seed ?d"
    using XXH32_rep_digest [OF st(2)] st(1) by (simp add: XXH32_stream_def)
  moreover have "XXH32 reroll' ?d (of_nat (length ?d)) seed = XXH32_spec seed ?d"
    using XXH32_eq_spec [of "of_nat (length ?d)" ?d reroll' seed] n by simp
  moreover have "XXH32_spec seed ?d \<noteq> None"
  proof -
    have "length ?d mod 16 < 16" by simp
    then have "unat (of_nat (length ?d mod 16) :: u64) = length ?d mod 16" by (intro unat_of_nat_small) simp
    then show ?thesis using XXH32_finalize_total [of "of_nat (length ?d mod 16)" "residue 16 ?d" True]
      by (simp add: XXH32_spec_def Let_def)
  qed
  ultimately show ?thesis by simp
qed

theorem XXH32_stream_eq_witness:
  "XXH32_stream True 7 [replicate 20 1, [], replicate 25 2] =
     XXH32 False (replicate 20 1 @ replicate 25 2) 45 7"
  using XXH32_stream_eq [of "[replicate 20 1, [], replicate 25 2]" True 7 False] by simp

lemma XXH32_canonical_roundtrip:
  "XXH32_hashFromCanonical (XXH32_canonicalFromHash h) = Some h"
  "XXH32_canonicalFromHash h = rev (le_bytes 4 h)"
proof -
  show "XXH32_hashFromCanonical (XXH32_canonicalFromHash h) = Some h"
    by (simp add: XXH32_hashFromCanonical_def XXH32_canonicalFromHash_def xxh_read_defs safe_reads
        window_def le_word_le_bytes)
  show "XXH32_canonicalFromHash h = rev (le_bytes 4 h)"
    by (simp add: XXH32_canonicalFromHash_def le_bytes_swap32)
qed

end
