(* ===== verification/XXH3_Hash.thy ===== *)
theory XXH3_Hash
  imports XXH64_Hash XXH32_Hash Wyhash
begin

text \<open>
  XXH3 with a 64-bit result (include/hash/orig_xhash.hh): the 64 by 64 to 128 bit multiply in both
  its forms, the hashes of short keys by the range of their length, the accumulator loop of long keys in its scalar
  form, and the entry points with and without a seed or a secret. The lemmas show that
  every branch stays inside the key and the secret, for keys of every length.
\<close>

section \<open>Multiplication and mixing\<close>

definition XXH_mult32to64 :: "u64 \<Rightarrow> u64 \<Rightarrow> u64" where
  "XXH_mult32to64 x y = ucast (ucast x :: u32) * ucast (ucast y :: u32)"

text \<open>The low and the high half of the product.\<close>

definition XXH_mult64to128 :: "u64 \<Rightarrow> u64 \<Rightarrow> u64 \<times> u64" where
  "XXH_mult64to128 lhs rhs =
     (let product = (ucast lhs :: u128) * ucast rhs in (ucast product, ucast (shr product 64)))"

definition XXH_mult64to128_portable :: "u64 \<Rightarrow> u64 \<Rightarrow> u64 \<times> u64" where
  "XXH_mult64to128_portable lhs rhs =
     (let lo_lo = XXH_mult32to64 (lhs AND 0xFFFFFFFF) (rhs AND 0xFFFFFFFF);
          hi_lo = XXH_mult32to64 (shr lhs 32) (rhs AND 0xFFFFFFFF);
          lo_hi = XXH_mult32to64 (lhs AND 0xFFFFFFFF) (shr rhs 32);
          hi_hi = XXH_mult32to64 (shr lhs 32) (shr rhs 32);
          cross = shr lo_lo 32 + (hi_lo AND 0xFFFFFFFF) + lo_hi;
          upper = shr hi_lo 32 + shr cross 32 + hi_hi;
          lower = shl cross 32 OR (lo_lo AND 0xFFFFFFFF)
      in (lower, upper))"

definition XXH3_mul128_fold64 :: "u64 \<Rightarrow> u64 \<Rightarrow> u64" where
  "XXH3_mul128_fold64 lhs rhs = (let (low64, high64) = XXH_mult64to128 lhs rhs in low64 XOR high64)"

definition XXH_xorshift64 :: "u64 \<Rightarrow> nat \<Rightarrow> u64" where
  "XXH_xorshift64 v64 shift = v64 XOR shr v64 shift"

definition XXH3_avalanche :: "u64 \<Rightarrow> u64" where
  "XXH3_avalanche h64 =
     (let h64 = XXH_xorshift64 h64 37;
          h64 = h64 * 0x165667919E3779F9
      in XXH_xorshift64 h64 32)"

definition XXH3_rrmxmx :: "u64 \<Rightarrow> u64 \<Rightarrow> u64" where
  "XXH3_rrmxmx h64 len =
     (let h64 = h64 XOR (XXH_rotl64 h64 49 XOR XXH_rotl64 h64 24);
          h64 = h64 * 0x9FB21C651E98DF25;
          h64 = h64 XOR (shr h64 35 + len);
          h64 = h64 * 0x9FB21C651E98DF25
      in XXH_xorshift64 h64 28)"

section \<open>Short keys\<close>

definition XXH3_SECRET_SIZE_MIN :: nat where
  "XXH3_SECRET_SIZE_MIN = 136"

definition XXH3_kSecret :: bytes where
  "XXH3_kSecret =
    [0xb8, 0xfe, 0x6c, 0x39, 0x23, 0xa4, 0x4b, 0xbe, 0x7c, 0x01, 0x81, 0x2c, 0xf7, 0x21, 0xad, 0x1c,
     0xde, 0xd4, 0x6d, 0xe9, 0x83, 0x90, 0x97, 0xdb, 0x72, 0x40, 0xa4, 0xa4, 0xb7, 0xb3, 0x67, 0x1f,
     0xcb, 0x79, 0xe6, 0x4e, 0xcc, 0xc0, 0xe5, 0x78, 0x82, 0x5a, 0xd0, 0x7d, 0xcc, 0xff, 0x72, 0x21,
     0xb8, 0x08, 0x46, 0x74, 0xf7, 0x43, 0x24, 0x8e, 0xe0, 0x35, 0x90, 0xe6, 0x81, 0x3a, 0x26, 0x4c,
     0x3c, 0x28, 0x52, 0xbb, 0x91, 0xc3, 0x00, 0xcb, 0x88, 0xd0, 0x65, 0x8b, 0x1b, 0x53, 0x2e, 0xa3,
     0x71, 0x64, 0x48, 0x97, 0xa2, 0x0d, 0xf9, 0x4e, 0x38, 0x19, 0xef, 0x46, 0xa9, 0xde, 0xac, 0xd8,
     0xa8, 0xfa, 0x76, 0x3f, 0xe3, 0x9c, 0x34, 0x3f, 0xf9, 0xdc, 0xbb, 0xc7, 0xc7, 0x0b, 0x4f, 0x1d,
     0x8a, 0x51, 0xe0, 0x4b, 0xcd, 0xb4, 0x59, 0x31, 0xc8, 0x9f, 0x7e, 0xc9, 0xd9, 0x78, 0x73, 0x64,
     0xea, 0xc5, 0xac, 0x83, 0x34, 0xd3, 0xeb, 0xc3, 0xc5, 0x81, 0xa0, 0xff, 0xfa, 0x13, 0x63, 0xeb,
     0x17, 0x0d, 0xdd, 0x51, 0xb7, 0xf0, 0xda, 0x49, 0xd3, 0x16, 0x55, 0x26, 0x29, 0xd4, 0x68, 0x9e,
     0x2b, 0x16, 0xbe, 0x58, 0x7d, 0x47, 0xa1, 0xfc, 0x8f, 0xf8, 0xb8, 0xd1, 0x7a, 0xd0, 0x31, 0xce,
     0x45, 0xcb, 0x3a, 0x8f, 0x95, 0x16, 0x04, 0x28, 0xaf, 0xd7, 0xfb, 0xca, 0xbb, 0x4b, 0x40, 0x7e]"

text \<open>
  \<open>input\<close> and \<open>secret\<close> are buffers, \<open>len\<close> the length of the key as a number; it is a 64-bit word
  where it is mixed into the hash.
\<close>

text \<open>
  The assertions of the file do nothing unless \<open>XXH_DEBUGLEVEL\<close> is defined as 1 or more, which no build file does; those on the lengths of keys of
  up to 240 bytes are modelled, with the default level. At level 1 the one of \<open>XXH3_len_4to8_64b\<close> would fail, since the function is called for length 8, too.
\<close>

definition XXH_DEBUGLEVEL :: nat where
  "XXH_DEBUGLEVEL = 0"

definition XXH_ASSERT :: "bool \<Rightarrow> unit option" where
  "XXH_ASSERT c = (if 1 \<le> XXH_DEBUGLEVEL \<and> \<not> c then None else Some ())"

lemma XXH_ASSERT_off [simp]: "XXH_ASSERT c = Some ()"
  by (simp add: XXH_ASSERT_def XXH_DEBUGLEVEL_def)

definition XXH3_len_1to3_64b :: "bytes \<Rightarrow> nat \<Rightarrow> bytes \<Rightarrow> u64 \<Rightarrow> u64 option" where
  "XXH3_len_1to3_64b input len secret seed = do {
     XXH_ASSERT (1 \<le> len \<and> len \<le> 3);
     c1 \<leftarrow> read8 input 0;
     c2 \<leftarrow> read8 input (len div 2);
     c3 \<leftarrow> read8 input (len - 1);
     s0 \<leftarrow> XXH_readLE32 secret 0; s4 \<leftarrow> XXH_readLE32 secret 4;
     let combined = (shl (ucast c1) 16 OR shl (ucast c2) 24 OR shl (ucast c3) 0 OR shl (of_nat len) 8 :: u32);
     let bitflip = ucast (s0 XOR s4) + seed;
     let keyed = ucast combined XOR bitflip;
     Some (XXH64_avalanche keyed)
   }"

definition XXH3_len_4to8_64b :: "bytes \<Rightarrow> nat \<Rightarrow> bytes \<Rightarrow> u64 \<Rightarrow> u64 option" where
  "XXH3_len_4to8_64b input len secret seed = do {
     XXH_ASSERT (4 \<le> len \<and> len < 8);
     let seed = seed XOR shl (ucast (XXH_swap32 (ucast seed))) 32;
     input1 \<leftarrow> XXH_readLE32 input 0;
     input2 \<leftarrow> XXH_readLE32 input (len - 4);
     s8 \<leftarrow> XXH_readLE64 secret 8; s16 \<leftarrow> XXH_readLE64 secret 16;
     let bitflip = (s8 XOR s16) - seed;
     let input64 = ucast input2 + shl (ucast input1) 32;
     let keyed = input64 XOR bitflip;
     Some (XXH3_rrmxmx keyed (of_nat len))
   }"

definition XXH3_len_9to16_64b :: "bytes \<Rightarrow> nat \<Rightarrow> bytes \<Rightarrow> u64 \<Rightarrow> u64 option" where
  "XXH3_len_9to16_64b input len secret seed = do {
     XXH_ASSERT (8 \<le> len \<and> len \<le> 16);
     s24 \<leftarrow> XXH_readLE64 secret 24; s32 \<leftarrow> XXH_readLE64 secret 32;
     s40 \<leftarrow> XXH_readLE64 secret 40; s48 \<leftarrow> XXH_readLE64 secret 48;
     let bitflip1 = (s24 XOR s32) + seed;
     let bitflip2 = (s40 XOR s48) - seed;
     lo \<leftarrow> XXH_readLE64 input 0;
     hi \<leftarrow> XXH_readLE64 input (len - 8);
     let input_lo = lo XOR bitflip1;
     let input_hi = hi XOR bitflip2;
     let acc = of_nat len + XXH_swap64 input_lo + input_hi + XXH3_mul128_fold64 input_lo input_hi;
     Some (XXH3_avalanche acc)
   }"

definition XXH3_len_0to16_64b :: "bytes \<Rightarrow> nat \<Rightarrow> bytes \<Rightarrow> u64 \<Rightarrow> u64 option" where
  "XXH3_len_0to16_64b input len secret seed = XXH_ASSERT (len \<le> 16) \<bind> (\<lambda>_.
     (if len > 8 then XXH3_len_9to16_64b input len secret seed
      else if len \<ge> 4 then XXH3_len_4to8_64b input len secret seed
      else if len \<noteq> 0 then XXH3_len_1to3_64b input len secret seed
      else do {
        s56 \<leftarrow> XXH_readLE64 secret 56; s64 \<leftarrow> XXH_readLE64 secret 64;
        Some (XXH64_avalanche (seed XOR (s56 XOR s64)))
      }))"

text \<open>The pointers of \<open>XXH3_mix16B\<close> are offsets into the two buffers.\<close>

definition XXH3_mix16B :: "bytes \<Rightarrow> nat \<Rightarrow> bytes \<Rightarrow> nat \<Rightarrow> u64 \<Rightarrow> u64 option" where
  "XXH3_mix16B input i secret s seed64 = do {
     input_lo \<leftarrow> XXH_readLE64 input i;
     input_hi \<leftarrow> XXH_readLE64 input (i + 8);
     s_lo \<leftarrow> XXH_readLE64 secret s;
     s_hi \<leftarrow> XXH_readLE64 secret (s + 8);
     Some (XXH3_mul128_fold64 (input_lo XOR (s_lo + seed64)) (input_hi XOR (s_hi - seed64)))
   }"

text \<open>\<open>acc += XXH3_mix16B(...)\<close> for a list of pairs of offsets, in order.\<close>

definition XXH3_mix_all :: "bytes \<Rightarrow> bytes \<Rightarrow> u64 \<Rightarrow> (nat \<times> nat) list \<Rightarrow> u64 \<Rightarrow> u64 option" where
  "XXH3_mix_all input secret seed ps acc =
     for_opt ps (\<lambda>(i, s) acc. map_option (\<lambda>x. acc + x) (XXH3_mix16B input i secret s seed)) acc"

definition XXH3_len_17to128_64b :: "bytes \<Rightarrow> nat \<Rightarrow> bytes \<Rightarrow> u64 \<Rightarrow> u64 option" where
  "XXH3_len_17to128_64b input len secret seed = do {
     XXH_ASSERT (16 < len \<and> len \<le> 128);
     let acc = of_nat len * XXH_PRIME64_1;
     acc \<leftarrow> XXH3_mix_all input secret seed
       ((if len > 32
         then (if len > 64
               then (if len > 96 then [(48, 96), (len - 64, 112)] else [])
                    @ [(32, 64), (len - 48, 80)]
               else [])
              @ [(16, 32), (len - 32, 48)]
         else [])
        @ [(0, 0), (len - 16, 16)]) acc;
     Some (XXH3_avalanche acc)
   }"

definition XXH3_len_129to240_64b :: "bytes \<Rightarrow> nat \<Rightarrow> bytes \<Rightarrow> u64 \<Rightarrow> u64 option" where
  "XXH3_len_129to240_64b input len secret seed = do {
     XXH_ASSERT (128 < len \<and> len \<le> 240);
     let acc = of_nat len * XXH_PRIME64_1;
     let nbRounds = len div 16;
     acc \<leftarrow> XXH3_mix_all input secret seed (map (\<lambda>i. (16 * i, 16 * i)) [0..<8]) acc;
     let acc = XXH3_avalanche acc;
     XXH_ASSERT (nbRounds \<ge> 8);
     acc \<leftarrow> XXH3_mix_all input secret seed (map (\<lambda>i. (16 * i, 16 * (i - 8) + 3)) [8..<nbRounds]) acc;
     acc \<leftarrow> XXH3_mix_all input secret seed [(len - 16, XXH3_SECRET_SIZE_MIN - 17)] acc;
     Some (XXH3_avalanche acc)
   }"

section \<open>Long keys\<close>

text \<open>The eight accumulators are a list; a body of a loop over them works on lane \<open>i\<close>.\<close>

definition XXH3_accumulate_512 :: "bytes \<Rightarrow> nat \<Rightarrow> bytes \<Rightarrow> nat \<Rightarrow> u64 list \<Rightarrow> u64 list option" where
  "XXH3_accumulate_512 input p secret s acc =
     for_opt [0..<8] (\<lambda>i xacc. do {
       data_val \<leftarrow> XXH_readLE64 input (p + 8 * i);
       k \<leftarrow> XXH_readLE64 secret (s + i * 8);
       let data_key = data_val XOR k;
       let j = (if even i then i + 1 else i - 1);
       x \<leftarrow> nth_opt xacc j;
       let xacc = xacc[j := x + data_val];
       y \<leftarrow> nth_opt xacc i;
       Some (xacc[i := y + XXH_mult32to64 (data_key AND 0xFFFFFFFF) (shr data_key 32)])
     }) acc"

definition XXH3_scrambleAcc :: "u64 list \<Rightarrow> bytes \<Rightarrow> nat \<Rightarrow> u64 list option" where
  "XXH3_scrambleAcc acc secret s =
     for_opt [0..<8] (\<lambda>i xacc. do {
       key64 \<leftarrow> XXH_readLE64 secret (s + 8 * i);
       acc64 \<leftarrow> nth_opt xacc i;
       let acc64 = XXH_xorshift64 acc64 47;
       let acc64 = acc64 XOR key64;
       let acc64 = acc64 * ucast XXH_PRIME32_1;
       Some (xacc[i := acc64])
     }) acc"

definition XXH3_initCustomSecret :: "u64 \<Rightarrow> bytes option" where
  "XXH3_initCustomSecret seed64 =
     for_opt [0..<12] (\<lambda>i customSecret. do {
       lo \<leftarrow> XXH_readLE64 XXH3_kSecret (16 * i);
       hi \<leftarrow> XXH_readLE64 XXH3_kSecret (16 * i + 8);
       Some (customSecret @ le_bytes 8 (lo + seed64) @ le_bytes 8 (hi - seed64))
     }) []"

definition XXH3_accumulate :: "u64 list \<Rightarrow> bytes \<Rightarrow> nat \<Rightarrow> bytes \<Rightarrow> nat \<Rightarrow> u64 list option" where
  "XXH3_accumulate acc input p secret nbStripes =
     for_opt [0..<nbStripes] (\<lambda>n acc. XXH3_accumulate_512 input (p + n * 64) secret (n * 8) acc) acc"

definition XXH3_hashLong_internal_loop :: "u64 list \<Rightarrow> bytes \<Rightarrow> nat \<Rightarrow> bytes \<Rightarrow> nat \<Rightarrow> u64 list option" where
  "XXH3_hashLong_internal_loop acc input len secret secretSize = do {
     let nbStripesPerBlock = (secretSize - 64) div 8;
     let block_len = 64 * nbStripesPerBlock;
     let nb_blocks = (len - 1) div block_len;
     acc \<leftarrow> for_opt [0..<nb_blocks] (\<lambda>n acc. do {
       acc \<leftarrow> XXH3_accumulate acc input (n * block_len) secret nbStripesPerBlock;
       XXH3_scrambleAcc acc secret (secretSize - 64)
     }) acc;
     let nbStripes = ((len - 1) - block_len * nb_blocks) div 64;
     acc \<leftarrow> XXH3_accumulate acc input (nb_blocks * block_len) secret nbStripes;
     XXH3_accumulate_512 input (len - 64) secret (secretSize - 64 - 7) acc
   }"

definition XXH3_mix2Accs :: "u64 list \<Rightarrow> nat \<Rightarrow> bytes \<Rightarrow> nat \<Rightarrow> u64 option" where
  "XXH3_mix2Accs acc a secret s = do {
     x \<leftarrow> nth_opt acc a; y \<leftarrow> nth_opt acc (a + 1);
     k0 \<leftarrow> XXH_readLE64 secret s; k1 \<leftarrow> XXH_readLE64 secret (s + 8);
     Some (XXH3_mul128_fold64 (x XOR k0) (y XOR k1))
   }"

definition XXH3_mergeAccs :: "u64 list \<Rightarrow> bytes \<Rightarrow> nat \<Rightarrow> u64 \<Rightarrow> u64 option" where
  "XXH3_mergeAccs acc secret s start =
     map_option XXH3_avalanche
       (for_opt [0..<4] (\<lambda>i r. map_option (\<lambda>x. r + x) (XXH3_mix2Accs acc (2 * i) secret (s + 16 * i))) start)"

definition XXH3_INIT_ACC :: "u64 list" where
  "XXH3_INIT_ACC = [ucast XXH_PRIME32_3, XXH_PRIME64_1, XXH_PRIME64_2, XXH_PRIME64_3,
     XXH_PRIME64_4, ucast XXH_PRIME32_2, XXH_PRIME64_5, ucast XXH_PRIME32_1]"

definition XXH3_hashLong_64b_internal :: "bytes \<Rightarrow> nat \<Rightarrow> bytes \<Rightarrow> nat \<Rightarrow> u64 option" where
  "XXH3_hashLong_64b_internal input len secret secretSize = do {
     acc \<leftarrow> XXH3_hashLong_internal_loop XXH3_INIT_ACC input len secret secretSize;
     XXH3_mergeAccs acc secret 11 (of_nat len * XXH_PRIME64_1)
   }"

definition XXH3_hashLong_64b_withSecret :: "bytes \<Rightarrow> nat \<Rightarrow> u64 \<Rightarrow> bytes \<Rightarrow> nat \<Rightarrow> u64 option" where
  "XXH3_hashLong_64b_withSecret input len seed64 secret secretLen =
     XXH3_hashLong_64b_internal input len secret secretLen"

definition XXH3_hashLong_64b_default :: "bytes \<Rightarrow> nat \<Rightarrow> u64 \<Rightarrow> bytes \<Rightarrow> nat \<Rightarrow> u64 option" where
  "XXH3_hashLong_64b_default input len seed64 secret secretLen =
     XXH3_hashLong_64b_internal input len XXH3_kSecret (length XXH3_kSecret)"

definition XXH3_hashLong_64b_withSeed :: "bytes \<Rightarrow> nat \<Rightarrow> u64 \<Rightarrow> bytes \<Rightarrow> nat \<Rightarrow> u64 option" where
  "XXH3_hashLong_64b_withSeed input len seed secret secretLen =
     (if seed = 0 then XXH3_hashLong_64b_internal input len XXH3_kSecret (length XXH3_kSecret)
      else do {
        custom \<leftarrow> XXH3_initCustomSecret seed;
        XXH3_hashLong_64b_internal input len custom (length custom)
      })"

section \<open>Entry points\<close>

definition XXH3_64bits_internal :: "bytes \<Rightarrow> u64 \<Rightarrow> u64 \<Rightarrow> bytes \<Rightarrow> nat \<Rightarrow>
    (bytes \<Rightarrow> nat \<Rightarrow> u64 \<Rightarrow> bytes \<Rightarrow> nat \<Rightarrow> u64 option) \<Rightarrow> u64 option" where
  "XXH3_64bits_internal input len seed64 secret secretLen f_hashLong =
     (let n = unat len in
      if n \<le> 16 then XXH3_len_0to16_64b input n secret seed64
      else if n \<le> 128 then XXH3_len_17to128_64b input n secret seed64
      else if n \<le> 240 then XXH3_len_129to240_64b input n secret seed64
      else f_hashLong input n seed64 secret secretLen)"

definition XXH3_64bits :: "bytes \<Rightarrow> u64 \<Rightarrow> u64 option" where
  "XXH3_64bits input len =
     XXH3_64bits_internal input len 0 XXH3_kSecret (length XXH3_kSecret) XXH3_hashLong_64b_default"

definition XXH3_64bits_withSecret :: "bytes \<Rightarrow> u64 \<Rightarrow> bytes \<Rightarrow> nat \<Rightarrow> u64 option" where
  "XXH3_64bits_withSecret input len secret secretSize =
     XXH3_64bits_internal input len 0 secret secretSize XXH3_hashLong_64b_withSecret"

definition XXH3_64bits_withSeed :: "bytes \<Rightarrow> u64 \<Rightarrow> u64 \<Rightarrow> u64 option" where
  "XXH3_64bits_withSeed input len seed =
     XXH3_64bits_internal input len seed XXH3_kSecret (length XXH3_kSecret) XXH3_hashLong_64b_withSeed"

lemma length_kSecret: "length XXH3_kSecret = 192"
  by (simp add: XXH3_kSecret_def)

lemma initCustomSecret_0: "XXH3_initCustomSecret 0 = Some XXH3_kSecret"
  by code_simp

section \<open>The portable multiply\<close>

text \<open>The grade-school multiply with the cross products added up: nothing overflows.\<close>

lemma cross_split:
  fixes a1 a0 b1 b0 :: nat
  defines "cross \<equiv> a0 * b0 div 2 ^ 32 + a1 * b0 mod 2 ^ 32 + a0 * b1"
  shows "(a1 * 2 ^ 32 + a0) * (b1 * 2 ^ 32 + b0) =
    (a1 * b0 div 2 ^ 32 + cross div 2 ^ 32 + a1 * b1) * 2 ^ 64 + (cross mod 2 ^ 32 * 2 ^ 32 + a0 * b0 mod 2 ^ 32)"
proof -
  let ?K = "2 ^ 32 :: nat"
  have dm: "x = x div ?K * ?K + x mod ?K" for x by (simp only: div_mult_mod_eq)
  have KK: "(2 :: nat) ^ 64 = ?K * ?K" by simp
  have "cross * ?K + a0 * b0 mod ?K + a1 * b0 div ?K * ?K * ?K =
      (a0 * b0 div ?K * ?K + a0 * b0 mod ?K) + (a1 * b0 div ?K * ?K + a1 * b0 mod ?K) * ?K + a0 * b1 * ?K"
    unfolding cross_def add_mult_distrib by (simp only: add_ac)
  also have "\<dots> = a0 * b0 + a1 * b0 * ?K + a0 * b1 * ?K" by (simp only: div_mult_mod_eq)
  finally have c: "cross * ?K + a0 * b0 mod ?K + a1 * b0 div ?K * ?K * ?K = a0 * b0 + a1 * b0 * ?K + a0 * b1 * ?K" .
  have "cross * ?K = cross div ?K * (?K * ?K) + cross mod ?K * ?K"
    by (subst dm [of cross], simp only: add_mult_distrib mult.assoc)
  with c have "a0 * b0 + a1 * b0 * ?K + a0 * b1 * ?K =
      cross div ?K * (?K * ?K) + cross mod ?K * ?K + a0 * b0 mod ?K + a1 * b0 div ?K * (?K * ?K)"
    by (simp only: mult.assoc)
  moreover have "(a1 * ?K + a0) * (b1 * ?K + b0) = a1 * b1 * (?K * ?K) + (a0 * b0 + a1 * b0 * ?K + a0 * b1 * ?K)"
    by (simp only: add_mult_distrib add_mult_distrib2 mult_ac add_ac)
  ultimately show ?thesis unfolding KK by (simp only: add_mult_distrib add_ac)
qed

lemma unat_mult32to64:
  "unat (XXH_mult32to64 x y) = unat x mod 2 ^ 32 * (unat y mod 2 ^ 32)"
  unfolding XXH_mult32to64_def unat_u32_mult by (simp add: unat_ucast_down)

lemma unat_and_low32: "unat (x AND 0xFFFFFFFF :: u64) = unat x mod 2 ^ 32"
proof -
  have "(0xFFFFFFFF :: u64) = mask 32" by (simp add: mask_eq_exp_minus_1)
  then show ?thesis using unat_and_mask [of x 32] by simp
qed

text \<open>A low half of zeros and a number below \<open>2 ^ 32\<close> are put together by \<open>|\<close> as by \<open>+\<close>.\<close>

lemma unat_join32:
  fixes x y :: u64
  assumes "unat y < 2 ^ 32"
  shows "unat (shl x 32 OR y) = unat x mod 2 ^ 32 * 2 ^ 32 + unat y"
proof -
  have "shl x 32 AND y = 0"
  proof (rule bit_word_eqI)
    fix i assume "i < LENGTH(64)"
    have "y = take_bit 32 y"
      using assms by (metis take_bit_nat_eq_self_iff unsigned_take_bit_eq word_unat_eq_iff)
    then have "bit y i \<Longrightarrow> i < 32" by (metis bit_take_bit_iff)
    then show "bit (shl x 32 AND y) i = bit 0 i" by (auto simp: bit_and_iff bit_push_bit_iff)
  qed
  then have "shl x 32 OR y = shl x 32 + y" by (rule disjunctive_add_eq_or [symmetric])
  moreover have "unat (shl x 32) + unat y < 2 ^ 64"
  proof -
    have "unat x mod 2 ^ 32 < 2 ^ 32" by simp
    then have "(unat x mod 2 ^ 32 + 1) * 2 ^ 32 \<le> 2 ^ 32 * 2 ^ 32" by (intro mult_le_mono1) simp
    then show ?thesis using assms unfolding unat_shl32 by simp
  qed
  ultimately have "unat (shl x 32 OR y) = unat (shl x 32) + unat y" by (simp add: unat_word_ariths)
  then show ?thesis by (simp only: unat_shl32)
qed

lemma XXH_mult64to128_portable_eq: "XXH_mult64to128_portable lhs rhs = XXH_mult64to128 lhs rhs"
proof -
  let ?K = "2 ^ 32 :: nat"
  define a1 a0 b1 b0 where d: "a1 = unat lhs div ?K" "a0 = unat lhs mod ?K" "b1 = unat rhs div ?K" "b0 = unat rhs mod ?K"
  have lt: "a1 < ?K" "a0 < ?K" "b1 < ?K" "b0 < ?K"
    using unat_u64_less [of lhs] unat_u64_less [of rhs] by (simp_all add: d)
  have le: "x * y \<le> (?K - 1) * (?K - 1)" if "x < ?K" "y < ?K" for x y
    using that by (intro mult_le_mono) simp_all
  define lo_lo hi_lo lo_hi hi_hi where e: "lo_lo = XXH_mult32to64 (lhs AND 0xFFFFFFFF) (rhs AND 0xFFFFFFFF)"
    "hi_lo = XXH_mult32to64 (shr lhs 32) (rhs AND 0xFFFFFFFF)"
    "lo_hi = XXH_mult32to64 (lhs AND 0xFFFFFFFF) (shr rhs 32)"
    "hi_hi = XXH_mult32to64 (shr lhs 32) (shr rhs 32)"
  have u: "unat lo_lo = a0 * b0" "unat hi_lo = a1 * b0" "unat lo_hi = a0 * b1" "unat hi_hi = a1 * b1"
    using lt by (simp_all add: e unat_mult32to64 unat_and_low32 unat_shr d)
  define cross where "cross = shr lo_lo 32 + (hi_lo AND 0xFFFFFFFF) + lo_hi"
  define c where "c = a0 * b0 div ?K + a1 * b0 mod ?K + a0 * b1"
  have cl: "c < 2 ^ 64"
  proof -
    have "a0 * b0 div ?K \<le> (?K - 1) * (?K - 1) div ?K" using le [OF lt(2,4)] by (rule div_le_mono)
    then have "a0 * b0 div ?K < ?K" by simp
    moreover have "a1 * b0 mod ?K < ?K" by simp
    ultimately show ?thesis using le [OF lt(2,3)] by (simp add: c_def)
  qed
  have uc: "unat cross = c"
  proof -
    have s: "unat (shr lo_lo 32 + (hi_lo AND 0xFFFFFFFF)) = a0 * b0 div ?K + a1 * b0 mod ?K"
      using cl by (simp add: unat_word_ariths unat_shr unat_and_low32 u c_def)
    have "unat cross = (unat (shr lo_lo 32 + (hi_lo AND 0xFFFFFFFF)) + unat lo_hi) mod 2 ^ 64"
      unfolding cross_def by (simp add: unat_word_ariths)
    then show ?thesis unfolding s u c_def [symmetric] using cl by (simp only: mod_less)
  qed
  define upper where "upper = shr hi_lo 32 + shr cross 32 + hi_hi"
  define lower where "lower = shl cross 32 OR (lo_lo AND 0xFFFFFFFF)"
  have ul: "unat lower = c mod ?K * ?K + a0 * b0 mod ?K"
    unfolding lower_def by (subst unat_join32) (simp_all add: unat_and_low32 u uc)
  have AB: "unat lhs = a1 * ?K + a0" "unat rhs = b1 * ?K + b0" by (simp_all only: d div_mult_mod_eq)
  let ?hi = "a1 * b0 div ?K + c div ?K + a1 * b1"
  have P: "unat lhs * unat rhs = ?hi * 2 ^ 64 + unat lower"
    unfolding AB ul c_def by (rule cross_split)
  have lm: "unat lhs * unat rhs mod 2 ^ 64 = unat lower" and hd: "unat lhs * unat rhs div 2 ^ 64 = ?hi"
    unfolding P using unat_u64_less [of lower] by (simp_all only: mod_mult_self3 div_mult_self3 mod_less div_less
        add_0_right power_not_zero zero_neq_numeral [symmetric] not_False_eq_True)
  have w: "XXH_mult64to128 lhs rhs = wymum lhs rhs" by (simp add: XXH_mult64to128_def wymum_def)
  have "upper = of_nat ?hi"
    unfolding upper_def of_nat_add
    by (simp only: u(2,4) [symmetric] uc [symmetric] unat_shr [symmetric] of_nat_unat ucast_id)
  then have "snd (wymum lhs rhs) = upper" using unat_wymum(2) [of lhs rhs] hd by (metis of_nat_unat ucast_id)
  moreover have "fst (wymum lhs rhs) = lower" using unat_wymum(1) [of lhs rhs] lm by (simp add: word_unat_eq_iff)
  moreover have "XXH_mult64to128_portable lhs rhs = (lower, upper)"
    by (simp add: XXH_mult64to128_portable_def Let_def lower_def upper_def cross_def e)
  ultimately show ?thesis by (simp add: w prod_eq_iff)
qed

section \<open>Memory safety\<close>

lemma XXH3_len_0to16_total:
  assumes "n \<le> length input" "n \<le> 16" "72 \<le> length secret"
  shows "\<exists>h. XXH3_len_0to16_64b input n secret seed = Some h"
proof -
  have m: "n div 2 < length input" "read8 input 0 = Some (input ! 0)" if "n \<noteq> 0"
    using that assms(1) by (linarith, intro read8_Some, linarith)
  consider "8 < n" | "4 \<le> n" "n \<le> 8" | "0 < n" "n < 4" | "n = 0" by linarith
  then show ?thesis
  proof cases
    case 1
    then show ?thesis using assms
      by (simp add: XXH3_len_0to16_64b_def XXH3_len_9to16_64b_def xxh_read_defs safe_reads Let_def)
  next
    case 2
    then show ?thesis using assms
      by (simp add: XXH3_len_0to16_64b_def XXH3_len_4to8_64b_def xxh_read_defs safe_reads Let_def)
  next
    case 3
    then show ?thesis using assms m
      by (simp add: XXH3_len_0to16_64b_def XXH3_len_1to3_64b_def xxh_read_defs safe_reads Let_def)
  next
    case 4
    then show ?thesis using assms by (simp add: XXH3_len_0to16_64b_def xxh_read_defs safe_reads Let_def)
  qed
qed

lemma XXH3_mix16B_total:
  "i + 16 \<le> length input \<Longrightarrow> s + 16 \<le> length secret \<Longrightarrow> \<exists>h. XXH3_mix16B input i secret s seed = Some h"
  by (simp add: XXH3_mix16B_def xxh_read_defs safe_reads)

lemma XXH3_mix_all_total:
  assumes "\<And>i s. (i, s) \<in> set ps \<Longrightarrow> i + 16 \<le> length input \<and> s + 16 \<le> length secret"
  shows "\<exists>h. XXH3_mix_all input secret seed ps acc = Some h"
proof -
  have "\<exists>h. for_opt ps (\<lambda>(i, s) acc. map_option ((+) acc) (XXH3_mix16B input i secret s seed)) acc = Some h \<and> True"
    by (rule for_opt_total) (use assms XXH3_mix16B_total in fastforce)+
  then show ?thesis by (simp add: XXH3_mix_all_def)
qed

lemma XXH3_len_17to128_total:
  assumes "n \<le> length input" "16 < n" "n \<le> 128" "136 \<le> length secret"
  shows "\<exists>h. XXH3_len_17to128_64b input n secret seed = Some h"
proof -
  let ?ps = "(if n > 32
         then (if n > 64 then (if n > 96 then [(48, 96), (n - 64, 112)] else []) @ [(32, 64), (n - 48, 80)]
               else []) @ [(16, 32), (n - 32, 48)]
         else []) @ [(0, 0), (n - 16, 16)]"
  have "\<exists>h. XXH3_mix_all input secret seed ?ps (of_nat n * XXH_PRIME64_1) = Some h"
    by (rule XXH3_mix_all_total) (use assms in \<open>auto split: if_splits\<close>)
  then show ?thesis by (auto simp: XXH3_len_17to128_64b_def)
qed

lemma XXH3_len_129to240_total:
  assumes "n \<le> length input" "128 < n" "n \<le> 240" "136 \<le> length secret"
  shows "\<exists>h. XXH3_len_129to240_64b input n secret seed = Some h"
proof -
  have k: "16 * i + 16 \<le> n" if "i < n div 16" for i
  proof -
    have "16 * Suc i \<le> 16 * (n div 16)" using that by (intro mult_le_mono) auto
    also have "\<dots> \<le> n" by simp
    finally show ?thesis by simp
  qed
  have "n div 16 \<le> 15" using assms(3) by linarith
  then have r: "i < 15" if "i < n div 16" for i using that by linarith
  have 1: "\<exists>h. XXH3_mix_all input secret seed (map (\<lambda>i. (16 * i, 16 * i)) [0..<8]) acc = Some h" for acc
    by (rule XXH3_mix_all_total) (use assms in auto)
  have 2: "\<exists>h. XXH3_mix_all input secret seed (map (\<lambda>i. (16 * i, 16 * (i - 8) + 3)) [8..<n div 16]) acc = Some h"
    for acc
    by (rule XXH3_mix_all_total) (use assms k r in fastforce)
  have 3: "\<exists>h. XXH3_mix_all input secret seed [(n - 16, XXH3_SECRET_SIZE_MIN - 17)] acc = Some h" for acc
    by (rule XXH3_mix_all_total) (use assms in \<open>auto simp: XXH3_SECRET_SIZE_MIN_def\<close>)
  obtain a where a: "XXH3_mix_all input secret seed (map (\<lambda>i. (16 * i, 16 * i)) [0..<8])
      (of_nat n * XXH_PRIME64_1) = Some a" using 1 by blast
  obtain b where b: "XXH3_mix_all input secret seed (map (\<lambda>i. (16 * i, 16 * (i - 8) + 3)) [8..<n div 16])
      (XXH3_avalanche a) = Some b" using 2 by blast
  obtain c where c: "XXH3_mix_all input secret seed [(n - 16, XXH3_SECRET_SIZE_MIN - 17)] b = Some c"
    using 3 by blast
  show ?thesis unfolding XXH3_len_129to240_64b_def Let_def a b c by (simp add: a b c)
qed

lemma XXH3_accumulate_512_total:
  assumes "p + 64 \<le> length input" "s + 64 \<le> length secret" "length acc = 8"
  shows "\<exists>acc'. XXH3_accumulate_512 input p secret s acc = Some acc' \<and> length acc' = 8"
  unfolding XXH3_accumulate_512_def
proof (rule for_opt_total)
  fix i and xacc :: "u64 list"
  assume "i \<in> set [0..<8]" and l: "length xacc = 8"
  then have i: "i < 8" by simp
  have j: "(if even i then i + 1 else i - 1) < 8" using i by presburger
  show "\<exists>s'. (do {
       data_val \<leftarrow> XXH_readLE64 input (p + 8 * i);
       k \<leftarrow> XXH_readLE64 secret (s + i * 8);
       let data_key = data_val XOR k;
       let j = (if even i then i + 1 else i - 1);
       x \<leftarrow> nth_opt xacc j;
       let xacc = xacc[j := x + data_val];
       y \<leftarrow> nth_opt xacc i;
       Some (xacc[i := y + XXH_mult32to64 (data_key AND 0xFFFFFFFF) (shr data_key 32)])
     }) = Some s' \<and> length s' = 8"
    using assms(1,2) i j l by (simp add: xxh_read_defs safe_reads Let_def)
qed (rule assms(3))

lemma XXH3_scrambleAcc_total:
  assumes "s + 64 \<le> length secret" "length acc = 8"
  shows "\<exists>acc'. XXH3_scrambleAcc acc secret s = Some acc' \<and> length acc' = 8"
  unfolding XXH3_scrambleAcc_def
  by (rule for_opt_total) (use assms in \<open>auto simp: xxh_read_defs safe_reads Let_def\<close>)

lemma XXH3_accumulate_total:
  assumes "p + nb * 64 \<le> length input" "nb * 8 + 56 \<le> length secret" "length acc = 8"
  shows "\<exists>acc'. XXH3_accumulate acc input p secret nb = Some acc' \<and> length acc' = 8"
  unfolding XXH3_accumulate_def
proof (rule for_opt_total)
  fix n and xacc :: "u64 list"
  assume "n \<in> set [0..<nb]" and l: "length xacc = 8"
  then have "n + 1 \<le> nb" by simp
  then have "n * 64 + 64 \<le> nb * 64" "n * 8 + 8 \<le> nb * 8" by linarith+
  then show "\<exists>s'. XXH3_accumulate_512 input (p + n * 64) secret (n * 8) xacc = Some s' \<and> length s' = 8"
    using assms l by (intro XXH3_accumulate_512_total) linarith+
qed (rule assms(3))

lemma XXH3_hashLong_loop_total:
  assumes "n \<le> length input" "64 \<le> n" "136 \<le> S" "S \<le> length secret" "length acc = 8"
  shows "\<exists>acc'. XXH3_hashLong_internal_loop acc input n secret S = Some acc' \<and> length acc' = 8"
proof -
  define nb B q where d: "nb = (S - 64) div 8" "B = 64 * nb" "q = (n - 1) div B"
  define m where "m = ((n - 1) - B * q) div 64"
  have "9 \<le> nb" and nb: "nb * 8 + 64 \<le> S" using assms(3) by (auto simp: d)
  then have B: "0 < B" by (simp add: d)
  have qB: "B * q \<le> n - 1" by (simp add: d(3))
  have r: "(n - 1) - B * q = (n - 1) mod B" by (simp add: d(3) minus_mult_div_eq_mod)
  have "(n - 1) mod B < 64 * nb" using B by (simp add: d(2))
  then have m: "m < nb" unfolding m_def r by (intro less_mult_imp_div_less) (simp only: mult.commute)
  have mB: "q * B + m * 64 \<le> n - 1"
  proof -
    have "m * 64 \<le> (n - 1) - B * q" by (simp add: m_def)
    then show ?thesis using qB by (simp add: mult.commute)
  qed
  obtain a where a: "for_opt [0..<q] (\<lambda>n acc. do {
       acc \<leftarrow> XXH3_accumulate acc input (n * B) secret nb;
       XXH3_scrambleAcc acc secret (S - 64)
     }) acc = Some a \<and> length a = 8"
  proof (atomize_elim, rule for_opt_total)
    fix i and xacc :: "u64 list"
    assume "i \<in> set [0..<q]" and l: "length xacc = 8"
    then have "Suc i \<le> q" by simp
    then have "Suc i * B \<le> q * B" by (rule mult_le_mono1)
    then have "i * B + nb * 64 \<le> length input"
      using qB assms(1) by (simp add: d(2) mult.commute)
    then obtain x where x: "XXH3_accumulate xacc input (i * B) secret nb = Some x" "length x = 8"
      using XXH3_accumulate_total [of "i * B" nb input secret xacc] nb assms(4) l by auto
    then show "\<exists>s'. (do { acc \<leftarrow> XXH3_accumulate xacc input (i * B) secret nb;
        XXH3_scrambleAcc acc secret (S - 64) }) = Some s' \<and> length s' = 8"
      using XXH3_scrambleAcc_total [of "S - 64" secret x] assms(3,4) by simp
  qed (rule assms(5))
  have mi: "q * B + m * 64 \<le> length input" "m * 8 + 56 \<le> length secret"
    using mB m nb assms(1,4) by linarith+
  obtain b where b: "XXH3_accumulate a input (q * B) secret m = Some b" "length b = 8"
    using XXH3_accumulate_total [OF mi] a by blast
  obtain c where c: "XXH3_accumulate_512 input (n - 64) secret (S - 64 - 7) b = Some c" "length c = 8"
  proof -
    have "n - 64 + 64 \<le> length input" "S - 64 - 7 + 64 \<le> length secret" using assms by linarith+
    then show ?thesis using XXH3_accumulate_512_total b(2) that by blast
  qed
  have "XXH3_hashLong_internal_loop acc input n secret S = Some c"
    unfolding XXH3_hashLong_internal_loop_def Let_def d(1) [symmetric] d(2) [symmetric] d(3) [symmetric]
      m_def [symmetric]
    using a b c by simp
  with c show ?thesis by blast
qed

lemma XXH3_mergeAccs_total:
  assumes "s + 64 \<le> length secret" "length acc = 8"
  shows "\<exists>h. XXH3_mergeAccs acc secret s start = Some h"
proof -
  have "\<exists>r. for_opt [0..<4] (\<lambda>i r. map_option (\<lambda>x. r + x) (XXH3_mix2Accs acc (2 * i) secret (s + 16 * i))) start
      = Some r \<and> True"
    by (rule for_opt_total) (use assms in \<open>auto simp: XXH3_mix2Accs_def xxh_read_defs safe_reads\<close>)
  then show ?thesis by (auto simp: XXH3_mergeAccs_def)
qed

lemma XXH3_hashLong_total:
  assumes "n \<le> length input" "64 \<le> n" "136 \<le> S" "S \<le> length secret"
  shows "\<exists>h. XXH3_hashLong_64b_internal input n secret S = Some h"
proof -
  have "length XXH3_INIT_ACC = 8" by (simp add: XXH3_INIT_ACC_def)
  then obtain acc where "XXH3_hashLong_internal_loop XXH3_INIT_ACC input n secret S = Some acc" "length acc = 8"
    using XXH3_hashLong_loop_total [OF assms] by blast
  then show ?thesis using XXH3_mergeAccs_total [of 11 secret acc] assms
    by (simp add: XXH3_hashLong_64b_internal_def)
qed

lemma initCustomSecret_length: "\<exists>c. XXH3_initCustomSecret seed = Some c \<and> length c = 192"
  unfolding XXH3_initCustomSecret_def
  by (simp add: upt_rec xxh_read_defs safe_reads length_kSecret)

lemma XXH3_64bits_internal_total:
  assumes "unat len \<le> length input" "136 \<le> length secret"
    "\<And>n. n \<le> length input \<Longrightarrow> 64 \<le> n \<Longrightarrow> \<exists>h. f input n seed secret S = Some h"
  shows "\<exists>h. XXH3_64bits_internal input len seed secret S f = Some h"
proof -
  consider "unat len \<le> 16" | "16 < unat len" "unat len \<le> 128" | "128 < unat len" "unat len \<le> 240" | "240 < unat len"
    by linarith
  then show ?thesis
    using XXH3_len_0to16_total [OF assms(1), of secret seed] XXH3_len_17to128_total [OF assms(1), of secret seed]
      XXH3_len_129to240_total [OF assms(1), of secret seed] assms
    by cases (simp_all add: XXH3_64bits_internal_def Let_def)
qed

lemma XXH3_64bits_total: "unat len \<le> length input \<Longrightarrow> \<exists>h. XXH3_64bits input len = Some h"
  unfolding XXH3_64bits_def
  by (rule XXH3_64bits_internal_total)
    (simp_all add: XXH3_hashLong_64b_default_def XXH3_hashLong_total length_kSecret)

lemma XXH3_64bits_withSeed_total:
  assumes "unat len \<le> length input"
  shows "\<exists>h. XXH3_64bits_withSeed input len seed = Some h"
proof -
  obtain c where "XXH3_initCustomSecret seed = Some c" "length c = 192" using initCustomSecret_length by blast
  then show ?thesis unfolding XXH3_64bits_withSeed_def
    by (intro XXH3_64bits_internal_total [OF assms])
      (simp_all add: XXH3_hashLong_64b_withSeed_def XXH3_hashLong_total length_kSecret)
qed

lemma XXH3_64bits_withSecret_total:
  assumes "unat len \<le> length input" "136 \<le> S" "S \<le> length secret"
  shows "\<exists>h. XXH3_64bits_withSecret input len secret S = Some h"
  unfolding XXH3_64bits_withSecret_def
  by (rule XXH3_64bits_internal_total [OF assms(1)])
    (use assms in \<open>simp_all add: XXH3_hashLong_64b_withSecret_def XXH3_hashLong_total\<close>)

text \<open>
  C21. XXH3, built with its assertions off as by default, hashes every key without leaving its buffers: for a key of any length the default entry point, the one
  with a seed and the one with a secret of at least the minimum size return a hash, every read inside the
  key, the secret and the accumulators. With seed 0 the seeded hash is the default one, and the
  shortcut it takes for long keys loses nothing: the secret it would derive from seed 0 is the default secret.
\<close>

theorem XXH3_64bits_safe:
  assumes "unat len \<le> length input" "136 \<le> S" "S \<le> length secret"
  shows "(\<exists>h. XXH3_64bits input len = Some h) \<and>
    (\<exists>h. XXH3_64bits_withSeed input len seed = Some h) \<and>
    (\<exists>h. XXH3_64bits_withSecret input len secret S = Some h) \<and>
    XXH3_64bits_withSeed input len 0 = XXH3_64bits input len \<and>
    XXH3_initCustomSecret 0 = Some XXH3_kSecret"
proof (intro conjI)
  show "\<exists>h. XXH3_64bits input len = Some h" by (rule XXH3_64bits_total [OF assms(1)])
  show "\<exists>h. XXH3_64bits_withSeed input len seed = Some h" by (rule XXH3_64bits_withSeed_total [OF assms(1)])
  show "\<exists>h. XXH3_64bits_withSecret input len secret S = Some h" by (rule XXH3_64bits_withSecret_total [OF assms])
  show "XXH3_64bits_withSeed input len 0 = XXH3_64bits input len"
    by (simp add: XXH3_64bits_withSeed_def XXH3_64bits_def XXH3_64bits_internal_def
        XXH3_hashLong_64b_withSeed_def XXH3_hashLong_64b_default_def Let_def)
  show "XXH3_initCustomSecret 0 = Some XXH3_kSecret" by (rule initCustomSecret_0)
qed

theorem XXH3_64bits_safe_witness:
  "(\<exists>h. XXH3_64bits (replicate 300 7) 300 = Some h) \<and>
   (\<exists>h. XXH3_64bits_withSeed (replicate 300 7) 300 5 = Some h) \<and>
   (\<exists>h. XXH3_64bits_withSecret (replicate 300 7) 300 (replicate 150 1) 140 = Some h)"
  using XXH3_64bits_safe [of 300 "replicate 300 7" 140 "replicate 150 1" 5] by simp

end
