(* ===== verification/XXH3_Customs.thy ===== *)
theory XXH3_Customs
  imports XXH3_Hash Partial_Hash
begin

text \<open>
  The XXH3 functions that read one to four locations of a key (include/hash/xxhash_customs.hh) and the
  functors around them. The functions of one and two locations read the words there. Those of three
  and four read sixteen bytes at each of two locations and never look at the others; the theorem at the end
  says which words of a key they ignore.
\<close>

section \<open>One to four locations\<close>

definition XXH3_1loc_fixed :: "bytes \<Rightarrow> u64 \<Rightarrow> u32 list \<Rightarrow> bytes \<Rightarrow> u64 option" where
  "XXH3_1loc_fixed input len locations secret = do {
     s8 \<leftarrow> XXH_readLE64 secret 8; s16 \<leftarrow> XXH_readLE64 secret 16;
     let bitflip = s8 XOR s16;
     l0 \<leftarrow> nth_opt locations 0;
     input64 \<leftarrow> XXH_readLE64 input (unat l0);
     let keyed = input64 XOR bitflip;
     Some (XXH3_avalanche (keyed + len))
   }"

definition XXH3_2loc_fixed :: "bytes \<Rightarrow> u64 \<Rightarrow> u32 list \<Rightarrow> bytes \<Rightarrow> u64 option" where
  "XXH3_2loc_fixed input len locations secret = do {
     s24 \<leftarrow> XXH_readLE64 secret 24; s32 \<leftarrow> XXH_readLE64 secret 32;
     s40 \<leftarrow> XXH_readLE64 secret 40; s48 \<leftarrow> XXH_readLE64 secret 48;
     let bitflip1 = s24 XOR s32;
     let bitflip2 = s40 XOR s48;
     l0 \<leftarrow> nth_opt locations 0; l1 \<leftarrow> nth_opt locations 1;
     lo \<leftarrow> XXH_readLE64 input (unat l0); hi \<leftarrow> XXH_readLE64 input (unat l1);
     let input_lo = lo XOR bitflip1;
     let input_hi = hi XOR bitflip2;
     let acc = len + XXH_swap64 input_lo + input_hi + XXH3_mul128_fold64 input_lo input_hi;
     Some (XXH3_avalanche acc)
   }"

definition XXH3_3loc_fixed :: "bytes \<Rightarrow> u64 \<Rightarrow> u32 list \<Rightarrow> bytes \<Rightarrow> u64 option" where
  "XXH3_3loc_fixed input len locations secret = do {
     let acc = len * XXH_PRIME64_1;
     l0 \<leftarrow> nth_opt locations 0; l1 \<leftarrow> nth_opt locations 1;
     x \<leftarrow> XXH3_mix16B input (unat l0) secret 0 0;
     let acc = acc + x;
     y \<leftarrow> XXH3_mix16B input (unat l1) secret 16 0;
     Some (acc + y)
   }"

definition XXH3_4loc_fixed :: "bytes \<Rightarrow> u64 \<Rightarrow> u32 list \<Rightarrow> bytes \<Rightarrow> u64 option" where
  "XXH3_4loc_fixed input len locations secret = do {
     let acc = len * XXH_PRIME64_1;
     l0 \<leftarrow> nth_opt locations 0; l2 \<leftarrow> nth_opt locations 2;
     x \<leftarrow> XXH3_mix16B input (unat l0) secret 0 0;
     let acc = acc + x;
     y \<leftarrow> XXH3_mix16B input (unat l2) secret 16 0;
     Some (acc + y)
   }"

definition XXH3_1loc :: "bytes \<Rightarrow> u64 \<Rightarrow> u32 list \<Rightarrow> u64 option" where
  "XXH3_1loc input len locations = do {
     e \<leftarrow> nth_opt locations 1;
     if len > ucast e then XXH3_1loc_fixed input len locations XXH3_kSecret
     else XXH3_64bits input len
   }"

definition XXH3_2loc :: "bytes \<Rightarrow> u64 \<Rightarrow> u32 list \<Rightarrow> u64 option" where
  "XXH3_2loc input len locations = do {
     e \<leftarrow> nth_opt locations 2;
     if len > ucast e then XXH3_2loc_fixed input len locations XXH3_kSecret
     else XXH3_64bits input len
   }"

definition XXH3_3loc :: "bytes \<Rightarrow> u64 \<Rightarrow> u32 list \<Rightarrow> u64 option" where
  "XXH3_3loc input len locations = do {
     e \<leftarrow> nth_opt locations 3;
     if len > ucast e then XXH3_3loc_fixed input len locations XXH3_kSecret
     else XXH3_64bits input len
   }"

definition XXH3_4loc :: "bytes \<Rightarrow> u64 \<Rightarrow> u32 list \<Rightarrow> u64 option" where
  "XXH3_4loc input len locations = do {
     e \<leftarrow> nth_opt locations 4;
     if len > ucast e then XXH3_4loc_fixed input len locations XXH3_kSecret
     else XXH3_64bits input len
   }"

section \<open>Functors\<close>

definition hash_XXH3_1loc_fixed_s :: "int list \<Rightarrow> u32 list option" where
  "hash_XXH3_1loc_fixed_s locs = scaled_locations 1 locs"

definition hash_XXH3_1loc_fixed_call :: "u32 list \<Rightarrow> bytes \<Rightarrow> u64 option" where
  "hash_XXH3_1loc_fixed_call locations str =
     XXH3_1loc_fixed (str_data str) (str_len str) locations XXH3_kSecret"

definition hash_XXH3_1loc_s :: "int list \<Rightarrow> u32 list option" where
  "hash_XXH3_1loc_s locs = cached_locations 1 locs"

definition hash_XXH3_1loc_call :: "u32 list \<Rightarrow> bytes \<Rightarrow> u64 option" where
  "hash_XXH3_1loc_call locations str = XXH3_1loc (str_data str) (str_len str) locations"

definition hash_XXH3_2loc_fixed_s :: "int list \<Rightarrow> u32 list option" where
  "hash_XXH3_2loc_fixed_s locs = scaled_locations 2 locs"

definition hash_XXH3_2loc_fixed_call :: "u32 list \<Rightarrow> bytes \<Rightarrow> u64 option" where
  "hash_XXH3_2loc_fixed_call locations str =
     XXH3_2loc_fixed (str_data str) (str_len str) locations XXH3_kSecret"

definition hash_XXH3_2loc_s :: "int list \<Rightarrow> u32 list option" where
  "hash_XXH3_2loc_s locs = cached_locations 2 locs"

definition hash_XXH3_2loc_call :: "u32 list \<Rightarrow> bytes \<Rightarrow> u64 option" where
  "hash_XXH3_2loc_call locations str = XXH3_2loc (str_data str) (str_len str) locations"

definition hash_XXH3_3loc_fixed_s :: "int list \<Rightarrow> u32 list option" where
  "hash_XXH3_3loc_fixed_s locs = scaled_locations 3 locs"

definition hash_XXH3_3loc_fixed_call :: "u32 list \<Rightarrow> bytes \<Rightarrow> u64 option" where
  "hash_XXH3_3loc_fixed_call locations str =
     XXH3_3loc_fixed (str_data str) (str_len str) locations XXH3_kSecret"

definition hash_XXH3_3loc_s :: "int list \<Rightarrow> u32 list option" where
  "hash_XXH3_3loc_s locs = cached_locations 3 locs"

definition hash_XXH3_3loc_call :: "u32 list \<Rightarrow> bytes \<Rightarrow> u64 option" where
  "hash_XXH3_3loc_call locations str = XXH3_3loc (str_data str) (str_len str) locations"

definition hash_XXH3_4loc_fixed_s :: "int list \<Rightarrow> u32 list option" where
  "hash_XXH3_4loc_fixed_s locs = scaled_locations 4 locs"

definition hash_XXH3_4loc_fixed_call :: "u32 list \<Rightarrow> bytes \<Rightarrow> u64 option" where
  "hash_XXH3_4loc_fixed_call locations str =
     XXH3_4loc_fixed (str_data str) (str_len str) locations XXH3_kSecret"

definition hash_XXH3_4loc_s :: "int list \<Rightarrow> u32 list option" where
  "hash_XXH3_4loc_s locs = cached_locations 4 locs"

definition hash_XXH3_4loc_call :: "u32 list \<Rightarrow> bytes \<Rightarrow> u64 option" where
  "hash_XXH3_4loc_call locations str = XXH3_4loc (str_data str) (str_len str) locations"

text \<open>The functors as functions, for the proofs about the choice among them.\<close>

lemmas hash_XXH3_functor_defs [functor_defs] =
  hash_XXH3_1loc_s_def hash_XXH3_1loc_fixed_s_def hash_XXH3_1loc_call_def [abs_def] hash_XXH3_1loc_fixed_call_def [abs_def]
  hash_XXH3_2loc_s_def hash_XXH3_2loc_fixed_s_def hash_XXH3_2loc_call_def [abs_def] hash_XXH3_2loc_fixed_call_def [abs_def]
  hash_XXH3_3loc_s_def hash_XXH3_3loc_fixed_s_def hash_XXH3_3loc_call_def [abs_def] hash_XXH3_3loc_fixed_call_def [abs_def]
  hash_XXH3_4loc_s_def hash_XXH3_4loc_fixed_s_def hash_XXH3_4loc_call_def [abs_def] hash_XXH3_4loc_fixed_call_def [abs_def]

section \<open>The contract\<close>

lemma kSecret_reads:
  "s + 8 \<le> 192 \<Longrightarrow> XXH_readLE64 XXH3_kSecret s = Some (le_word (window 8 XXH3_kSecret s))"
  by (simp add: xxh_read_defs safe_reads length_kSecret)

lemma window16_split:
  assumes "window 16 p off = window 16 q off"
  shows "window 8 p off = window 8 q off" "window 8 p (off + 8) = window 8 q (off + 8)"
  using window_sub [OF assms, of off 8] window_sub [OF assms, of "off + 8" 8] by simp_all

lemma XXH3_mix16B_kSecret:
  assumes "i + 16 \<le> length p" "s + 16 \<le> 192"
  shows "\<exists>h. XXH3_mix16B p i XXH3_kSecret s seed = Some h"
    and "i + 16 \<le> length q \<Longrightarrow> window 16 p i = window 16 q i \<Longrightarrow>
      XXH3_mix16B p i XXH3_kSecret s seed = XXH3_mix16B q i XXH3_kSecret s seed"
  using assms window16_split [of p i q]
  by (simp_all add: XXH3_mix16B_def kSecret_reads) (simp_all add: xxh_read_defs safe_reads)

interpretation xxh1: partial_hash 1 "\<lambda>ls. word_spans (take 1 ls)" "\<lambda>len e. ucast e < len"
  "\<lambda>p len ls. XXH3_1loc_fixed p len ls XXH3_kSecret" XXH3_64bits XXH3_1loc
proof
  fix ls :: "u32 list" and p q :: bytes and len
  assume l: "1 \<le> length ls" and p: "spans_in (word_spans (take 1 ls)) (length p)"
  show "\<exists>h. XXH3_1loc_fixed p len ls XXH3_kSecret = Some h"
    using p by (simp add: take_spans(1) [OF l, simplified] XXH3_1loc_fixed_def nth_opt_le [OF _ l] kSecret_reads)
      (simp add: xxh_read_defs safe_reads Let_def)
  assume "spans_in (word_spans (take 1 ls)) (length q)" "spans_agree (word_spans (take 1 ls)) p q"
  then show "XXH3_1loc_fixed p len ls XXH3_kSecret = XXH3_1loc_fixed q len ls XXH3_kSecret"
    using p by (simp add: take_spans(1) [OF l, simplified] XXH3_1loc_fixed_def nth_opt_le [OF _ l] kSecret_reads)
      (simp add: xxh_read_defs safe_reads)
qed (simp_all add: XXH3_64bits_total XXH3_1loc_def word_less_nat_alt unat_ucast_up)

interpretation xxh2: partial_hash 2 "\<lambda>ls. word_spans (take 2 ls)" "\<lambda>len e. ucast e < len"
  "\<lambda>p len ls. XXH3_2loc_fixed p len ls XXH3_kSecret" XXH3_64bits XXH3_2loc
proof
  fix ls :: "u32 list" and p q :: bytes and len
  assume l: "2 \<le> length ls" and p: "spans_in (word_spans (take 2 ls)) (length p)"
  show "\<exists>h. XXH3_2loc_fixed p len ls XXH3_kSecret = Some h"
    using p by (simp add: take_spans(2) [OF l] XXH3_2loc_fixed_def nth_opt_le [OF _ l] kSecret_reads)
      (simp add: xxh_read_defs safe_reads Let_def)
  assume "spans_in (word_spans (take 2 ls)) (length q)" "spans_agree (word_spans (take 2 ls)) p q"
  then show "XXH3_2loc_fixed p len ls XXH3_kSecret = XXH3_2loc_fixed q len ls XXH3_kSecret"
    using p by (simp add: take_spans(2) [OF l] XXH3_2loc_fixed_def nth_opt_le [OF _ l] kSecret_reads)
      (simp add: xxh_read_defs safe_reads)
qed (simp_all add: XXH3_64bits_total XXH3_2loc_def word_less_nat_alt unat_ucast_up)

definition XXH3_3loc_spans :: "u32 list \<Rightarrow> (nat \<times> nat) list" where
  "XXH3_3loc_spans ls = [(unat (ls ! 0), 16), (unat (ls ! 1), 16)]"

interpretation xxh3: partial_hash 3 XXH3_3loc_spans "\<lambda>len e. ucast e < len"
  "\<lambda>p len ls. XXH3_3loc_fixed p len ls XXH3_kSecret" XXH3_64bits XXH3_3loc
proof
  fix ls :: "u32 list" and p q :: bytes and len
  assume l: "3 \<le> length ls" and p: "spans_in (XXH3_3loc_spans ls) (length p)"
  have p0: "unat (ls ! 0) + 16 \<le> length p" and p1: "unat (ls ! 1) + 16 \<le> length p"
    using p by (simp_all add: XXH3_3loc_spans_def)
  obtain x where x: "XXH3_mix16B p (unat (ls ! 0)) XXH3_kSecret 0 0 = Some x"
    using XXH3_mix16B_kSecret(1) [OF p0, of 0 0] by auto
  obtain y where y: "XXH3_mix16B p (unat (ls ! 1)) XXH3_kSecret 16 0 = Some y"
    using XXH3_mix16B_kSecret(1) [OF p1, of 16 0] by auto
  have e: "XXH3_3loc_fixed p len ls XXH3_kSecret = Some (len * XXH_PRIME64_1 + x + y)"
    unfolding XXH3_3loc_fixed_def by (simp add: nth_opt_le [OF _ l] x y del: One_nat_def)
  then show "\<exists>h. XXH3_3loc_fixed p len ls XXH3_kSecret = Some h" by blast
  assume q: "spans_in (XXH3_3loc_spans ls) (length q)" "spans_agree (XXH3_3loc_spans ls) p q"
  have "XXH3_mix16B q (unat (ls ! 0)) XXH3_kSecret 0 0 = Some x"
    "XXH3_mix16B q (unat (ls ! 1)) XXH3_kSecret 16 0 = Some y"
    using XXH3_mix16B_kSecret(2) [OF p0, of 0 q 0] XXH3_mix16B_kSecret(2) [OF p1, of 16 q 0] q x y
    by (simp_all add: XXH3_3loc_spans_def)
  then show "XXH3_3loc_fixed p len ls XXH3_kSecret = XXH3_3loc_fixed q len ls XXH3_kSecret"
    unfolding XXH3_3loc_fixed_def by (simp add: nth_opt_le [OF _ l] x y del: One_nat_def)
qed (simp_all add: XXH3_64bits_total XXH3_3loc_def word_less_nat_alt unat_ucast_up)

definition XXH3_4loc_spans :: "u32 list \<Rightarrow> (nat \<times> nat) list" where
  "XXH3_4loc_spans ls = [(unat (ls ! 0), 16), (unat (ls ! 2), 16)]"

interpretation xxh4: partial_hash 4 XXH3_4loc_spans "\<lambda>len e. ucast e < len"
  "\<lambda>p len ls. XXH3_4loc_fixed p len ls XXH3_kSecret" XXH3_64bits XXH3_4loc
proof
  fix ls :: "u32 list" and p q :: bytes and len
  assume l: "4 \<le> length ls" and p: "spans_in (XXH3_4loc_spans ls) (length p)"
  have p0: "unat (ls ! 0) + 16 \<le> length p" and p1: "unat (ls ! 2) + 16 \<le> length p"
    using p by (simp_all add: XXH3_4loc_spans_def)
  obtain x where x: "XXH3_mix16B p (unat (ls ! 0)) XXH3_kSecret 0 0 = Some x"
    using XXH3_mix16B_kSecret(1) [OF p0, of 0 0] by auto
  obtain y where y: "XXH3_mix16B p (unat (ls ! 2)) XXH3_kSecret 16 0 = Some y"
    using XXH3_mix16B_kSecret(1) [OF p1, of 16 0] by auto
  have e: "XXH3_4loc_fixed p len ls XXH3_kSecret = Some (len * XXH_PRIME64_1 + x + y)"
    unfolding XXH3_4loc_fixed_def by (simp add: nth_opt_le [OF _ l] x y del: One_nat_def)
  then show "\<exists>h. XXH3_4loc_fixed p len ls XXH3_kSecret = Some h" by blast
  assume q: "spans_in (XXH3_4loc_spans ls) (length q)" "spans_agree (XXH3_4loc_spans ls) p q"
  have "XXH3_mix16B q (unat (ls ! 0)) XXH3_kSecret 0 0 = Some x"
    "XXH3_mix16B q (unat (ls ! 2)) XXH3_kSecret 16 0 = Some y"
    using XXH3_mix16B_kSecret(2) [OF p0, of 0 q 0] XXH3_mix16B_kSecret(2) [OF p1, of 16 q 0] q x y
    by (simp_all add: XXH3_4loc_spans_def)
  then show "XXH3_4loc_fixed p len ls XXH3_kSecret = XXH3_4loc_fixed q len ls XXH3_kSecret"
    unfolding XXH3_4loc_fixed_def by (simp add: nth_opt_le [OF _ l] x y del: One_nat_def)
qed (simp_all add: XXH3_64bits_total XXH3_4loc_def word_less_nat_alt unat_ucast_up)

end
