(* ===== verification/Murmur_Hash.thy ===== *)
theory Murmur_Hash
  imports Partial_Hash
begin

text \<open>
  The remaining hashes: MurmurHash2 (include/murmurhash2.h) and its copy on strings, the subset variants that
  mix only chosen 4-byte words (include/hash/mmh_var.hh), the sdbm hashes (include/hash.hh) and o1hash
  (include/hash/o1hash.hh). A pointer is the list of the bytes from it on. The theorem shows that the
  optimised subset hash mixes exactly the chosen words that the key has.
\<close>

section \<open>MurmurHash2\<close>

definition mmh2_m :: u32 where
  "mmh2_m = 0x5bd1e995"

text \<open>One word: \<open>k *= m; k ^= k >> r; k *= m; h *= m; h ^= k;\<close>\<close>

definition mmh2_mix :: "u32 \<Rightarrow> u32 \<Rightarrow> u32" where
  "mmh2_mix h k = (let k = k * mmh2_m; k = k XOR shr k 24; k = k * mmh2_m in h * mmh2_m XOR k)"

function mmh2_loop :: "u32 \<Rightarrow> bytes \<Rightarrow> int \<Rightarrow> (u32 \<times> bytes \<times> int) option" where
  "mmh2_loop h data len =
     (if len \<ge> 4 then do {
        k \<leftarrow> read32 data 0;
        mmh2_loop (mmh2_mix h k) (drop 4 data) (len - 4)
      } else Some (h, data, len))"
  by pat_completeness auto
termination by (relation "measure (\<lambda>(h, data, len). nat len)") auto

declare mmh2_loop.simps [simp del]

text \<open>The \<open>switch\<close> on the bytes that are left, each label falling through to the next.\<close>

definition mmh2_switch :: "u32 \<Rightarrow> bytes \<Rightarrow> int \<Rightarrow> u32 option" where
  "mmh2_switch h data len =
     (if len \<in> {1, 2, 3} then do {
        h \<leftarrow> (if len = 3 then map_option (\<lambda>b. h XOR shl (ucast b) 16) (read8 data 2) else Some h);
        h \<leftarrow> (if len = 3 \<or> len = 2 then map_option (\<lambda>b. h XOR shl (ucast b) 8) (read8 data 1) else Some h);
        b \<leftarrow> read8 data 0;
        Some ((h XOR ucast b) * mmh2_m)
      } else Some h)"

definition mmh2_final :: "u32 \<Rightarrow> u32" where
  "mmh2_final h = (let h = h XOR shr h 13; h = h * mmh2_m in h XOR shr h 15)"

definition orig_murmurhash2 :: "bytes \<Rightarrow> int \<Rightarrow> u32 \<Rightarrow> u32 option" where
  "orig_murmurhash2 key len seed = do {
     let h = seed XOR of_int len;
     (h, data, len) \<leftarrow> mmh2_loop h key len;
     h \<leftarrow> mmh2_switch h data len;
     Some (mmh2_final h)
   }"

text \<open>The functor converts the length of the string to an \<open>int\<close>.\<close>

definition int_of_len :: "bytes \<Rightarrow> int" where
  "int_of_len s = sint (of_nat (length s) :: u32)"

definition hash_mmh2_call :: "bytes \<Rightarrow> u64 option" where
  "hash_mmh2_call str = do {
     let len = int_of_len str;
     let h = (0 XOR of_int len :: u32);
     (h, data, len) \<leftarrow> mmh2_loop h (str_data str) len;
     h \<leftarrow> mmh2_switch h data len;
     Some (ucast (mmh2_final h))
   }"

lemma mmh2_loop_total:
  "len \<le> int (length data) \<Longrightarrow> \<exists>h' d' l'. mmh2_loop h data len = Some (h', d', l') \<and> l' \<le> int (length d') \<and> l' < 4"
proof (induction "nat len" arbitrary: h data len rule: less_induct)
  case less
  show ?case
  proof (cases "len \<ge> 4")
    case True
    then show ?thesis using less.hyps [of "len - 4" "drop 4 data"] less.prems
      by (subst mmh2_loop.simps) (simp add: safe_reads)
  next
    case False
    then show ?thesis using less.prems by (subst mmh2_loop.simps) simp
  qed
qed

lemma mmh2_switch_total: "len \<le> int (length data) \<Longrightarrow> \<exists>h'. mmh2_switch h data len = Some h'"
proof -
  assume l: "len \<le> int (length data)"
  have "read8 data 0 = Some (data ! 0)" if "1 \<le> len" using that l by (intro read8_Some) linarith
  then show ?thesis using l by (auto simp: mmh2_switch_def safe_reads)
qed

lemma orig_murmurhash2_total:
  assumes "len \<le> int (length key)"
  shows "\<exists>h. orig_murmurhash2 key len seed = Some h"
proof -
  obtain h d l where 1: "mmh2_loop (seed XOR of_int len) key len = Some (h, d, l)" "l \<le> int (length d)"
    using mmh2_loop_total [OF assms] by blast
  then show ?thesis using mmh2_switch_total [OF 1(2), of h] by (auto simp: orig_murmurhash2_def)
qed

lemma int_of_len: "length s < 2 ^ 31 \<Longrightarrow> int_of_len s = int (length s)"
  by (simp add: int_of_len_def signed_of_nat signed_take_bit_int_eq_self)

text \<open>The functor is the C function on the bytes of the string with seed 0.\<close>

lemma hash_mmh2_eq:
  "length s < 2 ^ 31 \<Longrightarrow>
     hash_mmh2_call s = map_option ucast (orig_murmurhash2 (str_data s) (int (length s)) 0)"
  by (simp add: hash_mmh2_call_def orig_murmurhash2_def int_of_len map_option_bind split_def comp_def)

section \<open>Subset hashes of 4-byte words\<close>

text \<open>
  The hash is 64 bits wide and the word 32: \<open>k *= m\<close> multiplies in 64 bits and truncates.
\<close>

definition sub4_mix :: "u64 \<Rightarrow> u32 \<Rightarrow> u64" where
  "sub4_mix h k =
     (let m = 0x5bd1e995 :: u64;
          k = (ucast (ucast k * m) :: u32);
          k = k XOR shr k 24;
          k = (ucast (ucast k * m) :: u32)
      in h * m XOR ucast k)"

text \<open>\<open>data[loc]\<close> of the string's data as an array of 32-bit words.\<close>

definition sub4_word :: "bytes \<Rightarrow> u32 \<Rightarrow> u32 option" where
  "sub4_word str loc = read32 (str_data str) (4 * unat loc)"

text \<open>
  The loop \<open>while (loc < len && i < bound)\<close>: after the last word it still reads \<open>locations[i]\<close>.
\<close>

function sub4_loop :: "bytes \<Rightarrow> int list \<Rightarrow> u64 \<Rightarrow> nat \<Rightarrow> u32 \<Rightarrow> nat \<Rightarrow> u64 \<Rightarrow> u64 option" where
  "sub4_loop str locations len bound loc i h =
     (if ucast loc < len \<and> i < bound then do {
        k \<leftarrow> sub4_word str loc;
        l \<leftarrow> nth_opt locations (i + 1);
        sub4_loop str locations len bound (of_int l) (i + 1) (sub4_mix h k)
      } else Some h)"
  by pat_completeness auto
termination by (relation "measure (\<lambda>(str, locations, len, bound, loc, i, h). bound - i)") auto

declare sub4_loop.simps [simp del]

definition hash_sub4_mmh2 :: "bytes \<Rightarrow> int list \<Rightarrow> nat \<Rightarrow> u64 option" where
  "hash_sub4_mmh2 str locations nlocs = do {
     let h = str_len str;
     let len = str_len str div 4;
     l \<leftarrow> nth_opt locations 0;
     sub4_loop str locations len nlocs (of_int l) 0 h
   }"

definition hash_sub4_mmh2_cust :: "bytes \<Rightarrow> int list \<Rightarrow> nat \<Rightarrow> u64 option" where
  "hash_sub4_mmh2_cust str locations nlocs = do {
     let h = str_len str;
     let len = str_len str div 4;
     l0 \<leftarrow> nth_opt locations 0;
     last_loc \<leftarrow> (if nlocs = 0 then nth_opt locations (2 ^ 32 - 1) else nth_opt locations (nlocs - 1));
     if len > ucast (of_int last_loc :: u32)
     then for_opt [0..<nlocs] (\<lambda>i h. do {
            l \<leftarrow> nth_opt locations i;
            k \<leftarrow> sub4_word str (of_int l);
            Some (sub4_mix h k)
          }) h
     else sub4_loop str locations len (nlocs - 1) (of_int l0) 0 h
   }"

definition hash_sub4_mmh2_call :: "int list \<Rightarrow> nat \<Rightarrow> bytes \<Rightarrow> u64 option" where
  "hash_sub4_mmh2_call locations k str = hash_sub4_mmh2_cust str locations k"

section \<open>sdbm and o1hash\<close>

definition sdbm_step :: "u64 \<Rightarrow> u8 \<Rightarrow> u64" where
  "sdbm_step hash c = char_to_u64 c + shl hash 6 + shl hash 16 - hash"

text \<open>The index is 32 bits wide: a longer string is never finished.\<close>

definition hash_sdbm_call :: "bytes \<Rightarrow> u64 option" where
  "hash_sdbm_call str = (if length str \<le> 2 ^ 32 then Some (foldl sdbm_step 0 str) else None)"

text \<open>A character of the string at an \<open>int\<close> index; a negative one wraps around to a huge index.\<close>

definition str_at :: "bytes \<Rightarrow> int \<Rightarrow> u8 option" where
  "str_at str l = (if 0 \<le> l then read8 (str_data str) (nat l) else None)"

definition hash_sub1_sdbm :: "bytes \<Rightarrow> int list \<Rightarrow> nat \<Rightarrow> u64 option" where
  "hash_sub1_sdbm str locations k =
     for_opt [0..<k] (\<lambda>i hash. do {
       l \<leftarrow> nth_opt locations i;
       if l < int_of_len str then do {
         c \<leftarrow> str_at str l;
         Some (sdbm_step hash c + char_to_u64 c)
       } else Some hash
     }) (str_len str)"

definition hash_sub1_sdbm_call :: "int list \<Rightarrow> nat \<Rightarrow> bytes \<Rightarrow> u64 option" where
  "hash_sub1_sdbm_call locations k str = hash_sub1_sdbm str locations k"

definition o1hash :: "bytes \<Rightarrow> u64 \<Rightarrow> u64 option" where
  "o1hash p len =
     (let n = unat len in
      if n \<ge> 4 then do {
        first \<leftarrow> read32 p 0;
        middle \<leftarrow> read32 p (n div 2 - 2);
        last_word \<leftarrow> read32 p (n - 4);
        Some (ucast (first + last_word) * ucast middle)
      } else if n \<noteq> 0 then do {
        x \<leftarrow> read8 p 0;
        y \<leftarrow> read8 p (n div 2);
        z \<leftarrow> read8 p (n - 1);
        Some (ucast (shl (ucast x) 16 OR shl (ucast y) 8 OR ucast z :: u32) * 0xa0761d6478bd642f)
      } else Some 0)"

lemma o1hash_total: "unat len \<le> length p \<Longrightarrow> \<exists>h. o1hash p len = Some h"
proof -
  assume l: "unat len \<le> length p"
  have m: "unat len div 2 < length p" "read8 p 0 = Some (p ! 0)" if "unat len \<noteq> 0"
    using that l by (linarith, intro read8_Some, linarith)
  have w: "unat len div 2 - 2 + 4 \<le> length p" if "unat len \<ge> 4" using that l by linarith
  show ?thesis using l
    by (cases "unat len \<ge> 4"; cases "unat len = 0") (simp_all add: o1hash_def Let_def safe_reads m w)
qed

section \<open>The optimised subset hash\<close>

text \<open>What a subset hash is meant to be: the chosen words that the key has, mixed in order.\<close>

definition sub4_present :: "bytes \<Rightarrow> int \<Rightarrow> bool" where
  "sub4_present str l \<longleftrightarrow> nat l < length str div 4"

definition sub4_step :: "bytes \<Rightarrow> u64 \<Rightarrow> int \<Rightarrow> u64" where
  "sub4_step str h l = sub4_mix h (le_word (window 4 str (4 * nat l)))"

definition sub4_spec :: "bytes \<Rightarrow> int list \<Rightarrow> u64" where
  "sub4_spec str locs = foldl (sub4_step str) (str_len str) (takeWhile (sub4_present str) locs)"

lemma unat_str_words: "length str < 2 ^ 64 \<Longrightarrow> unat (str_len str div 4) = length str div 4"
  by (simp add: unat_div_distrib unat_str_len)

text \<open>A location is compared with the number of words of the key, and read when it is smaller.\<close>

lemma sub4_test:
  assumes "length str < 2 ^ 64" "0 \<le> l" "l < 2 ^ 32"
  shows "ucast (of_int l :: u32) < str_len str div 4 \<longleftrightarrow> sub4_present str l"
  using assms by (simp add: word_less_nat_alt unat_ucast_up unat_of_int_u32 unat_str_words sub4_present_def)

lemma sub4_read:
  assumes "0 \<le> l" "l < 2 ^ 32" "sub4_present str l"
  shows "sub4_word str (of_int l) = Some (le_word (window 4 str (4 * nat l)))"
proof -
  have "Suc (nat l) \<le> length str div 4" using assms(3) by (simp add: sub4_present_def)
  then have "4 * Suc (nat l) \<le> 4 * (length str div 4)" by (rule mult_le_mono2)
  also have "\<dots> \<le> length str" by simp
  finally have w: "4 * nat l + 4 \<le> length str" by simp
  then have "read32 (str_data str) (4 * nat l) = Some (le_word (window 4 (str_data str) (4 * nat l)))"
    by (intro read32_Some) simp
  with w show ?thesis using assms(1,2) by (simp add: sub4_word_def unat_of_int_u32 window_str_data)
qed

lemma sub4_loop_eq:
  assumes "length str < 2 ^ 64" "\<And>l. l \<in> set locations \<Longrightarrow> 0 \<le> l \<and> l < 2 ^ 32" "bound < length locations"
  shows "i \<le> bound \<Longrightarrow> sub4_loop str locations (str_len str div 4) bound (of_int (locations ! i)) i h =
    Some (foldl (sub4_step str) h (takeWhile (sub4_present str) (take (bound - i) (drop i locations))))"
proof (induction "bound - i" arbitrary: i h)
  case 0
  then show ?case by (subst sub4_loop.simps) simp
next
  case (Suc n)
  then have i: "i < bound" by simp
  let ?l = "locations ! i"
  have l: "0 \<le> ?l" "?l < 2 ^ 32" using assms(2) [of ?l] i assms(3) by simp_all
  have d: "take (bound - i) (drop i locations) = ?l # take (bound - Suc i) (drop (Suc i) locations)"
    using i assms(3) by (metis Cons_nth_drop_Suc Suc_diff_Suc less_trans take_Suc_Cons)
  show ?case
  proof (cases "sub4_present str ?l")
    case True
    have n: "nth_opt locations (i + 1) = Some (locations ! Suc i)" using i assms(3) by (simp add: nth_opt_def)
    show ?thesis unfolding d
      using True i n Suc.hyps(1) [of "Suc i" "sub4_step str h ?l"] Suc.hyps(2) sub4_test [OF assms(1) l] sub4_read [OF l True]
      by (subst sub4_loop.simps) (simp add: sub4_step_def)
  next
    case False
    then show ?thesis unfolding d using sub4_test [OF assms(1) l] by (subst sub4_loop.simps) simp
  qed
qed

lemma takeWhile_snoc_stop: "\<not> P x \<Longrightarrow> takeWhile P (xs @ [x]) = takeWhile P xs"
  by (induction xs) auto

lemma sub4_cust_eq:
  assumes "0 < n" "n \<le> length locations" "sorted (take n locations)"
    "\<forall>l \<in> set locations. 0 \<le> l \<and> l < 2 ^ 31" "length str < 2 ^ 64"
  shows "hash_sub4_mmh2_cust str locations n = Some (sub4_spec str (take n locations))"
proof -
  let ?last = "locations ! (n - 1)"
  have r: "0 \<le> l \<and> l < 2 ^ 32" if "l \<in> set locations" for l using assms(4) that by fastforce
  have l: "0 \<le> ?last" "?last < 2 ^ 32" using r [of ?last] assms(1,2) by simp_all
  have n0: "nth_opt locations 0 = Some (locations ! 0)" "nth_opt locations (n - 1) = Some ?last"
    using assms(1,2) by (auto simp: nth_opt_def)
  show ?thesis
  proof (cases "sub4_present str ?last")
    case True
    have p: "sub4_present str x" if x: "x \<in> set (take n locations)" for x
    proof -
      obtain j where j: "j < n" "x = locations ! j"
        using x assms(2) by (auto simp: in_set_conv_nth)
      have "x \<le> ?last" using sorted_nth_mono [OF assms(3), of j "n - 1"] j assms(1,2) by simp
      then show ?thesis using True by (simp add: sub4_present_def)
    qed
    have loop: "for_opt [0..<m] (\<lambda>i h. do {
            l \<leftarrow> nth_opt locations i; k \<leftarrow> sub4_word str (of_int l); Some (sub4_mix h k)
          }) h = Some (foldl (sub4_step str) h (take m locations))" if "m \<le> n" for m h
      using that
    proof (induction m)
      case (Suc m)
      have "take n locations ! m \<in> set (take n locations)" using Suc.prems assms(2) by (intro nth_mem) simp
      then have "locations ! m \<in> set (take n locations)" using Suc.prems by simp
      then have "sub4_word str (of_int (locations ! m)) = Some (le_word (window 4 str (4 * nat (locations ! m))))"
        using r [of "locations ! m"] Suc.prems assms(2) p by (intro sub4_read) auto
      then show ?case using Suc assms(2)
        by (simp add: for_opt_append nth_opt_def take_Suc_conv_app_nth sub4_step_def)
    qed simp
    have "takeWhile (sub4_present str) (take n locations) = take n locations"
      using p by (simp add: takeWhile_eq_all_conv)
    then have "sub4_spec str (take n locations) = foldl (sub4_step str) (str_len str) (take n locations)"
      unfolding sub4_spec_def by (rule arg_cong)
    then show ?thesis
      using True n0 loop [of n "str_len str"] sub4_test [OF assms(5) l] assms(1)
      by (simp add: hash_sub4_mmh2_cust_def Let_def)
  next
    case False
    have "take n locations = take (n - 1) locations @ [?last]"
      using assms(1,2) take_Suc_conv_app_nth [of "n - 1" locations] by simp
    then have "takeWhile (sub4_present str) (take n locations) = takeWhile (sub4_present str) (take (n - 1) locations)"
      using False by (simp add: takeWhile_snoc_stop)
    moreover have "n - 1 < length locations" using assms(1,2) by simp
    ultimately show ?thesis
      using False n0 sub4_test [OF assms(5) l] assms(1)
        sub4_loop_eq [where locations = locations and bound = "n - 1" and i = 0 and h = "str_len str", OF assms(5) r]
      by (simp add: hash_sub4_mmh2_cust_def sub4_spec_def Let_def)
  qed
qed

text \<open>
  The optimised subset hash tests the length of the key once, against the last location, when the key
  is long, and mixes all the words without further tests. On sorted locations it still answers, for every
  key, the hash of exactly the chosen words that the key has, and no read leaves the key or the array of
  locations.
\<close>

theorem hash_sub4_mmh2_cust_correct:
  assumes "0 < n" "n \<le> length locations" "sorted (take n locations)"
    "\<forall>l \<in> set locations. 0 \<le> l \<and> l < 2 ^ 31" "length str < 2 ^ 64"
  shows "hash_sub4_mmh2_cust str locations n = Some (sub4_spec str (take n locations))"
  using assms by (rule sub4_cust_eq)

theorem hash_sub4_mmh2_cust_correct_witness:
  "hash_sub4_mmh2_cust (map of_nat [1..<14]) [0, 1, 4] 3 = Some (sub4_spec (map of_nat [1..<14]) [0, 1, 4])"
  using hash_sub4_mmh2_cust_correct [of 3 "[0, 1, 4]" "map of_nat [1..<14]"] by simp

end
