(* ===== verification/Hash_Select.thy ===== *)
theory Hash_Select
  imports Crc_Hash XXH3_Customs Murmur_Hash
begin

text \<open>
  How the benchmarks choose a hash: the functors on whole keys (include/hash.hh), the number of
  locations from the estimated entropies, and the functor for that number (benchmark_partitions.cpp,
  benchmark_filters.cpp). The theorems show that the choice made from distinct locations never reads
  outside a key, and that long keys are told apart by their length and their chosen words only.
\<close>

section \<open>Functors on whole keys\<close>

definition hash_xxh64_call :: "bytes \<Rightarrow> u64 option" where
  "hash_xxh64_call str = XXH3_64bits (str_data str) (str_len str)"

definition hash_wyhash_call :: "bytes \<Rightarrow> u64 option" where
  "hash_wyhash_call str = wyhash_default (str_data str) (str_len str)"

section \<open>The number of locations\<close>

text \<open>
  The entropies of the first one, two, ... locations are compared with the entropy that is needed;
  only their order matters. The first number of locations with enough entropy is taken, else one less than there
  are; more than four are replaced by five, which selects the hash of the whole key.
\<close>

fun first_enough :: "'e::ord \<Rightarrow> 'e list \<Rightarrow> nat \<Rightarrow> nat option" where
  "first_enough needed [] i = None"
| "first_enough needed (e # es) i = (if e > needed then Some (i + 1) else first_enough needed es (i + 1))"

definition num_locations :: "'e::ord \<Rightarrow> 'e list \<Rightarrow> int" where
  "num_locations needed es =
     (let n = (case first_enough needed es 0 of Some i \<Rightarrow> int i | None \<Rightarrow> int (length es) - 1)
      in if n > 4 then 5 else n)"

text \<open>The blocked filter starts from an unset entry, 0, and replaces more than four by four.\<close>

definition num_locations_block :: "'e::ord \<Rightarrow> 'e list \<Rightarrow> int" where
  "num_locations_block needed es =
     (let n = (case first_enough needed es 0 of Some i \<Rightarrow> int i | None \<Rightarrow> 0)
      in if n > 4 then 4 else n)"

text \<open>
  The vector from \<open>&locations[8][0]\<close> to \<open>&locations[8][n]\<close>, sorted. An empty vector has no element 0, so an entry that \<open>operator[]\<close>
  creates for a missing chunk size is never used.
\<close>

definition hash_locations :: "int list \<Rightarrow> int \<Rightarrow> int list option" where
  "hash_locations locations n =
     (if locations \<noteq> [] \<and> 0 \<le> n \<and> nat n \<le> length locations then Some (sort (take (nat n) locations)) else None)"

section \<open>The functor for a number of locations\<close>

definition xxh3_sub8 :: "bool \<Rightarrow> int \<Rightarrow> int list \<Rightarrow> (bytes \<Rightarrow> u64 option) option" where
  "xxh3_sub8 fixedLength n locs =
     (if fixedLength then
        (if n = 1 then map_option hash_XXH3_1loc_fixed_call (hash_XXH3_1loc_fixed_s locs)
         else if n = 2 then map_option hash_XXH3_2loc_fixed_call (hash_XXH3_2loc_fixed_s locs)
         else if n = 3 then map_option hash_XXH3_3loc_fixed_call (hash_XXH3_3loc_fixed_s locs)
         else if n = 4 then map_option hash_XXH3_4loc_fixed_call (hash_XXH3_4loc_fixed_s locs)
         else Some hash_xxh64_call)
      else
        (if n = 1 then map_option hash_XXH3_1loc_call (hash_XXH3_1loc_s locs)
         else if n = 2 then map_option hash_XXH3_2loc_call (hash_XXH3_2loc_s locs)
         else if n = 3 then map_option hash_XXH3_3loc_call (hash_XXH3_3loc_s locs)
         else if n = 4 then map_option hash_XXH3_4loc_call (hash_XXH3_4loc_s locs)
         else Some hash_xxh64_call))"

definition wyhash_sub8 :: "bool \<Rightarrow> int \<Rightarrow> int list \<Rightarrow> (bytes \<Rightarrow> u64 option) option" where
  "wyhash_sub8 fixedLength n locs =
     (if fixedLength then
        (if n = 1 then map_option hash_wyhash_1loc_fixed_call (hash_wyhash_1loc_fixed_s locs)
         else if n = 2 then map_option hash_wyhash_2loc_fixed_call (hash_wyhash_2loc_fixed_s locs)
         else if n = 3 then map_option hash_wyhash_3loc_fixed_call (hash_wyhash_3loc_fixed_s locs)
         else if n = 4 then map_option hash_wyhash_4loc_fixed_call (hash_wyhash_4loc_fixed_s locs)
         else Some hash_wyhash_call)
      else
        (if n = 1 then map_option hash_wyhash_1loc_call (hash_wyhash_1loc_s locs)
         else if n = 2 then map_option hash_wyhash_2loc_call (hash_wyhash_2loc_s locs)
         else if n = 3 then map_option hash_wyhash_3loc_call (hash_wyhash_3loc_s locs)
         else if n = 4 then map_option hash_wyhash_4loc_call (hash_wyhash_4loc_s locs)
         else Some hash_wyhash_call))"

definition crc_sub8 :: "bool \<Rightarrow> int \<Rightarrow> int list \<Rightarrow> (bytes \<Rightarrow> u64 option) option" where
  "crc_sub8 fixedLength n locs =
     (if fixedLength then
        (if n = 1 then map_option hash_crc32wyhash_1loc_fixed_call (hash_crc32wyhash_1loc_fixed_s locs)
         else if n = 2 then map_option hash_crc32wyhash_2loc_fixed_call (hash_crc32wyhash_2loc_fixed_s locs)
         else if n = 3 then map_option hash_crc32wyhash_3loc_fixed_call (hash_crc32wyhash_3loc_fixed_s locs)
         else if n = 4 then map_option hash_crc32wyhash_4loc_fixed_call (hash_crc32wyhash_4loc_fixed_s locs)
         else Some hash_wyhash_call)
      else
        (if n = 1 then map_option hash_crc32wyhash_1loc_call (hash_crc32wyhash_1loc_s locs)
         else if n = 2 then map_option hash_crc32wyhash_2loc_call (hash_crc32wyhash_2loc_s locs)
         else if n = 3 then map_option hash_crc32wyhash_3loc_call (hash_crc32wyhash_3loc_s locs)
         else if n = 4 then map_option hash_crc32wyhash_4loc_call (hash_crc32wyhash_4loc_s locs)
         else Some CRC32Hash_call))"

text \<open>The filters have variants of the choice in which every other number selects four locations.\<close>

definition xxh3_sub8_block :: "bool \<Rightarrow> int \<Rightarrow> int list \<Rightarrow> (bytes \<Rightarrow> u64 option) option" where
  "xxh3_sub8_block fixedLength n locs =
     (if fixedLength then
        (if n = 1 then map_option hash_XXH3_1loc_fixed_call (hash_XXH3_1loc_fixed_s locs)
         else if n = 2 then map_option hash_XXH3_2loc_fixed_call (hash_XXH3_2loc_fixed_s locs)
         else if n = 3 then map_option hash_XXH3_3loc_fixed_call (hash_XXH3_3loc_fixed_s locs)
         else map_option hash_XXH3_4loc_fixed_call (hash_XXH3_4loc_fixed_s locs))
      else
        (if n = 1 then map_option hash_XXH3_1loc_call (hash_XXH3_1loc_s locs)
         else if n = 2 then map_option hash_XXH3_2loc_call (hash_XXH3_2loc_s locs)
         else if n = 3 then map_option hash_XXH3_3loc_call (hash_XXH3_3loc_s locs)
         else map_option hash_XXH3_4loc_call (hash_XXH3_4loc_s locs)))"

definition wyhash_sub8_block :: "bool \<Rightarrow> int \<Rightarrow> int list \<Rightarrow> (bytes \<Rightarrow> u64 option) option" where
  "wyhash_sub8_block fixedLength n locs =
     (if fixedLength then
        (if n = 1 then map_option hash_wyhash_1loc_fixed_call (hash_wyhash_1loc_fixed_s locs)
         else if n = 2 then map_option hash_wyhash_2loc_fixed_call (hash_wyhash_2loc_fixed_s locs)
         else if n = 3 then map_option hash_wyhash_3loc_fixed_call (hash_wyhash_3loc_fixed_s locs)
         else map_option hash_wyhash_4loc_fixed_call (hash_wyhash_4loc_fixed_s locs))
      else
        (if n = 1 then map_option hash_wyhash_1loc_call (hash_wyhash_1loc_s locs)
         else if n = 2 then map_option hash_wyhash_2loc_call (hash_wyhash_2loc_s locs)
         else if n = 3 then map_option hash_wyhash_3loc_call (hash_wyhash_3loc_s locs)
         else map_option hash_wyhash_4loc_call (hash_wyhash_4loc_s locs)))"

definition crc_sub8_filter :: "bool \<Rightarrow> int \<Rightarrow> int list \<Rightarrow> (bytes \<Rightarrow> u64 option) option" where
  "crc_sub8_filter fixedLength n locs =
     (if fixedLength then
        (if n = 1 then map_option hash_crc32wyhash_1loc_fixed_call (hash_crc32wyhash_1loc_fixed_s locs)
         else if n = 2 then map_option hash_crc32wyhash_2loc_fixed_call (hash_crc32wyhash_2loc_fixed_s locs)
         else if n = 3 then map_option hash_crc32wyhash_3loc_fixed_call (hash_crc32wyhash_3loc_fixed_s locs)
         else map_option hash_crc32wyhash_4loc_fixed_call (hash_crc32wyhash_4loc_fixed_s locs))
      else
        (if n = 1 then map_option hash_crc32wyhash_1loc_call (hash_crc32wyhash_1loc_s locs)
         else if n = 2 then map_option hash_crc32wyhash_2loc_call (hash_crc32wyhash_2loc_s locs)
         else if n = 3 then map_option hash_crc32wyhash_3loc_call (hash_crc32wyhash_3loc_s locs)
         else map_option hash_crc32wyhash_4loc_call (hash_crc32wyhash_4loc_s locs)))"

text \<open>The whole choice, for one of the three families.\<close>

definition select_sub8 :: "(bool \<Rightarrow> int \<Rightarrow> int list \<Rightarrow> (bytes \<Rightarrow> u64 option) option) \<Rightarrow>
    bool \<Rightarrow> int \<Rightarrow> int list \<Rightarrow> (bytes \<Rightarrow> u64 option) option" where
  "select_sub8 family fixedLength n locations =
     hash_locations locations n \<bind> family fixedLength n"

section \<open>Sorted locations\<close>

text \<open>Locations as the estimator gives them: distinct word indices.\<close>

definition usable_locs :: "int list \<Rightarrow> bool" where
  "usable_locs locs \<longleftrightarrow> distinct locs \<and> (\<forall>l \<in> set locs. 0 \<le> l \<and> 8 * l + 8 < 2 ^ 31)"

lemma hash_locations_good:
  assumes "usable_locs locs" "0 < k" "hash_locations locs (int k) = Some hl"
  shows "good_locs k hl" "length hl = k" "\<And>i j. i < j \<Longrightarrow> j < k \<Longrightarrow> hl ! i < hl ! j"
proof -
  have k: "k \<le> length locs" and hl: "hl = sort (take k locs)"
    using assms(3) by (auto simp: hash_locations_def split: if_splits)
  show l: "length hl = k" using k by (simp add: hl)
  have d: "distinct hl" "sorted hl" using assms(1) by (simp_all add: hl usable_locs_def)
  show st: "hl ! i < hl ! j" if "i < j" "j < k" for i j
  proof -
    have "hl ! i \<le> hl ! j" using d(2) that l by (simp add: sorted_nth_mono)
    moreover have "hl ! i \<noteq> hl ! j" using d(1) that l by (simp add: nth_eq_iff_index_eq)
    ultimately show ?thesis by simp
  qed
  have r: "0 \<le> hl ! i \<and> 8 * hl ! i + 8 < 2 ^ 31" if "i < k" for i
  proof -
    have "hl ! i \<in> set hl" using that l by simp
    then have "hl ! i \<in> set locs" by (simp add: hl) (meson in_set_takeD)
    then show ?thesis using assms(1) by (simp add: usable_locs_def)
  qed
  have "hl ! i \<le> hl ! (k - 1)" if "i < k" for i
  proof (cases "i = k - 1")
    case False
    then have "i < k - 1" using that by linarith
    then show ?thesis using st [of i "k - 1"] that by simp
  qed simp
  then show "good_locs k hl" using r assms(2) l by (simp add: good_locs_def)
qed

text \<open>The sixteen bytes at a location end before the end of a later one.\<close>

lemma span16_end: "(0 :: int) \<le> a \<Longrightarrow> a < b \<Longrightarrow> 8 * nat a + 16 \<le> 8 * nat b + 8"
  by simp

section \<open>Safety of the choice\<close>

lemma hash_xxh64_total: "length s < 2 ^ 64 \<Longrightarrow> \<exists>h. hash_xxh64_call s = Some h"
  unfolding hash_xxh64_call_def by (rule XXH3_64bits_total) (simp add: unat_str_len)

lemma hash_wyhash_total: "length s < 2 ^ 64 \<Longrightarrow> \<exists>h. hash_wyhash_call s = Some h"
  unfolding hash_wyhash_call_def wyhash_default_def by (rule wyhash_total) (simp_all add: unat_str_len)

lemma CRC32Hash_total: "length s < 2 ^ 64 \<Longrightarrow> \<exists>h. CRC32Hash_call s = Some h"
  unfolding CRC32Hash_call_def by (rule crcHash_total) (simp add: unat_str_len)

lemma XXH3_3loc_ends:
  assumes "good_locs 3 hl" "\<And>i j. i < j \<Longrightarrow> j < 3 \<Longrightarrow> hl ! i < hl ! j"
  shows "cached_locations 3 hl = Some ls \<Longrightarrow> xxh3.ends_ok ls"
    and "scaled_locations 3 hl = Some ls \<Longrightarrow> 8 * nat (hl ! 2) + 8 \<le> n \<Longrightarrow> spans_in (XXH3_3loc_spans ls) n"
proof -
  have z: "0 \<le> hl ! 0" "0 \<le> hl ! 1" using assms(1) by (auto simp: good_locs_def)
  have e: "8 * nat (hl ! 0) + 16 \<le> 8 * nat (hl ! 2) + 8" "8 * nat (hl ! 1) + 16 \<le> 8 * nat (hl ! 2) + 8"
    using assms(2) [of 0 2] assms(2) [of 1 2] z by (auto intro: span16_end)
  show "xxh3.ends_ok ls" if c: "cached_locations 3 hl = Some ls"
    using word_spans_good(1,3) [OF assms(1) c] cached_locations_entry [OF assms(1) c, of 0]
      cached_locations_entry [OF assms(1) c, of 1] e
    by (simp add: xxh3.ends_ok_def XXH3_3loc_spans_def)
  show "spans_in (XXH3_3loc_spans ls) n" if c: "scaled_locations 3 hl = Some ls" "8 * nat (hl ! 2) + 8 \<le> n"
    using scaled_locations_good(3) [OF assms(1) c(1), of 0] scaled_locations_good(3) [OF assms(1) c(1), of 1] e c(2)
    by (simp add: XXH3_3loc_spans_def)
qed

lemma XXH3_4loc_ends:
  assumes "good_locs 4 hl" "\<And>i j. i < j \<Longrightarrow> j < 4 \<Longrightarrow> hl ! i < hl ! j"
  shows "cached_locations 4 hl = Some ls \<Longrightarrow> xxh4.ends_ok ls"
    and "scaled_locations 4 hl = Some ls \<Longrightarrow> 8 * nat (hl ! 3) + 8 \<le> n \<Longrightarrow> spans_in (XXH3_4loc_spans ls) n"
proof -
  have z: "0 \<le> hl ! 0" "0 \<le> hl ! 2" using assms(1) by (auto simp: good_locs_def)
  have e: "8 * nat (hl ! 0) + 16 \<le> 8 * nat (hl ! 3) + 8" "8 * nat (hl ! 2) + 16 \<le> 8 * nat (hl ! 3) + 8"
    using assms(2) [of 0 3] assms(2) [of 2 3] z by (auto intro: span16_end)
  show "xxh4.ends_ok ls" if c: "cached_locations 4 hl = Some ls"
    using word_spans_good(1,3) [OF assms(1) c] cached_locations_entry [OF assms(1) c, of 0]
      cached_locations_entry [OF assms(1) c, of 2] e
    by (simp add: xxh4.ends_ok_def XXH3_4loc_spans_def)
  show "spans_in (XXH3_4loc_spans ls) n" if c: "scaled_locations 4 hl = Some ls" "8 * nat (hl ! 3) + 8 \<le> n"
    using scaled_locations_good(3) [OF assms(1) c(1), of 0] scaled_locations_good(3) [OF assms(1) c(1), of 2] e c(2)
    by (simp add: XXH3_4loc_spans_def)
qed

text \<open>
  The functor that a family takes for \<open>n\<close> locations is defined: for one to four by the contract,
  for every other number by the hash of the whole key.
\<close>

lemmas sub8_functors_ok =
  wy1.word_functors_ok [OF refl] wy2.word_functors_ok [OF refl] wy3.word_functors_ok [OF refl] wy4.word_functors_ok [OF refl]
  crc1.word_functors_ok [OF refl] crc2.word_functors_ok [OF refl] crc3.word_functors_ok [OF refl] crc4.word_functors_ok [OF refl]
  xxh1.word_functors_ok [OF refl] xxh2.word_functors_ok [OF refl]

lemma functor_ok_whole:
  "functor_ok b hl (Some hash_xxh64_call)" "functor_ok b hl (Some hash_wyhash_call)" "functor_ok b hl (Some CRC32Hash_call)"
  by (simp_all add: functor_ok_def hash_xxh64_total hash_wyhash_total CRC32Hash_total)

lemma sub8_count_cases:
  fixes n :: int
  obtains "n = 1" | "n = 2" | "n = 3" | "n = 4" | "n \<notin> {1, 2, 3, 4}"
  by blast

lemma sub8_ok:
  assumes "usable_locs locs" "hash_locations locs n = Some hl"
  shows "functor_ok b hl (wyhash_sub8 b n hl) \<and> functor_ok b hl (crc_sub8 b n hl) \<and> functor_ok b hl (xxh3_sub8 b n hl)"
proof (cases n rule: sub8_count_cases)
  case 1
  then show ?thesis using hash_locations_good [OF assms(1), of 1 hl] assms(2)
    by (cases b) (simp_all add: wyhash_sub8_def crc_sub8_def xxh3_sub8_def functor_defs sub8_functors_ok
        del: One_nat_def)
next
  case 2
  then show ?thesis using hash_locations_good [OF assms(1), of 2 hl] assms(2)
    by (cases b) (simp_all add: wyhash_sub8_def crc_sub8_def xxh3_sub8_def functor_defs sub8_functors_ok)
next
  case 3
  note g = hash_locations_good [OF assms(1), of 3 hl]
  have "functor_ok False hl (map_option (\<lambda>ls s. XXH3_3loc (str_data s) (str_len s) ls) (cached_locations 3 hl)) \<and>
    functor_ok True hl (map_option (\<lambda>ls s. XXH3_3loc_fixed (str_data s) (str_len s) ls XXH3_kSecret) (scaled_locations 3 hl))"
    using g 3 assms(2) by (intro conjI xxh3.span_functors_ok XXH3_3loc_ends) simp_all
  then show ?thesis using g 3 assms(2)
    by (cases b) (simp_all add: wyhash_sub8_def crc_sub8_def xxh3_sub8_def functor_defs sub8_functors_ok)
next
  case 4
  note g = hash_locations_good [OF assms(1), of 4 hl]
  have "functor_ok False hl (map_option (\<lambda>ls s. XXH3_4loc (str_data s) (str_len s) ls) (cached_locations 4 hl)) \<and>
    functor_ok True hl (map_option (\<lambda>ls s. XXH3_4loc_fixed (str_data s) (str_len s) ls XXH3_kSecret) (scaled_locations 4 hl))"
    using g 4 assms(2) by (intro conjI xxh4.span_functors_ok XXH3_4loc_ends) simp_all
  then show ?thesis using g 4 assms(2)
    by (cases b) (simp_all add: wyhash_sub8_def crc_sub8_def xxh3_sub8_def functor_defs sub8_functors_ok)
next
  case 5
  then show ?thesis by (cases b) (simp_all add: wyhash_sub8_def crc_sub8_def xxh3_sub8_def functor_ok_whole)
qed

lemma first_enough_bounds: "first_enough needed es i = Some j \<Longrightarrow> i < j \<and> j \<le> i + length es"
  by (induction es arbitrary: i) (fastforce split: if_splits)+

lemma num_locations_bounds:
  assumes "es \<noteq> []"
  shows "0 \<le> num_locations needed es" "nat (num_locations needed es) \<le> length es" "num_locations needed es \<le> 5"
proof -
  have l: "1 \<le> length es" using assms by (cases es) auto
  show "0 \<le> num_locations needed es" "nat (num_locations needed es) \<le> length es" "num_locations needed es \<le> 5"
    using l first_enough_bounds [of needed es 0]
    by (auto simp: num_locations_def Let_def split: option.splits if_splits)
qed

text \<open>The choice from estimated locations is defined, and so is its functor on every key.\<close>

lemma select_sub8_ok:
  assumes "usable_locs locs" "es \<noteq> []" "length es \<le> length locs"
    "family \<in> {wyhash_sub8, crc_sub8, xxh3_sub8}"
  shows "\<exists>f. select_sub8 family fixedLength (num_locations needed es) locs = Some f \<and>
    (\<forall>s. length s < 2 ^ 64 \<longrightarrow> (fixedLength \<longrightarrow> long_for locs s) \<longrightarrow> (\<exists>h. f s = Some h))"
proof -
  let ?n = "num_locations needed es"
  have "locs \<noteq> []" using assms(2,3) by auto
  then obtain hl where hl: "hash_locations locs ?n = Some hl" and s: "set hl \<subseteq> set locs"
    using num_locations_bounds [OF assms(2), of needed] assms(3)
    by (auto simp: hash_locations_def dest: in_set_takeD)
  have "functor_ok fixedLength hl (family fixedLength ?n hl)"
    using sub8_ok [OF assms(1) hl, of fixedLength] assms(4) by auto
  moreover have "long_for hl x" if "long_for locs x" for x using that s by (auto simp: long_for_def)
  ultimately show ?thesis unfolding select_sub8_def hl by (auto simp: functor_ok_def)
qed

text \<open>
  C4. Whatever entropy is needed, the choice that the partition and filter benchmarks make from estimated
  locations never runs into undefined behaviour: there is a functor for it, in each of the three families and
  for keys of fixed and of varying length, and it hashes every key (for fixed-length data, every key that has all the
  locations) without reading outside it.
\<close>

theorem select_sub8_safe:
  assumes "usable_locs locs" "es \<noteq> []" "length es \<le> length locs"
    "family \<in> {wyhash_sub8, crc_sub8, xxh3_sub8}"
  shows "\<exists>f. select_sub8 family fixedLength (num_locations needed es) locs = Some f \<and>
    (\<forall>s. length s < 2 ^ 64 \<longrightarrow> (fixedLength \<longrightarrow> long_for locs s) \<longrightarrow> (\<exists>h. f s = Some h))"
  using select_sub8_ok [OF assms] .

theorem select_sub8_safe_witness:
  "\<exists>f. select_sub8 wyhash_sub8 False (num_locations 20 [5, 25 :: int]) [3, 0] = Some f \<and>
    (\<forall>s. length s < 2 ^ 64 \<longrightarrow> (\<exists>h. f s = Some h))"
  using select_sub8_safe [of "[3, 0]" "[5, 25 :: int]" wyhash_sub8 False 20]
  by (simp add: usable_locs_def)

text \<open>A functor for varying lengths: short keys are hashed as a whole, long ones by their words.\<close>

lemma wyhash_sub8_local:
  assumes "usable_locs locs" "hash_locations locs (int k) = Some hl" "k \<in> {1, 2, 3, 4}"
    "wyhash_sub8 False (int k) hl = Some f" "length s < 2 ^ 64"
  shows "(length s < 8 * nat (hl ! (k - 1)) + 8 \<longrightarrow> f s = hash_wyhash_call s) \<and>
    (8 * nat (hl ! (k - 1)) + 8 \<le> length s \<and> length t = length s \<and> words_agree k hl s t \<longrightarrow> f s = f t)"
proof -
  have k: "0 < k" using assms(3) by auto
  note g = hash_locations_good(1) [OF assms(1) k assms(2)]
  obtain ls where c: "cached_locations k hl = Some ls" using cached_defined [OF g] by blast
  have e: "k < length ls" "unat (ls ! k) = 8 * nat (hl ! (k - 1)) + 8" using word_spans_good(1,3) [OF g c] by simp_all
  have past: "(ucast (ls ! k) \<le> str_len s) \<longleftrightarrow> 8 * nat (hl ! (k - 1)) + 8 \<le> length s"
    using assms(5) by (simp add: word_le_nat_alt unat_ucast_up e(2) unat_str_len)
  consider "k = 1" | "k = 2" | "k = 3" | "k = 4" using assms(3) by blast
  then show ?thesis
  proof cases
    case 1
    then show ?thesis using assms(4,5) c e(1) past g wy1.word_functor_local [OF refl, of hl ls s t]
        wy1.guarded_short [of ls "str_len s" "str_data s"]
      by (auto simp: wyhash_sub8_def functor_defs hash_wyhash_call_def wyhash_default_def simp del: One_nat_def)
  next
    case 2
    then show ?thesis using assms(4,5) c e(1) past g wy2.word_functor_local [OF refl, of hl ls s t]
        wy2.guarded_short [of ls "str_len s" "str_data s"]
      by (auto simp: wyhash_sub8_def functor_defs hash_wyhash_call_def wyhash_default_def)
  next
    case 3
    then show ?thesis using assms(4,5) c e(1) past g wy3.word_functor_local [OF refl, of hl ls s t]
        wy3.guarded_short [of ls "str_len s" "str_data s"]
      by (auto simp: wyhash_sub8_def functor_defs hash_wyhash_call_def wyhash_default_def)
  next
    case 4
    then show ?thesis using assms(4,5) c e(1) past g wy4.word_functor_local [OF refl, of hl ls s t]
        wy4.guarded_short [of ls "str_len s" "str_data s"]
      by (auto simp: wyhash_sub8_def functor_defs hash_wyhash_call_def wyhash_default_def)
  qed
qed



text \<open>
  The blocked filter's benchmark does not handle data whose entropies are all too small: the number of
  locations stays 0, which selects four locations of an empty vector. The functor is then built from memory
  outside the vector, for every family and every kind of data, however many locations were estimated.
\<close>

theorem block_selection_undefined:
  assumes "\<forall>e \<in> set es. \<not> needed < e"
  shows "num_locations_block needed es = 0 \<and>
    select_sub8 xxh3_sub8_block fixedLength (num_locations_block needed es) locs = None \<and>
    select_sub8 wyhash_sub8_block fixedLength (num_locations_block needed es) locs = None"
proof -
  have "first_enough needed es i = None" for i
    using assms by (induction es arbitrary: i) auto
  then have "num_locations_block needed es = 0" by (simp add: num_locations_block_def)
  then show ?thesis
    by (simp add: select_sub8_def hash_locations_def xxh3_sub8_block_def wyhash_sub8_block_def functor_defs
        cached_locations_def scaled_locations_def)
qed

theorem block_selection_undefined_witness:
  "select_sub8 wyhash_sub8_block True (num_locations_block 30 [5, 25 :: int]) [3, 0, 7, 2, 9] = None"
proof -
  have "\<forall>e \<in> set [5, 25 :: int]. \<not> 30 < e" by simp
  from block_selection_undefined [OF this, of True "[3, 0, 7, 2, 9]"] show ?thesis by blast
qed

end
