(* ===== verification/Bench_Common.thy ===== *)
theory Bench_Common
  imports Float_Model Hash_Select
begin

text \<open>
  What the benchmark programs share: how a run can end, the global settings (\<open>benchmarker.cpp\<close>), the library functions they call, the
  dummy hashing between timed steps, the number of locations per chunk size, and
  the sequence of guarded benchmarks of a driver.
\<close>

section \<open>Outcomes\<close>

text \<open>
  A benchmark ends normally (\<open>Inr\<close>), runs into undefined behaviour, fails an assertion, calls
  \<open>exit\<close> or throws an exception that nothing catches.
\<close>

datatype bench_error = Undefined | Assertion_failed | Exit | Uncaught

definition bind_result :: "bench_error + 'a \<Rightarrow> ('a \<Rightarrow> bench_error + 'b) \<Rightarrow> bench_error + 'b" where
  "bind_result m f = (case m of Inl e \<Rightarrow> Inl e | Inr x \<Rightarrow> f x)"

definition defined :: "'a option \<Rightarrow> bench_error + 'a" where
  "defined m = (case m of None \<Rightarrow> Inl Undefined | Some x \<Rightarrow> Inr x)"

lemma bind_result_simps [simp]:
  "bind_result (Inl e) f = Inl e" "bind_result (Inr x) f = f x"
  by (simp_all add: bind_result_def)

lemma defined_simps [simp]: "defined None = Inl Undefined" "defined (Some x) = Inr x"
  by (simp_all add: defined_def)

section \<open>Globals and library functions\<close>

record bench_config =
  hashfuncs :: "string \<Rightarrow> bool"
  table_metrics :: "string \<Rightarrow> bool"
  dataIsFixedLength :: bool
  bits_per_element :: rat
  bits_per_element_rb :: rat
  added_fpr :: rat

text \<open>
  The functions of the C and C++ libraries that the benchmarks call: \<open>std::hash<std::string>\<close>, \<open>log2\<close> on positive values,
  and what the constructors of the filters take.
\<close>

record platform =
  std_hash :: "bytes \<Rightarrow> u64"
  lib_log2 :: "rat \<Rightarrow> rat"
  lib_ln2 :: rat
  lib_pow :: "rat \<Rightarrow> rat \<Rightarrow> rat"
  lib_sqrt :: "rat \<Rightarrow> rat"
  fprGivenK512 :: "rat \<Rightarrow> nat \<Rightarrow> rat"
  fprGivenK64 :: "rat \<Rightarrow> nat \<Rightarrow> rat"

text \<open>The conversion to \<open>int\<close> keeps the lower 32 bits, read as a signed number.\<close>

definition c_int :: "int \<Rightarrow> int" where
  "c_int x = signed_take_bit 31 x"

section \<open>Steps of a timed loop\<close>

definition step_size :: nat where
  "step_size = 100"

text \<open>Between the timed steps the keys of the next block are hashed as a whole.\<close>

definition dummy_hashing :: "bytes list \<Rightarrow> nat \<Rightarrow> u64 \<Rightarrow> u64 option" where
  "dummy_hashing p i dummy =
     for_opt [i * step_size..<(i + 1) * step_size]
       (\<lambda>j d. nth_opt p j \<bind> hash_xxh64_call \<bind> (\<lambda>h. Some (d + h))) dummy"

section \<open>Drivers\<close>

text \<open>The sequence of guarded benchmarks \<open>if (hashfuncs[...]) ...\<close>.\<close>

primrec run_steps :: "(bool \<times> ('s \<Rightarrow> bench_error + 's)) list \<Rightarrow> 's \<Rightarrow> bench_error + 's" where
  "run_steps [] t = Inr t"
| "run_steps (s # ss) t = bind_result (if fst s then snd s t else Inr t) (run_steps ss)"

text \<open>
  \<open>numLocationsForChunkSize[k]\<close>: an unset entry reads as 0; the cap applies to chunks of eight bytes.
\<close>

definition num_for_chunk :: "double \<Rightarrow> (int \<rightharpoonup> double list) \<Rightarrow> int \<Rightarrow> int" where
  "num_for_chunk needed entropies k =
     (case entropies k of None \<Rightarrow> 0
      | Some es \<Rightarrow> if k = 8 then num_locations needed es
                  else (case first_enough needed es 0 of Some i \<Rightarrow> int i | None \<Rightarrow> int (length es) - 1))"

definition num_for_chunk_block :: "double \<Rightarrow> (int \<rightharpoonup> double list) \<Rightarrow> int \<Rightarrow> int" where
  "num_for_chunk_block needed entropies k =
     (case entropies k of None \<Rightarrow> 0
      | Some es \<Rightarrow> if k = 8 then num_locations_block needed es
                  else (case first_enough needed es 0 of Some i \<Rightarrow> int i | None \<Rightarrow> 0))"

definition at_chunk :: "(int \<rightharpoonup> 'a list) \<Rightarrow> int \<Rightarrow> 'a list" where
  "at_chunk m k = (case m k of None \<Rightarrow> [] | Some xs \<Rightarrow> xs)"

section \<open>Lemmas\<close>

lemma c_int_small: "- (2 ^ 31) \<le> x \<Longrightarrow> x < 2 ^ 31 \<Longrightarrow> c_int x = x"
  by (simp add: c_int_def signed_take_bit_int_eq_self)

lemma dummy_hashing_total:
  assumes "\<forall>x \<in> set p. length x < 2 ^ 64" "(i + 1) * step_size \<le> length p"
  shows "\<exists>d. dummy_hashing p i dummy = Some d"
proof -
  have "\<exists>s. for_opt js (\<lambda>j d. nth_opt p j \<bind> hash_xxh64_call \<bind> (\<lambda>h. Some (d + h))) dummy = Some s"
    if "\<forall>j \<in> set js. j < length p" for js
    using that
  proof (induction js arbitrary: dummy)
    case (Cons j js)
    obtain h where "hash_xxh64_call (p ! j) = Some h"
      using hash_xxh64_total [of "p ! j"] Cons.prems assms(1) by auto
    then show ?case using Cons by (simp add: nth_opt_Some)
  qed simp
  then show ?thesis unfolding dummy_hashing_def using assms(2) by (auto simp: atLeast0LessThan)
qed

lemma run_steps_defined:
  assumes "\<And>g s t. (g, s) \<in> set ss \<Longrightarrow> g \<Longrightarrow> \<exists>t'. s t = Inr t'"
  shows "\<exists>t'. run_steps ss t = Inr t'"
  using assms
proof (induction ss arbitrary: t)
  case (Cons gs ss)
  obtain g s where gs: "gs = (g, s)" by (cases gs)
  obtain u where u: "(if g then s t else Inr t) = Inr u"
  proof (cases g)
    case True
    then show ?thesis using Cons.prems [of g s t] gs that by auto
  qed (simp add: that)
  have "\<exists>t'. run_steps ss u = Inr t'" using Cons.prems by (intro Cons.IH) (meson list.set_intros(2))
  then show ?case by (simp only: gs run_steps.simps fst_conv snd_conv u bind_result_simps)
qed simp

end
