(* ===== verification/Entropy_Estimator.thy ===== *)
theory Entropy_Estimator
  imports Bench_Common
begin

text \<open>
  The entropy estimator (\<open>include/entropyEstimation/entropy_estimators.hh\<close>): it chooses, one after the other, the
  positions of the keys that are hashed, each time the position for which the Renyi entropy of order two
  of the partial keys is greatest. The chunk type of the templates (1, 4 or 8 bytes) is the parameter
  \<open>c\<close>, its size. The theorems show what the estimate counts, how partial keys relate to the
  hash functions, that the positions chosen can be used by them, and where the
  estimator reads outside a key.
\<close>

section \<open>Arithmetic with infinities\<close>

text \<open>Entropies can be infinite: no two partial keys are equal, and the logarithm of 0 is taken.\<close>

fun double_add :: "double \<Rightarrow> double \<Rightarrow> double" where
  "double_add (Fin a) (Fin b) = Fin (sdbl (a + b))"
| "double_add NaN _ = NaN"
| "double_add _ NaN = NaN"
| "double_add PInf MInf = NaN"
| "double_add MInf PInf = NaN"
| "double_add PInf _ = PInf"
| "double_add _ PInf = PInf"
| "double_add MInf _ = MInf"
| "double_add _ MInf = MInf"

text \<open>The quotient of two values that are not negative.\<close>

definition double_div :: "rat \<Rightarrow> rat \<Rightarrow> double" where
  "double_div a b = (if b = 0 then (if a = 0 then NaN else PInf) else Fin (sdbl (a / b)))"

text \<open>\<open>-1 * log2(x)\<close>, with \<open>log2\<close> the library's on positive values.\<close>

fun neg_log2 :: "(rat \<Rightarrow> rat) \<Rightarrow> double \<Rightarrow> double" where
  "neg_log2 log2 (Fin x) = (if x = 0 then PInf else if x < 0 then NaN else Fin (- log2 x))"
| "neg_log2 log2 PInf = MInf"
| "neg_log2 log2 _ = NaN"

section \<open>The Renyi entropy\<close>

definition fallingPower :: "u64 \<Rightarrow> u64 \<Rightarrow> u64" where
  "fallingPower x pw =
     (if pw = 0 then 1 else foldl (\<lambda>v i. v * (x - of_nat i)) x [1..<unat pw])"

text \<open>
  The frequencies of the partial keys, in the order in which the \<open>unordered_map\<close> is iterated: \<open>iter\<close> is that order.
\<close>

type_synonym frequencies = "(bytes \<times> int) list"

fun count_up :: "bytes \<Rightarrow> frequencies \<Rightarrow> frequencies" where
  "count_up k [] = [(k, 1)]"
| "count_up k ((k', n) # m) = (if k = k' then (k', n + 1) # m else (k', n) # count_up k m)"

definition evaluateRenyiEntropy :: "(rat \<Rightarrow> rat) \<Rightarrow> frequencies \<Rightarrow> int \<Rightarrow> double" where
  "evaluateRenyiEntropy log2 m numItems =
     neg_log2 log2 (foldl (\<lambda>s (k, n).
       double_add s (double_div (dbl (of_nat (unat (fallingPower (of_int n) 2))))
         (dbl (of_nat (unat (fallingPower (of_int numItems) 2)))))) (Fin 0) m)"

section \<open>Partial keys\<close>

text \<open>\<open>to_string\<close> of a size.\<close>

fun to_string :: "nat \<Rightarrow> bytes" where
  "to_string n = (if n < 10 then [of_nat (48 + n)] else to_string (n div 10) @ [of_nat (48 + n mod 10)])"

declare to_string.simps [simp del]

text \<open>\<open>x_data[pos]\<close>: a chunk of the key's data, which ends with a terminating zero.\<close>

definition chunk_at :: "nat \<Rightarrow> bytes \<Rightarrow> int \<Rightarrow> bytes option" where
  "chunk_at c s pos = (if 0 \<le> pos then mem_read c (str_data s) (c * nat pos) else None)"

fun partial_chunks :: "nat \<Rightarrow> bytes \<Rightarrow> int list \<Rightarrow> bytes option" where
  "partial_chunks c s [] = Some []"
| "partial_chunks c s (pos # ps) = do {
     d \<leftarrow> (if pos \<le> int (length s div c) then chunk_at c s pos else Some (replicate c 0));
     ds \<leftarrow> partial_chunks c s ps;
     Some (d @ ds)
   }"

definition formPartialString :: "nat \<Rightarrow> bytes \<Rightarrow> int list \<Rightarrow> bytes option" where
  "formPartialString c s positions =
     partial_chunks c s positions \<bind> (\<lambda>ds. Some (ds @ to_string (length s)))"

text \<open>The variant that gives up on the partial key when a position is missing.\<close>

fun full_chunks :: "nat \<Rightarrow> bytes \<Rightarrow> int list \<Rightarrow> bytes option option" where
  "full_chunks c s [] = Some (Some [])"
| "full_chunks c s (pos # ps) =
     (if pos < int (length s div c) then do {
        d \<leftarrow> chunk_at c s pos;
        r \<leftarrow> full_chunks c s ps;
        Some (map_option (\<lambda>ds. d @ ds) r)
      } else Some None)"

definition formPartialStringDefaultToFull :: "nat \<Rightarrow> bytes \<Rightarrow> int list \<Rightarrow> bytes option" where
  "formPartialStringDefaultToFull c s positions =
     full_chunks c s positions \<bind> (\<lambda>r. Some (case r of None \<Rightarrow> s | Some ds \<Rightarrow> ds @ to_string (length s)))"

definition tally :: "nat \<Rightarrow> bytes list \<Rightarrow> int list \<Rightarrow> frequencies option" where
  "tally c xs positions =
     for_opt xs (\<lambda>x m. formPartialString c x positions \<bind> (\<lambda>k. Some (count_up k m))) []"

definition evaluateEntropy :: "(rat \<Rightarrow> rat) \<Rightarrow> (frequencies \<Rightarrow> frequencies) \<Rightarrow> nat \<Rightarrow> bytes list \<Rightarrow> int list \<Rightarrow> double option" where
  "evaluateEntropy log2 iter c testVec positions =
     tally c testVec positions \<bind> (\<lambda>m. Some (evaluateRenyiEntropy log2 (iter m) (int (length testVec))))"

section \<open>Choosing positions\<close>

definition best_step :: "(rat \<Rightarrow> rat) \<Rightarrow> (frequencies \<Rightarrow> frequencies) \<Rightarrow> nat \<Rightarrow> bytes list \<Rightarrow> int list \<Rightarrow>
    nat \<Rightarrow> int \<times> double \<Rightarrow> (int \<times> double) option" where
  "best_step log2 iter c inputVec currentPositions i best =
     (if int i \<in> set currentPositions then Some best
      else do {
        e \<leftarrow> evaluateEntropy log2 iter c inputVec (currentPositions @ [int i]);
        Some (if double_less (snd best) e then (int i, e) else best)
      })"

definition chooseBestPositionRenyi :: "(rat \<Rightarrow> rat) \<Rightarrow> (frequencies \<Rightarrow> frequencies) \<Rightarrow> nat \<Rightarrow> nat \<Rightarrow> bytes list \<Rightarrow> int list \<Rightarrow>
    bench_error + int \<times> double" where
  "chooseBestPositionRenyi log2 iter c maxLengthString inputVec currentPositions =
     (if length currentPositions = maxLengthString then Inl Assertion_failed
      else defined (for_opt [0..<maxLengthString div c] (best_step log2 iter c inputVec currentPositions) (- 1, Fin 0)))"

fun evaluateDatasetFixedLength :: "bytes list \<Rightarrow> bool" where
  "evaluateDatasetFixedLength [] = False"
| "evaluateDatasetFixedLength (x # xs) = (\<forall>y \<in> set xs. length y = length x)"

text \<open>\<open>getQuantileLength\<close>: the index is the truncated product with the size.\<close>

definition getQuantileLength :: "bytes list \<Rightarrow> rat \<Rightarrow> nat option" where
  "getQuantileLength inputVec quantile =
     nth_opt (sort (map length inputVec)) (nat \<lfloor>dbl (quantile * of_nat (length inputVec))\<rfloor>)"

primrec greedy_loop :: "nat \<Rightarrow> (rat \<Rightarrow> rat) \<Rightarrow> (frequencies \<Rightarrow> frequencies) \<Rightarrow> nat \<Rightarrow> nat \<Rightarrow> bytes list \<Rightarrow> bytes list \<Rightarrow>
    int list \<Rightarrow> double list \<Rightarrow> double \<Rightarrow> bench_error + int list \<times> double list \<times> double" where
  "greedy_loop 0 log2 iter c maxLen inputVec validationVec positions entropies entropy = Inr (positions, entropies, entropy)"
| "greedy_loop (Suc n) log2 iter c maxLen inputVec validationVec positions entropies entropy =
     (if length positions = maxLen div c then Inr (positions, entropies, entropy)
      else bind_result (chooseBestPositionRenyi log2 iter c maxLen inputVec positions) (\<lambda>(pos, e).
        let positions = positions @ [pos] in
        bind_result (if validationVec = inputVec then Inr e
                     else defined (evaluateEntropy log2 iter c validationVec positions)) (\<lambda>entropy.
        greedy_loop n log2 iter c maxLen inputVec validationVec positions (entropies @ [entropy]) entropy)))"

text \<open>The result of \<open>greedyRenyiSelectorStopK\<close>: the positions, their entropies, whether the data has a fixed length, and the entropy.\<close>

definition greedyRenyiSelectorStopK :: "(rat \<Rightarrow> rat) \<Rightarrow> (frequencies \<Rightarrow> frequencies) \<Rightarrow> nat \<Rightarrow> nat \<Rightarrow> bytes list \<Rightarrow> bytes list \<Rightarrow>
    int list \<Rightarrow> double list \<Rightarrow> int \<Rightarrow> bench_error + int list \<times> double list \<times> bool \<times> double" where
  "greedyRenyiSelectorStopK log2 iter c maxLengthString inputVec validationVec returnPositions entropies numPositions =
     bind_result (defined (getQuantileLength inputVec (dbl (1 / 10)))) (\<lambda>ninety_quantile_len.
     if \<not> (numPositions + int (length returnPositions)) mod 2 ^ 64 < int maxLengthString then Inl Assertion_failed
     else bind_result (greedy_loop (nat numPositions) log2 iter c maxLengthString inputVec validationVec
            returnPositions entropies (Fin 0)) (\<lambda>(ps, es, e).
       Inr (ps, es, evaluateDatasetFixedLength inputVec, e)))"

definition greedyRenyiSelectorStopK_train :: "(rat \<Rightarrow> rat) \<Rightarrow> (frequencies \<Rightarrow> frequencies) \<Rightarrow> nat \<Rightarrow> nat \<Rightarrow> bytes list \<Rightarrow>
    int list \<Rightarrow> double list \<Rightarrow> int \<Rightarrow> bench_error + int list \<times> double list \<times> bool \<times> double" where
  "greedyRenyiSelectorStopK_train log2 iter c maxLengthString inputVec returnPositions entropies numPositions =
     greedyRenyiSelectorStopK log2 iter c maxLengthString inputVec inputVec returnPositions entropies numPositions"

text \<open>\<open>greedyRenyiSelectorStopEntropy\<close> is a loop without a counter: \<open>None\<close> would be a run that does not end.\<close>

partial_function (option) entropy_loop :: "(rat \<Rightarrow> rat) \<Rightarrow> (frequencies \<Rightarrow> frequencies) \<Rightarrow> nat \<Rightarrow> nat \<Rightarrow> bytes list \<Rightarrow>
    double \<Rightarrow> int list \<Rightarrow> double \<Rightarrow> (bench_error + int list \<times> double) option" where
  "entropy_loop log2 iter c maxLen inputVec desired positions entropy =
     (if double_less entropy desired \<and> length positions \<noteq> maxLen
      then case chooseBestPositionRenyi log2 iter c maxLen inputVec positions of
          Inl err \<Rightarrow> Some (Inl err)
        | Inr (pos, e) \<Rightarrow> entropy_loop log2 iter c maxLen inputVec desired (positions @ [pos]) e
      else Some (Inr (positions, entropy)))"

definition greedyRenyiSelectorStopEntropy :: "(rat \<Rightarrow> rat) \<Rightarrow> (frequencies \<Rightarrow> frequencies) \<Rightarrow> nat \<Rightarrow> nat \<Rightarrow> bytes list \<Rightarrow>
    int list \<Rightarrow> double \<Rightarrow> (bench_error + int list \<times> bool \<times> double) option" where
  "greedyRenyiSelectorStopEntropy log2 iter c maxLengthString inputVec returnPositions desiredEntropy =
     map_option (\<lambda>r. bind_result r (\<lambda>(ps, e). Inr (ps, evaluateDatasetFixedLength inputVec, e)))
       (entropy_loop log2 iter c maxLengthString inputVec desiredEntropy returnPositions (Fin 0))"

section \<open>Partial keys determine length and chunks\<close>

definition of_digits :: "bytes \<Rightarrow> nat" where
  "of_digits bs = foldl (\<lambda>v b. 10 * v + (unat b - 48)) 0 bs"

lemma of_digits_to_string: "of_digits (to_string n) = n"
proof (induction n rule: to_string.induct)
  case (1 n)
  have d: "unat (of_nat (48 + k) :: u8) = 48 + k" if "k < 10" for k
    using that by (intro unat_of_nat_small) simp
  show ?case
  proof (cases "n < 10")
    case True
    then show ?thesis using d [of n] by (simp add: to_string.simps of_digits_def)
  next
    case False
    then show ?thesis using 1 d [of "n mod 10"] by (subst to_string.simps) (simp add: of_digits_def)
  qed
qed

lemma to_string_inj: "to_string m = to_string n \<Longrightarrow> m = n"
  by (metis of_digits_to_string)

lemma length_chunk_at: "chunk_at c s pos = Some d \<Longrightarrow> length d = c"
  by (auto simp: chunk_at_def mem_read_def split: if_splits)

lemma length_partial_chunks: "partial_chunks c s ps = Some ds \<Longrightarrow> length ds = c * length ps"
proof (induction ps arbitrary: ds)
  case (Cons p ps)
  then show ?case by (auto simp: length_chunk_at split: bind_splits if_splits)
qed simp

lemma formPartialString_eqD:
  assumes "formPartialString c s ps = Some p" "formPartialString c t ps = Some p"
  shows "length s = length t" "partial_chunks c s ps = partial_chunks c t ps"
proof -
  obtain a b where ab: "partial_chunks c s ps = Some a" "partial_chunks c t ps = Some b"
    "p = a @ to_string (length s)" "p = b @ to_string (length t)"
    using assms by (auto simp: formPartialString_def split: bind_splits)
  then have "a = b \<and> to_string (length s) = to_string (length t)"
    using length_partial_chunks [OF ab(1)] length_partial_chunks [OF ab(2)] by (metis append_eq_append_conv)
  then show "length s = length t" "partial_chunks c s ps = partial_chunks c t ps"
    using ab(1,2) to_string_inj by auto
qed

text \<open>Equal partial keys agree on each chunk that lies within both keys.\<close>

lemma partial_chunks_eqD:
  assumes "partial_chunks c s ps = Some a" "partial_chunks c t ps = Some a" "pos \<in> set ps"
    "0 \<le> pos" "c * nat pos + c \<le> length s" "length t = length s" "0 < c"
  shows "window c s (c * nat pos) = window c t (c * nat pos)"
  using assms(1-3)
proof (induction ps arbitrary: a)
  case (Cons q ps)
  obtain d ds e es where de:
    "(if q \<le> int (length s div c) then chunk_at c s q else Some (replicate c 0)) = Some d" "partial_chunks c s ps = Some ds"
    "(if q \<le> int (length t div c) then chunk_at c t q else Some (replicate c 0)) = Some e" "partial_chunks c t ps = Some es"
    "d @ ds = a" "e @ es = a"
    using Cons.prems(1,2) by (auto split: bind_splits)
  have l: "length d = c" "length e = c"
    using de(1,3) by (auto dest: length_chunk_at split: if_splits)
  then have eq: "d = e" "ds = es" using de(5,6) by (metis append_eq_append_conv)+
  show ?case
  proof (cases "pos = q")
    case True
    have "nat pos \<le> length s div c" using assms(5,7) by (simp add: less_eq_div_iff_mult_less_eq mult.commute)
    then have "pos \<le> int (length s div c)" using assms(4) by linarith
    then have "chunk_at c s pos = chunk_at c t pos" using de(1,3) eq(1) True assms(6) by simp
    then show ?thesis using assms(4-6) by (simp add: chunk_at_def mem_read_Some window_str_data)
  next
    case False
    then show ?thesis using Cons.IH [of ds] Cons.prems(3) de(2,4) eq(2) by simp
  qed
qed simp

lemma partial_words_agree:
  assumes "usable_locs locs" "0 < k" "hash_locations locs (int k) = Some hl"
    "formPartialString 8 s (take k locs) = Some p" "formPartialString 8 t (take k locs) = Some p"
    "8 * nat (hl ! (k - 1)) + 8 \<le> length s"
  shows "words_agree k hl s t"
  unfolding words_agree_def
proof (intro allI impI)
  fix i assume i: "i < k"
  note g = hash_locations_good [OF assms(1-3)]
  have hl: "hl = sort (take k locs)" using assms(3) by (auto simp: hash_locations_def split: if_splits)
  have "hl ! i \<in> set hl" using i g(2) by simp
  then have pos: "hl ! i \<in> set (take k locs)" by (simp add: hl)
  have z: "0 \<le> hl ! i" "hl ! i \<le> hl ! (k - 1)" using g(1) i by (auto simp: good_locs_def)
  then have "8 * nat (hl ! i) + 8 \<le> length s" using assms(6) by linarith
  moreover obtain a where "partial_chunks 8 s (take k locs) = Some a"
    using assms(4) by (auto simp: formPartialString_def split: bind_splits)
  ultimately show "window 8 s (8 * nat (hl ! i)) = window 8 t (8 * nat (hl ! i))"
    using formPartialString_eqD [OF assms(4,5)] pos z by (intro partial_chunks_eqD [of 8 s "take k locs" a t]) simp_all
qed

section \<open>What the estimate counts\<close>

text \<open>The frequency table of a list of partial keys.\<close>

definition freq :: "bytes list \<Rightarrow> frequencies" where
  "freq ks = foldl (\<lambda>m k. count_up k m) [] ks"

lemma tally_freq:
  assumes "tally c xs ps = Some m"
  shows "m = freq (map (\<lambda>x. the (formPartialString c x ps)) xs)" "\<And>x. x \<in> set xs \<Longrightarrow> \<exists>p. formPartialString c x ps = Some p"
proof -
  have "m = foldl (\<lambda>m k. count_up k m) m0 (map (\<lambda>x. the (formPartialString c x ps)) xs) \<and>
      (\<forall>x \<in> set xs. \<exists>p. formPartialString c x ps = Some p)"
    if "for_opt xs (\<lambda>x m. formPartialString c x ps \<bind> (\<lambda>k. Some (count_up k m))) m0 = Some m" for m0
    using that by (induction xs arbitrary: m0) (fastforce split: bind_splits)+
  then show "m = freq (map (\<lambda>x. the (formPartialString c x ps)) xs)" "\<And>x. x \<in> set xs \<Longrightarrow> \<exists>p. formPartialString c x ps = Some p"
    using assms by (auto simp: tally_def freq_def)
qed

lemma count_up_keys: "fst ` set (count_up k m) = insert k (fst ` set m)"
  by (induction k m rule: count_up.induct) auto

lemma count_up_distinct: "distinct (map fst m) \<Longrightarrow> distinct (map fst (count_up k m))"
proof (induction k m rule: count_up.induct)
  case (2 k k' n m)
  then show ?case using count_up_keys [of k m] by auto
qed simp

lemma count_up_lookup: "map_of (count_up k m) j = (if j = k then Some (1 + (case map_of m k of None \<Rightarrow> 0 | Some n \<Rightarrow> n)) else map_of m j)"
  by (induction k m rule: count_up.induct) auto

lemma freq_snoc: "freq (ks @ [k]) = count_up k (freq ks)"
  by (simp add: freq_def)

lemma map_of_freq: "map_of (freq ks) k = (if k \<in> set ks then Some (int (count_list ks k)) else None)"
proof (induction ks rule: rev_induct)
  case (snoc x ks)
  then show ?case by (auto simp: freq_snoc count_up_lookup)
qed (simp add: freq_def)

lemma distinct_freq: "distinct (map fst (freq ks))"
  by (induction ks rule: rev_induct) (simp_all add: freq_snoc count_up_distinct, simp add: freq_def)

text \<open>Counting one more key \<open>k\<close> adds twice its frequency to the sum of \<open>n * (n - 1)\<close>.\<close>

lemma sum_count_up:
  assumes "distinct (map fst m)"
  shows "(\<Sum>(j, n) \<leftarrow> count_up k m. n * (n - 1)) = (\<Sum>(j, n) \<leftarrow> m. n * (n - 1)) + 2 * (case map_of m k of None \<Rightarrow> 0 | Some n \<Rightarrow> n)"
  by (induction k m rule: count_up.induct) (auto simp: algebra_simps)

definition colliding :: "'a list \<Rightarrow> (nat \<times> nat) set" where
  "colliding xs = {(i, j). i < length xs \<and> j < length xs \<and> i \<noteq> j \<and> xs ! i = xs ! j}"

lemma finite_colliding [simp]: "finite (colliding xs)"
  by (rule finite_subset [of _ "{..<length xs} \<times> {..<length xs}"]) (auto simp: colliding_def)

lemma card_index_count: "card {i. i < length xs \<and> xs ! i = k} = count_list xs k"
proof -
  have "count_list xs k = length (filter (\<lambda>x. x = k) xs)" by (induction xs) auto
  then show ?thesis by (simp add: length_filter_conv_card)
qed

lemma card_colliding_snoc: "card (colliding (ks @ [k])) = card (colliding ks) + 2 * count_list ks k"
proof -
  let ?I = "{i. i < length ks \<and> ks ! i = k}" and ?n = "length ks"
  have "colliding (ks @ [k]) = colliding ks \<union> (?I \<times> {?n}) \<union> ({?n} \<times> ?I)"
    by (auto simp: colliding_def nth_append less_Suc_eq split: if_splits)
  moreover have "card (colliding ks \<union> (?I \<times> {?n}) \<union> ({?n} \<times> ?I)) = card (colliding ks) + card (?I \<times> {?n}) + card ({?n} \<times> ?I)"
  proof -
    have "colliding ks \<inter> ?I \<times> {?n} = {}" "(colliding ks \<union> ?I \<times> {?n}) \<inter> {?n} \<times> ?I = {}"
      by (auto simp: colliding_def)
    then show ?thesis by (simp add: card_Un_disjoint)
  qed
  ultimately show ?thesis by (simp add: card_index_count card_cartesian_product)
qed

lemma card_colliding_same: "int (card (colliding (replicate n ()))) = int n * (int n - 1)"
proof (induction n)
  case (Suc n)
  have "count_list (replicate n ()) () = n" by (induction n) auto
  then show ?case using Suc card_colliding_snoc [of "replicate n ()" "()"]
    by (simp add: replicate_append_same algebra_simps)
qed (simp add: colliding_def)

lemma sum_freq: "(\<Sum>(k, n) \<leftarrow> freq ks. n * (n - 1)) = int (card (colliding ks))"
proof (induction ks rule: rev_induct)
  case Nil
  show ?case by (simp add: freq_def colliding_def)
next
  case (snoc k ks)
  have "(case map_of (freq ks) k of None \<Rightarrow> 0 | Some n \<Rightarrow> n) = int (count_list ks k)"
    by (simp add: map_of_freq)
  then show ?case using snoc by (simp add: freq_snoc sum_count_up [OF distinct_freq] card_colliding_snoc)
qed

lemma uint_fallingPower_2:
  assumes "0 \<le> n" "n < 2 ^ 32"
  shows "uint (fallingPower (of_int n) 2) = n * (n - 1)"
proof -
  have e: "fallingPower (of_int n) 2 = of_int (n * (n - 1))"
    by (simp add: fallingPower_def upt_rec)
  have "0 \<le> n * (n - 1)" using assms(1) by (cases "n = 0") auto
  moreover have "n * (n - 1) < 2 ^ 64"
  proof -
    have "n * (n - 1) \<le> n * n" using assms(1) by (simp add: mult_left_mono)
    also have "\<dots> < 2 ^ 32 * 2 ^ 32" using assms by (intro mult_strict_mono) auto
    finally show ?thesis by simp
  qed
  ultimately show ?thesis unfolding e uint_word_of_int by simp
qed

text \<open>
  C13. The sums from which the Renyi entropy is computed count collisions: the falling powers of the frequencies add
  up to the number of ordered pairs of different keys with equal partial keys, and the falling power in the
  denominator is the number of all such pairs. So the quotient whose logarithm is taken is, before
  rounding, the probability that two keys drawn from the sample have the same partial key.
\<close>

theorem renyi_counts_collisions:
  assumes "tally c xs ps = Some m" "length xs < 2 ^ 31"
  shows "(\<Sum>(k, n) \<leftarrow> m. unat (fallingPower (of_int n) 2)) =
      card {(i, j). i < length xs \<and> j < length xs \<and> i \<noteq> j \<and>
        formPartialString c (xs ! i) ps = formPartialString c (xs ! j) ps} \<and>
    unat (fallingPower (of_int (int (length xs))) 2) = card {(i, j). i < length xs \<and> j < length xs \<and> i \<noteq> j}"
proof
  let ?ks = "map (\<lambda>x. the (formPartialString c x ps)) xs"
  note m = tally_freq [OF assms(1)]
  have n: "0 \<le> n \<and> n < 2 ^ 32" if "(k, n) \<in> set m" for k n
  proof -
    have "map_of (freq ?ks) k = Some n" using that distinct_freq m(1) by (simp add: map_of_is_SomeI)
    then have "n = int (count_list ?ks k)" by (simp add: map_of_freq split: if_splits)
    moreover have "count_list ?ks k \<le> length xs" using count_le_length [of ?ks k] by simp
    ultimately show ?thesis using assms(2) by simp
  qed
  have "int (\<Sum>(k, n) \<leftarrow> m. unat (fallingPower (of_int n) 2)) = (\<Sum>(k, n) \<leftarrow> m. int (unat (fallingPower (of_int n) 2)))"
    by (induction m) auto
  also have "\<dots> = (\<Sum>(k, n) \<leftarrow> m. n * (n - 1))"
    using n by (intro arg_cong [where f = sum_list] map_cong refl) (auto simp: uint_fallingPower_2)
  also have "\<dots> = int (card (colliding ?ks))" using sum_freq m(1) by simp
  also have "colliding ?ks = {(i, j). i < length xs \<and> j < length xs \<and> i \<noteq> j \<and>
        formPartialString c (xs ! i) ps = formPartialString c (xs ! j) ps}"
  proof -
    have "the (formPartialString c (xs ! i) ps) = the (formPartialString c (xs ! j) ps) \<longleftrightarrow>
        formPartialString c (xs ! i) ps = formPartialString c (xs ! j) ps" if "i < length xs" "j < length xs" for i j
      using m(2) [of "xs ! i"] m(2) [of "xs ! j"] that by force
    then show ?thesis by (auto simp: colliding_def)
  qed
  finally show "(\<Sum>(k, n) \<leftarrow> m. unat (fallingPower (of_int n) 2)) =
      card {(i, j). i < length xs \<and> j < length xs \<and> i \<noteq> j \<and>
        formPartialString c (xs ! i) ps = formPartialString c (xs ! j) ps}" by simp
  have "colliding (replicate (length xs) ()) = {(i, j). i < length xs \<and> j < length xs \<and> i \<noteq> j}"
    by (auto simp: colliding_def)
  moreover have "int (card (colliding (replicate (length xs) ()))) = int (length xs) * (int (length xs) - 1)"
    by (rule card_colliding_same)
  ultimately have "int (card {(i, j). i < length xs \<and> j < length xs \<and> i \<noteq> j}) = uint (fallingPower (of_int (int (length xs))) 2)"
    using assms(2) by (subst uint_fallingPower_2) simp_all
  then show "unat (fallingPower (of_int (int (length xs))) 2) = card {(i, j). i < length xs \<and> j < length xs \<and> i \<noteq> j}"
    by (simp only: uint_nat of_nat_eq_iff)
qed

section \<open>The chosen position\<close>

lemma double_less_trans: "double_less a b \<Longrightarrow> double_less b c \<Longrightarrow> double_less a c"
  by (cases a; cases b; cases c) auto

text \<open>
  What a run of the search over the positions below \<open>n\<close> has found: no candidate has a greater entropy, and unless no
  candidate has any, the position is a candidate with that entropy.
\<close>

definition best_of :: "(nat \<Rightarrow> double option) \<Rightarrow> int list \<Rightarrow> nat \<Rightarrow> int \<times> double \<Rightarrow> bool" where
  "best_of ent used n best \<longleftrightarrow>
     (\<forall>i < n. int i \<notin> set used \<longrightarrow> (\<exists>e. ent i = Some e \<and> \<not> double_less (snd best) e)) \<and>
     (best = (- 1, Fin 0) \<or>
      (\<exists>i < n. fst best = int i \<and> int i \<notin> set used \<and> ent i = Some (snd best) \<and> double_less (Fin 0) (snd best)))"

lemma best_loop:
  assumes "for_opt [0..<n] (best_step log2 iter c xs used) (- 1, Fin 0) = Some best"
  shows "best_of (\<lambda>i. evaluateEntropy log2 iter c xs (used @ [int i])) used n best"
  using assms
proof (induction n arbitrary: best)
  case 0
  then show ?case by (simp add: best_of_def)
next
  case (Suc n)
  let ?ent = "\<lambda>i. evaluateEntropy log2 iter c xs (used @ [int i])"
  obtain b where b: "for_opt [0..<n] (best_step log2 iter c xs used) (- 1, Fin 0) = Some b"
    "best_step log2 iter c xs used n b = Some best"
    using Suc.prems by (auto simp: for_opt_append split: bind_splits)
  note ih = Suc.IH [OF b(1)]
  show ?case
  proof (cases "int n \<in> set used")
    case True
    then show ?thesis using ih b(2) by (auto simp: best_of_def best_step_def less_Suc_eq)
  next
    case False
    then obtain e where e: "?ent n = Some e" "best = (if double_less (snd b) e then (int n, e) else b)"
      using b(2) by (auto simp: best_step_def split: bind_splits)
    have pos: "double_less (Fin 0) e" if "double_less (snd b) e"
      using ih that double_less_trans by (auto simp: best_of_def)
    show ?thesis
    proof (cases "double_less (snd b) e")
      case True
      have "\<not> double_less e e" by (cases e) auto
      moreover have "\<not> double_less e e'" if "\<not> double_less (snd b) e'" for e'
        using that True double_less_trans by blast
      ultimately show ?thesis
        using ih e True False pos by (auto simp: best_of_def less_Suc_eq)
    next
      case False
      then show ?thesis using ih e \<open>int n \<notin> set used\<close> by (auto simp: best_of_def less_Suc_eq)
    qed
  qed
qed

lemma chooseBest_cases:
  assumes "chooseBestPositionRenyi log2 iter c maxLen xs used = Inr (pos, e)"
  shows "best_of (\<lambda>i. evaluateEntropy log2 iter c xs (used @ [int i])) used (maxLen div c) (pos, e)"
proof -
  have "for_opt [0..<maxLen div c] (best_step log2 iter c xs used) (- 1, Fin 0) = Some (pos, e)"
    using assms by (auto simp: chooseBestPositionRenyi_def defined_def split: if_splits option.splits)
  then show ?thesis by (rule best_loop)
qed

text \<open>
  C12. A search for the next position that ends normally returns the best one: either no unused position has a
  positive entropy and it returns \<open>-1\<close> and 0, or it returns an unused position within
  the longest key with its entropy, and no other unused position has a greater entropy.
\<close>

theorem chooseBestPositionRenyi_best:
  assumes "chooseBestPositionRenyi log2 iter c maxLen xs used = Inr (pos, e)"
  shows "(\<forall>i < maxLen div c. int i \<notin> set used \<longrightarrow>
      (\<exists>e'. evaluateEntropy log2 iter c xs (used @ [int i]) = Some e' \<and> \<not> double_less e e')) \<and>
    (pos = - 1 \<and> e = Fin 0 \<or>
     0 \<le> pos \<and> pos < int (maxLen div c) \<and> pos \<notin> set used \<and>
     evaluateEntropy log2 iter c xs (used @ [pos]) = Some e \<and> double_less (Fin 0) e)"
  using chooseBest_cases [OF assms] by (auto simp: best_of_def)

text \<open>A chunk at the position after the last whole one is read past the terminating zero.\<close>

lemma formPartialString_overread:
  assumes "0 < c" "length x mod c \<noteq> c - 1" "int (length x div c) \<in> set ps"
  shows "formPartialString c x ps = None"
proof -
  have "length x < c * (length x div c) + (c - 1)"
    using assms(1,2) mult_div_mod_eq [of c "length x"] mod_less_divisor [of c "length x"] by linarith
  then have "chunk_at c x (int (length x div c)) = None"
    using assms(1) by (simp add: chunk_at_def mem_read_def)
  then have "partial_chunks c x ps = None"
    using assms(3) by (induction ps) (auto split: bind_splits)
  then show ?thesis by (simp add: formPartialString_def)
qed

text \<open>
  C35. The estimator reads outside the keys when they differ in length: when some key of the sample has fewer whole
  chunks than the longest one has, the search tries the position just after its last chunk, for which
  the comparison \<open><=\<close> lets it read a whole chunk that is not there. This is undefined unless exactly one byte,
  the terminating zero, is missing.
\<close>

theorem chooseBestPositionRenyi_overread:
  assumes "x \<in> set xs" "0 < c" "length x div c < maxLen div c" "length x mod c \<noteq> c - 1"
    "int (length x div c) \<notin> set used" "length used \<noteq> maxLen"
  shows "chooseBestPositionRenyi log2 iter c maxLen xs used = Inl Undefined"
proof -
  let ?i = "length x div c"
  have "formPartialString c x (used @ [int ?i]) = None"
    using assms(2,4) by (intro formPartialString_overread) simp_all
  then have "tally c xs (used @ [int ?i]) = None"
    unfolding tally_def using assms(1) by (intro for_opt_None [of x]) simp_all
  then have "best_step log2 iter c xs used ?i b = None" for b
    using assms(5) by (simp add: best_step_def evaluateEntropy_def)
  then have "for_opt [0..<maxLen div c] (best_step log2 iter c xs used) (- 1, Fin 0) = None"
    using assms(3) by (intro for_opt_None [of ?i]) simp_all
  then show ?thesis using assms(6) by (simp add: chooseBestPositionRenyi_def)
qed

section \<open>The positions of a run\<close>

lemma greedy_loop_positions:
  assumes "greedy_loop n log2 iter c maxLen xs vs ps es e0 = Inr (ps', es', e)"
  shows "\<exists>new. ps' = ps @ new \<and> length es' = length es + length new \<and> length new \<le> n \<and>
    (\<forall>p \<in> set new. p = - 1 \<or> 0 \<le> p \<and> p < int (maxLen div c)) \<and>
    (distinct ps \<and> - 1 \<notin> set new \<longrightarrow> distinct ps')"
  using assms
proof (induction n arbitrary: ps es e0)
  case (Suc n)
  show ?case
  proof (cases "length ps = maxLen div c")
    case True
    then show ?thesis using Suc.prems by simp
  next
    case False
    obtain pos e1 where ch: "chooseBestPositionRenyi log2 iter c maxLen xs ps = Inr (pos, e1)"
      using Suc.prems False by (cases "chooseBestPositionRenyi log2 iter c maxLen xs ps") auto
    obtain e2 where "greedy_loop n log2 iter c maxLen xs vs (ps @ [pos]) (es @ [e2]) e2 = Inr (ps', es', e)"
      using Suc.prems False ch by (auto simp: bind_result_def Let_def split: sum.splits if_splits)
    from Suc.IH [OF this] chooseBest_cases [OF ch] show ?thesis
      by (auto simp: best_of_def)
  qed
qed simp

text \<open>The index of the quantile lies within the lengths of a nonempty sample.\<close>

lemma getQuantileLength_defined:
  assumes "xs \<noteq> []"
  shows "\<exists>l. getQuantileLength xs (dbl (1 / 10)) = Some l"
proof -
  let ?n = "of_nat (length xs) :: rat"
  have n: "0 < ?n" using assms by simp
  have q: "dbl (1 / 10) \<le> 1 / 5" using dbl_upper [of "1 / 10"] by simp
  have "dbl (dbl (1 / 10) * ?n) \<le> (dbl (1 / 10) * ?n) * 2" proof -
    have "0 \<le> dbl (1 / 10) * ?n" by simp
    then show ?thesis using dbl_upper [of "dbl (1 / 10) * ?n"] by linarith
  qed
  also have "\<dots> \<le> (1 / 5 * ?n) * 2" using q by (intro mult_right_mono) simp_all
  also have "\<dots> < ?n" using n by simp
  finally have "\<lfloor>dbl (dbl (1 / 10) * ?n)\<rfloor> < int (length xs)" by (simp add: floor_less_iff)
  then have "nat \<lfloor>dbl (dbl (1 / 10) * ?n)\<rfloor> < length xs" using assms by (cases xs) auto
  then show ?thesis by (simp add: getQuantileLength_def nth_opt_Some)
qed

lemma greedy_usable:
  assumes "greedyRenyiSelectorStopK log2 iter 8 maxLen xs vs [] [] n = Inr (ps, es, fixed, e)" "- 1 \<notin> set ps" "maxLen < 2 ^ 31"
  shows "usable_locs ps" "length es = length ps"
proof -
  obtain e' where g: "greedy_loop (nat n) log2 iter 8 maxLen xs vs [] [] (Fin 0) = Inr (ps, es, e')"
    using assms(1) by (auto simp: greedyRenyiSelectorStopK_def bind_result_def split: sum.splits if_splits)
  have p: "length es = length ps" "distinct ps" "\<forall>p \<in> set ps. 0 \<le> p \<and> p < int (maxLen div 8)"
    using greedy_loop_positions [OF g] assms(2) by auto
  have "8 * p + 8 < 2 ^ 31" if "p \<in> set ps" for p
  proof -
    have "p + 1 \<le> int (maxLen div 8)" using p(3) that by force
    then have "8 * (p + 1) \<le> 8 * int (maxLen div 8)" by simp
    also have "8 * int (maxLen div 8) \<le> int maxLen" by simp
    finally have "8 * (p + 1) \<le> int maxLen" .
    then show ?thesis using assms(3) by simp
  qed
  then show "usable_locs ps" "length es = length ps" using p by (auto simp: usable_locs_def)
qed


text \<open>
  C32. The estimator that stops at an entropy always returns, with positions or with an error, when it starts with
  no more positions than the longest key has bytes: in each round it takes one position more.
\<close>

theorem entropy_loop_returns:
  assumes "length ps \<le> maxLen"
  shows "\<exists>r. greedyRenyiSelectorStopEntropy log2 iter c maxLen xs ps desired = Some r"
proof -
  have "\<exists>r. entropy_loop log2 iter c maxLen xs desired ps e = Some r" for e
    using assms
  proof (induction "maxLen - length ps" arbitrary: ps e rule: less_induct)
    case less
    show ?case
    proof (cases "double_less e desired \<and> length ps \<noteq> maxLen")
      case True
      then have l: "length ps < maxLen" using less.prems by simp
      show ?thesis
      proof (cases "chooseBestPositionRenyi log2 iter c maxLen xs ps")
        case (Inr r)
        obtain pos e' where "r = (pos, e')" by fastforce
        then show ?thesis using True Inr less.hyps [of "ps @ [pos]" e'] l
          by (subst entropy_loop.simps) simp
      qed (use True in \<open>subst entropy_loop.simps, simp\<close>)
    next
      case False
      then show ?thesis by (subst entropy_loop.simps) (simp only: if_False, blast)
    qed
  qed
  from this [of "Fin 0"] show ?thesis by (auto simp: greedyRenyiSelectorStopEntropy_def)
qed

section \<open>Estimates and hash functions\<close>

text \<open>
  C6. The collisions that the estimator counts are those of the hash function: two keys with the same partial key
  (for the first one to four locations the estimator gave) have the same length, and if they reach the end of the last location,
  the wyhash functor of varying length for these locations gives them the same hash. Shorter keys are hashed as a whole and not covered.
\<close>

theorem estimated_collisions_hash_equal:
  assumes "usable_locs locs" "hash_locations locs (int k) = Some hl" "k \<in> {1, 2, 3, 4}"
    "wyhash_sub8 False (int k) hl = Some f" "length s < 2 ^ 64"
    "formPartialString 8 s (take k locs) = Some p" "formPartialString 8 t (take k locs) = Some p"
    "8 * nat (hl ! (k - 1)) + 8 \<le> length s"
  shows "length t = length s \<and> f s = f t"
proof -
  have k: "0 < k" using assms(3) by auto
  have l: "length t = length s" using formPartialString_eqD(1) [OF assms(6,7)] by simp
  have "words_agree k hl s t" using partial_words_agree [OF assms(1) k assms(2,6,7,8)] .
  then show ?thesis using wyhash_sub8_local [OF assms(1-5), of t] assms(8) l by blast
qed

section \<open>Witnesses\<close>

definition sample_log2 :: "rat \<Rightarrow> rat" where
  "sample_log2 x = x - 1"

definition sample_keys :: "bytes list" where
  "sample_keys = [[1, 1, 1, 1, 1, 1, 1, 1, 5, 5, 5, 5, 5, 5, 5, 5], [1, 1, 1, 1, 1, 1, 1, 1, 6, 6, 6, 6, 6, 6, 6, 6],
     [2, 2, 2, 2, 2, 2, 2, 2, 6, 6, 6, 6, 6, 6, 6, 6]]"

theorem renyi_counts_collisions_witness:
  "card {(i, j). i < length sample_keys \<and> j < length sample_keys \<and> i \<noteq> j \<and>
    formPartialString 8 (sample_keys ! i) [0] = formPartialString 8 (sample_keys ! j) [0]} = 2"
proof -
  obtain m where m: "tally 8 sample_keys [0] = Some m" "(\<Sum>(k, n) \<leftarrow> m. unat (fallingPower (of_int n) 2)) = 2"
  proof -
    have "(case tally 8 sample_keys [0] of None \<Rightarrow> False | Some m \<Rightarrow> (\<Sum>(k, n) \<leftarrow> m. unat (fallingPower (of_int n) 2)) = 2)"
      by code_simp
    then show ?thesis using that by (auto split: option.splits)
  qed
  show ?thesis using renyi_counts_collisions [OF m(1)] m(2) by (simp add: sample_keys_def)
qed

theorem chooseBestPositionRenyi_best_witness:
  "evaluateEntropy sample_log2 id 8 sample_keys [0, 1] = Some PInf"
proof -
  have "chooseBestPositionRenyi sample_log2 id 8 16 sample_keys [0] = Inr (1, PInf)" by code_simp
  from chooseBestPositionRenyi_best [OF this] show ?thesis by simp
qed

theorem chooseBestPositionRenyi_overread_witness:
  "chooseBestPositionRenyi sample_log2 id 8 16 ([1, 2, 3] # sample_keys) [] = Inl Undefined"
  by (rule chooseBestPositionRenyi_overread [where x = "[1, 2, 3]"]) simp_all


theorem entropy_loop_returns_witness:
  "\<exists>r. greedyRenyiSelectorStopEntropy sample_log2 id 8 16 sample_keys [] (Fin 1) = Some r"
  by (rule entropy_loop_returns) simp

theorem estimated_collisions_hash_equal_witness:
  "\<exists>f. wyhash_sub8 False 1 [0] = Some f \<and> f (sample_keys ! 0) = f (sample_keys ! 1)"
proof -
  have c: "usable_locs [0]" "hash_locations [0] (int 1) = Some [0]"
    by (simp_all add: usable_locs_def hash_locations_def)
  obtain f where f: "wyhash_sub8 False (int 1) [0] = Some f"
    using sub8_ok [OF c, of False] by (auto simp: functor_ok_def)
  obtain p where p: "formPartialString 8 (sample_keys ! 0) (take 1 [0]) = Some p" "formPartialString 8 (sample_keys ! 1) (take 1 [0]) = Some p"
  proof -
    have "formPartialString 8 (sample_keys ! 0) (take 1 [0]) \<noteq> None \<and>
        formPartialString 8 (sample_keys ! 0) (take 1 [0]) = formPartialString 8 (sample_keys ! 1) (take 1 [0])"
      by code_simp
    then show ?thesis using that by (metis option.exhaust)
  qed
  show ?thesis using estimated_collisions_hash_equal [OF c _ f _ p] f by (simp add: sample_keys_def)
qed

end
