(* ===== verification/Storage.thy ===== *)
theory Storage
  imports Entropy_Estimator
begin

text \<open>
  The text files of \<open>storage.cpp\<close>: data sets as lines, files of locations, and the files that hold the estimated
  locations and entropies between a run that estimates and the runs that benchmark. Files are byte lists by name; a write
  always succeeds, and a file that is missing reads as empty. Printing a
  \<open>double\<close> with the default precision and \<open>std::stod\<close> are parameters. The theorems show that what is written is read back, with the
  entropies as their printed form says, and what the reader does with files that it did not write.
\<close>

type_synonym file_system = "string \<rightharpoonup> bytes"

section \<open>Lines\<close>

abbreviation newline :: u8 where
  "newline \<equiv> 10"

abbreviation comma :: u8 where
  "comma \<equiv> 44"

text \<open>\<open>getline\<close> until the end of the file: a last line without its newline is read, too.\<close>

function lines_of :: "bytes \<Rightarrow> bytes list" where
  "lines_of s =
     (if s = [] then []
      else takeWhile (\<lambda>c. c \<noteq> newline) s # lines_of (tl (dropWhile (\<lambda>c. c \<noteq> newline) s)))"
  by pat_completeness auto
termination
proof (relation "measure length")
  fix s :: bytes assume "s \<noteq> []"
  moreover have "length (tl (dropWhile (\<lambda>c. c \<noteq> newline) s)) \<le> length s - 1"
    using length_dropWhile_le [of "\<lambda>c. c \<noteq> newline" s] by simp
  ultimately show "(tl (dropWhile (\<lambda>c. c \<noteq> newline) s), s) \<in> measure length" by (cases s) auto
qed simp

declare lines_of.simps [simp del]

definition max_lines :: nat where
  "max_lines = 210000000"

definition read_lines :: "file_system \<Rightarrow> string \<Rightarrow> bytes list" where
  "read_lines fs filename = (case fs filename of None \<Rightarrow> [] | Some s \<Rightarrow> take max_lines (lines_of s))"

section \<open>Numbers and truth values as text\<close>

definition isspace :: "u8 \<Rightarrow> bool" where
  "isspace c \<longleftrightarrow> c = 32 \<or> 9 \<le> c \<and> c \<le> 13"

definition isdigit :: "u8 \<Rightarrow> bool" where
  "isdigit c \<longleftrightarrow> 48 \<le> c \<and> c \<le> 57"

text \<open>
  \<open>::tolower\<close> applied to a \<open>char\<close>: on x86 the type is signed, and the function is undefined for negative values other than
  \<open>EOF\<close>, which is \<open>-1\<close>.
\<close>

definition tolower :: "u8 \<Rightarrow> u8 option" where
  "tolower c =
     (if 128 \<le> c \<and> c < 255 then None
      else Some (if 65 \<le> c \<and> c \<le> 90 then c + 32 else c))"

text \<open>\<open>outfile << i\<close> for an \<open>int\<close>.\<close>

definition show_int :: "int \<Rightarrow> bytes" where
  "show_int i = (if i < 0 then 45 # to_string (nat (- i)) else to_string (nat i))"

text \<open>
  \<open>std::stoi\<close>: spaces, a sign, digits, and anything after them. Without a digit or outside the range of \<open>int\<close> it throws an exception,
  which nothing catches.
\<close>

definition stoi :: "bytes \<Rightarrow> bench_error + int" where
  "stoi str =
     (let s = dropWhile isspace str;
          negative = (s \<noteq> [] \<and> hd s = 45);
          s = (if s \<noteq> [] \<and> (hd s = 45 \<or> hd s = 43) then tl s else s);
          digits = takeWhile isdigit s;
          v = (if negative then - int (of_digits digits) else int (of_digits digits))
      in if digits = [] \<or> \<not> (- (2 ^ 31) \<le> v \<and> v < 2 ^ 31) then Inl Uncaught else Inr v)"

definition true_name :: bytes where
  "true_name = [116, 114, 117, 101]"

definition false_name :: bytes where
  "false_name = [102, 97, 108, 115, 101]"

text \<open>
  \<open>is >> std::boolalpha >> b\<close> skips spaces and matches a name; a text that does not start with one gives \<open>false\<close>. When
  there is nothing but spaces \<open>b\<close> is left uninitialised and its value is used.
\<close>

definition to_bool :: "bytes \<Rightarrow> bench_error + bool" where
  "to_bool str =
     bind_result (defined (those (map tolower str))) (\<lambda>str.
       let s = dropWhile isspace str
       in if s = [] then Inl Undefined else Inr (take 4 s = true_name))"

section \<open>Files of locations and entropies\<close>

fun read_ints :: "bytes list \<Rightarrow> bench_error + int list" where
  "read_ints [] = Inr []"
| "read_ints (l # ls) = bind_result (stoi l) (\<lambda>i. bind_result (read_ints ls) (\<lambda>is. Inr (i # is)))"

definition read_locations :: "file_system \<Rightarrow> string \<Rightarrow> bench_error + int list" where
  "read_locations fs locations_file = read_ints (read_lines fs locations_file)"

text \<open>
  \<open>std::getline(line_stream, segment, ',')\<close>: the stream is the rest of the line, or \<open>None\<close> once its end has been reached; then
  \<open>segment\<close> keeps its value.
\<close>

definition next_segment :: "bytes option \<Rightarrow> bytes \<Rightarrow> bytes \<times> bytes option" where
  "next_segment line_stream segment =
     (case line_stream of
        None \<Rightarrow> (segment, None)
      | Some s \<Rightarrow> (takeWhile (\<lambda>c. c \<noteq> comma) s,
          if comma \<in> set s then Some (tl (dropWhile (\<lambda>c. c \<noteq> comma) s)) else None))"

fun read_pairs :: "(bytes \<Rightarrow> double option) \<Rightarrow> bytes list \<Rightarrow> int list \<times> double list \<Rightarrow> bench_error + int list \<times> double list" where
  "read_pairs stod [] (locations, entropies) = Inr (locations, entropies)"
| "read_pairs stod (l # ls) (locations, entropies) =
     (let (segment, line_stream) = next_segment (Some l) [] in
      bind_result (stoi segment) (\<lambda>i.
      let (segment, line_stream) = next_segment line_stream segment in
      case stod segment of
        None \<Rightarrow> Inl Uncaught
      | Some d \<Rightarrow> read_pairs stod ls (locations @ [i], entropies @ [d])))"

definition read_entropies :: "(bytes \<Rightarrow> double option) \<Rightarrow> file_system \<Rightarrow> string \<Rightarrow> bench_error + int list \<times> double list \<times> bool" where
  "read_entropies stod fs entropies_file =
     (case read_lines fs entropies_file of
        [] \<Rightarrow> Inl Undefined
      | l # ls \<Rightarrow>
          bind_result (to_bool l) (\<lambda>fixedLengthData.
          bind_result (read_pairs stod ls ([], [])) (\<lambda>(locations, entropies).
          Inr (locations, entropies, fixedLengthData))))"

definition write_locations :: "int list \<Rightarrow> string \<Rightarrow> file_system \<Rightarrow> file_system" where
  "write_locations locs locations_file fs = fs(locations_file \<mapsto> concat (map (\<lambda>l. show_int l @ [newline]) locs))"

definition write_entropies :: "(double \<Rightarrow> bytes) \<Rightarrow> double list \<Rightarrow> int list \<Rightarrow> bool \<Rightarrow> string \<Rightarrow> file_system \<Rightarrow> bench_error + file_system" where
  "write_entropies show_double entropies locs fixed entropies_file fs =
     (if length locs \<noteq> length entropies then Inl Assertion_failed
      else Inr (fs(entropies_file \<mapsto>
        (if fixed then true_name else false_name) @ [newline] @
        concat (map (\<lambda>(l, e). show_int l @ [comma, 32] @ show_double e @ [newline]) (zip locs entropies)))))"

text \<open>A result is appended to its file, which is created when it is missing.\<close>

definition add_to_file :: "(double \<Rightarrow> bytes) \<Rightarrow> string \<Rightarrow> double \<Rightarrow> file_system \<Rightarrow> file_system" where
  "add_to_file show_double fname val fs =
     fs(fname \<mapsto> (case fs fname of None \<Rightarrow> [] | Some s \<Rightarrow> s) @ show_double val @ [newline])"

section \<open>The files of the estimator's program\<close>

text \<open>
  \<open>entropyEstimatorMain.cpp\<close> has its own readers, without the bound on the lines, and with a bound on the locations, which are sorted.
\<close>

definition em_read_lines :: "file_system \<Rightarrow> string \<Rightarrow> bytes list" where
  "em_read_lines fs filename = (case fs filename of None \<Rightarrow> [] | Some s \<Rightarrow> lines_of s)"

definition em_read_locations :: "int \<Rightarrow> file_system \<Rightarrow> string \<Rightarrow> bench_error + int list" where
  "em_read_locations nlocs fs locations_file =
     bind_result (read_ints (take (nat nlocs) (em_read_lines fs locations_file))) (\<lambda>locations. Inr (sort locations))"

definition write_dataset :: "string \<Rightarrow> bytes list \<Rightarrow> file_system \<Rightarrow> file_system" where
  "write_dataset filename inputVec fs = fs(filename \<mapsto> concat (map (\<lambda>x. x @ [newline]) inputVec))"

section \<open>Lines and segments of what is written\<close>

lemma lines_of_Nil [simp]: "lines_of [] = []"
  by (simp add: lines_of.simps)

text \<open>A text up to the first occurrence of a separator.\<close>

lemma split_at: "c \<notin> set l \<Longrightarrow> takeWhile (\<lambda>x. x \<noteq> c) (l @ c # s) = l \<and> dropWhile (\<lambda>x. x \<noteq> c) (l @ c # s) = c # s"
  by (induction l) auto

lemma lines_of_line: "newline \<notin> set l \<Longrightarrow> lines_of (l @ newline # s) = l # lines_of s"
  using split_at [of newline l s] by (subst lines_of.simps) simp

lemma lines_of_lines:
  "\<forall>l \<in> set ls. newline \<notin> set l \<Longrightarrow> lines_of (concat (map (\<lambda>l. l @ [newline]) ls)) = ls"
  by (induction ls) (simp_all add: lines_of_line)

lemma next_segment_first: "comma \<notin> set l \<Longrightarrow> next_segment (Some (l @ comma # s)) seg = (l, Some s)"
  using split_at [of comma l s] by (simp add: next_segment_def)

lemma next_segment_last: "comma \<notin> set l \<Longrightarrow> next_segment (Some l) seg = (l, None)"
  by (auto simp: next_segment_def takeWhile_eq_all_conv)

lemma write_dataset_read:
  "\<forall>x \<in> set xs. newline \<notin> set x \<Longrightarrow> em_read_lines (write_dataset filename xs fs) filename = xs"
  by (simp add: em_read_lines_def write_dataset_def lines_of_lines)

text \<open>Digits.\<close>

lemma to_string_digits: "\<forall>c \<in> set (to_string n). isdigit c"
proof (induction n rule: to_string.induct)
  case (1 n)
  have d: "isdigit (of_nat (48 + k))" if "k < 10" for k :: nat
  proof -
    have "unat (of_nat (48 + k) :: u8) = 48 + k" using that by (intro unat_of_nat_small) simp
    then show ?thesis using that by (simp add: isdigit_def word_le_nat_alt)
  qed
  then show ?case using 1 by (subst to_string.simps) auto
qed

lemma to_string_not_Nil: "to_string n \<noteq> []"
  by (subst to_string.simps) simp

lemma isdigit_others: "isdigit c \<Longrightarrow> c \<noteq> 45 \<and> c \<noteq> 43 \<and> c \<noteq> newline \<and> c \<noteq> comma \<and> \<not> isspace c"
  by (auto simp: isdigit_def isspace_def word_le_nat_alt)

lemma stoi_show_int:
  assumes "- (2 ^ 31) \<le> i" "i < 2 ^ 31"
  shows "stoi (show_int i) = Inr i"
proof -
  have t: "takeWhile isdigit (to_string n) = to_string n" for n
    using to_string_digits by (simp add: takeWhile_eq_all_conv)
  have h: "dropWhile isspace (to_string n) = to_string n" "hd (to_string n) \<noteq> 45" "hd (to_string n) \<noteq> 43" for n
    using isdigit_others [of "hd (to_string n)"] to_string_digits [of n] to_string_not_Nil [of n]
    by (cases "to_string n"; simp)+
  show ?thesis
  proof (cases "i < 0")
    case True
    have "\<not> isspace 45" by (simp add: isspace_def)
    then show ?thesis using True assms by (simp add: stoi_def show_int_def t to_string_not_Nil of_digits_to_string Let_def)
  next
    case False
    then show ?thesis using assms by (simp add: stoi_def show_int_def t h to_string_not_Nil of_digits_to_string Let_def)
  qed
qed

lemma show_int_chars: "newline \<notin> set (show_int i)" "comma \<notin> set (show_int i)"
  using to_string_digits isdigit_others by (auto simp: show_int_def)

lemma read_ints_show: "\<forall>i \<in> set is. - (2 ^ 31) \<le> i \<and> i < 2 ^ 31 \<Longrightarrow> read_ints (map show_int is) = Inr is"
  by (induction "is") (simp_all add: stoi_show_int)

text \<open>What the reader needs of the printed form of an entropy, which follows the comma and a space.\<close>

definition printable :: "(double \<Rightarrow> bytes) \<Rightarrow> (bytes \<Rightarrow> double option) \<Rightarrow> (double \<Rightarrow> double) \<Rightarrow> double \<Rightarrow> bool" where
  "printable show_double stod reread d \<longleftrightarrow>
     newline \<notin> set (show_double d) \<and> comma \<notin> set (show_double d) \<and> stod (32 # show_double d) = Some (reread d)"

lemma read_pairs_show:
  assumes "\<forall>l \<in> set locs. - (2 ^ 31) \<le> l \<and> l < 2 ^ 31" "\<forall>d \<in> set es. printable show_double stod reread d" "length locs = length es"
  shows "read_pairs stod (map (\<lambda>(l, e). show_int l @ [comma, 32] @ show_double e) (zip locs es)) (ls, ds) =
    Inr (ls @ locs, ds @ map reread es)"
  using assms(3,1,2)
proof (induction locs es arbitrary: ls ds rule: list_induct2)
  case (Cons l locs e es)
  have "comma \<notin> set (32 # show_double e)" using Cons.prems by (simp add: printable_def)
  then have "next_segment (Some (32 # show_double e)) seg = (32 # show_double e, None)" for seg by (rule next_segment_last)
  then show ?case
    using Cons next_segment_first [OF show_int_chars(2), of l "32 # show_double e"]
    by (simp add: stoi_show_int printable_def)
qed simp

lemma to_bool_names: "to_bool true_name = Inr True" "to_bool false_name = Inr False"
  by code_simp+

lemma entropies_read_back:
  assumes "\<forall>l \<in> set locs. - (2 ^ 31) \<le> l \<and> l < 2 ^ 31" "\<forall>d \<in> set es. printable show_double stod reread d"
    "length locs = length es" "length locs < max_lines"
  shows "\<exists>fs'. write_entropies show_double es locs fixed name fs = Inr fs' \<and>
      read_entropies stod fs' name = Inr (locs, map reread es, fixed) \<and> (\<forall>other. other \<noteq> name \<longrightarrow> fs' other = fs other)"
    and "read_locations (write_locations locs name fs) name = Inr locs"
proof -
  let ?pairs = "map (\<lambda>(l, e). show_int l @ [comma, 32] @ show_double e) (zip locs es)"
  let ?lines = "(if fixed then true_name else false_name) # ?pairs"
  let ?text = "(if fixed then true_name else false_name) @ [newline] @
        concat (map (\<lambda>(l, e). show_int l @ [comma, 32] @ show_double e @ [newline]) (zip locs es))"
  have nl: "\<forall>l \<in> set ?lines. newline \<notin> set l"
    using assms(2) show_int_chars(1) by (auto simp: printable_def true_name_def false_name_def dest!: set_zip_rightD)
  have "?text = concat (map (\<lambda>l. l @ [newline]) ?lines)"
    by (simp add: comp_def case_prod_unfold)
  then have "lines_of ?text = ?lines" using lines_of_lines [OF nl] by simp
  moreover have "length ?lines \<le> max_lines" using assms(3,4) by simp
  ultimately have rl: "read_lines (fs(name \<mapsto> ?text)) name = ?lines" by (simp add: read_lines_def del: list.simps)
  have "read_entropies stod (fs(name \<mapsto> ?text)) name = Inr (locs, map reread es, fixed)"
    unfolding read_entropies_def rl using read_pairs_show [OF assms(1-3), of "[]" "[]"] by (simp add: to_bool_names)
  then show "\<exists>fs'. write_entropies show_double es locs fixed name fs = Inr fs' \<and>
      read_entropies stod fs' name = Inr (locs, map reread es, fixed) \<and> (\<forall>other. other \<noteq> name \<longrightarrow> fs' other = fs other)"
    using assms(3) by (simp add: write_entropies_def)
  have "lines_of (concat (map (\<lambda>l. l @ [newline]) (map show_int locs))) = map show_int locs"
    using show_int_chars(1) by (intro lines_of_lines) auto
  then show "read_locations (write_locations locs name fs) name = Inr locs"
    using assms(1,4) by (simp add: read_locations_def read_lines_def write_locations_def comp_def read_ints_show)
qed

text \<open>Whatever the file holds, what is read are numbers of type \<open>int\<close>, and as many entropies.\<close>

lemma bind_result_Inr: "bind_result m f = Inr y \<longleftrightarrow> (\<exists>x. m = Inr x \<and> f x = Inr y)"
  by (cases m) simp_all

lemma defined_Inr: "defined m = Inr x \<longleftrightarrow> m = Some x"
  by (cases m) simp_all

lemma let_elim: "Let a f = r \<Longrightarrow> (\<And>x. f x = r \<Longrightarrow> Q) \<Longrightarrow> Q"
  by simp

lemma stoi_range: "stoi s = Inr i \<Longrightarrow> - (2 ^ 31) \<le> i \<and> i < 2 ^ 31"
  unfolding stoi_def by (elim let_elim) (simp split: if_splits)

lemma read_pairs_typed:
  assumes "read_pairs stod lines (ls, es) = Inr (ls', es')" "length es = length ls" "\<forall>l \<in> set ls. - (2 ^ 31) \<le> l \<and> l < 2 ^ 31"
  shows "length es' = length ls' \<and> (\<forall>l \<in> set ls'. - (2 ^ 31) \<le> l \<and> l < 2 ^ 31)"
  using assms
proof (induction lines arbitrary: ls es)
  case (Cons l lines)
  obtain i d where i: "stoi (fst (next_segment (Some l) [])) = Inr i"
      "read_pairs stod lines (ls @ [i], es @ [d]) = Inr (ls', es')"
    using Cons.prems(1) unfolding read_pairs.simps Let_def case_prod_unfold bind_result_Inr
    by (elim exE conjE) (simp split: option.splits)
  have "\<forall>l \<in> set (ls @ [i]). - (2 ^ 31) \<le> l \<and> l < 2 ^ 31" using Cons.prems(3) stoi_range [OF i(1)] by fastforce
  then show ?case using Cons.prems(2) by (intro Cons.IH [OF i(2)]) simp_all
qed simp

lemma read_entropies_typed:
  assumes "read_entropies stod fs name = Inr (ls, es, fixed)"
  shows "length es = length ls \<and> (\<forall>l \<in> set ls. - (2 ^ 31) \<le> l \<and> l < 2 ^ 31)"
  using assms read_pairs_typed [of stod _ "[]" "[]" ls es]
  by (auto simp: read_entropies_def bind_result_Inr split: list.splits)

section \<open>Properties\<close>

text \<open>
  C25. What the estimating run writes is what the benchmarking runs read: for locations in the range of \<open>int\<close>, as many entropies,
  and a printed form of each entropy that \<open>std::stod\<close> reads as some value \<open>reread\<close> (the default precision keeps six digits), the file
  written by \<open>write_entropies\<close> is read by \<open>read_entropies\<close> without an exception, and gives the same locations in the same order, the
  reread entropies and the flag; other files are not touched. A file of locations alone is read back, too.
\<close>

theorem entropies_roundtrip:
  assumes "\<forall>l \<in> set locs. - (2 ^ 31) \<le> l \<and> l < 2 ^ 31" "\<forall>d \<in> set es. printable show_double stod reread d"
    "length locs = length es" "length locs < max_lines"
  shows "(\<exists>fs'. write_entropies show_double es locs fixed name fs = Inr fs' \<and>
      read_entropies stod fs' name = Inr (locs, map reread es, fixed) \<and> (\<forall>other. other \<noteq> name \<longrightarrow> fs' other = fs other)) \<and>
    read_locations (write_locations locs name fs) name = Inr locs"
  using entropies_read_back [OF assms] by blast

definition sample_show :: "double \<Rightarrow> bytes" where
  "sample_show d = (case d of Fin q \<Rightarrow> to_string (nat \<lfloor>q\<rfloor>) | _ \<Rightarrow> [105, 110, 102])"

definition sample_stod :: "bytes \<Rightarrow> double option" where
  "sample_stod s = (case stoi s of Inl e \<Rightarrow> Some PInf | Inr i \<Rightarrow> Some (Fin (of_int i)))"

theorem entropies_roundtrip_witness:
  "\<exists>fs. write_entropies sample_show [Fin 12, PInf] [3, 0] True ''loc8.txt'' Map.empty = Inr fs \<and>
    read_entropies sample_stod fs ''loc8.txt'' = Inr ([3, 0], [Fin 12, PInf], True)"
proof -
  have "\<forall>d \<in> set [Fin 12, PInf]. printable sample_show sample_stod id d" by code_simp
  from entropies_roundtrip [OF _ this, of "[3, 0]" True "''loc8.txt''" Map.empty] show ?thesis by (auto simp: max_lines_def)
qed

text \<open>When the first line cannot be lowered, and when nothing but spaces remains.\<close>

lemma tolower_None: "tolower c = None \<longleftrightarrow> 128 \<le> c \<and> c < 255"
  by (simp add: tolower_def)

lemma isspace_tolower: "tolower c = Some d \<Longrightarrow> isspace d \<longleftrightarrow> isspace c"
proof (cases "65 \<le> c \<and> c \<le> 90")
  case True
  then have u: "65 \<le> unat c" "unat c \<le> 90" by (simp_all add: word_le_nat_alt)
  then have "unat (c + 32) = unat c + 32" by (simp add: unat_word_ariths)
  then show "tolower c = Some d \<Longrightarrow> isspace d \<longleftrightarrow> isspace c"
    using u by (auto simp: isspace_def tolower_def word_le_nat_alt word_unat_eq_iff split: if_splits)
qed (auto simp: tolower_def split: if_splits)

lemma those_None: "those (map f l) = None \<longleftrightarrow> (\<exists>c \<in> set l. f c = None)"
  by (induction l) (simp_all split: option.split)

lemma those_Some: "those (map f l) = Some l' \<Longrightarrow> list_all2 (\<lambda>c d. f c = Some d) l l'"
  by (induction l arbitrary: l') (auto split: option.splits)

lemma to_bool_undefined:
  "to_bool l = Inl Undefined \<longleftrightarrow> (\<forall>c \<in> set l. isspace c) \<or> (\<exists>c \<in> set l. 128 \<le> c \<and> c < 255)"
proof (cases "those (map tolower l)")
  case None
  then have "\<exists>c \<in> set l. 128 \<le> c \<and> c < 255" by (simp only: those_None tolower_None)
  then show ?thesis by (simp add: to_bool_def None)
next
  case (Some l')
  have "\<not> (\<exists>c \<in> set l. 128 \<le> c \<and> c < 255)"
    using Some those_None [of tolower l] by (simp only: tolower_None) simp
  moreover have "list_all2 (\<lambda>c d. isspace d \<longleftrightarrow> isspace c) l l'"
    using those_Some [OF Some] isspace_tolower by (rule list_all2_mono)
  then have "(\<forall>c \<in> set l'. isspace c) \<longleftrightarrow> (\<forall>c \<in> set l. isspace c)" by induction simp_all
  ultimately show ?thesis by (simp add: to_bool_def Some Let_def dropWhile_eq_Nil_conv)
qed

lemma read_pairs_not_undefined: "read_pairs stod ls x \<noteq> Inl Undefined"
proof (induction stod ls x rule: read_pairs.induct)
  case (2 stod l ls locations entropies)
  have "stoi s \<noteq> Inl Undefined" for s by (simp add: stoi_def Let_def)
  then show ?case using 2 by (auto simp: bind_result_def Let_def split: sum.splits prod.splits option.splits)
qed simp

text \<open>
  C38. When the reader of estimated locations is undefined: exactly when the file is missing or empty, or its first line is blank or has a
  byte from 128 to 254. Then the first line is taken from
  an empty vector, the flag stays uninitialised, or \<open>::tolower\<close> is called outside its domain. Every other text that is not of the written form
  gives an exception or, where a line has no comma, takes the location for its entropy.
\<close>

theorem read_entropies_undefined_iff:
  "read_entropies stod fs name = Inl Undefined \<longleftrightarrow>
    (\<forall>l ls. read_lines fs name = l # ls \<longrightarrow> (\<forall>c \<in> set l. isspace c) \<or> (\<exists>c \<in> set l. 128 \<le> c \<and> c < 255))"
proof (cases "read_lines fs name")
  case (Cons l ls)
  have "read_entropies stod fs name = Inl Undefined \<longleftrightarrow> to_bool l = Inl Undefined"
    using Cons read_pairs_not_undefined [of stod ls "([], [])"]
    by (cases "to_bool l"; cases "read_pairs stod ls ([], [])") (simp_all add: read_entropies_def split: prod.splits)
  then show ?thesis using Cons to_bool_undefined [of l] by simp
qed (simp add: read_entropies_def)

theorem read_entropies_undefined_iff_witness:
  "read_entropies sample_stod Map.empty ''loc8.txt'' = Inl Undefined \<and>
   read_entropies sample_stod [''loc8.txt'' \<mapsto> [195, 169]] ''loc8.txt'' = Inl Undefined"
proof -
  have "lines_of [195, 169] = [[195, 169]]" by code_simp
  then have "read_lines [''loc8.txt'' \<mapsto> [195, 169]] ''loc8.txt'' = [[195, 169]]" by (simp add: read_lines_def max_lines_def)
  then show ?thesis by (simp add: read_entropies_undefined_iff read_lines_def)
qed

end
