(* ===== verification/Workload.thy ===== *)
theory Workload
  imports Bench_Common "HOL-Library.Multiset"
begin

text \<open>
  The data sets and probes of the benchmarks: splitting the data (\<open>storage.cpp\<close>), generating probes
  (\<open>workload_generator.cpp\<close>) and the helpers of the estimator's program (\<open>entropyEstimatorMain.cpp\<close>, \<open>benchmarker.cpp\<close>). The
  random number generator is a parameter: \<open>draw r lo hi\<close> is a draw from \<open>uniform_int_distribution(lo, hi)\<close> and
  \<open>shuffle\<close> is \<open>std::shuffle\<close>, each with the generator they leave. The theorem shows that the generated probes are what the
  filter benchmark assumes.
\<close>

section \<open>Splitting the data\<close>

text \<open>\<open>static_cast<unsigned>(fraction * (float) n)\<close>, undefined when the product does not fit.\<close>

definition fraction_of :: "rat \<Rightarrow> nat \<Rightarrow> nat option" where
  "fraction_of fraction n =
     (let x = sflt (fraction * flt (of_nat n)) in if - 1 < x \<and> x < 2 ^ 32 then Some (nat \<lfloor>x\<rfloor>) else None)"

text \<open>The loop that copies the first \<open>nitems\<close> keys into one vector and the others into a second one.\<close>

fun split_loop :: "'a list \<Rightarrow> nat \<Rightarrow> nat \<Rightarrow> 'a list \<times> 'a list \<Rightarrow> 'a list \<times> 'a list" where
  "split_loop [] i nitems (chosen, remaining) = (chosen, remaining)"
| "split_loop (x # xs) i nitems (chosen, remaining) =
     split_loop xs (i + 1) nitems (if i < nitems then (chosen @ [x], remaining) else (chosen, remaining @ [x]))"

definition get_subset_static :: "bytes list \<Rightarrow> rat \<Rightarrow> bench_error + bytes list \<times> bytes list" where
  "get_subset_static data fraction =
     (if \<not> (0 \<le> fraction \<and> fraction \<le> 1) then Inl Assertion_failed
      else bind_result (defined (fraction_of fraction (length data))) (\<lambda>nitems.
        Inr (split_loop data 0 nitems ([], []))))"

text \<open>The data itself is shuffled, too.\<close>

definition get_subset :: "('r \<Rightarrow> bytes list \<Rightarrow> bytes list \<times> 'r) \<Rightarrow> 'r \<Rightarrow> bytes list \<Rightarrow> rat \<Rightarrow>
    bench_error + (bytes list \<times> bytes list) \<times> bytes list \<times> 'r" where
  "get_subset shuffle rng data fraction =
     (if \<not> (0 \<le> fraction \<and> fraction \<le> 1) then Inl Assertion_failed
      else bind_result (defined (fraction_of fraction (length data))) (\<lambda>nitems.
        let (data, rng) = shuffle rng data
        in Inr (split_loop data 0 nitems ([], []), data, rng)))"

text \<open>Sorted random locations.\<close>

primrec draw_many :: "('r \<Rightarrow> nat \<Rightarrow> nat \<Rightarrow> nat \<times> 'r) \<Rightarrow> nat \<Rightarrow> nat \<Rightarrow> nat \<Rightarrow> 'r \<Rightarrow> nat list \<times> 'r" where
  "draw_many draw lo hi 0 rng = ([], rng)"
| "draw_many draw lo hi (Suc n) rng =
     (let (v, rng) = draw rng lo hi; (vs, rng) = draw_many draw lo hi n rng in (v # vs, rng))"

definition random_locations :: "('r \<Rightarrow> nat \<Rightarrow> nat \<Rightarrow> nat \<times> 'r) \<Rightarrow> nat \<Rightarrow> nat \<Rightarrow> 'r \<Rightarrow> nat list \<times> 'r" where
  "random_locations draw nlocs mx rng =
     (let (ls, rng) = draw_many draw 0 (mx - 1) nlocs rng in (sort ls, rng))"

section \<open>Probes\<close>

text \<open>
  The static generators take the keys in turn, \<open>keys[i % size]\<close>; a remainder by 0 is undefined.
\<close>

definition probes_static :: "bytes list \<Rightarrow> nat \<Rightarrow> bytes list \<Rightarrow> bytes list option" where
  "probes_static keys nprobes probe_array =
     for_opt [0..<nprobes] (\<lambda>i ps. if keys = [] then None
       else nth_opt keys (i mod length keys) \<bind> (\<lambda>k. Some (ps @ [k]))) probe_array"

definition generate_successful_probes_static :: "bytes list \<Rightarrow> nat \<Rightarrow> bytes list \<Rightarrow> bytes list option" where
  "generate_successful_probes_static inserted_keys nprobes probe_array = probes_static inserted_keys nprobes probe_array"

definition generate_unsuccessful_probes_static :: "bytes list \<Rightarrow> nat \<Rightarrow> bytes list \<Rightarrow> bytes list option" where
  "generate_unsuccessful_probes_static uninserted_keys nprobes probe_array = probes_static uninserted_keys nprobes probe_array"

definition generate_probes_with_unselected_keys_as_false_static ::
    "bytes list \<Rightarrow> bytes list \<Rightarrow> rat \<Rightarrow> nat \<Rightarrow> (bytes list \<times> nat) option" where
  "generate_probes_with_unselected_keys_as_false_static inserted uninserted fraction_successful nprobes = do {
     successful \<leftarrow> fraction_of fraction_successful nprobes;
     let unsuccessful = unat (of_nat nprobes - of_nat successful :: u32);
     probes \<leftarrow> generate_successful_probes_static inserted successful [];
     probes \<leftarrow> generate_unsuccessful_probes_static uninserted unsuccessful probes;
     Some (probes, unsuccessful)
   }"

text \<open>
  The random generators draw an index from 0 to the size minus 1, as 32-bit numbers (without keys, from all of
  them), and convert it to \<open>int\<close>.
\<close>

primrec random_probes :: "('r \<Rightarrow> nat \<Rightarrow> nat \<Rightarrow> nat \<times> 'r) \<Rightarrow> bytes list \<Rightarrow> nat \<Rightarrow> 'r \<Rightarrow> bytes list \<Rightarrow> (bytes list \<times> 'r) option" where
  "random_probes draw keys 0 rng ps = Some (ps, rng)"
| "random_probes draw keys (Suc n) rng ps =
     (let (v, rng) = draw rng 0 (unat (of_nat (length keys) - 1 :: u32)); idx = c_int (int v)
      in if idx < 0 then None
         else nth_opt keys (nat idx) \<bind> (\<lambda>k. random_probes draw keys n rng (ps @ [k])))"

definition generate_successful_probes ::
    "('r \<Rightarrow> nat \<Rightarrow> nat \<Rightarrow> nat \<times> 'r) \<Rightarrow> 'r \<Rightarrow> bytes list \<Rightarrow> nat \<Rightarrow> bytes list \<Rightarrow> (bytes list \<times> 'r) option" where
  "generate_successful_probes draw rng inserted_keys nprobes probe_array = random_probes draw inserted_keys nprobes rng probe_array"

definition generate_unsuccessful_probes ::
    "('r \<Rightarrow> nat \<Rightarrow> nat \<Rightarrow> nat \<times> 'r) \<Rightarrow> 'r \<Rightarrow> bytes list \<Rightarrow> nat \<Rightarrow> bytes list \<Rightarrow> (bytes list \<times> 'r) option" where
  "generate_unsuccessful_probes draw rng uninserted_keys nprobes probe_array = random_probes draw uninserted_keys nprobes rng probe_array"

definition generate_probes_with_unselected_keys_as_false ::
    "('r \<Rightarrow> nat \<Rightarrow> nat \<Rightarrow> nat \<times> 'r) \<Rightarrow> ('r \<Rightarrow> bytes list \<Rightarrow> bytes list \<times> 'r) \<Rightarrow> 'r \<Rightarrow> bytes list \<Rightarrow> bytes list \<Rightarrow> rat \<Rightarrow> nat \<Rightarrow>
     ((bytes list \<times> nat) \<times> 'r) option" where
  "generate_probes_with_unselected_keys_as_false draw shuffle rng inserted uninserted fraction_successful nprobes = do {
     successful \<leftarrow> fraction_of fraction_successful nprobes;
     let unsuccessful = unat (of_nat nprobes - of_nat successful :: u32);
     (probes, rng) \<leftarrow> generate_successful_probes draw rng inserted successful [];
     (probes, rng) \<leftarrow> generate_unsuccessful_probes draw rng uninserted unsuccessful probes;
     let (probes, rng) = shuffle rng probes;
     Some ((probes, unsuccessful), rng)
   }"

text \<open>Random strings of characters from 1 to 255; the C string made of them has no zero inside.\<close>

primrec random_strings :: "('r \<Rightarrow> nat \<Rightarrow> nat \<Rightarrow> nat \<times> 'r) \<Rightarrow> nat \<Rightarrow> nat \<Rightarrow> 'r \<Rightarrow> bytes list \<Rightarrow> bytes list \<times> 'r" where
  "random_strings draw str_size 0 rng ks = (ks, rng)"
| "random_strings draw str_size (Suc n) rng ks =
     (let (cs, rng) = draw_many draw 1 255 str_size rng;
          s = takeWhile (\<lambda>b. b \<noteq> 0) (map of_nat cs)
      in random_strings draw str_size n rng (ks @ [s]))"

definition uniform_random_strings :: "('r \<Rightarrow> nat \<Rightarrow> nat \<Rightarrow> nat \<times> 'r) \<Rightarrow> 'r \<Rightarrow> nat \<Rightarrow> nat \<Rightarrow> bytes list \<times> 'r" where
  "uniform_random_strings draw rng num_strings str_size = random_strings draw str_size num_strings rng []"

definition generate_random_unsuccessful_probes ::
    "('r \<Rightarrow> nat \<Rightarrow> nat \<Rightarrow> nat \<times> 'r) \<Rightarrow> 'r \<Rightarrow> nat \<Rightarrow> nat \<Rightarrow> bytes list \<Rightarrow> bytes list \<times> 'r" where
  "generate_random_unsuccessful_probes draw rng str_size nprobes probe_array = random_strings draw str_size nprobes rng probe_array"

definition generate_probes_with_random_false ::
    "('r \<Rightarrow> nat \<Rightarrow> nat \<Rightarrow> nat \<times> 'r) \<Rightarrow> ('r \<Rightarrow> bytes list \<Rightarrow> bytes list \<times> 'r) \<Rightarrow> 'r \<Rightarrow> bytes list \<Rightarrow> rat \<Rightarrow> nat \<Rightarrow> nat \<Rightarrow>
     ((bytes list \<times> nat) \<times> 'r) option" where
  "generate_probes_with_random_false draw shuffle rng keys fraction_successful nprobes str_size = do {
     successful \<leftarrow> fraction_of fraction_successful nprobes;
     let unsuccessful = unat (of_nat nprobes - of_nat successful :: u32);
     (probes, rng) \<leftarrow> generate_successful_probes draw rng keys successful [];
     let (probes, rng) = generate_random_unsuccessful_probes draw rng str_size unsuccessful probes;
     let (probes, rng) = shuffle rng probes;
     Some ((probes, unsuccessful), rng)
   }"

section \<open>Helpers of the programs\<close>

fun unique_loop :: "bytes list \<Rightarrow> bytes set \<Rightarrow> bytes list \<Rightarrow> bytes list" where
  "unique_loop [] seen out = out"
| "unique_loop (x # xs) seen out =
     (if x \<notin> seen then unique_loop xs (insert x seen) (out @ [x]) else unique_loop xs seen out)"

definition makeUniqueSet :: "bytes list \<Rightarrow> bytes list \<Rightarrow> bytes list" where
  "makeUniqueSet inputVec outputVec = unique_loop inputVec {} outputVec"

definition maxStringLength :: "bytes list \<Rightarrow> nat" where
  "maxStringLength inputVec = foldl (\<lambda>m x. max m (length x)) 0 inputVec"

definition max_str_size :: "bytes list \<Rightarrow> nat" where
  "max_str_size data = foldl (\<lambda>m s. if length s > m then length s else m) 0 data"

section \<open>Properties\<close>

lemma split_loop_eq: "split_loop xs i n (a, b) = (a @ take (n - i) xs, b @ drop (n - i) xs)"
proof (induction xs arbitrary: i a b)
  case (Cons x xs)
  show ?case
  proof (cases "i < n")
    case True
    then have "n - i = Suc (n - (i + 1))" by simp
    then show ?thesis using True Cons by simp
  qed (use Cons in simp)
qed simp

lemma unique_loop_ok:
  assumes "distinct out" "set out = seen"
  shows "distinct (unique_loop xs seen out) \<and> set (unique_loop xs seen out) = seen \<union> set xs"
  using assms by (induction xs seen out rule: unique_loop.induct) auto

lemma makeUniqueSet_ok: "distinct (makeUniqueSet xs []) \<and> set (makeUniqueSet xs []) = set xs"
  using unique_loop_ok [of "[]" "{}" xs] by (simp add: makeUniqueSet_def)

lemma max_str_size_eq: "max_str_size data = maxStringLength data"
proof -
  have "foldl (\<lambda>m s. if length s > m then length s else m) m data = foldl (\<lambda>m x. max m (length x)) m data" for m
    by (induction data arbitrary: m) (auto simp: max_def)
  then show ?thesis by (simp add: max_str_size_def maxStringLength_def)
qed

lemma flt_le_double: "0 \<le> x \<Longrightarrow> flt x \<le> x * 2"
  using flt_upper [of x] by simp

text \<open>Rounding does not lift a fraction of \<open>n\<close> above \<open>n\<close>.\<close>

lemma fraction_of_le:
  assumes "fraction_of fraction n = Some k" "0 \<le> fraction" "fraction \<le> 1" "n < 2 ^ 22"
  shows "k \<le> n"
proof -
  let ?f = "flt (of_nat n)" and ?e = "1 + 1 / 2 ^ 24 :: rat"
  have k: "k = nat \<lfloor>flt (fraction * ?f)\<rfloor>" using assms(1,2) by (auto simp: fraction_of_def Let_def sflt_nonneg split: if_splits)
  have n: "(of_nat n :: rat) < 2 ^ 22" using assms(4) by (metis of_nat_less_iff of_nat_numeral of_nat_power)
  have "flt (fraction * ?f) \<le> fraction * ?f * ?e" using flt_upper [of "fraction * ?f"] assms(2) by simp
  also have "\<dots> \<le> 1 * ?f * ?e" using assms(3) by (intro mult_right_mono) simp_all
  also have "\<dots> \<le> of_nat n * ?e * ?e" using flt_upper [of "of_nat n"] by simp
  also have "\<dots> < of_nat n + 1" using n by (simp add: field_simps)
  finally have "\<lfloor>flt (fraction * ?f)\<rfloor> < int n + 1" by (subst floor_less_iff) simp
  then show ?thesis by (simp add: k)
qed

lemma fraction_of_defined:
  assumes "0 \<le> fraction" "fraction \<le> 1" "n < 2 ^ 22"
  shows "\<exists>k. fraction_of fraction n = Some k"
proof -
  let ?f = "flt (of_nat n)"
  have n: "(of_nat n :: rat) < 2 ^ 22" using assms(3) by (metis of_nat_less_iff of_nat_numeral of_nat_power)
  have "flt (fraction * ?f) \<le> fraction * ?f * 2" using assms(1) by (intro flt_le_double) simp
  also have "\<dots> \<le> 1 * ?f * 2" using assms(2) by (intro mult_right_mono) simp_all
  also have "\<dots> \<le> of_nat n * 2 * 2" using flt_le_double [of "of_nat n"] by simp
  also have "\<dots> < 2 ^ 32" using n by simp
  finally have "flt (fraction * ?f) < 2 ^ 32" .
  moreover have "(-1 :: rat) < flt (fraction * ?f)" using flt_nonneg [of "fraction * ?f"] by linarith
  ultimately show ?thesis using assms(1) by (simp add: fraction_of_def sflt_nonneg)
qed

text \<open>Every key of a run of random probes is one of the keys, and there are as many as asked for.\<close>

lemma random_probes_keys:
  assumes "random_probes draw keys n rng ps = Some (ps', rng')"
  shows "\<exists>new. ps' = ps @ new \<and> length new = n \<and> set new \<subseteq> set keys"
  using assms
proof (induction n arbitrary: rng ps)
  case (Suc n)
  obtain v r where v: "draw rng 0 (unat (of_nat (length keys) - 1 :: u32)) = (v, r)" by fastforce
  obtain k where k: "nth_opt keys (nat (c_int (int v))) = Some k" "random_probes draw keys n r (ps @ [k]) = Some (ps', rng')"
    using Suc.prems v by (auto simp: Let_def split: if_splits bind_splits)
  then have "k \<in> set keys" by (auto simp: nth_opt_def split: if_splits)
  then show ?case using Suc.IH [OF k(2)] by auto
qed simp

text \<open>The generator of a nonempty set of keys with draws within their bounds never fails.\<close>

lemma random_probes_total:
  assumes "\<forall>r lo hi. lo \<le> hi \<longrightarrow> lo \<le> fst (draw r lo hi) \<and> fst (draw r lo hi) \<le> hi" "keys \<noteq> []" "length keys \<le> 2 ^ 31"
  shows "\<exists>ps' rng'. random_probes draw keys n rng ps = Some (ps', rng')"
proof (induction n arbitrary: rng ps)
  case (Suc n)
  obtain v r where v: "draw rng 0 (unat (of_nat (length keys) - 1 :: u32)) = (v, r)" by fastforce
  have "1 \<le> length keys" using assms(2) by (cases keys) auto
  then have "(of_nat (length keys) - 1 :: u32) = of_nat (length keys - 1)" by simp
  then have u: "unat (of_nat (length keys) - 1 :: u32) = length keys - 1"
    using assms(3) by (simp add: unat_of_nat_small)
  then have l: "v \<le> length keys - 1" using assms(1) v by (metis fst_conv le0)
  then have "v < length keys" "int v < 2 ^ 31" using \<open>1 \<le> length keys\<close> assms(3) by auto
  then show ?case using Suc v by (simp add: c_int_small nth_opt_Some)
qed simp

lemma get_subset_parts:
  assumes "get_subset shuffle rng data fraction = Inr ((chosen, remaining), data', rng')"
  shows "\<exists>k. chosen = take k data' \<and> remaining = drop k data' \<and> data' = fst (shuffle rng data)"
proof -
  obtain d r where d: "shuffle rng data = (d, r)" by fastforce
  show ?thesis
    using assms d by (cases "fraction_of fraction (length data)") (auto simp: get_subset_def split_loop_eq split: if_splits)
qed

lemma workload_generated:
  assumes "\<forall>r lo hi. lo \<le> hi \<longrightarrow> lo \<le> fst (draw r lo hi) \<and> fst (draw r lo hi) \<le> hi"
    "\<forall>r xs. mset (fst (shuffle r xs)) = mset xs"
    "distinct full" "length full \<le> 2 ^ 31" "nprobes < 2 ^ 22" "0 \<le> fs" "fs \<le> 1"
    "get_subset shuffle rng full fraction = Inr ((data, uninserted), full', rng')" "data \<noteq> []" "uninserted \<noteq> []"
  shows "\<exists>probes npu rng''. generate_probes_with_unselected_keys_as_false draw shuffle rng' data uninserted fs nprobes =
      Some ((probes, npu), rng'') \<and> length probes = nprobes \<and> set probes \<subseteq> set full \<and>
    int (length (filter (\<lambda>x. x \<in> set data) probes)) = int (length probes) - int npu"
proof -
  obtain k where k: "data = take k full'" "uninserted = drop k full'" "full' = fst (shuffle rng full)"
    using get_subset_parts [OF assms(8)] by blast
  have full: "set full' = set full" "distinct full'" "length full' = length full"
    using assms(2,3) k(3) by (metis mset_eq_setD, metis mset_eq_imp_distinct_iff, metis mset_eq_length)
  have dis: "set data \<inter> set uninserted = {}" using full(2) k by (metis distinct_append append_take_drop_id)
  have sub: "set data \<subseteq> set full" "set uninserted \<subseteq> set full" "length data \<le> 2 ^ 31" "length uninserted \<le> 2 ^ 31"
    using full k(1,2) assms(4) by (auto dest: in_set_takeD in_set_dropD)
  obtain s where s: "fraction_of fs nprobes = Some s" "s \<le> nprobes"
    using fraction_of_defined [OF assms(6,7,5)] fraction_of_le assms(5-7) by blast
  define u where "u = unat (of_nat nprobes - of_nat s :: u32)"
  have u: "u = nprobes - s"
    using s(2) assms(5) by (simp add: u_def unat_of_nat_small flip: of_nat_diff)
  obtain p1 r1 where p1: "random_probes draw data s rng' [] = Some (p1, r1)"
    using random_probes_total [OF assms(1,9) sub(3)] by blast
  obtain p2 r2 where p2: "random_probes draw uninserted u r1 p1 = Some (p2, r2)"
    using random_probes_total [OF assms(1,10) sub(4)] by blast
  obtain probes r3 where sh: "shuffle r2 p2 = (probes, r3)" by fastforce
  have m: "mset probes = mset p2" using assms(2) sh by (metis fst_conv)
  obtain new where new: "p2 = p1 @ new" "length new = u" "set new \<subseteq> set uninserted"
    using random_probes_keys [OF p2] by blast
  have old: "length p1 = s" "set p1 \<subseteq> set data" using random_probes_keys [OF p1] by auto
  have "length (filter (\<lambda>x. x \<in> set data) probes) = length (filter (\<lambda>x. x \<in> set data) p2)"
    using m by (metis mset_filter size_mset)
  also have "\<dots> = s"
  proof -
    have "filter (\<lambda>x. x \<in> set data) p1 = p1" using old(2) by (auto simp: filter_id_conv)
    moreover have "filter (\<lambda>x. x \<in> set data) new = []" using new(3) dis by (auto simp: filter_empty_conv)
    ultimately show ?thesis using new(1) old(1) by simp
  qed
  finally have c: "length (filter (\<lambda>x. x \<in> set data) probes) = s" .
  have l: "length probes = nprobes" using mset_eq_length [OF m] new(1,2) old(1) u s(2) by simp
  have "set probes \<subseteq> set full" using mset_eq_setD [OF m] new old sub by auto
  moreover have "generate_probes_with_unselected_keys_as_false draw shuffle rng' data uninserted fs nprobes = Some ((probes, u), r3)"
    using p1 p2 sh s(1)
    by (simp add: generate_probes_with_unselected_keys_as_false_def generate_successful_probes_def generate_unsuccessful_probes_def u_def)
  ultimately show ?thesis using c l u s(2) by (intro exI [of _ probes] exI [of _ u] exI [of _ r3]) simp
qed

text \<open>
  C23. The probes that the benchmark program generates are what the filter benchmark assumes: with a generator that draws
  within its bounds and a shuffle that permutes, from a data set without duplicates split into two nonempty parts, and for fewer than \<open>2 ^ 22\<close> probes,
  the generation ends normally with the number of probes asked for, all of them keys of the data set, and
  exactly the reported number of them are not in the inserted part.
\<close>

theorem generated_workload_exact:
  assumes "\<forall>r lo hi. lo \<le> hi \<longrightarrow> lo \<le> fst (draw r lo hi) \<and> fst (draw r lo hi) \<le> hi"
    "\<forall>r xs. mset (fst (shuffle r xs)) = mset xs"
    "distinct full" "length full \<le> 2 ^ 31" "nprobes < 2 ^ 22" "0 \<le> fs" "fs \<le> 1"
    "get_subset shuffle rng full fraction = Inr ((data, uninserted), full', rng')" "data \<noteq> []" "uninserted \<noteq> []"
  shows "\<exists>probes npu rng''. generate_probes_with_unselected_keys_as_false draw shuffle rng' data uninserted fs nprobes =
      Some ((probes, npu), rng'') \<and> length probes = nprobes \<and> set probes \<subseteq> set full \<and>
    int (length (filter (\<lambda>x. x \<in> set data) probes)) = int (length probes) - int npu"
  using assms by (rule workload_generated)

theorem generated_workload_exact_witness:
  "\<exists>probes npu rng''. generate_probes_with_unselected_keys_as_false (\<lambda>r lo hi. (lo, r)) (\<lambda>r xs. (rev xs, r)) () [[2]] [[1]] (1 / 2) 4 =
      Some ((probes, npu), rng'') \<and> length probes = 4 \<and> set probes \<subseteq> {[1], [2]} \<and>
    int (length (filter (\<lambda>x. x \<in> set [[2]]) probes)) = int (length probes) - int npu"
proof -
  have "get_subset (\<lambda>r xs. (rev xs, r)) () [[1], [2]] (1 / 2) = Inr (([[2]], [[1]]), [[2], [1]], ())" by code_simp
  from generated_workload_exact [OF _ _ _ _ _ _ _ this, of "\<lambda>r lo hi. (lo, r)" 4 "1 / 2"] show ?thesis by simp
qed

end
