(* ===== verification/Growth_Policy.thy ===== *)
theory Growth_Policy
  imports ELH_Prelude Float_Model
begin

text \<open>
  The growth policies of the Robin Hood hash table (\<open>tsl/robin_growth_policy.h\<close>): power of
  two, modulo and prime. A policy is made from a requested bucket count, which it may raise, maps
  a hash to a bucket and proposes the next bucket count; it throws \<open>std::length_error\<close>
  when a count is too large. The contract of a policy is the locale \<open>growth_policy\<close>; each of the
  three models interprets it.
\<close>

unbundle bit_operations_syntax

datatype growth_error = Length_Error

section \<open>Power of two\<close>

definition is_power_of_two :: "u64 \<Rightarrow> bool" where
  "is_power_of_two value = (value \<noteq> 0 \<and> value AND (value - 1) = 0)"

text \<open>
  The loop \<open>for (i = 1; i < 64; i *= 2) value |= value >> i\<close> of the rounding.
\<close>

definition smear :: "u64 \<Rightarrow> u64" where
  "smear value = fold (\<lambda>i v. v OR shr v i) [1, 2, 4, 8, 16, 32] value"

definition round_up_to_power_of_two :: "u64 \<Rightarrow> u64" where
  "round_up_to_power_of_two value =
     (if is_power_of_two value then value
      else if value = 0 then 1
      else smear (value - 1) + 1)"

text \<open>The policy's only member is \<open>m_mask\<close>; the largest count is the largest power of two.\<close>

definition pow2_max_bucket_count :: u64 where
  "pow2_max_bucket_count = (- 1 div 2) + 1"

definition pow2_new :: "u64 \<Rightarrow> growth_error + (u64 \<times> u64)" where
  "pow2_new min_bucket_count =
     (if min_bucket_count > pow2_max_bucket_count then Inl Length_Error
      else if min_bucket_count > 0
      then (let count = round_up_to_power_of_two min_bucket_count in Inr (count - 1, count))
      else Inr (0, 0))"

definition pow2_bucket_for_hash :: "u64 \<Rightarrow> u64 \<Rightarrow> u64" where
  "pow2_bucket_for_hash m_mask hash = hash AND m_mask"

definition pow2_next_bucket_count :: "u64 \<Rightarrow> u64 \<Rightarrow> growth_error + u64" where
  "pow2_next_bucket_count growth_factor m_mask =
     (if m_mask + 1 > pow2_max_bucket_count div growth_factor then Inl Length_Error
      else Inr ((m_mask + 1) * growth_factor))"

definition pow2_clear :: "u64 \<Rightarrow> u64" where
  "pow2_clear m_mask = 0"

section \<open>Modulo\<close>

text \<open>
  The growth factor is a ratio \<open>num / den\<close>, as a \<open>double\<close>; \<open>MAX_BUCKET_COUNT\<close> divides the
  largest \<open>size_t\<close> by it.
\<close>

definition rehash_factor :: "nat \<Rightarrow> nat \<Rightarrow> rat" where
  "rehash_factor num den = dbl (of_nat num / of_nat den)"

definition mod_max_bucket_count :: "nat \<Rightarrow> nat \<Rightarrow> u64" where
  "mod_max_bucket_count num den =
     of_nat (nat \<lfloor>dbl (dbl (2 ^ 64 - 1) / rehash_factor num den)\<rfloor>)"

definition mod_new :: "nat \<Rightarrow> nat \<Rightarrow> u64 \<Rightarrow> growth_error + (u64 \<times> u64)" where
  "mod_new num den min_bucket_count =
     (if min_bucket_count > mod_max_bucket_count num den then Inl Length_Error
      else if min_bucket_count > 0 then Inr (min_bucket_count, min_bucket_count)
      else Inr (1, 0))"

definition mod_bucket_for_hash :: "u64 \<Rightarrow> u64 \<Rightarrow> u64" where
  "mod_bucket_for_hash m_mod hash = hash mod m_mod"

definition mod_next_bucket_count :: "nat \<Rightarrow> nat \<Rightarrow> u64 \<Rightarrow> growth_error + u64" where
  "mod_next_bucket_count num den m_mod =
     (if m_mod = mod_max_bucket_count num den then Inl Length_Error
      else let next_count = of_int \<lceil>dbl (dbl (of_nat (unat m_mod)) * rehash_factor num den)\<rceil> :: rat
           in if next_count = 0 then Inl Length_Error
              else if next_count > dbl (of_nat (unat (mod_max_bucket_count num den)))
              then Inr (mod_max_bucket_count num den)
              else Inr (of_nat (nat \<lfloor>next_count\<rfloor>)))"

definition mod_clear :: "u64 \<Rightarrow> u64" where
  "mod_clear m_mod = 1"

section \<open>Primes\<close>

definition PRIMES :: "u64 list" where
  "PRIMES = [1, 5, 17, 29, 37, 53, 67, 79, 97, 131, 193, 257, 389, 521, 769, 1031,
     1543, 2053, 3079, 6151, 12289, 24593, 49157,
     98317, 196613, 393241, 786433, 1572869, 3145739, 6291469, 12582917,
     25165843, 50331653, 100663319, 201326611, 402653189, 805306457, 1610612741,
     3221225473, 4294967291,
     6442450939, 12884901893, 25769803751, 51539607551, 103079215111, 206158430209,
     412316860441, 824633720831, 1649267441651, 3298534883309, 6597069766657]"

text \<open>\<open>std::lower_bound\<close> on the sorted table: the first prime not below the count.\<close>

definition lower_bound :: "u64 list \<Rightarrow> u64 \<Rightarrow> nat" where
  "lower_bound xs x = length (takeWhile (\<lambda>p. p < x) xs)"

definition prime_new :: "u64 \<Rightarrow> growth_error + (nat \<times> u64)" where
  "prime_new min_bucket_count =
     (let iprime = lower_bound PRIMES min_bucket_count in
      if iprime = length PRIMES then Inl Length_Error
      else Inr (iprime, if min_bucket_count > 0 then PRIMES ! iprime else 0))"

definition prime_bucket_for_hash :: "nat \<Rightarrow> u64 \<Rightarrow> u64" where
  "prime_bucket_for_hash m_iprime hash = hash mod (PRIMES ! m_iprime)"

definition prime_next_bucket_count :: "nat \<Rightarrow> growth_error + u64" where
  "prime_next_bucket_count m_iprime =
     (if m_iprime + 1 \<ge> length PRIMES then Inl Length_Error else Inr (PRIMES ! (m_iprime + 1)))"

definition prime_max_bucket_count :: u64 where
  "prime_max_bucket_count = last PRIMES"

definition prime_clear :: "nat \<Rightarrow> nat" where
  "prime_clear m_iprime = 0"

section \<open>The contract of a growth policy\<close>

locale growth_policy =
  fixes new_policy :: "u64 \<Rightarrow> growth_error + ('p \<times> u64)"
    and bucket_for_hash :: "'p \<Rightarrow> u64 \<Rightarrow> u64"
    and next_bucket_count :: "'p \<Rightarrow> growth_error + u64"
    and clear_policy :: "'p \<Rightarrow> 'p"
  assumes new_count: "new_policy n = Inr (p, c) \<Longrightarrow> n \<le> c \<and> (c = 0 \<longleftrightarrow> n = 0)"
    and new_zero: "new_policy 0 = Inr (p, c) \<Longrightarrow> bucket_for_hash p h = 0"
    and bucket_range: "new_policy n = Inr (p, c) \<Longrightarrow> n > 0 \<Longrightarrow> bucket_for_hash p h < c"
    and next_grows: "new_policy n = Inr (p, c) \<Longrightarrow> next_bucket_count p = Inr m \<Longrightarrow> c < m"
    and clear_zero: "bucket_for_hash (clear_policy p) h = 0"
begin

text \<open>What the hash table needs of it: a bucket index is always valid, or 0 in the empty table.\<close>

lemma bucket_valid:
  assumes "new_policy n = Inr (p, c)"
  shows "bucket_for_hash p h < c \<or> bucket_for_hash p h = 0 \<and> c = 0"
proof (cases "n = 0")
  case True
  with assms show ?thesis using new_zero [of p c] new_count [OF assms] by simp
next
  case False
  with assms show ?thesis using bucket_range [OF assms] by (simp add: word_neq_0_conv)
qed

lemma grown_policy:
  assumes "new_policy n = Inr (p, c)" "next_bucket_count p = Inr m" "new_policy m = Inr (p', c')"
  shows "c < c' \<and> bucket_for_hash p' h < c'"
proof -
  have c: "c < m" "m \<le> c'" using next_grows [OF assms(1,2)] new_count [OF assms(3)] by auto
  then have "0 < m" by (rule_tac order_le_less_trans [OF word_zero_le])
  with c show ?thesis using bucket_range [OF assms(3)] by auto
qed

end

section \<open>Powers of two\<close>

lemma leading_bit_nat: "2 ^ k \<le> n \<Longrightarrow> n < 2 ^ Suc k \<Longrightarrow> bit (n :: nat) k"
  and no_bit_above_nat: "n < 2 ^ j \<Longrightarrow> \<not> bit (n :: nat) j"
proof -
  assume "2 ^ k \<le> n" "n < 2 ^ Suc k"
  then have "n div 2 ^ k = 1" by (intro div_nat_eqI) simp_all
  then show "bit n k" by (simp add: bit_iff_odd)
next
  show "n < 2 ^ j \<Longrightarrow> \<not> bit n j" by (simp add: bit_iff_odd)
qed

lemma bit_unat: "bit (unat (x :: u64)) j \<longleftrightarrow> bit x j"
  by (simp add: bit_unsigned_iff possible_bit_def)

lemma unat_power2: "k < 64 \<Longrightarrow> unat (2 ^ k :: u64) = 2 ^ k"
proof -
  assume "k < 64"
  then have "(2 :: nat) ^ k < 2 ^ LENGTH(64)" by (intro power_strict_increasing) simp_all
  from unat_of_nat_small [OF this] show ?thesis by simp
qed

lemma is_power_of_two_iff: "is_power_of_two v \<longleftrightarrow> (\<exists>k < 64. unat v = 2 ^ k)"
proof
  assume "\<exists>k < 64. unat v = 2 ^ k"
  then obtain k where k: "k < 64" "v = 2 ^ k" by (metis unat_power2 word_unat_eq_iff)
  then have "v - 1 = mask k" by (simp add: mask_eq_exp_minus_1)
  moreover have "(2 ^ k :: u64) AND mask k = 0"
    by (rule bit_eqI) (auto simp: bit_and_iff bit_exp_iff bit_mask_iff)
  ultimately show "is_power_of_two v" using k by (simp add: is_power_of_two_def)
next
  assume p: "is_power_of_two v"
  then have v: "v \<noteq> 0" "v AND (v - 1) = 0" by (auto simp: is_power_of_two_def)
  then have "1 \<le> unat v" by (simp add: Suc_le_eq unat_gt_0)
  then obtain k where k: "2 ^ k \<le> unat v" "unat v < 2 ^ (k + 1)"
    using ex_power_ivl1 [of 2 "unat v"] by auto
  have "unat v = 2 ^ k"
  proof (rule ccontr)
    assume "unat v \<noteq> 2 ^ k"
    moreover have "unat (v - 1) = unat v - 1" using v(1) by (simp add: unat_minus_one)
    ultimately have "bit (unat v) k" "bit (unat (v - 1)) k"
      using k by (auto intro!: leading_bit_nat)
    then have "bit (v AND (v - 1)) k" by (simp add: bit_unat bit_and_iff)
    with v(2) show False by simp
  qed
  moreover have "(2 :: nat) ^ k < 2 ^ 64" using k(1) unat_u64_less [of v] by linarith
  then have "k < 64" by (rule power_less_imp_less_exp [rotated]) simp
  ultimately show "\<exists>k < 64. unat v = 2 ^ k" by blast
qed

text \<open>Smearing: after a shift by \<open>w\<close>, each bit knows the \<open>2 * w\<close> bits from it upwards.\<close>

lemma smear_step:
  assumes "\<And>j. bit (v :: u64) j \<longleftrightarrow> (\<exists>d < w. bit x (j + d))"
  shows "bit (v OR shr v w) j \<longleftrightarrow> (\<exists>d < 2 * w. bit x (j + d))"
proof -
  have "(\<exists>d < 2 * w. bit x (j + d)) \<longleftrightarrow> (\<exists>d < w. bit x (j + d)) \<or> (\<exists>d < w. bit x (w + j + d))"
  proof
    assume "\<exists>d < 2 * w. bit x (j + d)"
    then obtain d where d: "d < 2 * w" "bit x (j + d)" by blast
    show "(\<exists>d < w. bit x (j + d)) \<or> (\<exists>d < w. bit x (w + j + d))"
    proof (cases "d < w")
      case False
      with d have "d - w < w" "bit x (w + j + (d - w))" by (auto simp: algebra_simps)
      then show ?thesis by blast
    qed (use d in blast)
  next
    assume "(\<exists>d < w. bit x (j + d)) \<or> (\<exists>d < w. bit x (w + j + d))"
    then show "\<exists>d < 2 * w. bit x (j + d)"
    proof
      assume "\<exists>d < w. bit x (w + j + d)"
      then obtain d where "d < w" "bit x (j + (w + d))" by (auto simp: algebra_simps)
      then show ?thesis by (intro exI [of _ "w + d"]) simp
    next
      assume "\<exists>d < w. bit x (j + d)"
      then obtain d where "d < w" "bit x (j + d)" by blast
      then show ?thesis by (intro exI [of _ d]) simp
    qed
  qed
  then show ?thesis by (simp add: bit_or_iff bit_drop_bit_eq assms)
qed

lemma bit_smear: "bit (smear x) j \<longleftrightarrow> (\<exists>d < 64. bit x (j + d))"
proof -
  define v1 where "v1 = x OR shr x 1"
  define v2 where "v2 = v1 OR shr v1 2"
  define v4 where "v4 = v2 OR shr v2 4"
  define v8 where "v8 = v4 OR shr v4 8"
  define v16 where "v16 = v8 OR shr v8 16"
  have 1: "bit v1 j \<longleftrightarrow> (\<exists>d < 2. bit x (j + d))" for j
    unfolding v1_def using smear_step [of x 1 x j] by simp
  have 2: "bit v2 j \<longleftrightarrow> (\<exists>d < 4. bit x (j + d))" for j
    unfolding v2_def using smear_step [of v1 2 x j] 1 by simp
  have 4: "bit v4 j \<longleftrightarrow> (\<exists>d < 8. bit x (j + d))" for j
    unfolding v4_def using smear_step [of v2 4 x j] 2 by simp
  have 8: "bit v8 j \<longleftrightarrow> (\<exists>d < 16. bit x (j + d))" for j
    unfolding v8_def using smear_step [of v4 8 x j] 4 by simp
  have 16: "bit v16 j \<longleftrightarrow> (\<exists>d < 32. bit x (j + d))" for j
    unfolding v16_def using smear_step [of v8 16 x j] 8 by simp
  have "smear x = v16 OR shr v16 32"
    by (simp add: smear_def v1_def v2_def v4_def v8_def v16_def)
  then show ?thesis using smear_step [of v16 32 x j] 16 by simp
qed

lemma smear_mask:
  assumes "2 ^ k \<le> unat x" "unat x < 2 ^ Suc k" "k < 64"
  shows "smear x = mask (Suc k)"
proof (rule bit_word_eqI)
  fix j assume j: "j < LENGTH(64)"
  have k: "bit x k" using leading_bit_nat [OF assms(1,2)] by (simp add: bit_unat)
  have above: "\<not> bit x i" if "k < i" for i
  proof -
    have "(2 :: nat) ^ Suc k \<le> 2 ^ i" using that by (intro power_increasing) simp_all
    with assms(2) have "unat x < 2 ^ i" by linarith
    then show ?thesis using no_bit_above_nat bit_unat by blast
  qed
  have "(\<exists>d < 64. bit x (j + d)) \<longleftrightarrow> j < Suc k"
  proof
    assume "\<exists>d < 64. bit x (j + d)"
    then obtain d where d: "bit x (j + d)" by blast
    with above have "\<not> k < j + d" by blast
    then show "j < Suc k" by simp
  next
    assume "j < Suc k"
    with k assms(3) show "\<exists>d < 64. bit x (j + d)" by (intro exI [of _ "k - j"]) simp
  qed
  with j show "bit (smear x) j \<longleftrightarrow> bit (mask (Suc k) :: u64) j"
    by (simp add: bit_smear bit_mask_iff)
qed

text \<open>The rounding gives the least power of two that is at least the value.\<close>

lemma round_up_power:
  assumes "unat v \<le> 2 ^ 63"
  shows "\<exists>k \<le> 63. unat (round_up_to_power_of_two v) = 2 ^ k \<and> unat v \<le> 2 ^ k \<and>
           (\<forall>j. unat v \<le> 2 ^ j \<longrightarrow> k \<le> j)"
proof (cases "is_power_of_two v")
  case True
  then obtain k where k: "unat v = 2 ^ k" by (auto simp: is_power_of_two_iff)
  with assms have "k \<le> 63" by (simp only: power_increasing_iff)
  with True k show ?thesis by (auto simp: round_up_to_power_of_two_def)
next
  case np: False
  show ?thesis
  proof (cases "v = 0")
    case True
    then show ?thesis by (intro exI [of _ 0]) (simp add: round_up_to_power_of_two_def is_power_of_two_def)
  next
    case False
    then have v: "1 \<le> unat v" by (simp add: Suc_le_eq unat_gt_0)
    moreover have "unat v \<noteq> 1" using np is_power_of_two_iff [of v] by (metis power_0 zero_less_numeral)
    ultimately have "1 \<le> unat v - 1" by simp
    then obtain k where k: "2 ^ k \<le> unat v - 1" "unat v - 1 < 2 ^ Suc k"
      using ex_power_ivl1 [of 2 "unat v - 1"] by auto
    have u: "unat (v - 1) = unat v - 1" using False by (simp add: unat_minus_one)
    have lt: "unat v - 1 < 2 ^ 63" using assms v by simp
    then have "(2 :: nat) ^ k < 2 ^ 63" using k(1) by linarith
    then have k63: "k < 63" by (rule power_less_imp_less_exp [rotated]) simp
    have "smear (v - 1) = mask (Suc k)" using k k63 by (intro smear_mask) (simp_all add: u)
    then have "round_up_to_power_of_two v = 2 ^ Suc k"
      using np False by (simp add: round_up_to_power_of_two_def mask_eq_exp_minus_1)
    moreover have "Suc k \<le> j" if "unat v \<le> 2 ^ j" for j
    proof -
      have "(2 :: nat) ^ k < 2 ^ j" using k(1) that v by linarith
      then have "k < j" by (rule power_less_imp_less_exp [rotated]) simp
      then show ?thesis by simp
    qed
    moreover have "unat (2 ^ Suc k :: u64) = 2 ^ Suc k" using k63 by (intro unat_power2) simp
    ultimately show ?thesis using k(2) k63 v by (intro exI [of _ "Suc k"]) auto
  qed
qed

section \<open>The power of two policy\<close>

lemma unat_pow2_max: "unat pow2_max_bucket_count = 2 ^ 63"
  by (simp add: pow2_max_bucket_count_def)

text \<open>A policy made for \<open>n\<close> buckets: its mask is one less than a power of two.\<close>

lemma pow2_new_Inr:
  assumes "pow2_new n = Inr (m, c)"
  shows "n = 0 \<and> m = 0 \<and> c = 0 \<or>
         (\<exists>k \<le> 63. unat c = 2 ^ k \<and> m = mask k \<and> unat n \<le> 2 ^ k \<and> 0 < n)"
proof (cases "n = 0")
  case True
  with assms show ?thesis by (simp add: pow2_new_def pow2_max_bucket_count_def)
next
  case False
  with assms have le: "unat n \<le> 2 ^ 63" and m: "m = c - 1" "c = round_up_to_power_of_two n"
    by (auto simp: pow2_new_def word_neq_0_conv Let_def word_less_nat_alt unat_pow2_max
        split: if_splits)
  obtain k where k: "k \<le> 63" "unat c = 2 ^ k" "unat n \<le> 2 ^ k"
    using round_up_power [OF le] m(2) by auto
  then have "c = 2 ^ k" using unat_power2 [of k] by (simp add: word_unat_eq_iff)
  with k m(1) False show ?thesis by (auto simp: mask_eq_exp_minus_1 word_neq_0_conv)
qed

lemma pow2_bucket: "unat (pow2_bucket_for_hash (mask k) h) = unat h mod 2 ^ k"
  by (simp only: pow2_bucket_for_hash_def unat_and_mask)

lemma unat_mask_Suc: "k \<le> 63 \<Longrightarrow> unat (mask k + 1 :: u64) = 2 ^ k"
  using unat_power2 [of k] by (simp add: mask_eq_exp_minus_1)

text \<open>The next bucket count is the growth factor times the present one, without overflow.\<close>

lemma pow2_next:
  assumes "pow2_next_bucket_count gf (mask k) = Inr c" "k \<le> 63"
  shows "unat c = 2 ^ k * unat gf"
proof -
  have le: "mask k + 1 \<le> pow2_max_bucket_count div gf" and c: "c = (mask k + 1) * gf"
    using assms(1) by (auto simp: pow2_next_bucket_count_def split: if_splits)
  from le have "2 ^ k \<le> 2 ^ 63 div unat gf"
    using unat_mask_Suc [OF assms(2)] unat_pow2_max by (simp add: word_le_nat_alt unat_div)
  then have "2 ^ k * unat gf \<le> 2 ^ 63 div unat gf * unat gf" by (rule mult_le_mono1)
  also have "\<dots> \<le> 2 ^ 63" by simp
  finally have "2 ^ k * unat gf < 2 ^ 64" by simp
  then show ?thesis
    using unat_mask_Suc [OF assms(2)] by (simp add: c unat_word_ariths)
qed

interpretation pow2: growth_policy pow2_new pow2_bucket_for_hash "pow2_next_bucket_count 2" pow2_clear
proof (unfold_locales, goal_cases)
  case (1 n p c)
  from pow2_new_Inr [OF this] show ?case
    by (cases "n = 0") (auto simp: word_le_nat_alt)
next
  case (2 p c h)
  from pow2_new_Inr [OF this] show ?case by (simp add: pow2_bucket_for_hash_def)
next
  case (3 n p c h)
  from pow2_new_Inr [OF 3(1)] 3(2) obtain k where "unat c = 2 ^ k" "p = mask k" by auto
  then show ?case by (simp add: word_less_nat_alt pow2_bucket)
next
  case (4 n p c m)
  from pow2_new_Inr [OF 4(1)] show ?case
  proof
    assume "n = 0 \<and> p = 0 \<and> c = 0"
    with pow2_next [of 2 0 m] 4(2) show ?thesis by (simp add: word_less_nat_alt)
  next
    assume "\<exists>k \<le> 63. unat c = 2 ^ k \<and> p = mask k \<and> unat n \<le> 2 ^ k \<and> 0 < n"
    with pow2_next [of 2 _ m] 4(2) show ?thesis by (auto simp: word_less_nat_alt)
  qed
next
  case (5 p h)
  show ?case by (simp add: pow2_clear_def pow2_bucket_for_hash_def)
qed

section \<open>The prime policy\<close>

lemma PRIMES_sorted: "sorted_wrt (<) PRIMES"
proof -
  have "successively (<) PRIMES" by (simp add: PRIMES_def)
  then show ?thesis by (simp add: successively_conv_sorted_wrt)
qed

lemma PRIMES_pos: "p \<in> set PRIMES \<Longrightarrow> 0 < p"
  by (simp add: PRIMES_def) auto

lemma PRIMES_last: "last PRIMES \<in> set PRIMES"
  by (rule last_in_set) (simp add: PRIMES_def)

lemma PRIMES_le_last: "p \<in> set PRIMES \<Longrightarrow> p \<le> last PRIMES"
proof -
  assume "p \<in> set PRIMES"
  then obtain j where j: "j < length PRIMES" "p = PRIMES ! j" by (auto simp: in_set_conv_nth)
  then have last: "last PRIMES = PRIMES ! (length PRIMES - 1)" by (intro last_conv_nth) auto
  show ?thesis
  proof (cases "j = length PRIMES - 1")
    case False
    with j(1) have "j < length PRIMES - 1" "length PRIMES - 1 < length PRIMES" by linarith+
    from sorted_wrt_nth_less [OF PRIMES_sorted this] j(2) last show ?thesis by simp
  qed (simp add: j(2) last)
qed

lemma prime_new_Inr:
  assumes "prime_new n = Inr (ip, c)"
  shows "ip < length PRIMES \<and> n \<le> PRIMES ! ip \<and> c = (if n > 0 then PRIMES ! ip else 0) \<and>
         (\<forall>j < ip. PRIMES ! j < n)"
proof -
  define tw where "tw = takeWhile (\<lambda>p. p < n) PRIMES"
  have ip: "ip = length tw" "length tw \<noteq> length PRIMES" and c: "c = (if n > 0 then PRIMES ! ip else 0)"
    using assms by (auto simp: prime_new_def lower_bound_def Let_def tw_def split: if_splits)
  have le: "length tw \<le> length PRIMES" unfolding tw_def by (rule length_takeWhile_le)
  with ip have len: "ip < length PRIMES" by simp
  then have "\<not> PRIMES ! ip < n"
    using nth_length_takeWhile [of "\<lambda>p. p < n" PRIMES] ip by (simp add: tw_def)
  moreover have "PRIMES ! j < n" if "j < ip" for j
  proof -
    have "tw ! j \<in> set tw" using that ip(1) by (intro nth_mem) simp
    then have "tw ! j < n" unfolding tw_def by (rule set_takeWhileD [THEN conjunct2])
    moreover have "tw ! j = PRIMES ! j"
      using that ip(1) unfolding tw_def by (intro takeWhile_nth) simp
    ultimately show ?thesis by simp
  qed
  ultimately show ?thesis using len c by auto
qed

interpretation prime: growth_policy prime_new prime_bucket_for_hash prime_next_bucket_count prime_clear
proof (unfold_locales, goal_cases)
  case (1 n p c)
  from prime_new_Inr [OF this] PRIMES_pos [of "PRIMES ! p"] show ?case
    by (cases "n = 0") (auto simp: word_neq_0_conv)
next
  case (2 p c h)
  then have "p = 0" by (simp add: prime_new_def lower_bound_def PRIMES_def)
  then show ?case by (simp add: prime_bucket_for_hash_def PRIMES_def)
next
  case (3 n p c h)
  from prime_new_Inr [OF 3(1)] 3(2) have c: "c = PRIMES ! p" "p < length PRIMES" by auto
  then have "0 < c" using PRIMES_pos [of "PRIMES ! p"] by simp
  then show ?case by (simp add: c prime_bucket_for_hash_def word_mod_less_divisor)
next
  case (4 n p c m)
  from 4(2) have p: "p + 1 < length PRIMES" "m = PRIMES ! (p + 1)"
    by (auto simp: prime_next_bucket_count_def not_le split: if_splits)
  have "PRIMES ! p < PRIMES ! (p + 1)"
    using sorted_wrt_nth_less [OF PRIMES_sorted, of p "p + 1"] p by simp
  moreover have "c \<le> PRIMES ! p" using prime_new_Inr [OF 4(1)] by auto
  ultimately show ?case using p by simp
next
  case (5 p h)
  show ?case by (simp add: prime_clear_def prime_bucket_for_hash_def PRIMES_def)
qed

section \<open>The modulo policy\<close>

text \<open>The factor of the default ratio is exact, and the largest count is a multiple of \<open>2 ^ 11\<close>.\<close>

lemma rehash_factor_default: "rehash_factor 3 2 = 3 / 2"
  unfolding rehash_factor_def dbl_def
  by (subst round_fp_at [where e = 0]) (simp_all add: round_half_even_def power_int_def power_divide)

lemma dbl_size_max: "dbl (2 ^ 64 - 1) = 2 ^ 64"
  unfolding dbl_def
  by (subst round_fp_at [where e = 63])
     (simp_all add: power_int_def round_half_even_near [where n = 9007199254740992])

lemma dbl_size_max_div: "dbl (2 ^ 64 / (3 / 2)) = 12297829382473033728"
  unfolding dbl_def
  by (subst round_fp_at [where e = 63])
     (simp_all add: power_int_def round_half_even_near [where n = 6004799503160661])

lemma mod_max_default: "mod_max_bucket_count 3 2 = 12297829382473033728"
  unfolding mod_max_bucket_count_def dbl_size_max rehash_factor_default dbl_size_max_div by simp

lemma dbl_mod_max: "dbl (of_nat (unat (mod_max_bucket_count 3 2))) = 12297829382473033728"
  unfolding dbl_def mod_max_default
  by (subst round_fp_at [where e = 63])
     (simp_all add: power_int_def round_half_even_near [where n = 6004799503160661])

text \<open>Growing by the ratio gives a larger count in spite of the two roundings.\<close>

lemma dbl_grow:
  assumes "1 \<le> r"
  shows "r < dbl (dbl r * (3 / 2))"
proof -
  have "r * (1 - 1 / 2 ^ 53) \<le> dbl r" using assms dbl_lower [of r] by simp
  moreover have "dbl r * (3 / 2) * (1 - 1 / 2 ^ 53) \<le> dbl (dbl r * (3 / 2))"
    using dbl_lower [of "dbl r * (3 / 2)"] by simp
  ultimately show ?thesis using assms by simp
qed

lemma mod_next_unfold:
  "mod_next_bucket_count 3 2 m =
     (let x = dbl (dbl (of_nat (unat m)) * (3 / 2)) in
      if m = mod_max_bucket_count 3 2 \<or> \<lceil>x\<rceil> = 0 then Inl Length_Error
      else if \<lceil>x\<rceil> > 12297829382473033728 then Inr (mod_max_bucket_count 3 2)
      else Inr (of_nat (nat \<lceil>x\<rceil>)))"
proof -
  have "(of_int i > (12297829382473033728 :: rat)) = (i > 12297829382473033728)" for i by simp
  then show ?thesis
    unfolding mod_next_bucket_count_def rehash_factor_default dbl_mod_max Let_def
    by (simp only: of_int_eq_0_iff floor_of_int split: if_splits) simp
qed

lemma mod_next_default:
  assumes "mod_next_bucket_count 3 2 m = Inr c" "0 < m" "m \<le> mod_max_bucket_count 3 2"
  shows "m < c \<and> c \<le> mod_max_bucket_count 3 2"
proof -
  define M where "M = mod_max_bucket_count 3 2"
  define x where "x = dbl (dbl (of_nat (unat m)) * (3 / 2))"
  have nxt: "(if m = M \<or> \<lceil>x\<rceil> = 0 then Inl Length_Error
      else if \<lceil>x\<rceil> > 12297829382473033728 then Inr M else Inr (of_nat (nat \<lceil>x\<rceil>))) = Inr c"
    using assms(1) by (simp only: mod_next_unfold Let_def x_def M_def)
  have uM: "unat M = 12297829382473033728" by (simp add: M_def mod_max_default)
  from nxt have "m \<noteq> M" by (auto split: if_splits)
  with assms(3) have lt: "m < M" unfolding M_def by (simp add: order_less_le)
  have "0 < unat m" using assms(2) unat_gt_0 by blast
  then have "(1 :: rat) \<le> of_nat (unat m)"
    using of_nat_le_iff [of 1 "unat m", where 'a = rat] by (simp only: of_nat_1 Suc_le_eq One_nat_def)
  from dbl_grow [OF this] have "of_nat (unat m) < x" by (simp only: x_def)
  then have ceil: "int (unat m) < \<lceil>x\<rceil>" by (simp only: less_ceiling_iff of_int_of_nat_eq)
  show ?thesis
  proof (cases "\<lceil>x\<rceil> > 12297829382473033728")
    case True
    with nxt \<open>m \<noteq> M\<close> have "c = M" by (simp split: if_splits)
    with lt show ?thesis by (simp add: M_def)
  next
    case False
    then have small: "nat \<lceil>x\<rceil> \<le> unat M" unfolding uM by linarith
    then have "unat (of_nat (nat \<lceil>x\<rceil>) :: u64) = nat \<lceil>x\<rceil>"
      by (intro unat_of_nat_small) (simp add: uM)
    moreover have "c = of_nat (nat \<lceil>x\<rceil>)" using nxt False by (auto split: if_splits)
    ultimately have c: "unat c = nat \<lceil>x\<rceil>" by simp
    with ceil have "unat m < unat c" by (simp only: zless_nat_eq_int_zless)
    then show ?thesis using small c by (simp only: word_less_nat_alt word_le_nat_alt M_def)
  qed
qed

lemma mod_new_Inr:
  assumes "mod_new num den n = Inr (m, c)"
  shows "c = n \<and> m = (if n = 0 then 1 else n) \<and> n \<le> mod_max_bucket_count num den"
  using assms by (auto simp: mod_new_def word_neq_0_conv split: if_splits)

interpretation mod_policy: growth_policy "mod_new 3 2" mod_bucket_for_hash "mod_next_bucket_count 3 2" mod_clear
proof (unfold_locales, goal_cases)
  case (1 n p c)
  from mod_new_Inr [OF this] show ?case by simp
next
  case (2 p c h)
  from mod_new_Inr [OF this] show ?case by (simp add: mod_bucket_for_hash_def)
next
  case (3 n p c h)
  from mod_new_Inr [OF 3(1)] 3(2) show ?case
    by (simp add: mod_bucket_for_hash_def word_mod_less_divisor)
next
  case (4 n p c m)
  from mod_new_Inr [OF 4(1)] have p: "c \<le> p" "0 < p" "p \<le> mod_max_bucket_count 3 2"
    by (auto simp: word_neq_0_conv mod_max_default)
  with mod_next_default [OF 4(2)] show ?case by (blast intro: order_le_less_trans)
next
  case (5 p h)
  show ?case by (simp add: mod_clear_def mod_bucket_for_hash_def)
qed

section \<open>Properties of the policies\<close>

text \<open>
  Rounding up to a power of two gives the least power of two that is at least the value, for
  every value up to the largest 64-bit power of two.\<close>
theorem round_up_least:
  assumes "v \<le> pow2_max_bucket_count"
  shows "is_power_of_two (round_up_to_power_of_two v) \<and> v \<le> round_up_to_power_of_two v \<and>
         (\<forall>w. is_power_of_two w \<and> v \<le> w \<longrightarrow> round_up_to_power_of_two v \<le> w)"
proof -
  from assms have "unat v \<le> 2 ^ 63" by (simp add: word_le_nat_alt unat_pow2_max)
  from round_up_power [OF this] obtain k where k: "k \<le> 63"
      "unat (round_up_to_power_of_two v) = 2 ^ k" "unat v \<le> 2 ^ k"
      "\<And>j. unat v \<le> 2 ^ j \<Longrightarrow> k \<le> j"
    by blast
  have "round_up_to_power_of_two v \<le> w" if "is_power_of_two w" "v \<le> w" for w
  proof -
    from that obtain j where "unat w = 2 ^ j" "unat v \<le> 2 ^ j"
      by (auto simp: is_power_of_two_iff word_le_nat_alt)
    with k(2,4) show ?thesis by (simp add: word_le_nat_alt)
  qed
  moreover have "is_power_of_two (round_up_to_power_of_two v)"
    using k(1,2) unfolding is_power_of_two_iff by (intro exI [of _ k]) simp
  ultimately show ?thesis using k(2,3) by (simp add: word_le_nat_alt)
qed

theorem round_up_least_witness:
  "is_power_of_two (round_up_to_power_of_two 37) \<and> round_up_to_power_of_two 37 = 64"
proof -
  have "round_up_to_power_of_two 37 = 64"
    by (simp add: round_up_to_power_of_two_def is_power_of_two_def smear_def)
  then show ?thesis using round_up_least [of 37] by (simp add: pow2_max_bucket_count_def)
qed

text \<open>
  A power of two policy made for a positive count maps every hash to its remainder modulo the
  bucket count, proposes exactly twice the count next, and refuses to grow exactly when the
  count is already the largest power of two.\<close>
theorem pow2_policy_correct:
  assumes "pow2_new n = Inr (m_mask, c)" "0 < n"
  shows "unat (pow2_bucket_for_hash m_mask h) = unat h mod unat c \<and>
         pow2_next_bucket_count 2 m_mask =
           (if c = pow2_max_bucket_count then Inl Length_Error else Inr (2 * c)) \<and>
         (c \<noteq> pow2_max_bucket_count \<longrightarrow> unat (2 * c) = 2 * unat c)"
proof -
  from pow2_new_Inr [OF assms(1)] assms(2) obtain k
    where k: "k \<le> 63" "unat c = 2 ^ k" "m_mask = mask k" by auto
  have c: "m_mask + 1 = c"
    using unat_mask_Suc [OF k(1)] k(2) unfolding k(3) by (simp only: word_unat_eq_iff)
  have max: "c = pow2_max_bucket_count \<longleftrightarrow> k = 63"
    using k unat_pow2_max by (simp only: word_unat_eq_iff power_inject_exp)
  have le: "c \<le> pow2_max_bucket_count div 2 \<longleftrightarrow> k \<le> 62"
  proof -
    have "unat (pow2_max_bucket_count div 2) = 2 ^ 62" by (simp add: unat_div unat_pow2_max)
    then have "c \<le> pow2_max_bucket_count div 2 \<longleftrightarrow> (2 :: nat) ^ k \<le> 2 ^ 62"
      using k(2) by (simp only: word_le_nat_alt)
    also have "\<dots> \<longleftrightarrow> k \<le> 62" by (rule power_increasing_iff) simp
    finally show ?thesis .
  qed
  have "pow2_next_bucket_count 2 m_mask =
           (if c = pow2_max_bucket_count then Inl Length_Error else Inr (2 * c))"
    using le max k(1) by (auto simp: pow2_next_bucket_count_def c mult.commute not_le [symmetric])
  moreover have "unat (2 * c) = 2 * unat c" if "c \<noteq> pow2_max_bucket_count"
  proof -
    from that max k(1) have "Suc k < 64" by simp
    then have "(2 :: nat) ^ Suc k < 2 ^ 64" by (intro power_strict_increasing) simp_all
    with k(2) show ?thesis by (simp add: unat_word_ariths)
  qed
  ultimately show ?thesis using k by (simp add: pow2_bucket)
qed

theorem pow2_policy_correct_witness:
  "pow2_new 5 = Inr (7, 8) \<and> unat (pow2_bucket_for_hash 7 29) = 5 \<and>
   pow2_next_bucket_count 2 7 = Inr 16"
proof -
  have new: "pow2_new 5 = Inr (7, 8)"
    by (simp add: pow2_new_def pow2_max_bucket_count_def round_up_to_power_of_two_def
        is_power_of_two_def smear_def)
  have "(8 :: u64) \<noteq> pow2_max_bucket_count" by (simp add: pow2_max_bucket_count_def)
  with new show ?thesis using pow2_policy_correct [OF new, of 29] by simp
qed

text \<open>
  Growing a modulo policy with the default ratio of three to two gives a strictly larger
  table, although the count is computed in \<open>double\<close>, and every hash has a bucket in it.\<close>
theorem mod_policy_grows:
  assumes "mod_new 3 2 n = Inr (m_mod, c)" "mod_next_bucket_count 3 2 m_mod = Inr n'"
  shows "c < n' \<and> mod_new 3 2 n' = Inr (n', n') \<and> mod_bucket_for_hash n' h < n'"
proof -
  from mod_new_Inr [OF assms(1)] have m: "c \<le> m_mod" "0 < m_mod" "m_mod \<le> mod_max_bucket_count 3 2"
    by (auto simp: word_neq_0_conv mod_max_default)
  from mod_next_default [OF assms(2) m(2,3)] have n': "m_mod < n'" "n' \<le> mod_max_bucket_count 3 2"
    by auto
  from m(2) n'(1) have "0 < n'" by (rule order_less_trans)
  with n' have "mod_new 3 2 n' = Inr (n', n')" by (simp add: mod_new_def not_less)
  with mod_policy.grown_policy [OF assms] show ?thesis
    using m(1) n'(1) by (auto intro: order_le_less_trans)
qed

theorem mod_policy_grows_witness:
  "mod_next_bucket_count 3 2 10 = Inr 15 \<and> (10 :: u64) < 15 \<and> mod_bucket_for_hash 15 37 < 15"
proof -
  have new: "mod_new 3 2 10 = Inr (10, 10)" by (simp add: mod_new_def mod_max_default)
  have "dbl 10 = 10" "dbl 15 = 15"
    unfolding dbl_def
    by (subst round_fp_at [where e = 3]; simp add: power_int_def power_divide round_half_even_def)+
  then have nxt: "mod_next_bucket_count 3 2 10 = Inr 15"
    by (simp add: mod_next_unfold mod_max_default)
  show ?thesis using mod_policy_grows [OF new nxt] nxt by simp
qed

text \<open>
  The prime policy takes the least prime of its table that is at least the requested count,
  maps a hash to its remainder modulo that prime, and throws exactly when the count is above the
  largest prime.\<close>
theorem prime_policy_correct:
  "(prime_new n = Inl Length_Error \<longleftrightarrow> prime_max_bucket_count < n) \<and>
   (prime_new n = Inr (ip, c) \<longrightarrow> 0 < n \<longrightarrow> c \<in> set PRIMES \<and> n \<le> c \<and>
     (\<forall>q \<in> set PRIMES. n \<le> q \<longrightarrow> c \<le> q) \<and> prime_bucket_for_hash ip h = h mod c)"
proof (intro conjI impI)
  have "length (takeWhile (\<lambda>p. p < n) PRIMES) = length PRIMES \<longleftrightarrow> (\<forall>p \<in> set PRIMES. p < n)"
    using takeWhile_eq_all_conv [of "\<lambda>p. p < n" PRIMES]
    by (metis takeWhile_eq_take take_all_iff order.refl)
  also have "\<dots> \<longleftrightarrow> last PRIMES < n"
    using PRIMES_le_last PRIMES_last by (meson order_le_less_trans)
  finally show "prime_new n = Inl Length_Error \<longleftrightarrow> prime_max_bucket_count < n"
    by (simp add: prime_new_def Let_def lower_bound_def prime_max_bucket_count_def)
next
  assume new: "prime_new n = Inr (ip, c)" and n: "0 < n"
  from prime_new_Inr [OF new] n have ip: "ip < length PRIMES" "n \<le> c" "c = PRIMES ! ip"
    and below: "\<And>j. j < ip \<Longrightarrow> PRIMES ! j < n" by auto
  show "c \<in> set PRIMES" "n \<le> c" "prime_bucket_for_hash ip h = h mod c"
    using ip by (auto simp: prime_bucket_for_hash_def)
  have "c \<le> q" if q: "q \<in> set PRIMES" "n \<le> q" for q
  proof -
    from q(1) obtain j where j: "j < length PRIMES" "q = PRIMES ! j" by (auto simp: in_set_conv_nth)
    with below q(2) have "ip \<le> j" by (meson leD leI)
    with j ip(3) show ?thesis
      using sorted_wrt_nth_less [OF PRIMES_sorted, of ip j] by (cases "ip = j") auto
  qed
  then show "\<forall>q \<in> set PRIMES. n \<le> q \<longrightarrow> c \<le> q" by blast
qed

theorem prime_policy_correct_witness:
  "prime_new 20 = Inr (3, 29) \<and> prime_bucket_for_hash 3 60 = 2"
proof -
  have new: "prime_new 20 = Inr (3, 29)"
    by (simp add: prime_new_def lower_bound_def PRIMES_def Let_def)
  show ?thesis using prime_policy_correct [of 20 3 29 60] new by simp
qed

end
