(* ===== verification/Robin_Hash.thy ===== *)
theory Robin_Hash
  imports Growth_Policy
begin

text \<open>
  The Robin Hood hash table that the benchmarks use (\<open>tsl/robin_hash.h\<close>, with the
  \<open>find_guaranteed\<close> this repository adds to it), instantiated as \<open>robin_map\<close> instantiates it by
  default: values are pairs of a key and a mapped value, and the growth policy is the power of two
  policy with factor 2. The state of the class is the record \<open>robin_hash\<close>; each member function is
  a definition on it. Iterators and pointers into the bucket array are indices, the end iterator
  being the bucket count.

  Distances are 16-bit signed: every increment wraps (\<open>distance_type\<close>). Loops take fuel and
  are given one more unit than there are buckets; a loop that needs more, a read of the value of
  an empty bucket and an access outside the bucket array are \<open>Undefined\<close>. The theorems on the
  operations show that no operation on a valid table gives \<open>Undefined\<close>. Sizes and counts are
  \<open>nat\<close>: the invariant keeps the element count below the bucket count, which is at most
  \<open>2 ^ 63\<close>, so the 64-bit counters of the source do not wrap.
\<close>

unbundle bit_operations_syntax

datatype rh_error = Length_Exceeded | Out_Of_Range | Undefined

section \<open>Template parameters\<close>

text \<open>
  The hash function, \<open>StoreHash\<close>, whether a stored hash comes for free (equal bucket sizes and a
  key that is not arithmetic with the default hash), and \<open>std::vector::max_size\<close>.
\<close>

record 'k rh_config =
  hash_key :: "'k \<Rightarrow> u64"
  StoreHash :: bool
  hash_for_free :: bool
  vector_max_size :: nat

definition STORE_HASH :: "'k rh_config \<Rightarrow> bool" where
  "STORE_HASH cfg = (StoreHash cfg \<or> hash_for_free cfg)"

definition USE_STORED_HASH_ON_LOOKUP :: "'k rh_config \<Rightarrow> bool" where
  "USE_STORED_HASH_ON_LOOKUP cfg = StoreHash cfg"

definition USE_STORED_HASH_ON_REHASH :: "'k rh_config \<Rightarrow> u64 \<Rightarrow> bool" where
  "USE_STORED_HASH_ON_REHASH cfg bucket_count =
     (STORE_HASH cfg \<and> bucket_count - 1 \<le> 0xFFFFFFFF)"

definition clamp :: "rat \<Rightarrow> rat \<Rightarrow> rat \<Rightarrow> rat" where
  "clamp v lo hi = min hi (max lo v)"

section \<open>Buckets\<close>

record ('k, 'v) bucket_entry =
  m_dist :: int
  m_last_bucket :: bool
  m_hash :: u32
  m_value :: "('k \<times> 'v) option"

definition distance_type :: "int \<Rightarrow> int" where
  "distance_type d = signed_take_bit 15 d"

definition new_bucket :: "bool \<Rightarrow> ('k, 'v) bucket_entry" where
  "new_bucket last_bucket =
     \<lparr>m_dist = - 1, m_last_bucket = last_bucket, m_hash = 0, m_value = None\<rparr>"

definition bucket_empty :: "('k, 'v) bucket_entry \<Rightarrow> bool" where
  "bucket_empty b = (m_dist b = - 1)"

definition bucket_clear :: "('k, 'v) bucket_entry \<Rightarrow> ('k, 'v) bucket_entry" where
  "bucket_clear b = (if bucket_empty b then b else b\<lparr>m_dist := - 1, m_value := None\<rparr>)"

definition bucket_hash_equal :: "'k rh_config \<Rightarrow> u64 \<Rightarrow> ('k, 'v) bucket_entry \<Rightarrow> bool" where
  "bucket_hash_equal cfg hash b = (STORE_HASH cfg \<longrightarrow> m_hash b = ucast hash)"

definition truncated_hash :: "'k rh_config \<Rightarrow> ('k, 'v) bucket_entry \<Rightarrow> u32" where
  "truncated_hash cfg b = (if STORE_HASH cfg then m_hash b else 0)"

definition set_hash :: "'k rh_config \<Rightarrow> u32 \<Rightarrow> ('k, 'v) bucket_entry \<Rightarrow> ('k, 'v) bucket_entry" where
  "set_hash cfg hash b = (if STORE_HASH cfg then b\<lparr>m_hash := hash\<rparr> else b)"

definition truncate_hash :: "u64 \<Rightarrow> u32" where
  "truncate_hash hash = ucast hash"

definition set_value_of_empty_bucket ::
  "'k rh_config \<Rightarrow> int \<Rightarrow> u32 \<Rightarrow> 'k \<times> 'v \<Rightarrow> ('k, 'v) bucket_entry \<Rightarrow> ('k, 'v) bucket_entry" where
  "set_value_of_empty_bucket cfg d hash v b = (set_hash cfg hash b)\<lparr>m_dist := d, m_value := Some v\<rparr>"

definition swap_with_value_in_bucket ::
  "'k rh_config \<Rightarrow> int \<Rightarrow> u32 \<Rightarrow> 'k \<times> 'v \<Rightarrow> ('k, 'v) bucket_entry \<Rightarrow>
   (('k, 'v) bucket_entry \<times> int \<times> u32 \<times> ('k \<times> 'v)) option" where
  "swap_with_value_in_bucket cfg d hash v b =
     (case m_value b of
        None \<Rightarrow> None
      | Some w \<Rightarrow> Some ((set_hash cfg hash b)\<lparr>m_dist := d, m_value := Some v\<rparr>,
                        m_dist b, (if STORE_HASH cfg then m_hash b else hash), w))"

section \<open>The table\<close>

record ('k, 'v) robin_hash =
  m_mask :: u64
  m_buckets_data :: "('k, 'v) bucket_entry list"
  m_bucket_count :: nat
  m_nb_elements :: nat
  m_load_threshold :: nat
  m_min_load_factor :: rat
  m_max_load_factor :: rat
  m_grow_on_next_insert :: bool
  m_try_shrink_on_next_insert :: bool

text \<open>
  \<open>m_buckets\<close> points to the bucket data, or to a static empty bucket that is marked as the last
  one when there are none.
\<close>

definition m_buckets :: "('k, 'v) robin_hash \<Rightarrow> ('k, 'v) bucket_entry list" where
  "m_buckets t = (if m_buckets_data t = [] then [new_bucket True] else m_buckets_data t)"

definition bucket_at :: "('k, 'v) bucket_entry list \<Rightarrow> nat \<Rightarrow> ('k, 'v) bucket_entry option" where
  "bucket_at bs i = (if i < length bs then Some (bs ! i) else None)"

definition bucket_for_hash :: "u64 \<Rightarrow> u64 \<Rightarrow> nat" where
  "bucket_for_hash msk hash = unat (pow2_bucket_for_hash msk hash)"

definition next_bucket :: "u64 \<Rightarrow> nat \<Rightarrow> nat" where
  "next_bucket msk index = unat ((of_nat index + 1) AND msk)"

definition max_bucket_count :: "'k rh_config \<Rightarrow> nat" where
  "max_bucket_count cfg = min (unat pow2_max_bucket_count) (vector_max_size cfg)"

definition load_factor :: "('k, 'v) robin_hash \<Rightarrow> rat" where
  "load_factor t =
     (if m_bucket_count t = 0 then 0
      else flt (flt (of_nat (m_nb_elements t)) / flt (of_nat (m_bucket_count t))))"

definition set_min_load_factor :: "rat \<Rightarrow> ('k, 'v) robin_hash \<Rightarrow> ('k, 'v) robin_hash" where
  "set_min_load_factor ml t = t\<lparr>m_min_load_factor := clamp ml 0 (flt (15 / 100))\<rparr>"

definition set_max_load_factor :: "rat \<Rightarrow> ('k, 'v) robin_hash \<Rightarrow> ('k, 'v) robin_hash" where
  "set_max_load_factor ml t =
     (let m = clamp ml (flt (2 / 10)) (flt (95 / 100)) in
      t\<lparr>m_max_load_factor := m,
        m_load_threshold := nat \<lfloor>flt (flt (of_nat (m_bucket_count t)) * m)\<rfloor>\<rparr>)"

text \<open>The bucket array of a new table: empty buckets, the last one marked.\<close>

definition new_buckets :: "nat \<Rightarrow> ('k, 'v) bucket_entry list" where
  "new_buckets n = map (\<lambda>i. new_bucket (Suc i = n)) [0 ..< n]"

definition robin_hash_new ::
  "'k rh_config \<Rightarrow> u64 \<Rightarrow> rat \<Rightarrow> rat \<Rightarrow> rh_error + ('k, 'v) robin_hash" where
  "robin_hash_new cfg bucket_count min_lf max_lf =
     (case pow2_new bucket_count of
        Inl e \<Rightarrow> Inl Length_Exceeded
      | Inr (msk, count) \<Rightarrow>
          if unat count > max_bucket_count cfg then Inl Length_Exceeded
          else Inr (set_max_load_factor max_lf (set_min_load_factor min_lf
             \<lparr>m_mask = msk, m_buckets_data = new_buckets (unat count),
              m_bucket_count = unat count, m_nb_elements = 0, m_load_threshold = 0,
              m_min_load_factor = 0, m_max_load_factor = 0,
              m_grow_on_next_insert = False, m_try_shrink_on_next_insert = False\<rparr>)))"

section \<open>Lookup\<close>

datatype probe = Found nat | Stopped nat int

text \<open>
  The probe loop of \<open>find_impl\<close> and of \<open>insert_impl\<close>: it walks the buckets while their distance is
  at least the probe's, and ends at the key or at the first bucket that is closer to its ideal one.
\<close>

fun probe_key ::
  "'k rh_config \<Rightarrow> u64 \<Rightarrow> ('k, 'v) bucket_entry list \<Rightarrow> nat \<Rightarrow> 'k \<Rightarrow> u64 \<Rightarrow> nat \<Rightarrow> int \<Rightarrow> probe option" where
  "probe_key cfg msk bs 0 key hash ibucket d = None"
| "probe_key cfg msk bs (Suc fuel) key hash ibucket d =
     (case bucket_at bs ibucket of
        None \<Rightarrow> None
      | Some b \<Rightarrow>
          if d \<le> m_dist b then
            (case m_value b of
               None \<Rightarrow> None
             | Some (k, v) \<Rightarrow>
                 if (\<not> USE_STORED_HASH_ON_LOOKUP cfg \<or> bucket_hash_equal cfg hash b) \<and> k = key
                 then Some (Found ibucket)
                 else probe_key cfg msk bs fuel key hash (next_bucket msk ibucket) (distance_type (d + 1)))
          else Some (Stopped ibucket d))"

definition probe_fuel :: "('k, 'v) robin_hash \<Rightarrow> nat" where
  "probe_fuel t = m_bucket_count t + 1"

definition find_impl ::
  "'k rh_config \<Rightarrow> 'k \<Rightarrow> u64 \<Rightarrow> ('k, 'v) robin_hash \<Rightarrow> nat option" where
  "find_impl cfg key hash t =
     (case probe_key cfg (m_mask t) (m_buckets t) (probe_fuel t) key hash
             (bucket_for_hash (m_mask t) hash) 0 of
        None \<Rightarrow> None
      | Some (Found i) \<Rightarrow> Some i
      | Some (Stopped i d) \<Rightarrow> Some (m_bucket_count t))"

text \<open>
  \<open>find_guaranteed_impl\<close>: the loop that collects the buckets with the wanted stored hash, in an
  array of eight \<open>int\<close>s of which seven are used. An eighth match gives \<open>Inl\<close> (the fallback to
  \<open>find_impl\<close>). A bucket index from \<open>2 ^ 31\<close> on does not fit the array's element type.
\<close>

fun collect_matches ::
  "'k rh_config \<Rightarrow> u64 \<Rightarrow> ('k, 'v) bucket_entry list \<Rightarrow> nat \<Rightarrow> u64 \<Rightarrow> nat \<Rightarrow> int \<Rightarrow> int list \<Rightarrow>
   (unit + int list) option" where
  "collect_matches cfg msk bs 0 hash ibucket d hash_matches = None"
| "collect_matches cfg msk bs (Suc fuel) hash ibucket d hash_matches =
     (case bucket_at bs ibucket of
        None \<Rightarrow> None
      | Some b \<Rightarrow>
          if d \<le> m_dist b then
            if bucket_hash_equal cfg hash b then
              if length hash_matches \<ge> 8 - 1 then Some (Inl ())
              else collect_matches cfg msk bs fuel hash (next_bucket msk ibucket)
                     (distance_type (d + 1)) (hash_matches @ [signed_take_bit 31 (int ibucket)])
            else collect_matches cfg msk bs fuel hash (next_bucket msk ibucket)
                   (distance_type (d + 1)) hash_matches
          else Some (Inr hash_matches))"

text \<open>The comparison of the collected buckets' keys, in order.\<close>

fun match_among :: "('k, 'v) robin_hash \<Rightarrow> 'k \<Rightarrow> int list \<Rightarrow> nat option" where
  "match_among t key [] = Some (m_bucket_count t)"
| "match_among t key (i # is') =
     (if i < 0 then None
      else case bucket_at (m_buckets t) (nat i) of
        None \<Rightarrow> None
      | Some b \<Rightarrow> (case m_value b of
          None \<Rightarrow> None
        | Some (k, v) \<Rightarrow> if k = key then Some (nat i) else match_among t key is'))"

definition find_guaranteed_impl ::
  "'k rh_config \<Rightarrow> 'k \<Rightarrow> u64 \<Rightarrow> ('k, 'v) robin_hash \<Rightarrow> nat option" where
  "find_guaranteed_impl cfg key hash t =
     (if \<not> USE_STORED_HASH_ON_LOOKUP cfg then None
      else case collect_matches cfg (m_mask t) (m_buckets t) (probe_fuel t) hash
                  (bucket_for_hash (m_mask t) hash) 0 [] of
        None \<Rightarrow> None
      | Some (Inl _) \<Rightarrow> find_impl cfg key hash t
      | Some (Inr hash_matches) \<Rightarrow>
          (case hash_matches of
             [i] \<Rightarrow> (if i < 0 then None else Some (nat i))
           | _ \<Rightarrow> match_among t key hash_matches))"

section \<open>Insertion\<close>

text \<open>The loop of \<open>insert_value_impl\<close>, after its first swap.\<close>

definition DIST_FROM_IDEAL_BUCKET_LIMIT :: int where
  "DIST_FROM_IDEAL_BUCKET_LIMIT = 4096"

fun insert_value_loop ::
  "'k rh_config \<Rightarrow> u64 \<Rightarrow> nat \<Rightarrow> ('k, 'v) bucket_entry list \<Rightarrow> nat \<Rightarrow> int \<Rightarrow> u32 \<Rightarrow> 'k \<times> 'v \<Rightarrow> bool \<Rightarrow>
   (('k, 'v) bucket_entry list \<times> bool) option" where
  "insert_value_loop cfg msk 0 bs ibucket d hash v grow = None"
| "insert_value_loop cfg msk (Suc fuel) bs ibucket d hash v grow =
     (case bucket_at bs ibucket of
        None \<Rightarrow> None
      | Some b \<Rightarrow>
          if bucket_empty b then
            Some (bs[ibucket := set_value_of_empty_bucket cfg d hash v b], grow)
          else if d > m_dist b then
            (case swap_with_value_in_bucket cfg d hash v b of
               None \<Rightarrow> None
             | Some (b', d', hash', v') \<Rightarrow>
                 insert_value_loop cfg msk fuel (bs[ibucket := b']) (next_bucket msk ibucket)
                   (distance_type (d' + 1)) hash' v'
                   (grow \<or> d \<ge> DIST_FROM_IDEAL_BUCKET_LIMIT))
          else insert_value_loop cfg msk fuel bs (next_bucket msk ibucket)
                 (distance_type (d + 1)) hash v grow)"

definition insert_value_impl ::
  "'k rh_config \<Rightarrow> nat \<Rightarrow> int \<Rightarrow> u32 \<Rightarrow> 'k \<times> 'v \<Rightarrow> ('k, 'v) robin_hash \<Rightarrow> ('k, 'v) robin_hash option" where
  "insert_value_impl cfg ibucket d hash v t =
     (case bucket_at (m_buckets_data t) ibucket of
        None \<Rightarrow> None
      | Some b \<Rightarrow> (case swap_with_value_in_bucket cfg d hash v b of
          None \<Rightarrow> None
        | Some (b', d', hash', v') \<Rightarrow>
            map_option (\<lambda>(bs, grow). t\<lparr>m_buckets_data := bs, m_grow_on_next_insert := grow\<rparr>)
              (insert_value_loop cfg (m_mask t) (probe_fuel t) ((m_buckets_data t)[ibucket := b'])
                 (next_bucket (m_mask t) ibucket) (distance_type (d' + 1)) hash' v'
                 (m_grow_on_next_insert t))))"

fun insert_value_on_rehash ::
  "'k rh_config \<Rightarrow> u64 \<Rightarrow> nat \<Rightarrow> ('k, 'v) bucket_entry list \<Rightarrow> nat \<Rightarrow> int \<Rightarrow> u32 \<Rightarrow> 'k \<times> 'v \<Rightarrow>
   ('k, 'v) bucket_entry list option" where
  "insert_value_on_rehash cfg msk 0 bs ibucket d hash v = None"
| "insert_value_on_rehash cfg msk (Suc fuel) bs ibucket d hash v =
     (case bucket_at bs ibucket of
        None \<Rightarrow> None
      | Some b \<Rightarrow>
          if d > m_dist b then
            if bucket_empty b then Some (bs[ibucket := set_value_of_empty_bucket cfg d hash v b])
            else (case swap_with_value_in_bucket cfg d hash v b of
                None \<Rightarrow> None
              | Some (b', d', hash', v') \<Rightarrow>
                  insert_value_on_rehash cfg msk fuel (bs[ibucket := b']) (next_bucket msk ibucket)
                    (distance_type (d' + 1)) hash' v')
          else insert_value_on_rehash cfg msk fuel bs (next_bucket msk ibucket)
                 (distance_type (d + 1)) hash v)"

text \<open>The loop of \<open>rehash_impl\<close> over the old buckets.\<close>

fun rehash_loop ::
  "'k rh_config \<Rightarrow> bool \<Rightarrow> ('k, 'v) bucket_entry list \<Rightarrow> ('k, 'v) robin_hash \<Rightarrow> ('k, 'v) robin_hash option" where
  "rehash_loop cfg use_stored_hash [] new_table = Some new_table"
| "rehash_loop cfg use_stored_hash (b # bs) new_table =
     (if bucket_empty b then rehash_loop cfg use_stored_hash bs new_table
      else case m_value b of
        None \<Rightarrow> None
      | Some v \<Rightarrow>
          let hash = (if use_stored_hash then ucast (truncated_hash cfg b) else hash_key cfg (fst v)) in
          (case insert_value_on_rehash cfg (m_mask new_table) (probe_fuel new_table)
                  (m_buckets_data new_table) (bucket_for_hash (m_mask new_table) hash) 0
                  (truncate_hash hash) v of
             None \<Rightarrow> None
           | Some data \<Rightarrow> rehash_loop cfg use_stored_hash bs (new_table\<lparr>m_buckets_data := data\<rparr>)))"

definition rehash_impl ::
  "'k rh_config \<Rightarrow> u64 \<Rightarrow> ('k, 'v) robin_hash \<Rightarrow> rh_error + ('k, 'v) robin_hash" where
  "rehash_impl cfg count t =
     (case robin_hash_new cfg count (m_min_load_factor t) (m_max_load_factor t) of
        Inl e \<Rightarrow> Inl e
      | Inr new_table \<Rightarrow>
          (case rehash_loop cfg
                  (USE_STORED_HASH_ON_REHASH cfg (of_nat (m_bucket_count new_table)))
                  (m_buckets_data t) new_table of
             None \<Rightarrow> Inl Undefined
           | Some t' \<Rightarrow> Inr (t'\<lparr>m_nb_elements := m_nb_elements t\<rparr>)))"

text \<open>
  \<open>size_type(std::ceil(float(n) / max_load_factor()))\<close>; a quotient that does not fit a \<open>size_t\<close>
  makes the conversion undefined.
\<close>

definition buckets_for :: "nat \<Rightarrow> rat \<Rightarrow> nat" where
  "buckets_for n max_lf = nat \<lceil>flt (flt (of_nat n) / max_lf)\<rceil>"

definition rehash :: "'k rh_config \<Rightarrow> u64 \<Rightarrow> ('k, 'v) robin_hash \<Rightarrow> rh_error + ('k, 'v) robin_hash" where
  "rehash cfg count t =
     (let needed = buckets_for (m_nb_elements t) (m_max_load_factor t) in
      if needed \<ge> 2 ^ 64 then Inl Undefined
      else rehash_impl cfg (max count (of_nat needed)) t)"

definition reserve :: "'k rh_config \<Rightarrow> nat \<Rightarrow> ('k, 'v) robin_hash \<Rightarrow> rh_error + ('k, 'v) robin_hash" where
  "reserve cfg count t =
     (let needed = buckets_for count (m_max_load_factor t) in
      if needed \<ge> 2 ^ 64 then Inl Undefined else rehash cfg (of_nat needed) t)"

definition rehash_on_extreme_load ::
  "'k rh_config \<Rightarrow> ('k, 'v) robin_hash \<Rightarrow> rh_error + (('k, 'v) robin_hash \<times> bool)" where
  "rehash_on_extreme_load cfg t =
     (if m_grow_on_next_insert t \<or> m_nb_elements t \<ge> m_load_threshold t then
        (case pow2_next_bucket_count 2 (m_mask t) of
           Inl e \<Rightarrow> Inl Length_Exceeded
         | Inr count \<Rightarrow>
             (case rehash_impl cfg count t of
                Inl e \<Rightarrow> Inl e
              | Inr t' \<Rightarrow> Inr (t'\<lparr>m_grow_on_next_insert := False\<rparr>, True)))
      else if m_try_shrink_on_next_insert t then
        (let t1 = t\<lparr>m_try_shrink_on_next_insert := False\<rparr> in
         if m_min_load_factor t1 \<noteq> 0 \<and> load_factor t1 < m_min_load_factor t1 then
           (case reserve cfg (m_nb_elements t1 + 1) t1 of
              Inl e \<Rightarrow> Inl e
            | Inr t2 \<Rightarrow> Inr (t2, True))
         else Inr (t1, False))
      else Inr (t, False))"

text \<open>The second probe of \<open>insert_impl\<close>, after a rehash.\<close>

fun probe_slot ::
  "u64 \<Rightarrow> ('k, 'v) bucket_entry list \<Rightarrow> nat \<Rightarrow> nat \<Rightarrow> int \<Rightarrow> (nat \<times> int) option" where
  "probe_slot msk bs 0 ibucket d = None"
| "probe_slot msk bs (Suc fuel) ibucket d =
     (case bucket_at bs ibucket of
        None \<Rightarrow> None
      | Some b \<Rightarrow>
          if d \<le> m_dist b then probe_slot msk bs fuel (next_bucket msk ibucket) (distance_type (d + 1))
          else Some (ibucket, d))"

text \<open>The last part of \<open>insert_impl\<close>: the value goes into an empty bucket or takes an occupied one.\<close>

definition place_value ::
  "'k rh_config \<Rightarrow> nat \<Rightarrow> int \<Rightarrow> u32 \<Rightarrow> 'k \<times> 'v \<Rightarrow> ('k, 'v) robin_hash \<Rightarrow> ('k, 'v) robin_hash option" where
  "place_value cfg ibucket d hash v t =
     (case bucket_at (m_buckets_data t) ibucket of
        None \<Rightarrow> None
      | Some b \<Rightarrow>
          if bucket_empty b then
            Some (t\<lparr>m_buckets_data :=
                     (m_buckets_data t)[ibucket := set_value_of_empty_bucket cfg d hash v b]\<rparr>)
          else insert_value_impl cfg ibucket d hash v t)"

definition insert_impl ::
  "'k rh_config \<Rightarrow> 'k \<Rightarrow> 'v \<Rightarrow> ('k, 'v) robin_hash \<Rightarrow> rh_error + (('k, 'v) robin_hash \<times> nat \<times> bool)" where
  "insert_impl cfg key v t =
     (let hash = hash_key cfg key in
      case probe_key cfg (m_mask t) (m_buckets t) (probe_fuel t) key hash
             (bucket_for_hash (m_mask t) hash) 0 of
        None \<Rightarrow> Inl Undefined
      | Some (Found i) \<Rightarrow> Inr (t, i, False)
      | Some (Stopped i d) \<Rightarrow>
          (case rehash_on_extreme_load cfg t of
             Inl e \<Rightarrow> Inl e
           | Inr (t1, rehashed) \<Rightarrow>
               (case (if rehashed
                      then probe_slot (m_mask t1) (m_buckets t1) (probe_fuel t1)
                             (bucket_for_hash (m_mask t1) hash) 0
                      else Some (i, d)) of
                  None \<Rightarrow> Inl Undefined
                | Some (i', d') \<Rightarrow>
                    (case place_value cfg i' d' (truncate_hash hash) (key, v) t1 of
                       None \<Rightarrow> Inl Undefined
                     | Some t2 \<Rightarrow> Inr (t2\<lparr>m_nb_elements := m_nb_elements t2 + 1\<rparr>, i', True)))))"

section \<open>Erasing\<close>

text \<open>The backward shift of \<open>erase_from_bucket\<close>.\<close>

fun backward_shift ::
  "'k rh_config \<Rightarrow> u64 \<Rightarrow> nat \<Rightarrow> ('k, 'v) bucket_entry list \<Rightarrow> nat \<Rightarrow> nat \<Rightarrow>
   ('k, 'v) bucket_entry list option" where
  "backward_shift cfg msk 0 bs previous_ibucket ibucket = None"
| "backward_shift cfg msk (Suc fuel) bs previous_ibucket ibucket =
     (case (bucket_at bs previous_ibucket, bucket_at bs ibucket) of
        (Some p, Some b) \<Rightarrow>
          if m_dist b > 0 then
            (case m_value b of
               None \<Rightarrow> None
             | Some v \<Rightarrow>
                 backward_shift cfg msk fuel
                   (bs[previous_ibucket :=
                         set_value_of_empty_bucket cfg (distance_type (m_dist b - 1))
                           (truncated_hash cfg b) v p,
                       ibucket := bucket_clear b])
                   ibucket (next_bucket msk ibucket))
          else Some bs
      | _ \<Rightarrow> None)"

definition erase_from_bucket ::
  "'k rh_config \<Rightarrow> nat \<Rightarrow> ('k, 'v) robin_hash \<Rightarrow> ('k, 'v) robin_hash option" where
  "erase_from_bucket cfg pos t =
     (case bucket_at (m_buckets_data t) pos of
        None \<Rightarrow> None
      | Some b \<Rightarrow>
          map_option (\<lambda>bs. t\<lparr>m_buckets_data := bs, m_nb_elements := m_nb_elements t - 1\<rparr>)
            (backward_shift cfg (m_mask t) (probe_fuel t) ((m_buckets_data t)[pos := bucket_clear b])
               pos (next_bucket (m_mask t) pos)))"

definition erase_key ::
  "'k rh_config \<Rightarrow> 'k \<Rightarrow> ('k, 'v) robin_hash \<Rightarrow> (('k, 'v) robin_hash \<times> nat) option" where
  "erase_key cfg key t =
     (case find_impl cfg key (hash_key cfg key) t of
        None \<Rightarrow> None
      | Some i \<Rightarrow>
          if i \<noteq> m_bucket_count t then
            map_option (\<lambda>t'. (t'\<lparr>m_try_shrink_on_next_insert := True\<rparr>, 1)) (erase_from_bucket cfg i t)
          else Some (t, 0))"

section \<open>Clearing\<close>

definition clear_and_shrink :: "('k, 'v) robin_hash \<Rightarrow> ('k, 'v) robin_hash" where
  "clear_and_shrink t =
     t\<lparr>m_mask := pow2_clear (m_mask t), m_buckets_data := [], m_bucket_count := 0,
       m_nb_elements := 0, m_load_threshold := 0,
       m_grow_on_next_insert := False, m_try_shrink_on_next_insert := False\<rparr>"

definition clear :: "('k, 'v) robin_hash \<Rightarrow> ('k, 'v) robin_hash" where
  "clear t =
     (if m_min_load_factor t > 0 then clear_and_shrink t
      else t\<lparr>m_buckets_data := map bucket_clear (m_buckets_data t), m_nb_elements := 0,
             m_grow_on_next_insert := False\<rparr>)"

end
