(* ===== verification/Robin_Inv.thy ===== *)
theory Robin_Inv
  imports Robin_Hash "HOL-Library.Multiset"
begin

text \<open>
  The invariant of the bucket array of the Robin Hood table and what its loops do to it. The
  array is a ring in which the distance of a bucket is at most one more than that of the bucket
  before it; an occupied bucket is as far from the ideal bucket of its key as its distance says.
  From this follow where a key can be found, where a probe stops, and that a displaced value can
  be carried on to the next bucket.
\<close>

unbundle bit_operations_syntax

section \<open>Positions in the ring\<close>

definition nxt :: "nat \<Rightarrow> nat \<Rightarrow> nat" where
  "nxt n i = (i + 1) mod n"

lemma nxt_less [simp, intro]: "i < n \<Longrightarrow> nxt n i < n"
  unfolding nxt_def by (intro mod_less_divisor) simp

lemma ring_less: "i < n \<Longrightarrow> a mod n < (n :: nat)"
  by (intro mod_less_divisor) simp

lemma nxt_mod: "nxt n (i mod n) = (i + 1) mod n"
  by (simp add: nxt_def mod_simps)

lemma ring_offset: "i < n \<Longrightarrow> j < n \<Longrightarrow> \<exists>m < n. i = (j + m) mod (n :: nat)"
proof (cases "j \<le> i")
  case True
  assume "i < n"
  with True show ?thesis by (intro exI [of _ "i - j"]) simp
next
  case False
  assume "i < n" "j < n"
  with False show ?thesis by (intro exI [of _ "n - j + i"]) simp
qed

lemma ring_inj_le:
  assumes "(a + e) mod n = (a + e') mod n" "e' < n" "e \<le> (e' :: nat)"
  shows "e = e'"
proof -
  from assms(3) have "n dvd a + e' - (a + e)"
    using mod_eq_dvd_iff_nat [of "a + e" "a + e'" n] assms(1) by simp
  then have "n dvd e' - e" by simp
  with assms(2,3) show ?thesis by (metis diff_is_0_eq' dvd_imp_le le_antisym less_imp_diff_less
      linorder_not_le zero_less_diff)
qed

lemma ring_inj: "(a + e) mod n = (a + e') mod n \<Longrightarrow> e < n \<Longrightarrow> e' < n \<Longrightarrow> e = (e' :: nat)"
  using ring_inj_le [of a e n e'] ring_inj_le [of a e' n e] by (metis nat_le_linear)

lemma ring_away: "p < n \<Longrightarrow> 0 < m \<Longrightarrow> m < n \<Longrightarrow> (p + m) mod n \<noteq> (p :: nat)"
  using ring_inj [of p m n 0] by fastforce

lemma ring_back: "(a + 1) mod n = nxt n p \<Longrightarrow> p < n \<Longrightarrow> a mod n = p"
proof -
  assume "(a + 1) mod n = nxt n p" and p: "p < n"
  then have "Suc (a mod n) mod n = Suc p mod n" by (simp add: nxt_def mod_simps)
  moreover have "a mod n < n" using p by simp
  ultimately show ?thesis using p ring_inj [of 1 "a mod n" n p] by simp
qed

lemma nxt_neq: "p < n \<Longrightarrow> 1 < n \<Longrightarrow> nxt n p \<noteq> p"
  using ring_inj [of p 1 n 0] by (auto simp: nxt_def)

lemma nxt_inj: "nxt n i = nxt n j \<Longrightarrow> i < n \<Longrightarrow> j < n \<Longrightarrow> i = j"
  using ring_back [of i n j] by (simp add: nxt_def)

section \<open>The invariant of the bucket array\<close>

definition home :: "'k rh_config \<Rightarrow> nat \<Rightarrow> 'k \<Rightarrow> nat" where
  "home cfg n k = unat (hash_key cfg k) mod n"

definition bucket_ok :: "'k rh_config \<Rightarrow> nat \<Rightarrow> nat \<Rightarrow> ('k, 'v) bucket_entry \<Rightarrow> bool" where
  "bucket_ok cfg n i b =
     (case m_value b of
        None \<Rightarrow> m_dist b = - 1
      | Some (k, v) \<Rightarrow> 0 \<le> m_dist b \<and> (home cfg n k + nat (m_dist b)) mod n = i \<and>
                       (STORE_HASH cfg \<longrightarrow> m_hash b = ucast (hash_key cfg k)))"

definition ring_ok :: "('k, 'v) bucket_entry list \<Rightarrow> bool" where
  "ring_ok bs = (\<forall>i < length bs. m_dist (bs ! nxt (length bs) i) \<le> m_dist (bs ! i) + 1)"

definition last_ok :: "('k, 'v) bucket_entry list \<Rightarrow> bool" where
  "last_ok bs = (\<forall>i < length bs. m_last_bucket (bs ! i) = (Suc i = length bs))"

definition array_ok :: "'k rh_config \<Rightarrow> ('k, 'v) bucket_entry list \<Rightarrow> bool" where
  "array_ok cfg bs = ((\<forall>i < length bs. bucket_ok cfg (length bs) i (bs ! i)) \<and> ring_ok bs \<and> last_ok bs)"

text \<open>The values of the array, in bucket order.\<close>

definition vals :: "('k, 'v) bucket_entry list \<Rightarrow> ('k \<times> 'v) list" where
  "vals bs = List.map_filter m_value bs"

lemma vals_simps [simp]:
  "vals [] = []"
  "vals (b # bs) = (case m_value b of None \<Rightarrow> vals bs | Some v \<Rightarrow> v # vals bs)"
  "vals (bs @ bs') = vals bs @ vals bs'"
  by (simp_all add: vals_def map_filter_def split: option.split)

lemma set_vals: "set (vals bs) = {v. \<exists>i < length bs. m_value (bs ! i) = Some v}"
  by (auto simp: vals_def map_filter_def in_set_conv_nth) force+

lemma length_vals: "length (vals bs) = card {i. i < length bs \<and> m_value (bs ! i) \<noteq> None}"
  by (simp add: vals_def map_filter_def length_filter_conv_card)

definition opt_mset :: "'a option \<Rightarrow> 'a multiset" where
  "opt_mset x = (case x of None \<Rightarrow> {#} | Some v \<Rightarrow> {#v#})"

lemma opt_mset_simps [simp]: "opt_mset None = {#}" "opt_mset (Some v) = {#v#}"
  by (simp_all add: opt_mset_def)

lemma mset_vals_update:
  assumes "i < length bs"
  shows "mset (vals (bs[i := b])) + opt_mset (m_value (bs ! i)) = mset (vals bs) + opt_mset (m_value b)"
proof -
  have upd: "bs[i := b] = take i bs @ b # drop (Suc i) bs" using assms by (rule upd_conv_take_nth_drop)
  have bs: "bs = take i bs @ bs ! i # drop (Suc i) bs" using assms by (rule id_take_nth_drop)
  have "mset (vals bs) = mset (vals (take i bs)) + opt_mset (m_value (bs ! i)) + mset (vals (drop (Suc i) bs))"
    by (subst bs) (simp split: option.split)
  then show ?thesis by (subst upd) (simp split: option.split)
qed

lemma bucket_ok_dist:
  "bucket_ok cfg n i b \<Longrightarrow> m_dist b \<ge> - 1 \<and> (m_dist b = - 1 \<longleftrightarrow> m_value b = None)"
  by (auto simp: bucket_ok_def split: option.splits)

lemmas array_okD = array_ok_def [THEN iffD1]

lemma array_bucket: "array_ok cfg bs \<Longrightarrow> i < length bs \<Longrightarrow> bucket_ok cfg (length bs) i (bs ! i)"
  by (simp add: array_ok_def)

lemma array_dist:
  assumes "array_ok cfg bs" "i < length bs"
  shows "m_dist (bs ! i) \<ge> - 1" "m_dist (bs ! i) = - 1 \<longleftrightarrow> m_value (bs ! i) = None"
    "bucket_empty (bs ! i) \<longleftrightarrow> m_value (bs ! i) = None"
  using bucket_ok_dist [OF array_bucket [OF assms]] by (auto simp: bucket_empty_def)

section \<open>Consequences of the ring condition\<close>

lemma ring_forward:
  assumes "ring_ok bs" "i < length bs"
  shows "m_dist (bs ! ((i + m) mod length bs)) \<le> m_dist (bs ! i) + int m"
proof (induction m)
  case 0
  with assms(2) show ?case by simp
next
  case (Suc m)
  let ?n = "length bs"
  have "(i + m) mod ?n < ?n" using assms(2) by (rule ring_less)
  then have "m_dist (bs ! nxt ?n ((i + m) mod ?n)) \<le> m_dist (bs ! ((i + m) mod ?n)) + 1"
    using assms(1) by (simp add: ring_ok_def)
  with Suc show ?case by (simp add: nxt_mod)
qed

text \<open>All buckets from the ideal one of a key up to its own have at least the probe's distance.\<close>

lemma probe_path:
  assumes "array_ok cfg bs" "i < length bs" "m_value (bs ! i) = Some (k, v)" "int e \<le> m_dist (bs ! i)"
  shows "int e \<le> m_dist (bs ! ((home cfg (length bs) k + e) mod length bs))"
proof -
  let ?n = "length bs" and ?d = "nat (m_dist (bs ! i))"
  have pos: "(home cfg ?n k + ?d) mod ?n = i" and d0: "0 \<le> m_dist (bs ! i)"
    using array_bucket [OF assms(1,2)] assms(3) by (auto simp: bucket_ok_def)
  define j where "j = (home cfg ?n k + e) mod ?n"
  have "j < ?n" unfolding j_def using assms(2) by (rule ring_less)
  moreover have "ring_ok bs" using assms(1) by (simp add: array_ok_def)
  ultimately have "m_dist (bs ! ((j + (?d - e)) mod ?n)) \<le> m_dist (bs ! j) + int (?d - e)"
    by (intro ring_forward)
  moreover have "(j + (?d - e)) mod ?n = i"
  proof -
    have "(j + (?d - e)) mod ?n = (home cfg ?n k + e + (?d - e)) mod ?n"
      unfolding j_def by (rule mod_add_left_eq)
    also have "home cfg ?n k + e + (?d - e) = home cfg ?n k + ?d" using assms(4) d0 by simp
    finally show ?thesis using pos by simp
  qed
  ultimately show ?thesis using assms(4) d0 by (simp add: j_def)
qed

lemma dist_below_empty:
  assumes "ring_ok bs" "j < length bs" "m_dist (bs ! j) = - 1" "i < length bs"
  shows "m_dist (bs ! i) + 2 \<le> int (length bs)"
proof -
  obtain m where m: "m < length bs" "i = (j + m) mod length bs"
    using ring_offset [OF assms(4,2)] by blast
  have "m_dist (bs ! i) \<le> - 1 + int m"
    using ring_forward [OF assms(1,2), of m] assms(3) m(2) by simp
  with m(1) show ?thesis by simp
qed

lemma vals_empty_ex:
  assumes "array_ok cfg bs" "length (vals bs) < length bs"
  shows "\<exists>j < length bs. m_dist (bs ! j) = - 1"
proof (rule ccontr)
  assume "\<not> ?thesis"
  then have "{i. i < length bs \<and> m_value (bs ! i) \<noteq> None} = {i. i < length bs}"
    using array_dist(2) [OF assms(1)] by auto
  with assms(2) show False by (simp add: length_vals)
qed

text \<open>A value is never farther from its ideal bucket than there are other values.\<close>

lemma dist_below_count:
  assumes "array_ok cfg bs" "length (vals bs) < length bs" "i < length bs"
  shows "m_dist (bs ! i) < int (length (vals bs))"
proof (cases "m_value (bs ! i)")
  case None
  with array_dist(2) [OF assms(1,3)] show ?thesis by simp
next
  case (Some kv)
  obtain k v where kv: "m_value (bs ! i) = Some (k, v)" using Some by (cases kv) simp
  let ?n = "length bs" and ?d = "nat (m_dist (bs ! i))"
  have d0: "0 \<le> m_dist (bs ! i)"
    using array_bucket [OF assms(1,3)] kv by (simp add: bucket_ok_def)
  obtain j where "j < ?n" "m_dist (bs ! j) = - 1" using vals_empty_ex [OF assms(1,2)] by blast
  with assms(1,3) have dn: "?d < ?n" using dist_below_empty [of bs j i] d0 by (simp add: array_ok_def)
  let ?f = "\<lambda>e. (home cfg ?n k + e) mod ?n"
  have inj: "inj_on ?f {0 .. ?d}"
    by (rule inj_onI, rule ring_inj) (use dn in auto)
  have "?f ` {0 .. ?d} \<subseteq> {i. i < ?n \<and> m_value (bs ! i) \<noteq> None}"
  proof
    fix x assume "x \<in> ?f ` {0 .. ?d}"
    then obtain e where e: "e \<le> ?d" "x = ?f e" by auto
    have x: "x < ?n" unfolding e(2) using assms(3) by (rule ring_less)
    have "int e \<le> m_dist (bs ! x)"
      using probe_path [OF assms(1,3) kv, of e] e d0 by simp
    with array_dist(2) [OF assms(1) x] x show "x \<in> {i. i < ?n \<and> m_value (bs ! i) \<noteq> None}" by auto
  qed
  then have "card (?f ` {0 .. ?d}) \<le> length (vals bs)"
    unfolding length_vals by (intro card_mono) simp_all
  then show ?thesis using d0 by (simp add: card_image [OF inj])
qed

section \<open>The mask\<close>

definition mask_ok :: "u64 \<Rightarrow> nat \<Rightarrow> bool" where
  "mask_ok msk n = (\<exists>k \<le> 63. n = 2 ^ k \<and> msk = mask k)"

lemma mask_ok_pos: "mask_ok msk n \<Longrightarrow> 0 < n"
  by (auto simp: mask_ok_def)

lemma mask_ok_bucket: "mask_ok msk n \<Longrightarrow> bucket_for_hash msk h = unat h mod n"
  by (auto simp: mask_ok_def bucket_for_hash_def pow2_bucket)

lemma mask_ok_next:
  assumes "mask_ok msk n" "i < n"
  shows "next_bucket msk i = nxt n i"
proof -
  obtain k where k: "k \<le> 63" "n = 2 ^ k" "msk = mask k" using assms(1) by (auto simp: mask_ok_def)
  have "(2 :: nat) ^ k \<le> 2 ^ 63" using k(1) by (intro power_increasing) simp_all
  with assms(2) k(2) have "i + 1 < 2 ^ LENGTH(64)" by simp
  from unat_of_nat_small [OF this] have "unat (of_nat i + 1 :: u64) = i + 1" by (simp add: add.commute)
  then show ?thesis by (simp add: next_bucket_def nxt_def k(2,3) unat_and_mask)
qed

section \<open>Distances\<close>

lemma distance_type_id: "- 32768 \<le> d \<Longrightarrow> d < 32768 \<Longrightarrow> distance_type d = d"
  unfolding distance_type_def by (rule signed_take_bit_int_eq_self) simp_all

lemma distance_type_Suc: "e < 32767 \<Longrightarrow> distance_type (int e + 1) = int (Suc e)"
  by (simp add: distance_type_id)

section \<open>Replacing a bucket\<close>

definition carry_ok ::
  "'k rh_config \<Rightarrow> ('k, 'v) bucket_entry list \<Rightarrow> nat \<Rightarrow> int \<Rightarrow> u32 \<Rightarrow> 'k \<Rightarrow> bool" where
  "carry_ok cfg bs i d h k =
     (i < length bs \<and> 0 \<le> d \<and> (home cfg (length bs) k + nat d) mod length bs = i \<and>
      (STORE_HASH cfg \<longrightarrow> h = ucast (hash_key cfg k)) \<and>
      (\<forall>j < length bs. nxt (length bs) j = i \<longrightarrow> d \<le> m_dist (bs ! j) + 1))"

lemma put_bucket_simps [simp]:
  "m_dist (set_value_of_empty_bucket cfg d h v b) = d"
  "m_value (set_value_of_empty_bucket cfg d h v b) = Some v"
  "m_last_bucket (set_value_of_empty_bucket cfg d h v b) = m_last_bucket b"
  by (simp_all add: set_value_of_empty_bucket_def set_hash_def)

lemma swap_put:
  "swap_with_value_in_bucket cfg d h v b =
     map_option (\<lambda>w. (set_value_of_empty_bucket cfg d h v b, m_dist b,
                      if STORE_HASH cfg then m_hash b else h, w)) (m_value b)"
  by (simp add: swap_with_value_in_bucket_def set_value_of_empty_bucket_def split: option.split)

lemma put_bucket_ok:
  "carry_ok cfg bs i d h k \<Longrightarrow>
   bucket_ok cfg (length bs) i (set_value_of_empty_bucket cfg d h (k, v) b)"
  by (simp add: carry_ok_def bucket_ok_def) (simp add: set_value_of_empty_bucket_def set_hash_def)

text \<open>A carried value may take a bucket whose distance is smaller.\<close>

lemma array_put:
  assumes ok: "array_ok cfg bs" and c: "carry_ok cfg bs i d h k" and d: "m_dist (bs ! i) < d"
  shows "array_ok cfg (bs[i := set_value_of_empty_bucket cfg d h (k, v) (bs ! i)])"
proof -
  let ?n = "length bs" and ?b = "set_value_of_empty_bucket cfg d h (k, v) (bs ! i)"
  let ?bs = "bs[i := ?b]"
  have i: "i < ?n" using c by (simp add: carry_ok_def)
  have "m_dist (?bs ! nxt ?n j) \<le> m_dist (?bs ! j) + 1" if j: "j < ?n" for j
  proof -
    have nj: "nxt ?n j < ?n" using j by simp
    have up: "m_dist (bs ! j) \<le> m_dist (?bs ! j)" using d i j by (auto simp: nth_list_update)
    show ?thesis
    proof (cases "nxt ?n j = i")
      case True
      then have "d \<le> m_dist (bs ! j) + 1" using c j by (simp add: carry_ok_def)
      with True i up show ?thesis by simp
    next
      case False
      have "m_dist (bs ! nxt ?n j) \<le> m_dist (bs ! j) + 1"
        using ok j by (simp add: array_ok_def ring_ok_def)
      with False up show ?thesis by simp
    qed
  qed
  then have "ring_ok ?bs" by (simp add: ring_ok_def)
  moreover have "last_ok ?bs"
    using ok i by (auto simp: array_ok_def last_ok_def nth_list_update)
  moreover have "bucket_ok cfg ?n j (?bs ! j)" if "j < ?n" for j
    using put_bucket_ok [OF c, of v "bs ! i"] array_bucket [OF ok that] i that
    by (cases "j = i") simp_all
  ultimately show ?thesis by (simp add: array_ok_def)
qed

text \<open>What it displaced is carried on to the next bucket.\<close>

lemma carry_displaced:
  assumes ok: "array_ok cfg bs" and c: "carry_ok cfg bs i d h k" and d: "m_dist (bs ! i) < d"
    and w: "m_value (bs ! i) = Some (k', v')"
  shows "carry_ok cfg (bs[i := set_value_of_empty_bucket cfg d h (k, v) (bs ! i)]) (nxt (length bs) i)
           (m_dist (bs ! i) + 1) (if STORE_HASH cfg then m_hash (bs ! i) else h) k'"
proof -
  let ?n = "length bs" and ?d = "m_dist (bs ! i)"
  have i: "i < ?n" using c by (simp add: carry_ok_def)
  have b: "0 \<le> ?d" "(home cfg ?n k' + nat ?d) mod ?n = i"
      "STORE_HASH cfg \<longrightarrow> m_hash (bs ! i) = ucast (hash_key cfg k')"
    using array_bucket [OF ok i] w by (auto simp: bucket_ok_def)
  have "nat (?d + 1) = nat ?d + 1" using b(1) by simp
  then have "(home cfg ?n k' + nat (?d + 1)) mod ?n = nxt ?n i"
    using nxt_mod [of ?n "home cfg ?n k' + nat ?d"] b(2) by (simp add: add.assoc)
  moreover have "?d \<le> m_dist (bs[i := set_value_of_empty_bucket cfg d h (k, v) (bs ! i)] ! j)"
    if "j < ?n" "nxt ?n j = nxt ?n i" for j using nxt_inj [OF that(2,1) i] i d by simp
  moreover have "nxt ?n i < ?n" using i by simp
  ultimately show ?thesis using b by (auto simp: carry_ok_def)
qed

lemma carry_on:
  assumes c: "carry_ok cfg bs i d h k" and d: "d \<le> m_dist (bs ! i)"
  shows "carry_ok cfg bs (nxt (length bs) i) (d + 1) h k"
proof -
  let ?n = "length bs"
  have i: "i < ?n" and d0: "0 \<le> d" and pos: "(home cfg ?n k + nat d) mod ?n = i"
    using c by (simp_all add: carry_ok_def)
  have "nat (d + 1) = nat d + 1" using d0 by simp
  then have "(home cfg ?n k + nat (d + 1)) mod ?n = nxt ?n i"
    using nxt_mod [of ?n "home cfg ?n k + nat d"] pos by (simp add: add.assoc)
  moreover have "d \<le> m_dist (bs ! j)" if "j < ?n" "nxt ?n j = nxt ?n i" for j
    using nxt_inj [OF that(2,1) i] d by simp
  moreover have "nxt ?n i < ?n" using i by simp
  ultimately show ?thesis using c by (auto simp: carry_ok_def)
qed

end
