(* ===== verification/Robin_Loops.thy ===== *)
theory Robin_Loops
  imports Robin_Inv
begin

text \<open>
  The loops of the Robin Hood table on a valid bucket array: each of them ends within its fuel,
  reads and writes only inside the array, and does what its operation needs of it.
\<close>

section \<open>Probing\<close>

text \<open>
  A probe that starts at the ideal bucket passes every bucket that is at least as far from its
  own ideal bucket and does not hold the key.
\<close>

definition key_at :: "('k, 'v) bucket_entry list \<Rightarrow> 'k \<Rightarrow> nat \<Rightarrow> bool" where
  "key_at bs k i = (\<exists>v. m_value (bs ! i) = Some (k, v))"

definition passes :: "('k, 'v) bucket_entry list \<Rightarrow> nat \<Rightarrow> nat \<Rightarrow> bool" where
  "passes bs h0 e = (int e \<le> m_dist (bs ! ((h0 + e) mod length bs)))"

lemma next_ring: "mask_ok msk n \<Longrightarrow> next_bucket msk ((h0 + e) mod n) = (h0 + Suc e) mod n"
  using mask_ok_next [of msk n "(h0 + e) mod n"] mask_ok_pos [of msk n] by (simp add: nxt_mod)

lemma probe_key_skip:
  assumes ok: "array_ok cfg bs" and msk: "mask_ok msk (length bs)"
    and room: "\<forall>j < length bs. m_dist (bs ! j) < 32767"
    and pass: "\<forall>e' < m. passes bs h0 e' \<and> \<not> key_at bs k ((h0 + e') mod length bs)"
    and "e \<le> m" "m - e < fuel"
  shows "\<exists>f. fuel = Suc f + (m - e) \<and>
             probe_key cfg msk bs fuel k hash ((h0 + e) mod length bs) (int e) =
             probe_key cfg msk bs (Suc f) k hash ((h0 + m) mod length bs) (int m)"
  using assms(5,6)
proof (induction "m - e" arbitrary: e fuel)
  case 0
  then show ?case by (intro exI [of _ "fuel - 1"]) simp
next
  case (Suc x)
  let ?n = "length bs" and ?i = "(h0 + e) mod length bs"
  from Suc have e: "e < m" "x = m - Suc e" by simp_all
  from Suc(4) e obtain f0 where f0: "fuel = Suc f0" "m - Suc e < f0" by (cases fuel) simp_all
  have i: "?i < ?n" using mask_ok_pos [OF msk] by simp
  have p: "int e \<le> m_dist (bs ! ?i)" "\<not> key_at bs k ?i" using pass e(1) by (auto simp: passes_def)
  then obtain k' v' where kv: "m_value (bs ! ?i) = Some (k', v')" "k' \<noteq> k"
    using array_dist(2) [OF ok i] by (auto simp: key_at_def)
  have "e < 32767" using p(1) room i by (metis of_nat_less_iff of_nat_numeral order_le_less_trans)
  then have "probe_key cfg msk bs fuel k hash ?i (int e) =
        probe_key cfg msk bs f0 k hash ((h0 + Suc e) mod ?n) (int (Suc e))"
    using p kv i next_ring [OF msk, of h0 e] distance_type_Suc [of e]
    by (simp add: f0(1) bucket_at_def)
  moreover obtain f where "f0 = Suc f + (m - Suc e)"
      "probe_key cfg msk bs f0 k hash ((h0 + Suc e) mod ?n) (int (Suc e)) =
       probe_key cfg msk bs (Suc f) k hash ((h0 + m) mod ?n) (int m)"
    using Suc(1) [of "Suc e" f0] e f0(2) by auto
  ultimately show ?case using f0(1) e(1) by (intro exI [of _ f]) simp
qed

lemma probe_slot_skip:
  assumes msk: "mask_ok msk (length bs)"
    and room: "\<forall>j < length bs. m_dist (bs ! j) < 32767"
    and pass: "\<forall>e' < m. passes bs h0 e'"
    and "e \<le> m" "m - e < fuel"
  shows "\<exists>f. fuel = Suc f + (m - e) \<and>
             probe_slot msk bs fuel ((h0 + e) mod length bs) (int e) =
             probe_slot msk bs (Suc f) ((h0 + m) mod length bs) (int m)"
  using assms(4,5)
proof (induction "m - e" arbitrary: e fuel)
  case 0
  then show ?case by (intro exI [of _ "fuel - 1"]) simp
next
  case (Suc x)
  let ?n = "length bs" and ?i = "(h0 + e) mod length bs"
  from Suc have e: "e < m" "x = m - Suc e" by simp_all
  from Suc(4) e obtain f0 where f0: "fuel = Suc f0" "m - Suc e < f0" by (cases fuel) simp_all
  have i: "?i < ?n" using mask_ok_pos [OF msk] by simp
  have p: "int e \<le> m_dist (bs ! ?i)" using pass e(1) by (auto simp: passes_def)
  have "e < 32767" using p room i by (metis of_nat_less_iff of_nat_numeral order_le_less_trans)
  then have "probe_slot msk bs fuel ?i (int e) =
        probe_slot msk bs f0 ((h0 + Suc e) mod ?n) (int (Suc e))"
    using p i next_ring [OF msk, of h0 e] distance_type_Suc [of e]
    by (simp add: f0(1) bucket_at_def)
  moreover obtain f where "f0 = Suc f + (m - Suc e)"
      "probe_slot msk bs f0 ((h0 + Suc e) mod ?n) (int (Suc e)) =
       probe_slot msk bs (Suc f) ((h0 + m) mod ?n) (int m)"
    using Suc(1) [of "Suc e" f0] e f0(2) by auto
  ultimately show ?case using f0(1) e(1) by (intro exI [of _ f]) simp
qed

text \<open>Where a probe for a home bucket stops.\<close>

definition stop_dist :: "('k, 'v) bucket_entry list \<Rightarrow> nat \<Rightarrow> nat" where
  "stop_dist bs h0 = (LEAST e. \<not> passes bs h0 e)"

lemma stop_dist_props:
  assumes ok: "array_ok cfg bs" and j: "j < length bs" "m_dist (bs ! j) = - 1"
  shows "\<not> passes bs h0 (stop_dist bs h0)" "\<forall>e < stop_dist bs h0. passes bs h0 e"
    "stop_dist bs h0 < length bs"
proof -
  have "m_dist (bs ! ((h0 + (length bs - 1)) mod length bs)) + 2 \<le> int (length bs)"
    using ok j by (intro dist_below_empty [of bs j]) (auto simp: array_ok_def intro: ring_less)
  then have last: "\<not> passes bs h0 (length bs - 1)" by (simp add: passes_def)
  from this show "\<not> passes bs h0 (stop_dist bs h0)" unfolding stop_dist_def by (rule LeastI)
  from last have "stop_dist bs h0 \<le> length bs - 1" unfolding stop_dist_def by (rule Least_le)
  with j(1) show "stop_dist bs h0 < length bs" by linarith
  show "\<forall>e < stop_dist bs h0. passes bs h0 e" unfolding stop_dist_def using not_less_Least by blast
qed

text \<open>A key of the array is found before the probe stops.\<close>

lemma key_before_stop:
  assumes ok: "array_ok cfg bs" and i: "i < length bs" and kv: "m_value (bs ! i) = Some (k, v)"
    and j: "j < length bs" "m_dist (bs ! j) = - 1"
  shows "nat (m_dist (bs ! i)) < stop_dist bs (home cfg (length bs) k)"
    "(home cfg (length bs) k + nat (m_dist (bs ! i))) mod length bs = i"
proof -
  let ?h = "home cfg (length bs) k" and ?d = "nat (m_dist (bs ! i))"
  have b: "0 \<le> m_dist (bs ! i)" "(?h + ?d) mod length bs = i"
    using array_bucket [OF ok i] kv by (auto simp: bucket_ok_def)
  show "(?h + ?d) mod length bs = i" by (rule b(2))
  show "?d < stop_dist bs ?h"
  proof (rule ccontr)
    assume "\<not> ?thesis"
    then have "int (stop_dist bs ?h) \<le> m_dist (bs ! i)" using b(1) by simp
    from probe_path [OF ok i kv this] stop_dist_props(1) [OF ok j, of ?h] show False
      by (simp add: passes_def)
  qed
qed

lemma key_unique_less:
  assumes "distinct (map fst (vals bs))" "i < j" "j < length bs"
    and "m_value (bs ! i) = Some (k, v)" "m_value (bs ! j) = Some (k, v')"
  shows False
proof -
  have bs: "bs = take j bs @ bs ! j # drop (Suc j) bs" using assms(3) by (rule id_take_nth_drop)
  have "take j bs ! i = bs ! i" using assms(2) by simp
  then have "(k, v) \<in> set (vals (take j bs))"
    using assms(2-4) by (auto simp: set_vals intro!: exI [of _ i])
  then have "k \<in> set (map fst (vals (take j bs)))" by force
  moreover have "distinct (map fst (vals (take j bs)) @ k # map fst (vals (drop (Suc j) bs)))"
    using assms(1,5) by (subst (asm) bs) simp
  ultimately show False by simp
qed

lemma key_unique:
  assumes "distinct (map fst (vals bs))" "i < length bs" "j < length bs" "key_at bs k i" "key_at bs k j"
  shows "i = j"
  using assms key_unique_less [of bs i j k] key_unique_less [of bs j i k]
  by (cases i j rule: linorder_cases) (auto simp: key_at_def)

lemma probe_key_found:
  assumes ok: "array_ok cfg bs" and msk: "mask_ok msk (length bs)"
    and room: "\<forall>j < length bs. m_dist (bs ! j) < 32767"
    and j: "j < length bs" "m_dist (bs ! j) = - 1"
    and dk: "distinct (map fst (vals bs))"
    and i: "i < length bs" "m_value (bs ! i) = Some (k, v)"
  shows "probe_key cfg msk bs (length bs + 1) k (hash_key cfg k) (home cfg (length bs) k) 0 = Some (Found i)"
proof -
  let ?n = "length bs"
  let ?h = "home cfg ?n k" and ?d = "nat (m_dist (bs ! i))"
  note stop = stop_dist_props [OF ok j, of ?h]
  note before = key_before_stop [OF ok i j]
  have "\<not> key_at bs k ((?h + e) mod ?n)" if e: "e < ?d" for e
  proof
    assume "key_at bs k ((?h + e) mod ?n)"
    moreover have "key_at bs k i" using i(2) by (simp add: key_at_def)
    ultimately have "(?h + e) mod ?n = i" by (rule key_unique [OF dk ring_less [OF i(1)] i(1)])
    then have "(?h + e) mod ?n = (?h + ?d) mod ?n" using before(2) by simp
    moreover have "e < ?n" "?d < ?n" using e before(1) stop(3) by linarith+
    ultimately have "e = ?d" by (rule ring_inj)
    with e show False by simp
  qed
  with stop(2) before(1) have "\<forall>e' < ?d. passes bs ?h e' \<and> \<not> key_at bs k ((?h + e') mod ?n)" by auto
  from probe_key_skip [OF ok msk room this, of 0 "?n + 1" "hash_key cfg k"] before(1) stop(3)
  obtain f where "probe_key cfg msk bs (?n + 1) k (hash_key cfg k) ((?h + 0) mod ?n) (int 0) =
      probe_key cfg msk bs (Suc f) k (hash_key cfg k) i (int ?d)"
    by (auto simp: before(2))
  moreover have "?h mod ?n = ?h" by (simp add: home_def)
  moreover have "0 \<le> m_dist (bs ! i)" "STORE_HASH cfg \<longrightarrow> m_hash (bs ! i) = ucast (hash_key cfg k)"
    using array_bucket [OF ok i(1)] i(2) by (auto simp: bucket_ok_def)
  ultimately show ?thesis using i by (simp del: of_nat_nat add: bucket_at_def bucket_hash_equal_def)
qed

lemma probe_key_absent:
  assumes ok: "array_ok cfg bs" and msk: "mask_ok msk (length bs)"
    and room: "\<forall>j < length bs. m_dist (bs ! j) < 32767"
    and j: "j < length bs" "m_dist (bs ! j) = - 1"
    and absent: "k \<notin> fst ` set (vals bs)"
  shows "probe_key cfg msk bs (length bs + 1) k hash (home cfg (length bs) k) 0 =
         Some (Stopped ((home cfg (length bs) k + stop_dist bs (home cfg (length bs) k)) mod length bs)
                       (int (stop_dist bs (home cfg (length bs) k))))"
proof -
  let ?n = "length bs"
  let ?h = "home cfg ?n k"
  let ?s = "stop_dist bs ?h"
  note stop = stop_dist_props [OF ok j, of ?h]
  have "\<not> key_at bs k i" if "i < ?n" for i
  proof
    assume "key_at bs k i"
    then obtain v where "m_value (bs ! i) = Some (k, v)" by (auto simp: key_at_def)
    with that have "(k, v) \<in> set (vals bs)" by (auto simp: set_vals)
    with absent show False by force
  qed
  moreover have "(?h + e) mod ?n < ?n" for e using j(1) by (rule ring_less)
  ultimately have "\<forall>e' < ?s. passes bs ?h e' \<and> \<not> key_at bs k ((?h + e') mod ?n)"
    using stop(2) by blast
  from probe_key_skip [OF ok msk room this, of 0 "?n + 1" hash] stop(3)
  obtain f where "probe_key cfg msk bs (?n + 1) k hash ((?h + 0) mod ?n) (int 0) =
      probe_key cfg msk bs (Suc f) k hash ((?h + ?s) mod ?n) (int ?s)"
    by auto
  moreover have "?h mod ?n = ?h" by (simp add: home_def)
  moreover have "(?h + ?s) mod ?n < ?n" using j(1) by (rule ring_less)
  ultimately show ?thesis using stop(1) by (simp add: bucket_at_def passes_def)
qed

lemma probe_slot_stop:
  assumes ok: "array_ok cfg bs" and msk: "mask_ok msk (length bs)"
    and room: "\<forall>j < length bs. m_dist (bs ! j) < 32767"
    and j: "j < length bs" "m_dist (bs ! j) = - 1"
  shows "probe_slot msk bs (length bs + 1) (home cfg (length bs) k) 0 =
         Some ((home cfg (length bs) k + stop_dist bs (home cfg (length bs) k)) mod length bs,
               int (stop_dist bs (home cfg (length bs) k)))"
proof -
  let ?n = "length bs"
  let ?h = "home cfg ?n k"
  let ?s = "stop_dist bs ?h"
  note stop = stop_dist_props [OF ok j, of ?h]
  from probe_slot_skip [OF msk room stop(2), of 0 "?n + 1"] stop(3)
  obtain f where "probe_slot msk bs (?n + 1) ((?h + 0) mod ?n) (int 0) =
      probe_slot msk bs (Suc f) ((?h + ?s) mod ?n) (int ?s)"
    by auto
  moreover have "?h mod ?n = ?h" by (simp add: home_def)
  moreover have "(?h + ?s) mod ?n < ?n" using j(1) by (rule ring_less)
  ultimately show ?thesis using stop(1) by (simp add: bucket_at_def passes_def)
qed

text \<open>At the bucket where a probe stops, the probe's value may be carried in.\<close>

lemma carry_at_stop:
  assumes ok: "array_ok cfg bs" and j: "j < length bs" "m_dist (bs ! j) = - 1"
    and h: "h = ucast (hash_key cfg k)"
  shows "carry_ok cfg bs ((home cfg (length bs) k + stop_dist bs (home cfg (length bs) k)) mod length bs)
           (int (stop_dist bs (home cfg (length bs) k))) h k"
proof -
  let ?n = "length bs"
  let ?h = "home cfg ?n k"
  let ?s = "stop_dist bs ?h"
  note stop = stop_dist_props [OF ok j, of ?h]
  have "int ?s \<le> m_dist (bs ! i) + 1" if i: "i < ?n" "nxt ?n i = (?h + ?s) mod ?n" for i
  proof (cases ?s)
    case 0
    with array_dist(1) [OF ok i(1)] show ?thesis by simp
  next
    case (Suc e)
    then have "(?h + e) mod ?n = i" using i ring_back [of "?h + e" ?n i] by (simp add: nxt_def)
    moreover have "passes bs ?h e" using stop(2) Suc by simp
    ultimately show ?thesis using Suc by (simp add: passes_def)
  qed
  moreover have "(?h + ?s) mod ?n < ?n" using j(1) by (rule ring_less)
  ultimately show ?thesis using h by (auto simp: carry_ok_def)
qed

section \<open>Insertion\<close>

lemma insert_loops:
  assumes "array_ok cfg bs" "mask_ok msk (length bs)" "carry_ok cfg bs i d h k"
    and "m < length bs" "m < fuel" "m_dist (bs ! ((i + m) mod length bs)) = - 1"
    and "\<forall>m' \<le> m. m_dist (bs ! ((i + m') mod length bs)) \<le> D"
    and "\<forall>j < length bs. m_dist (bs ! j) \<le> D + 1" "d \<le> D + 1" "D < 32767"
  shows "\<exists>bs'. insert_value_on_rehash cfg msk fuel bs i d h (k, v) = Some bs' \<and>
           (\<forall>grow. \<exists>g. insert_value_loop cfg msk fuel bs i d h (k, v) grow = Some (bs', g)) \<and>
           array_ok cfg bs' \<and> length bs' = length bs \<and>
           mset (vals bs') = add_mset (k, v) (mset (vals bs)) \<and>
           (\<forall>j < length bs. m_dist (bs' ! j) \<le> D + 1) \<and>
           (\<forall>j. (\<forall>m' \<le> m. j \<noteq> (i + m') mod length bs) \<longrightarrow> bs' ! j = bs ! j)"
  using assms
proof (induction fuel arbitrary: bs i d h k v m)
  case 0
  then show ?case by simp
next
  case (Suc fuel)
  let ?n = "length bs" and ?b = "bs ! i"
  let ?bs = "bs[i := set_value_of_empty_bucket cfg d h (k, v) ?b]"
  have i: "i < ?n" and d0: "0 \<le> d" using Suc.prems(3) by (simp_all add: carry_ok_def)
  note nx = mask_ok_next [OF Suc.prems(2) i]
  have upd: "mset (vals ?bs) + opt_mset (m_value ?b) = add_mset (k, v) (mset (vals bs))"
    using mset_vals_update [OF i, of "set_value_of_empty_bucket cfg d h (k, v) ?b"] by simp
  have room: "\<forall>j < ?n. m_dist (?bs ! j) \<le> D + 1"
    using Suc.prems(8,9) i by (auto simp: nth_list_update)
  have here: "j \<noteq> i" if "\<forall>m' \<le> m. j \<noteq> (i + m') mod ?n" for j
    using that i by (metis add_0_right le0 mod_less)
  show ?case
  proof (cases "m_value ?b")
    case None
    then have e: "bucket_empty ?b" "m_dist ?b = - 1" using array_dist [OF Suc.prems(1) i] by auto
    then have "array_ok cfg ?bs" using array_put [OF Suc.prems(1,3)] d0 by simp
    moreover have "\<forall>j. (\<forall>m' \<le> m. j \<noteq> (i + m') mod ?n) \<longrightarrow> ?bs ! j = bs ! j"
      using here by (metis nth_list_update_neq)
    ultimately show ?thesis using e None d0 i upd room by (simp add: bucket_at_def)
  next
    case (Some w)
    obtain k' v' where w: "w = (k', v')" by (cases w)
    have ne: "\<not> bucket_empty ?b" "m_dist ?b \<noteq> - 1"
      using array_dist(2,3) [OF Suc.prems(1) i] Some by auto
    then obtain m2 where m2: "m = Suc m2" using Suc.prems(6) i by (cases m) auto
    have shift: "(nxt ?n i + m') mod ?n = (i + Suc m') mod ?n" for m'
      by (simp add: nxt_def mod_simps)
    have away: "(i + Suc m') mod ?n \<noteq> i" if "m' \<le> m2" for m'
      using ring_away [OF i, of "Suc m'"] that m2 Suc.prems(4) by simp
    have later: "\<forall>m' \<le> m2. j \<noteq> (nxt ?n i + m') mod ?n" if "\<forall>m' \<le> m. j \<noteq> (i + m') mod ?n" for j
      unfolding shift using that m2 by auto
    have D: "m_dist ?b \<le> D" using Suc.prems(7) i by (metis add_0_right le0 mod_less)
    show ?thesis
    proof (cases "m_dist ?b < d")
      case True
      have c: "carry_ok cfg ?bs (nxt ?n i) (m_dist ?b + 1) (if STORE_HASH cfg then m_hash ?b else h) k'"
        using carry_displaced [OF Suc.prems(1,3) True] Some w by simp
      have ok: "array_ok cfg ?bs" using array_put [OF Suc.prems(1,3) True] .
      have "m_dist (?bs ! ((nxt ?n i + m') mod ?n)) \<le> D" if "m' \<le> m2" for m'
        using Suc.prems(7) [rule_format, of "Suc m'"] away [OF that] that m2
        unfolding shift by (metis Suc_le_mono nth_list_update_neq)
      then have "\<forall>m' \<le> m2. m_dist (?bs ! ((nxt ?n i + m') mod ?n)) \<le> D" by blast
      moreover have "m_dist (?bs ! ((nxt ?n i + m2) mod ?n)) = - 1"
        using Suc.prems(6) away [of m2] m2 by (simp add: shift)
      ultimately obtain bs' where bs': "insert_value_on_rehash cfg msk fuel ?bs (nxt ?n i)
              (m_dist ?b + 1) (if STORE_HASH cfg then m_hash ?b else h) (k', v') = Some bs'"
            "\<forall>grow. \<exists>g. insert_value_loop cfg msk fuel ?bs (nxt ?n i)
              (m_dist ?b + 1) (if STORE_HASH cfg then m_hash ?b else h) (k', v') grow = Some (bs', g)"
            "array_ok cfg bs'" "length bs' = ?n" "mset (vals bs') = add_mset (k', v') (mset (vals ?bs))"
            "\<forall>j < ?n. m_dist (bs' ! j) \<le> D + 1"
            "\<forall>j. (\<forall>m' \<le> m2. j \<noteq> (nxt ?n i + m') mod ?n) \<longrightarrow> bs' ! j = ?bs ! j"
        using Suc.IH [of ?bs "nxt ?n i" "m_dist ?b + 1" "if STORE_HASH cfg then m_hash ?b else h" k' m2 v']
          ok c room D Suc.prems(2,4,5,10) m2 by auto
      have dt: "distance_type (m_dist ?b + 1) = m_dist ?b + 1"
        using D Suc.prems(10) array_dist(1) [OF Suc.prems(1) i] by (intro distance_type_id) auto
      have "mset (vals bs') = add_mset (k, v) (mset (vals bs))" using upd bs'(5) Some w by simp
      moreover have "bs' ! j = bs ! j" if "\<forall>m' \<le> m. j \<noteq> (i + m') mod ?n" for j
        using bs'(7) later [OF that] here [OF that] by simp
      ultimately show ?thesis using bs'(1-4,6) True ne i Some w dt nx
        by (auto simp: bucket_at_def swap_put)
    next
      case False
      then have le: "d \<le> m_dist ?b" by simp
      have dt: "distance_type (d + 1) = d + 1"
        using le D Suc.prems(10) d0 by (intro distance_type_id) auto
      have "\<forall>m' \<le> m2. m_dist (bs ! ((nxt ?n i + m') mod ?n)) \<le> D"
        using Suc.prems(7) m2 by (auto simp: shift)
      moreover have "m_dist (bs ! ((nxt ?n i + m2) mod ?n)) = - 1"
        using Suc.prems(6) m2 by (simp add: shift)
      ultimately obtain bs' where bs': "insert_value_on_rehash cfg msk fuel bs (nxt ?n i) (d + 1) h (k, v) = Some bs'"
            "\<forall>grow. \<exists>g. insert_value_loop cfg msk fuel bs (nxt ?n i) (d + 1) h (k, v) grow = Some (bs', g)"
            "array_ok cfg bs'" "length bs' = ?n" "mset (vals bs') = add_mset (k, v) (mset (vals bs))"
            "\<forall>j < ?n. m_dist (bs' ! j) \<le> D + 1"
            "\<forall>j. (\<forall>m' \<le> m2. j \<noteq> (nxt ?n i + m') mod ?n) \<longrightarrow> bs' ! j = bs ! j"
        using Suc.IH [of bs "nxt ?n i" "d + 1" h k m2 v] carry_on [OF Suc.prems(3) le] Suc.prems le D m2
        by auto
      moreover have "bs' ! j = bs ! j" if "\<forall>m' \<le> m. j \<noteq> (i + m') mod ?n" for j
        using bs'(7) later [OF that] by simp
      ultimately show ?thesis using False ne i dt nx by (simp add: bucket_at_def)
    qed
  qed
qed

section \<open>Erasing\<close>

text \<open>
  The array during the backward shift: a hole at \<open>p\<close>, after which the ring condition may fail by
  as much as the erased value made up for.
\<close>

definition hole_ok :: "'k rh_config \<Rightarrow> ('k, 'v) bucket_entry list \<Rightarrow> nat \<Rightarrow> bool" where
  "hole_ok cfg bs p =
     (p < length bs \<and> m_dist (bs ! p) = - 1 \<and> last_ok bs \<and>
      (\<forall>i < length bs. bucket_ok cfg (length bs) i (bs ! i)) \<and>
      (\<forall>j < length bs. j \<noteq> p \<longrightarrow> m_dist (bs ! nxt (length bs) j) \<le> m_dist (bs ! j) + 1) \<and>
      (\<forall>j < length bs. nxt (length bs) j = p \<longrightarrow> m_dist (bs ! nxt (length bs) p) \<le> m_dist (bs ! j) + 2))"

lemma hole_bucket: "hole_ok cfg bs p \<Longrightarrow> i < length bs \<Longrightarrow> bucket_ok cfg (length bs) i (bs ! i)"
  by (simp add: hole_ok_def)

lemma hole_closed:
  assumes "hole_ok cfg bs p" "m_dist (bs ! nxt (length bs) p) \<le> 0"
  shows "array_ok cfg bs"
proof -
  have "m_dist (bs ! nxt (length bs) j) \<le> m_dist (bs ! j) + 1" if "j < length bs" for j
    using assms that by (cases "j = p") (auto simp: hole_ok_def)
  with assms(1) show ?thesis by (auto simp: array_ok_def ring_ok_def hole_ok_def)
qed

lemma bucket_clear_simps [simp]:
  "bucket_ok cfg n i b \<Longrightarrow> m_dist (bucket_clear b) = - 1"
  "bucket_ok cfg n i b \<Longrightarrow> m_value (bucket_clear b) = None"
  "m_last_bucket (bucket_clear b) = m_last_bucket b"
  using bucket_ok_dist [of cfg n i b] by (auto simp: bucket_clear_def bucket_empty_def)

lemma bucket_clear_ok: "bucket_ok cfg n i b \<Longrightarrow> bucket_ok cfg n i' (bucket_clear b)"
  using bucket_clear_simps(1,2) [of cfg n i b] by (simp add: bucket_ok_def [of cfg n i'])

text \<open>Clearing a bucket of a valid array makes a hole.\<close>

lemma hole_made:
  assumes ok: "array_ok cfg bs" and p: "p < length bs"
  shows "hole_ok cfg (bs[p := bucket_clear (bs ! p)]) p"
proof -
  let ?n = "length bs" and ?bs = "bs[p := bucket_clear (bs ! p)]"
  note bp = array_bucket [OF ok p]
  have ring: "m_dist (bs ! nxt ?n j) \<le> m_dist (bs ! j) + 1" if "j < ?n" for j
    using ok that by (simp add: array_ok_def ring_ok_def)
  have dp: "m_dist (?bs ! p) = - 1" using p bp by simp
  have down: "m_dist (?bs ! j) \<le> m_dist (bs ! j)" if "j < ?n" for j
    using array_dist(1) [OF ok that] dp by (cases "j = p") simp_all
  have "m_dist (?bs ! nxt ?n j) \<le> m_dist (?bs ! j) + 1" if "j < ?n" "j \<noteq> p" for j
    using down [OF nxt_less [OF that(1)]] ring [OF that(1)] that by simp
  moreover have "m_dist (?bs ! nxt ?n p) \<le> m_dist (?bs ! j) + 2" if j: "j < ?n" "nxt ?n j = p" for j
  proof (cases "j = p")
    case True
    with j dp show ?thesis by simp
  next
    case False
    then show ?thesis
      using down [OF nxt_less [OF p]] ring [OF p] ring [OF j(1)] j by simp
  qed
  moreover have "bucket_ok cfg ?n j (?bs ! j)" if "j < ?n" for j
    using array_bucket [OF ok that] bucket_clear_ok [OF bp, of p] p by (cases "j = p") simp_all
  moreover have "last_ok ?bs" using ok p by (auto simp: array_ok_def last_ok_def nth_list_update)
  ultimately show ?thesis using p dp by (simp add: hole_ok_def)
qed

text \<open>One step of the shift moves the hole to the next bucket.\<close>

lemma hole_moved:
  assumes h: "hole_ok cfg bs p" and n: "1 < length bs"
    and q: "q = nxt (length bs) p" and e: "0 < m_dist (bs ! q)" and v: "m_value (bs ! q) = Some (k, v)"
  defines "bs' \<equiv> bs[p := set_value_of_empty_bucket cfg (m_dist (bs ! q) - 1)
                              (truncated_hash cfg (bs ! q)) (k, v) (bs ! p),
                    q := bucket_clear (bs ! q)]"
  shows "hole_ok cfg bs' q"
proof -
  let ?n = "length bs"
  have p: "p < ?n" using h by (simp add: hole_ok_def)
  have qp: "q \<noteq> p" "q < ?n" using nxt_neq [OF p n] p by (simp_all add: q)
  note bq = hole_bucket [OF h qp(2)]
  have ring: "m_dist (bs ! nxt ?n j) \<le> m_dist (bs ! j) + 1" if "j < ?n" "j \<noteq> p" for j
    using h that by (simp add: hole_ok_def)
  have gap: "m_dist (bs ! q) \<le> m_dist (bs ! j) + 2" if "j < ?n" "nxt ?n j = p" for j
    using h that by (simp add: hole_ok_def q)
  have at: "m_dist (bs' ! p) = m_dist (bs ! q) - 1" "m_dist (bs' ! q) = - 1"
      "\<And>j. j \<noteq> p \<Longrightarrow> j \<noteq> q \<Longrightarrow> bs' ! j = bs ! j" "length bs' = ?n"
    using p qp bq by (simp_all add: bs'_def)
  have "m_dist (bs' ! nxt ?n j) \<le> m_dist (bs' ! j) + 1" if j: "j < ?n" "j \<noteq> q" for j
  proof (cases "j = p")
    case True
    with at e show ?thesis by (simp add: q)
  next
    case False
    have nq: "nxt ?n j \<noteq> q" using nxt_inj [of ?n j p] False j p by (auto simp: q)
    show ?thesis
    proof (cases "nxt ?n j = p")
      case True
      with gap [OF j(1) True] at False j show ?thesis by simp
    next
      case np: False
      with ring [OF j(1) False] at False j nq show ?thesis by simp
    qed
  qed
  moreover have "m_dist (bs' ! nxt ?n q) \<le> m_dist (bs' ! j) + 2" if j: "j < ?n" "nxt ?n j = q" for j
  proof -
    have "j = p" using nxt_inj [of ?n j p] j p by (simp add: q)
    moreover have "m_dist (bs' ! nxt ?n q) \<le> m_dist (bs ! q) + 1"
      using ring [OF qp(2,1)] at nxt_neq [OF qp(2) n] by (cases "nxt ?n q = p") simp_all
    ultimately show ?thesis using at by simp
  qed
  moreover have "bucket_ok cfg ?n j (bs' ! j)" if j: "j < ?n" for j
  proof -
    have b: "(home cfg ?n k + nat (m_dist (bs ! q))) mod ?n = q"
        "STORE_HASH cfg \<longrightarrow> m_hash (bs ! q) = ucast (hash_key cfg k)"
      using bq v by (simp_all add: bucket_ok_def)
    have "nat (m_dist (bs ! q)) = nat (m_dist (bs ! q) - 1) + 1" using e by simp
    then have "(home cfg ?n k + nat (m_dist (bs ! q) - 1)) mod ?n = p"
      using ring_back [of "home cfg ?n k + nat (m_dist (bs ! q) - 1)" ?n p] b(1) p q
      by (simp add: add.assoc)
    then have "bucket_ok cfg ?n p (set_value_of_empty_bucket cfg (m_dist (bs ! q) - 1)
                              (truncated_hash cfg (bs ! q)) (k, v) (bs ! p))"
      using e b(2) by (simp add: bucket_ok_def)
        (simp add: set_value_of_empty_bucket_def set_hash_def truncated_hash_def)
    then show ?thesis
      using j p qp hole_bucket [OF h j] bucket_clear_ok [OF bq, of q]
      by (cases "j = q"; cases "j = p") (simp_all add: bs'_def)
  qed
  moreover have "last_ok bs'"
    using h p qp by (auto simp: hole_ok_def last_ok_def bs'_def nth_list_update)
  ultimately show ?thesis using at qp by (simp add: hole_ok_def)
qed

lemma backward_shift_ok:
  assumes "hole_ok cfg bs p" "mask_ok msk (length bs)"
    and "m + 1 < length bs" "m < fuel" "m_dist (bs ! ((p + 1 + m) mod length bs)) \<le> 0"
    and "\<forall>j < length bs. m_dist (bs ! j) \<le> D" "D < 32767" "- 1 \<le> D"
  shows "\<exists>bs'. backward_shift cfg msk fuel bs p (nxt (length bs) p) = Some bs' \<and>
           array_ok cfg bs' \<and> length bs' = length bs \<and> mset (vals bs') = mset (vals bs) \<and>
           (\<forall>j < length bs. m_dist (bs' ! j) \<le> D)"
  using assms
proof (induction fuel arbitrary: bs p m)
  case 0
  then show ?case by simp
next
  case (Suc fuel)
  let ?n = "length bs" and ?q = "nxt (length bs) p"
  have p: "p < ?n" and n: "1 < ?n" using Suc.prems(1,3) by (auto simp: hole_ok_def)
  have q: "?q < ?n" "?q \<noteq> p" using nxt_neq [OF p n] p by simp_all
  note nx = mask_ok_next [OF Suc.prems(2) q(1)]
  note bq = hole_bucket [OF Suc.prems(1) q(1)]
  show ?case
  proof (cases "0 < m_dist (bs ! ?q)")
    case False
    with hole_closed [OF Suc.prems(1)] p q Suc.prems(6) show ?thesis
      by (simp add: bucket_at_def)
  next
    case True
    then obtain k v where kv: "m_value (bs ! ?q) = Some (k, v)"
      using bucket_ok_dist [OF bq] by (cases "m_value (bs ! ?q)") auto
    define bs1 where "bs1 = bs[p := set_value_of_empty_bucket cfg (m_dist (bs ! ?q) - 1)
                              (truncated_hash cfg (bs ! ?q)) (k, v) (bs ! p),
                    ?q := bucket_clear (bs ! ?q)]"
    have hole: "hole_ok cfg bs1 ?q"
      unfolding bs1_def by (rule hole_moved [OF Suc.prems(1) n refl True kv])
    have dt: "distance_type (m_dist (bs ! ?q) - 1) = m_dist (bs ! ?q) - 1"
      using True Suc.prems(6,7) q(1) by (intro distance_type_id) auto
    obtain m2 where m2: "m = Suc m2" using Suc.prems(5) True by (cases m) (auto simp: nxt_def)
    define s where "s = (p + 1 + m) mod ?n"
    have "s \<noteq> p" using ring_away [OF p, of "1 + m"] Suc.prems(3) by (simp add: s_def add.assoc)
    moreover have "s \<noteq> ?q"
    proof -
      have "s = (?q + m) mod ?n" unfolding s_def nxt_def by (rule mod_add_left_eq [symmetric])
      then show ?thesis using ring_away [OF q(1), of m] Suc.prems(3) m2 by simp
    qed
    moreover have "(?q + 1 + m2) mod ?n = s"
      using mod_add_left_eq [of "p + 1" ?n "1 + m2"] m2 by (simp add: s_def nxt_def)
    ultimately have "m_dist (bs1 ! ((?q + 1 + m2) mod ?n)) \<le> 0"
      using Suc.prems(5) by (simp add: s_def bs1_def)
    moreover have room: "\<forall>j < ?n. m_dist (bs1 ! j) \<le> D"
      using Suc.prems(6,8) q p bq by (auto simp: bs1_def nth_list_update intro: order_trans)
    ultimately obtain bs' where bs': "backward_shift cfg msk fuel bs1 ?q (nxt ?n ?q) = Some bs'"
        "array_ok cfg bs'" "length bs' = ?n" "mset (vals bs') = mset (vals bs1)"
        "\<forall>j < ?n. m_dist (bs' ! j) \<le> D"
      using Suc.IH [OF hole, of m2] Suc.prems(2,3,4,7,8) m2 by (auto simp: bs1_def)
    have "mset (vals bs1) = mset (vals bs)"
    proof -
      have "m_value (bs ! p) = None"
        using Suc.prems(1) bucket_ok_dist [OF hole_bucket [OF Suc.prems(1) p]] by (simp add: hole_ok_def)
      with p q kv bq show ?thesis
        using mset_vals_update [of p bs "set_value_of_empty_bucket cfg (m_dist (bs ! ?q) - 1)
                 (truncated_hash cfg (bs ! ?q)) (k, v) (bs ! p)"]
          mset_vals_update [of ?q "bs[p := set_value_of_empty_bucket cfg (m_dist (bs ! ?q) - 1)
                 (truncated_hash cfg (bs ! ?q)) (k, v) (bs ! p)]" "bucket_clear (bs ! ?q)"]
        by (simp add: bs1_def)
    qed
    with bs' True p q kv nx dt show ?thesis
      by (simp add: bucket_at_def bs1_def)
  qed
qed

end
