(* ===== verification/Robin_Table.thy ===== *)
theory Robin_Table
  imports Robin_Loops
begin

text \<open>
  The operations of the Robin Hood table refine those of a finite map: the invariant of the whole
  table, the map it stands for, and for each operation that it ends without undefined behaviour,
  keeps the invariant and has the effect on the map that its name says.
\<close>

section \<open>The invariant of the table and the map it stands for\<close>

definition rh_map :: "('k, 'v) robin_hash \<Rightarrow> ('k \<rightharpoonup> 'v)" where
  "rh_map t = map_of (vals (m_buckets_data t))"

definition factors_ok :: "('k, 'v) robin_hash \<Rightarrow> bool" where
  "factors_ok t = (0 \<le> m_min_load_factor t \<and> flt (2 / 10) \<le> m_max_load_factor t \<and>
                   m_max_load_factor t \<le> flt (95 / 100))"

definition table_ok :: "'k rh_config \<Rightarrow> ('k, 'v) robin_hash \<Rightarrow> bool" where
  "table_ok cfg t =
     (length (m_buckets_data t) = m_bucket_count t \<and>
      m_nb_elements t = length (vals (m_buckets_data t)) \<and>
      distinct (map fst (vals (m_buckets_data t))) \<and> factors_ok t \<and>
      (if m_bucket_count t = 0 then m_mask t = 0 \<and> m_load_threshold t = 0
       else mask_ok (m_mask t) (m_bucket_count t) \<and> array_ok cfg (m_buckets_data t) \<and>
            (\<forall>b \<in> set (m_buckets_data t). m_dist b < 32767) \<and>
            m_nb_elements t < m_bucket_count t \<and> m_load_threshold t < m_bucket_count t))"

lemma table_okD:
  assumes "table_ok cfg t" "m_bucket_count t \<noteq> 0"
  shows "length (m_buckets_data t) = m_bucket_count t"
    and "mask_ok (m_mask t) (length (m_buckets_data t))" and "array_ok cfg (m_buckets_data t)"
    and "\<forall>j < length (m_buckets_data t). m_dist (m_buckets_data t ! j) < 32767"
    and "length (vals (m_buckets_data t)) < length (m_buckets_data t)"
    and "m_buckets t = m_buckets_data t"
    and "\<exists>j < length (m_buckets_data t). m_dist (m_buckets_data t ! j) = - 1"
    and "distinct (map fst (vals (m_buckets_data t)))"
    and "m_nb_elements t = length (vals (m_buckets_data t))"
  using assms vals_empty_ex [of cfg "m_buckets_data t"]
  by (auto simp: table_ok_def m_buckets_def)

lemma table_ok_zero:
  assumes "table_ok cfg t" "m_bucket_count t = 0"
  shows "m_buckets_data t = []" "m_mask t = 0" "m_nb_elements t = 0" "m_load_threshold t = 0"
    "rh_map t = Map.empty"
  using assms by (auto simp: table_ok_def rh_map_def)

lemma nb_elements_card:
  assumes "table_ok cfg t"
  shows "m_nb_elements t = card (dom (rh_map t))"
proof -
  have d: "distinct (map fst (vals (m_buckets_data t)))" and
       n: "m_nb_elements t = length (vals (m_buckets_data t))"
    using assms by (auto simp: table_ok_def)
  have "dom (rh_map t) = set (map fst (vals (m_buckets_data t)))"
    by (simp add: rh_map_def dom_map_of_conv_image_fst)
  then show ?thesis using distinct_card [OF d] n by simp
qed

lemma rh_map_Some_iff:
  assumes "table_ok cfg t"
  shows "rh_map t k = Some v \<longleftrightarrow>
         (\<exists>i < m_bucket_count t. m_value (m_buckets_data t ! i) = Some (k, v))"
  using assms by (auto simp: rh_map_def table_ok_def set_vals)

lemma rh_map_None_iff: "rh_map t k = None \<longleftrightarrow> k \<notin> fst ` set (vals (m_buckets_data t))"
  by (simp add: rh_map_def map_of_eq_None_iff)

section \<open>Adding and removing a value of the array\<close>

lemma vals_added:
  assumes "distinct (map fst xs)" "k \<notin> fst ` set xs" "mset ys = add_mset (k, v) (mset xs)"
  shows "distinct (map fst ys)" "map_of ys = (map_of xs)(k \<mapsto> v)" "length ys = Suc (length xs)"
proof -
  have m: "mset ys = mset ((k, v) # xs)" using assms(3) by simp
  then have "mset (map fst ys) = mset (map fst ((k, v) # xs))" by (metis mset_map)
  moreover have "distinct (map fst ((k, v) # xs))" using assms(1,2) by simp
  ultimately show d: "distinct (map fst ys)" using mset_eq_imp_distinct_iff by blast
  have "map_of ys = map_of ((k, v) # xs)"
    using map_of_inject_set [of ys "(k, v) # xs"] d assms(1,2) mset_eq_setD [OF m] by simp
  then show "map_of ys = (map_of xs)(k \<mapsto> v)" by simp
  show "length ys = Suc (length xs)" using mset_eq_length [OF m] by simp
qed

lemma vals_removed:
  assumes "distinct (map fst ys)" "mset ys = add_mset (k, v) (mset xs)"
  shows "distinct (map fst xs)" "map_of xs = (map_of ys)(k := None)" "length ys = Suc (length xs)"
proof -
  have m: "mset ys = mset ((k, v) # xs)" using assms(2) by simp
  then have "mset (map fst ys) = mset (map fst ((k, v) # xs))" by (metis mset_map)
  then have d: "distinct (map fst ((k, v) # xs))"
    using assms(1) mset_eq_imp_distinct_iff by blast
  then show "distinct (map fst xs)" by simp
  have "map_of ys = map_of ((k, v) # xs)"
    using map_of_inject_set [of ys "(k, v) # xs"] d assms(1) mset_eq_setD [OF m] by simp
  moreover have "map_of xs k = None" using d by (simp add: map_of_eq_None_iff)
  ultimately show "map_of xs = (map_of ys)(k := None)" by (auto simp: fun_eq_iff)
  show "length ys = Suc (length xs)" using mset_eq_length [OF m] by simp
qed

lemma vals_permuted:
  assumes "distinct (map fst xs)" "mset ys = mset xs"
  shows "distinct (map fst ys)" "map_of ys = map_of xs" "length ys = length xs"
proof -
  have "mset (map fst ys) = mset (map fst xs)" using assms(2) by (metis mset_map)
  then show d: "distinct (map fst ys)" using assms(1) mset_eq_imp_distinct_iff by blast
  show "map_of ys = map_of xs"
    using map_of_inject_set [of ys xs] d assms(1) mset_eq_setD [OF assms(2)] by simp
  show "length ys = length xs" using mset_eq_length [OF assms(2)] .
qed

section \<open>Load factors\<close>

lemma flt_95: "flt (95 / 100) \<le> 96 / 100"
  using flt_upper [of "95 / 100"] by simp

lemma flt_20: "19 / 100 \<le> flt (2 / 10)"
  using flt_lower [of "2 / 10"] by simp

lemma load_threshold_less:
  assumes "0 \<le> m" "m \<le> flt (95 / 100)" "0 < n"
  shows "nat \<lfloor>flt (flt (of_nat n) * m)\<rfloor> < n"
proof -
  define c where "c = (1 + 1 / 2 ^ 24 :: rat)"
  have c: "0 < c" "c * c * (96 / 100) < 1" by (simp_all add: c_def)
  have m: "m \<le> 96 / 100" using assms(2) flt_95 by simp
  have "flt (of_nat n) \<le> of_nat n * c" using flt_upper [of "of_nat n"] by (simp add: c_def)
  then have "flt (of_nat n) * m \<le> of_nat n * c * (96 / 100)"
    using m assms(1) c(1) by (intro mult_mono) simp_all
  moreover have "flt (flt (of_nat n) * m) \<le> flt (of_nat n) * m * c"
    using flt_upper [of "flt (of_nat n) * m"] assms(1) by (simp add: c_def)
  ultimately have "flt (flt (of_nat n) * m) \<le> of_nat n * c * (96 / 100) * c"
    using c(1) by (meson mult_right_mono order_trans less_imp_le)
  also have "\<dots> = of_nat n * (c * c * (96 / 100))" by simp
  also have "\<dots> < of_nat n * 1" using c(2) assms(3) by (intro mult_strict_left_mono) simp_all
  finally have "flt (flt (of_nat n) * m) < of_nat n" by simp
  then have "\<lfloor>flt (flt (of_nat n) * m)\<rfloor> < int n" by (simp add: floor_less_iff)
  then show ?thesis using assms(3) by linarith
qed

lemma buckets_for_less:
  assumes "flt (2 / 10) \<le> m" "m \<le> flt (95 / 100)" "0 < n"
  shows "n < buckets_for n m"
proof -
  define c where "c = (1 - 1 / 2 ^ 24 :: rat)"
  have c: "0 < c" "96 / 100 < c * c" by (simp_all add: c_def)
  have m: "0 < m" "m \<le> 96 / 100" using assms(1,2) flt_95 flt_20 by linarith+
  have "of_nat n * c \<le> flt (of_nat n)" using flt_lower [of "of_nat n"] by (simp add: c_def)
  then have "of_nat n * c / m \<le> flt (of_nat n) / m" using m(1) by (intro divide_right_mono) simp_all
  then have "of_nat n * c / m * c \<le> flt (of_nat n) / m * c" using c(1) by (intro mult_right_mono) simp_all
  also have "\<dots> \<le> flt (flt (of_nat n) / m)"
    unfolding c_def flt_def [of "flt (of_nat n) / m"]
    by (rule round_fp_lower) (use m(1) in simp_all)
  finally have le: "of_nat n * (c * c) / m \<le> flt (flt (of_nat n) / m)" by (simp add: mult.assoc)
  have "of_nat n * m < of_nat n * (c * c)"
    using m c(2) assms(3) by (intro mult_strict_left_mono) simp_all
  then have "of_nat n < of_nat n * (c * c) / m" using m(1) by (simp add: pos_less_divide_eq)
  with le have "of_nat n < flt (flt (of_nat n) / m)" by linarith
  then have "int n < \<lceil>flt (flt (of_nat n) / m)\<rceil>" by (simp add: less_ceiling_iff)
  then show ?thesis by (simp add: buckets_for_def zless_nat_eq_int_zless)
qed

section \<open>A new table\<close>

lemma vals_None: "\<forall>b \<in> set bs. m_value b = None \<Longrightarrow> vals bs = []"
  by (induction bs) simp_all

lemma new_buckets_props:
  "length (new_buckets n) = n" "vals (new_buckets n) = []"
  "i < n \<Longrightarrow> new_buckets n ! i = new_bucket (Suc i = n)"
  by (auto simp: new_buckets_def new_bucket_def intro!: vals_None)

lemma new_buckets_ok: "array_ok cfg (new_buckets n)"
  by (auto simp: array_ok_def bucket_ok_def ring_ok_def last_ok_def new_buckets_props new_bucket_def)

lemma clamp_range: "lo \<le> hi \<Longrightarrow> lo \<le> clamp v lo hi \<and> clamp v lo hi \<le> hi"
  by (auto simp: clamp_def)

lemma robin_hash_new_Inr:
  assumes "robin_hash_new cfg c min_lf max_lf = Inr t"
  shows "table_ok cfg t" "rh_map t = Map.empty" "unat c \<le> m_bucket_count t"
    "m_bucket_count t = 0 \<longleftrightarrow> c = 0" "m_buckets_data t = new_buckets (m_bucket_count t)"
    "\<not> m_grow_on_next_insert t" "\<not> m_try_shrink_on_next_insert t"
proof -
  obtain msk n where new: "pow2_new c = Inr (msk, n)"
    and t: "t = set_max_load_factor max_lf (set_min_load_factor min_lf
             \<lparr>m_mask = msk, m_buckets_data = new_buckets (unat n),
              m_bucket_count = unat n, m_nb_elements = 0, m_load_threshold = 0,
              m_min_load_factor = 0, m_max_load_factor = 0,
              m_grow_on_next_insert = False, m_try_shrink_on_next_insert = False\<rparr>)"
    using assms by (auto simp: robin_hash_new_def split: sum.splits prod.splits if_splits)
  have sel: "m_mask t = msk" "m_bucket_count t = unat n" "m_buckets_data t = new_buckets (unat n)"
      "m_nb_elements t = 0" "m_min_load_factor t = clamp min_lf 0 (flt (15 / 100))"
      "m_max_load_factor t = clamp max_lf (flt (2 / 10)) (flt (95 / 100))"
      "m_load_threshold t = nat \<lfloor>flt (flt (of_nat (unat n)) * m_max_load_factor t)\<rfloor>"
      "\<not> m_grow_on_next_insert t" "\<not> m_try_shrink_on_next_insert t"
    by (simp_all add: t set_max_load_factor_def set_min_load_factor_def Let_def)
  have "flt (2 / 10) \<le> flt (95 / 100)"
    using flt_upper [of "2 / 10"] flt_lower [of "95 / 100"] by simp
  then have f: "factors_ok t" "0 \<le> m_max_load_factor t" "m_max_load_factor t \<le> flt (95 / 100)"
    using clamp_range [OF flt_nonneg, of min_lf "15 / 100"]
      clamp_range [of "flt (2 / 10)" "flt (95 / 100)" max_lf] order_trans [OF flt_nonneg [of "2 / 10"]]
    by (auto simp: factors_ok_def sel)
  have pn: "n = 0 \<and> msk = 0 \<and> c = 0 \<or> c \<noteq> 0 \<and> mask_ok msk (unat n) \<and> unat c \<le> unat n"
    using pow2_new_Inr [OF new] by (auto simp: mask_ok_def)
  show "table_ok cfg t"
  proof (cases "c = 0")
    case True
    with pn mask_ok_pos have "n = 0" "msk = 0" by auto
    with f show ?thesis by (simp add: table_ok_def sel new_buckets_props flt_def round_fp_def)
  next
    case False
    with pn have "mask_ok msk (unat n)" by auto
    moreover from this have "0 < unat n" by (rule mask_ok_pos)
    moreover have "\<forall>b \<in> set (new_buckets (unat n) :: ('a, 'b) bucket_entry list). m_dist b < 32767"
      by (auto simp: new_buckets_def new_bucket_def)
    ultimately show ?thesis
      using f load_threshold_less [of "m_max_load_factor t" "unat n"]
      by (simp add: table_ok_def sel new_buckets_props new_buckets_ok)
  qed
  show "rh_map t = Map.empty" by (simp add: rh_map_def sel new_buckets_props)
  show "unat c \<le> m_bucket_count t" "m_bucket_count t = 0 \<longleftrightarrow> c = 0"
    using pn mask_ok_pos [of msk "unat n"] by (auto simp: sel)
  show "m_buckets_data t = new_buckets (m_bucket_count t)"
    "\<not> m_grow_on_next_insert t" "\<not> m_try_shrink_on_next_insert t" by (simp_all add: sel)
qed

section \<open>Lookup\<close>

lemma find_zero:
  assumes "table_ok cfg t" "m_bucket_count t = 0"
  shows "probe_key cfg (m_mask t) (m_buckets t) (probe_fuel t) k hash (bucket_for_hash (m_mask t) hash') 0 =
         Some (Stopped 0 0)"
  using table_ok_zero [OF assms] assms(2)
  by (simp add: probe_fuel_def bucket_for_hash_def pow2_bucket_for_hash_def m_buckets_def bucket_at_def
      new_bucket_def)

lemma bucket_home: "mask_ok msk n \<Longrightarrow> bucket_for_hash msk (hash_key cfg k) = home cfg n k"
  by (simp add: mask_ok_bucket home_def)

lemma probe_table:
  fixes k :: 'k
  assumes "table_ok cfg t" "m_bucket_count t \<noteq> 0"
  defines "bs \<equiv> m_buckets_data t" and "h \<equiv> home cfg (m_bucket_count t) k"
  shows "rh_map t k = Some v \<Longrightarrow>
           \<exists>i < m_bucket_count t. m_value (bs ! i) = Some (k, v) \<and>
             probe_key cfg (m_mask t) (m_buckets t) (probe_fuel t) k (hash_key cfg k)
               (bucket_for_hash (m_mask t) (hash_key cfg k)) 0 = Some (Found i)"
    and "rh_map t k = None \<Longrightarrow>
           probe_key cfg (m_mask t) (m_buckets t) (probe_fuel t) k (hash_key cfg k)
             (bucket_for_hash (m_mask t) (hash_key cfg k)) 0 =
           Some (Stopped ((h + stop_dist bs h) mod m_bucket_count t) (int (stop_dist bs h)))"
proof -
  note ok = table_okD [OF assms(1,2)]
  obtain j where j: "j < length (m_buckets_data t)" "m_dist (m_buckets_data t ! j) = - 1"
    using ok(7) by blast
  have args: "bucket_for_hash (m_mask t) (hash_key cfg k) = home cfg (length bs) k"
      "probe_fuel t = length bs + 1" "m_bucket_count t = length bs" "m_buckets t = bs"
    using bucket_home [OF ok(2)] by (simp_all add: probe_fuel_def ok(1,6) bs_def)
  {
    assume "rh_map t k = Some v"
    then obtain i where i: "i < m_bucket_count t" "m_value (bs ! i) = Some (k, v)"
      using rh_map_Some_iff [OF assms(1)] by (auto simp: bs_def)
    from probe_key_found [OF ok(3,2,4) j ok(8), of i k v] i ok(1)
    show "\<exists>i < m_bucket_count t. m_value (bs ! i) = Some (k, v) \<and>
             probe_key cfg (m_mask t) (m_buckets t) (probe_fuel t) k (hash_key cfg k)
               (bucket_for_hash (m_mask t) (hash_key cfg k)) 0 = Some (Found i)"
      unfolding args(1,2,4) by (intro exI [of _ i]) (simp add: bs_def del: probe_key.simps)
  next
    assume "rh_map t k = None"
    from probe_key_absent [OF ok(3,2,4) j, of k] this
    show "probe_key cfg (m_mask t) (m_buckets t) (probe_fuel t) k (hash_key cfg k)
             (bucket_for_hash (m_mask t) (hash_key cfg k)) 0 =
           Some (Stopped ((h + stop_dist bs h) mod m_bucket_count t) (int (stop_dist bs h)))"
      unfolding args h_def rh_map_None_iff by (simp only: bs_def) simp
  }
qed

lemma find_impl_correct:
  assumes "table_ok cfg t"
  shows "rh_map t k = Some v \<Longrightarrow>
           \<exists>i < m_bucket_count t. find_impl cfg k (hash_key cfg k) t = Some i \<and>
             m_value (m_buckets_data t ! i) = Some (k, v)"
    and "rh_map t k = None \<Longrightarrow> find_impl cfg k (hash_key cfg k) t = Some (m_bucket_count t)"
proof -
  show "\<exists>i < m_bucket_count t. find_impl cfg k (hash_key cfg k) t = Some i \<and>
             m_value (m_buckets_data t ! i) = Some (k, v)" if kv: "rh_map t k = Some v"
  proof (cases "m_bucket_count t = 0")
    case False
    with probe_table(1) [OF assms False kv] show ?thesis by (auto simp: find_impl_def)
  qed (use table_ok_zero [OF assms] kv in simp)
  show "find_impl cfg k (hash_key cfg k) t = Some (m_bucket_count t)" if "rh_map t k = None"
    using probe_table(2) [OF assms _ that] find_zero [OF assms]
    by (cases "m_bucket_count t = 0") (simp_all add: find_impl_def)
qed

section \<open>Rehashing\<close>

lemma stored_hash_bucket:
  assumes "mask_ok msk n" "n \<le> 2 ^ 32"
  shows "bucket_for_hash msk (ucast (ucast h :: u32)) = bucket_for_hash msk h"
proof -
  obtain k where k: "n = 2 ^ k" using assms(1) by (auto simp: mask_ok_def)
  with assms(2) have "k \<le> 32" by (simp only: power_increasing_iff)
  then have "(2 :: nat) ^ k dvd 2 ^ 32" by (rule le_imp_power_dvd)
  moreover have "unat (ucast (ucast h :: u32) :: u64) = unat h mod 2 ^ 32"
    by (simp add: unat_ucast_up unat_ucast_down)
  ultimately show ?thesis
    using assms(1) k by (simp add: mask_ok_bucket mod_mod_cancel)
qed

lemma truncate_twice: "ucast (ucast (ucast (h :: u64) :: u32) :: u64) = (ucast h :: u32)"
  by (simp add: word_unat_eq_iff unat_ucast_up unat_ucast_down)

text \<open>What the loop of \<open>rehash_impl\<close> needs of the old buckets.\<close>

definition old_bucket_ok :: "'k rh_config \<Rightarrow> ('k, 'v) bucket_entry \<Rightarrow> bool" where
  "old_bucket_ok cfg b =
     (case m_value b of
        None \<Rightarrow> bucket_empty b
      | Some (k, v) \<Rightarrow> \<not> bucket_empty b \<and> (STORE_HASH cfg \<longrightarrow> m_hash b = ucast (hash_key cfg k)))"

lemma array_old_buckets: "array_ok cfg bs \<Longrightarrow> \<forall>b \<in> set bs. old_bucket_ok cfg b"
  by (fastforce simp: array_ok_def bucket_ok_def old_bucket_ok_def bucket_empty_def in_set_conv_nth
      split: option.splits)

lemma rehash_loop_none:
  "\<forall>b \<in> set bs. old_bucket_ok cfg b \<Longrightarrow> vals bs = [] \<Longrightarrow> rehash_loop cfg us bs nt = Some nt"
  by (induction bs) (auto simp: old_bucket_ok_def split: option.splits)

lemma carry_home:
  assumes "array_ok cfg bs" "bs \<noteq> []" "STORE_HASH cfg \<longrightarrow> h = ucast (hash_key cfg k)"
  shows "carry_ok cfg bs (home cfg (length bs) k) 0 h k"
proof -
  have "0 \<le> m_dist (bs ! j) + 1" if "j < length bs" for j using array_dist(1) [OF assms(1) that] by simp
  with assms(2,3) show ?thesis by (simp add: carry_ok_def home_def)
qed

lemma array_insert:
  assumes ok: "array_ok cfg bs" and msk: "mask_ok msk (length bs)"
    and few: "length (vals bs) < length bs" "length (vals bs) \<le> 32767"
    and h: "STORE_HASH cfg \<longrightarrow> h = ucast (hash_key cfg k)"
  shows "\<exists>bs'. insert_value_on_rehash cfg msk (length bs + 1) bs (home cfg (length bs) k) 0 h (k, v) = Some bs' \<and>
           array_ok cfg bs' \<and> length bs' = length bs \<and> mset (vals bs') = add_mset (k, v) (mset (vals bs))"
proof -
  let ?n = "length bs" and ?i = "home cfg (length bs) k" and ?D = "int (length (vals bs)) - 1"
  have n: "bs \<noteq> []" using few(1) by auto
  then have i: "?i < ?n" by (simp add: home_def)
  obtain j where j: "j < ?n" "m_dist (bs ! j) = - 1" using vals_empty_ex [OF ok few(1)] by blast
  obtain m where m: "m < ?n" "j = (?i + m) mod ?n" using ring_offset [OF j(1) i] by blast
  have D: "m_dist (bs ! i) \<le> ?D" if "i < ?n" for i using dist_below_count [OF ok few(1) that] by simp
  moreover have "(?i + m') mod ?n < ?n" for m' using i by (rule ring_less)
  ultimately have "\<forall>m' \<le> m. m_dist (bs ! ((?i + m') mod ?n)) \<le> ?D" by blast
  moreover have "\<forall>j < ?n. m_dist (bs ! j) \<le> ?D + 1" using D by force
  ultimately show ?thesis
    using insert_loops [OF ok msk carry_home [OF ok n h] m(1), of "?n + 1" ?D v] j(2) m few(2) by auto
qed

lemma rehash_loop_ok:
  assumes "\<forall>b \<in> set bs. old_bucket_ok cfg b"
    and "array_ok cfg (m_buckets_data nt)" "mask_ok (m_mask nt) (length (m_buckets_data nt))"
    and "m_bucket_count nt = length (m_buckets_data nt)"
    and "length (vals bs) + length (vals (m_buckets_data nt)) < length (m_buckets_data nt)"
    and "length (vals bs) + length (vals (m_buckets_data nt)) \<le> 32767"
    and us: "us \<longrightarrow> STORE_HASH cfg \<and> length (m_buckets_data nt) \<le> 2 ^ 32"
  shows "\<exists>data. rehash_loop cfg us bs nt = Some (nt\<lparr>m_buckets_data := data\<rparr>) \<and> array_ok cfg data \<and>
           length data = length (m_buckets_data nt) \<and>
           mset (vals data) = mset (vals bs) + mset (vals (m_buckets_data nt))"
  using assms
proof (induction bs arbitrary: nt)
  case Nil
  then show ?case by (intro exI [of _ "m_buckets_data nt"]) simp
next
  case (Cons b bs)
  let ?bs = "m_buckets_data nt"
  have old: "old_bucket_ok cfg b" using Cons.prems(1) by simp
  show ?case
  proof (cases "m_value b")
    case None
    then have "bucket_empty b" using old by (simp add: old_bucket_ok_def)
    then show ?thesis using Cons.IH [of nt] Cons.prems None by simp
  next
    case (Some w)
    obtain k v where w: "w = (k, v)" by (cases w)
    have b: "\<not> bucket_empty b" "STORE_HASH cfg \<longrightarrow> m_hash b = ucast (hash_key cfg k)"
      using old Some w by (simp_all add: old_bucket_ok_def)
    define hash where "hash = (if us then ucast (truncated_hash cfg b) else hash_key cfg k :: u64)"
    have hash: "hash = (if us then ucast (ucast (hash_key cfg k) :: u32) else hash_key cfg k)"
      using Cons.prems(7) b(2) by (auto simp: hash_def truncated_hash_def)
    then have "STORE_HASH cfg \<longrightarrow> truncate_hash hash = ucast (hash_key cfg k)"
      by (simp add: truncate_hash_def truncate_twice)
    moreover have idx: "bucket_for_hash (m_mask nt) hash = home cfg (length ?bs) k"
      using stored_hash_bucket [OF Cons.prems(3), of "hash_key cfg k"] Cons.prems(7)
        bucket_home [OF Cons.prems(3)] by (auto simp: hash)
    ultimately obtain bs' where bs': "insert_value_on_rehash cfg (m_mask nt) (length ?bs + 1) ?bs
          (home cfg (length ?bs) k) 0 (truncate_hash hash) (k, v) = Some bs'" "array_ok cfg bs'"
          "length bs' = length ?bs" "mset (vals bs') = add_mset (k, v) (mset (vals ?bs))"
      using array_insert [OF Cons.prems(2,3), of "truncate_hash hash" k v] Cons.prems(5,6) Some by auto
    have "rehash_loop cfg us (b # bs) nt =
        (case insert_value_on_rehash cfg (m_mask nt) (probe_fuel nt) ?bs
                (bucket_for_hash (m_mask nt) hash) 0 (truncate_hash hash) (k, v) of
           None \<Rightarrow> None | Some data \<Rightarrow> rehash_loop cfg us bs (nt\<lparr>m_buckets_data := data\<rparr>))"
      using b(1) Some
      by (simp add: hash_def w Let_def split del: if_split cong: if_cong del: insert_value_on_rehash.simps)
    then have step: "rehash_loop cfg us (b # bs) nt = rehash_loop cfg us bs (nt\<lparr>m_buckets_data := bs'\<rparr>)"
      unfolding probe_fuel_def Cons.prems(4) idx bs'(1) by simp
    have len: "length (vals bs') = Suc (length (vals ?bs))"
      using mset_eq_length [of "vals bs'" "(k, v) # vals ?bs"] bs'(4) by simp
    show ?thesis
      unfolding step using Cons.IH [of "nt\<lparr>m_buckets_data := bs'\<rparr>"] Cons.prems bs' Some w len
      by auto
  qed
qed

lemma rehash_impl_ok:
  fixes t t' :: "('k, 'v) robin_hash"
  assumes ok: "table_ok cfg t" and few: "m_nb_elements t \<le> 32767"
    and cnt: "m_nb_elements t < unat c \<or> c = 0 \<and> m_nb_elements t = 0"
  shows "rehash_impl cfg c t = Inl e \<Longrightarrow> e = Length_Exceeded"
    and "rehash_impl cfg c t = Inr t' \<Longrightarrow> table_ok cfg t' \<and> rh_map t' = rh_map t \<and>
           unat c \<le> m_bucket_count t' \<and> m_nb_elements t' = m_nb_elements t \<and>
           \<not> m_grow_on_next_insert t' \<and> \<not> m_try_shrink_on_next_insert t'"
proof -
  let ?bs = "m_buckets_data t"
  have nb: "m_nb_elements t = length (vals ?bs)" and dk: "distinct (map fst (vals ?bs))"
    using ok by (simp_all add: table_ok_def)
  have old: "\<forall>b \<in> set ?bs. old_bucket_ok cfg b"
    using table_okD(3) [OF ok] table_ok_zero(1) [OF ok] array_old_buckets
    by (cases "m_bucket_count t = 0") auto
  have main: "\<exists>data. rehash_impl cfg c t = Inr (nt\<lparr>m_buckets_data := data, m_nb_elements := m_nb_elements t\<rparr>) \<and>
       (m_bucket_count nt \<noteq> 0 \<longrightarrow> array_ok cfg data) \<and> length data = m_bucket_count nt \<and>
       mset (vals data) = mset (vals ?bs)"
    if new: "robin_hash_new cfg c (m_min_load_factor t) (m_max_load_factor t) = Inr nt" for nt :: "('k, 'v) robin_hash"
  proof (cases "c = 0")
    case True
    then have "vals ?bs = []" using cnt nb by auto
    moreover have "m_bucket_count nt = 0" "m_buckets_data nt = []"
      using robin_hash_new_Inr(4,5) [OF new] True by (simp_all add: new_buckets_def)
    ultimately show ?thesis using rehash_loop_none [OF old] new
      by (intro exI [of _ "[]"]) (simp add: rehash_impl_def)
  next
    case False
    note nt = robin_hash_new_Inr [OF new]
    have n: "m_bucket_count nt \<noteq> 0" using nt(4) False by simp
    note okn = table_okD [OF nt(1) n]
    define us where "us = USE_STORED_HASH_ON_REHASH cfg (of_nat (m_bucket_count nt))"
    have us: "us \<longrightarrow> STORE_HASH cfg \<and> length (m_buckets_data nt) \<le> 2 ^ 32"
    proof
      assume u: us
      obtain k where k: "k \<le> 63" "m_bucket_count nt = 2 ^ k"
        using okn(1,2) by (auto simp: mask_ok_def)
      have c: "unat (of_nat (2 ^ k) :: u64) = 2 ^ k" using unat_power2 [of k] k(1) by simp
      have "of_nat (2 ^ k) - 1 \<le> (0xFFFFFFFF :: u64)"
        using u by (simp add: us_def USE_STORED_HASH_ON_REHASH_def k(2))
      then have "unat (of_nat (2 ^ k) - 1 :: u64) \<le> 0xFFFFFFFF" by (simp add: word_le_nat_alt)
      moreover have "unat (of_nat (2 ^ k) - 1 :: u64) = 2 ^ k - 1"
        using c by (subst unat_minus_one) (auto simp: word_unat_eq_iff)
      ultimately have "(2 :: nat) ^ k \<le> 2 ^ 32" by simp
      with u k(2) okn(1) show "STORE_HASH cfg \<and> length (m_buckets_data nt) \<le> 2 ^ 32"
        by (simp add: us_def USE_STORED_HASH_ON_REHASH_def)
    qed
    have v0: "vals (m_buckets_data nt) = []" using nt(5) by (simp add: new_buckets_props)
    have "length (vals ?bs) < m_bucket_count nt" using cnt False nb nt(3) by auto
    with rehash_loop_ok [OF old okn(3,2) okn(1) [symmetric] _ _ us] v0 few nb okn(1)
    obtain data where "rehash_loop cfg us ?bs nt = Some (nt\<lparr>m_buckets_data := data\<rparr>)"
        "array_ok cfg data" "length data = m_bucket_count nt" "mset (vals data) = mset (vals ?bs)"
      by auto
    then show ?thesis using new by (intro exI [of _ data]) (simp add: rehash_impl_def us_def)
  qed
  show "e = Length_Exceeded" if "rehash_impl cfg c t = Inl e"
  proof (cases "robin_hash_new cfg c (m_min_load_factor t) (m_max_load_factor t) :: rh_error + ('k, 'v) robin_hash")
    case (Inl e')
    with that show ?thesis
      by (auto simp: rehash_impl_def robin_hash_new_def split: sum.splits prod.splits if_splits)
  next
    case (Inr nt)
    from main [OF Inr] that show ?thesis by auto
  qed
  show "table_ok cfg t' \<and> rh_map t' = rh_map t \<and> unat c \<le> m_bucket_count t' \<and>
      m_nb_elements t' = m_nb_elements t \<and> \<not> m_grow_on_next_insert t' \<and> \<not> m_try_shrink_on_next_insert t'"
    if res: "rehash_impl cfg c t = Inr t'"
  proof (cases "robin_hash_new cfg c (m_min_load_factor t) (m_max_load_factor t) :: rh_error + ('k, 'v) robin_hash")
    case (Inl e')
    with res show ?thesis by (simp add: rehash_impl_def)
  next
    case (Inr nt)
    note nt = robin_hash_new_Inr [OF Inr]
    from main [OF Inr] res obtain data
      where t': "t' = nt\<lparr>m_buckets_data := data, m_nb_elements := m_nb_elements t\<rparr>"
        and data: "m_bucket_count nt \<noteq> 0 \<longrightarrow> array_ok cfg data" "length data = m_bucket_count nt"
          "mset (vals data) = mset (vals ?bs)" by auto
    note perm = vals_permuted [OF dk data(3)]
    have "table_ok cfg t'"
    proof (cases "m_bucket_count nt = 0")
      case True
      with nt(1) data(2) perm nb cnt nt(4) show ?thesis by (auto simp: table_ok_def t' factors_ok_def)
    next
      case False
      then have lt: "length (vals data) < length data"
        using cnt nb nt(3,4) data(2) perm(3) by auto
      have "m_dist b < 32767" if "b \<in> set data" for b
        using that dist_below_count [OF _ lt] data(1) False few nb perm(3)
        by (fastforce simp: in_set_conv_nth)
      with nt(1) data perm nb False lt show ?thesis by (auto simp: table_ok_def t' factors_ok_def)
    qed
    with nt perm(2) show ?thesis by (simp add: t' rh_map_def)
  qed
qed

end
