(* ===== verification/Robin_Ops.thy ===== *)
theory Robin_Ops
  imports Robin_Table
begin

text \<open>
  The public operations of the Robin Hood table on a valid table: growing and shrinking, insertion,
  erasing and clearing, each with its effect on the map the table stands for.
\<close>

section \<open>Rehashing on demand\<close>

lemma buckets_for_upper:
  assumes "flt (2 / 10) \<le> m" "n \<le> 2 ^ 60"
  shows "buckets_for n m < 2 ^ 64"
proof -
  define c where "c = (1 + 1 / 2 ^ 24 :: rat)"
  have c: "0 < c" "c * c < 11 / 10" by (simp_all add: c_def)
  have m: "19 / 100 \<le> m" using assms(1) flt_20 by simp
  have "flt (of_nat n) / m \<le> of_nat n * c / (19 / 100)"
    using flt_upper [of "of_nat n"] m by (intro frac_le) (simp_all add: c_def)
  then have "flt (of_nat n) / m * c \<le> of_nat n * c / (19 / 100) * c" using c(1) by (intro mult_right_mono) simp_all
  moreover have "flt (flt (of_nat n) / m) \<le> flt (of_nat n) / m * c"
    unfolding c_def flt_def [of "flt (of_nat n) / m"] by (rule round_fp_upper) (use m in simp_all)
  ultimately have "flt (flt (of_nat n) / m) \<le> of_nat n * c / (19 / 100) * c" by (rule order_trans [rotated])
  also have "\<dots> = of_nat n * (c * c) * (100 / 19)" by simp
  also have "\<dots> \<le> 2 ^ 60 * (11 / 10) * (100 / 19)"
    using c(2) assms(2) of_nat_mono [OF assms(2), where 'a = rat]
    by (intro mult_right_mono mult_mono) simp_all
  also have "\<dots> \<le> 2 ^ 63" by simp
  finally have "\<lceil>flt (flt (of_nat n) / m)\<rceil> \<le> 2 ^ 63" by (simp add: ceiling_le_iff)
  then have "nat \<lceil>flt (flt (of_nat n) / m)\<rceil> \<le> nat (2 ^ 63)" by (rule nat_mono)
  then show ?thesis by (simp add: buckets_for_def)
qed

lemma factorsD: "table_ok cfg t \<Longrightarrow> flt (2 / 10) \<le> m_max_load_factor t \<and> m_max_load_factor t \<le> flt (95 / 100)"
  by (simp add: table_ok_def factors_ok_def)

lemma rehash_ok:
  assumes ok: "table_ok cfg t" and few: "m_nb_elements t \<le> 32767"
  shows "rehash cfg c t = Inl e \<Longrightarrow> e = Length_Exceeded"
    and "rehash cfg c t = Inr t' \<Longrightarrow> table_ok cfg t' \<and> rh_map t' = rh_map t \<and>
           unat c \<le> m_bucket_count t' \<and> m_nb_elements t' = m_nb_elements t"
proof -
  let ?need = "buckets_for (m_nb_elements t) (m_max_load_factor t)"
  note f = factorsD [OF ok]
  have small: "?need < 2 ^ 64" using buckets_for_upper [of "m_max_load_factor t"] f few by simp
  have unfold: "rehash cfg c t = rehash_impl cfg (max c (of_nat ?need)) t"
    using small by (simp add: rehash_def Let_def)
  have u: "unat (of_nat ?need :: u64) = ?need" using small by (intro unat_of_nat_small) simp
  have le: "unat c \<le> unat (max c (of_nat ?need))" "?need \<le> unat (max c (of_nat ?need))"
    using u by (auto simp: max_def word_le_nat_alt)
  have "m_nb_elements t < unat (max c (of_nat ?need)) \<or> max c (of_nat ?need) = 0 \<and> m_nb_elements t = 0"
  proof (cases "m_nb_elements t = 0")
    case True
    then show ?thesis by (cases "max c (of_nat ?need) = 0") (simp_all add: unat_gt_0)
  next
    case False
    then have "m_nb_elements t < ?need" using buckets_for_less f by blast
    with le(2) show ?thesis by linarith
  qed
  note imp = rehash_impl_ok [OF ok few this]
  show "rehash cfg c t = Inl e \<Longrightarrow> e = Length_Exceeded" unfolding unfold by (rule imp(1))
  show "rehash cfg c t = Inr t' \<Longrightarrow> table_ok cfg t' \<and> rh_map t' = rh_map t \<and>
           unat c \<le> m_bucket_count t' \<and> m_nb_elements t' = m_nb_elements t"
    unfolding unfold using imp(2) [of t'] le(1) by auto
qed

lemma reserve_ok:
  assumes ok: "table_ok cfg t" and few: "m_nb_elements t \<le> 32767" "n \<le> 2 ^ 60"
  shows "reserve cfg n t = Inl e \<Longrightarrow> e = Length_Exceeded"
    and "reserve cfg n t = Inr t' \<Longrightarrow> table_ok cfg t' \<and> rh_map t' = rh_map t \<and>
           m_nb_elements t' = m_nb_elements t \<and> (n < m_bucket_count t' \<or> n = 0)"
proof -
  let ?need = "buckets_for n (m_max_load_factor t)"
  note f = factorsD [OF ok]
  have small: "?need < 2 ^ 64" using buckets_for_upper [of "m_max_load_factor t" n] f few(2) by simp
  have unfold: "reserve cfg n t = rehash cfg (of_nat ?need) t"
    using small by (simp add: reserve_def Let_def)
  have u: "unat (of_nat ?need :: u64) = ?need" using small by (intro unat_of_nat_small) simp
  show "reserve cfg n t = Inl e \<Longrightarrow> e = Length_Exceeded"
    unfolding unfold by (rule rehash_ok(1) [OF ok few(1)])
  show "reserve cfg n t = Inr t' \<Longrightarrow> table_ok cfg t' \<and> rh_map t' = rh_map t \<and>
           m_nb_elements t' = m_nb_elements t \<and> (n < m_bucket_count t' \<or> n = 0)"
    unfolding unfold using rehash_ok(2) [OF ok few(1), of "of_nat ?need" t'] u f buckets_for_less [of "m_max_load_factor t" n]
    by (cases "n = 0") auto
qed

text \<open>When the next insertion rebuilds the table.\<close>

definition rehash_due :: "('k, 'v) robin_hash \<Rightarrow> bool" where
  "rehash_due t =
     (m_grow_on_next_insert t \<or> m_nb_elements t \<ge> m_load_threshold t \<or>
      m_try_shrink_on_next_insert t \<and> m_min_load_factor t \<noteq> 0 \<and> load_factor t < m_min_load_factor t)"

lemma load_factor_flag [simp]: "load_factor (t\<lparr>m_try_shrink_on_next_insert := b\<rparr>) = load_factor t"
  by (simp add: load_factor_def)

lemma table_ok_flags [simp]:
  "table_ok cfg (t\<lparr>m_try_shrink_on_next_insert := b\<rparr>) = table_ok cfg t"
  "table_ok cfg (t\<lparr>m_grow_on_next_insert := b\<rparr>) = table_ok cfg t"
  "rh_map (t\<lparr>m_try_shrink_on_next_insert := b\<rparr>) = rh_map t"
  "rh_map (t\<lparr>m_grow_on_next_insert := b\<rparr>) = rh_map t"
  by (simp_all add: table_ok_def factors_ok_def rh_map_def)

lemma extreme_load_ok:
  assumes ok: "table_ok cfg t" and few: "rehash_due t \<Longrightarrow> m_nb_elements t \<le> 32767"
  shows "rehash_on_extreme_load cfg t = Inl e \<Longrightarrow> e = Length_Exceeded"
    and "rehash_on_extreme_load cfg t = Inr (t1, r) \<Longrightarrow>
           table_ok cfg t1 \<and> rh_map t1 = rh_map t \<and> m_nb_elements t1 = m_nb_elements t \<and>
           m_nb_elements t + 1 < m_bucket_count t1 \<and> (r \<longleftrightarrow> rehash_due t) \<and>
           (\<not> r \<longrightarrow> t1 = t \<or> t1 = t\<lparr>m_try_shrink_on_next_insert := False\<rparr>)"
proof (atomize(full), goal_cases)
  case 1
  let ?nb = "m_nb_elements t"
  consider (grow) "m_grow_on_next_insert t \<or> ?nb \<ge> m_load_threshold t"
    | (shrink) "\<not> (m_grow_on_next_insert t \<or> ?nb \<ge> m_load_threshold t)" "m_try_shrink_on_next_insert t"
        "m_min_load_factor t \<noteq> 0 \<and> load_factor t < m_min_load_factor t"
    | (stay) "\<not> (m_grow_on_next_insert t \<or> ?nb \<ge> m_load_threshold t)"
        "\<not> (m_try_shrink_on_next_insert t \<and> m_min_load_factor t \<noteq> 0 \<and> load_factor t < m_min_load_factor t)"
    by blast
  then show ?case
  proof cases
    case grow
    then have due: "rehash_due t" by (auto simp: rehash_due_def)
    have lt: "?nb + 1 < unat c" if "pow2_next_bucket_count 2 (m_mask t) = Inr c" for c
    proof (cases "m_bucket_count t = 0")
      case True
      then show ?thesis using that table_ok_zero [OF ok True] pow2_next [of 2 0 c] by simp
    next
      case False
      then obtain k where k: "k \<le> 63" "m_mask t = mask k" "m_bucket_count t = 2 ^ k" "?nb < m_bucket_count t"
        using ok by (auto simp: table_ok_def mask_ok_def)
      with pow2_next [of 2 k c] that show ?thesis by simp
    qed
    show ?thesis
    proof (cases "pow2_next_bucket_count 2 (m_mask t)")
      case (Inl x)
      with grow show ?thesis by (simp add: rehash_on_extreme_load_def)
    next
      case (Inr c)
      from lt [OF Inr] have "?nb < unat c \<or> c = 0 \<and> ?nb = 0" by simp
      note imp = rehash_impl_ok [OF ok few [OF due] this]
      show ?thesis
      proof (cases "rehash_impl cfg c t")
        case Inl2: (Inl x)
        with grow Inr imp(1) [OF Inl2] show ?thesis by (simp add: rehash_on_extreme_load_def)
      next
        case Inr2: (Inr t')
        have eq: "rehash_on_extreme_load cfg t = Inr (t'\<lparr>m_grow_on_next_insert := False\<rparr>, True)"
          using grow Inr Inr2 by (simp add: rehash_on_extreme_load_def)
        show ?thesis using imp(2) [OF Inr2] lt [OF Inr] due unfolding eq by clarsimp
      qed
    qed
  next
    case shrink
    then have due: "rehash_due t" by (auto simp: rehash_due_def)
    let ?t = "t\<lparr>m_try_shrink_on_next_insert := False\<rparr>"
    have res: "rehash_on_extreme_load cfg t =
        (case reserve cfg (?nb + 1) ?t of Inl e \<Rightarrow> Inl e | Inr t2 \<Rightarrow> Inr (t2, True))"
      using shrink by (simp add: rehash_on_extreme_load_def Let_def)
    have A: "table_ok cfg ?t" "m_nb_elements ?t \<le> 32767" "?nb + 1 \<le> 2 ^ 60"
      using few [OF due] ok by simp_all
    note imp = reserve_ok [OF A]
    show ?thesis
    proof (cases "reserve cfg (?nb + 1) ?t")
      case (Inl x)
      with imp(1) [OF Inl] show ?thesis by (simp add: res)
    next
      case (Inr t')
      from imp(2) [OF Inr] Inr due show ?thesis unfolding res by clarsimp
    qed
  next
    case stay
    then have nd: "\<not> rehash_due t" by (auto simp: rehash_due_def)
    have "m_load_threshold t < m_bucket_count t"
      using ok stay(1) table_ok_zero(4) [OF ok] by (cases "m_bucket_count t = 0") (auto simp: table_ok_def)
    with stay(1) have "?nb + 1 < m_bucket_count t" by linarith
    moreover have "rehash_on_extreme_load cfg t =
        Inr (if m_try_shrink_on_next_insert t then t\<lparr>m_try_shrink_on_next_insert := False\<rparr> else t, False)"
      using stay by (auto simp: rehash_on_extreme_load_def Let_def)
    ultimately show ?thesis using nd ok by (cases "m_try_shrink_on_next_insert t") clarsimp+
  qed
qed

section \<open>Insertion\<close>

text \<open>
  The array after a value has been placed where its probe stopped. The bound \<open>D\<close> on the distances
  grows by at most one.
\<close>

lemma place_in_array:
  fixes v :: 'v
  assumes ok: "array_ok cfg bs" and msk: "mask_ok msk (length bs)" and few: "length (vals bs) < length bs"
    and D: "\<forall>j < length bs. m_dist (bs ! j) \<le> D" "D < 32767"
    and c: "carry_ok cfg bs i d h k" "d \<le> D + 1" and lt: "m_dist (bs ! i) < d"
    and w: "m_value (bs ! i) = Some (k', v')"
  defines "bs1 \<equiv> bs[i := set_value_of_empty_bucket cfg d h (k, v) (bs ! i)]"
  shows "\<exists>bs'. (\<forall>grow. \<exists>g. insert_value_loop cfg msk (length bs + 1) bs1 (next_bucket msk i)
               (distance_type (m_dist (bs ! i) + 1)) (if STORE_HASH cfg then m_hash (bs ! i) else h)
               (k', v') grow = Some (bs', g)) \<and>
           array_ok cfg bs' \<and> length bs' = length bs \<and>
           mset (vals bs') = add_mset (k, v) (mset (vals bs)) \<and>
           (\<forall>j < length bs. m_dist (bs' ! j) \<le> D + 1) \<and> m_value (bs' ! i) = Some (k, v)"
proof -
  let ?n = "length bs" and ?h = "if STORE_HASH cfg then m_hash (bs ! i) else h"
  have i: "i < ?n" using c(1) by (simp add: carry_ok_def)
  obtain j where j: "j < ?n" "m_dist (bs ! j) = - 1" using vals_empty_ex [OF ok few] by blast
  have "j \<noteq> i" using array_dist(2) [OF ok i] w j(2) by auto
  then obtain m where m: "Suc m < ?n" "j = (i + Suc m) mod ?n"
    using ring_offset [OF j(1) i] i by (metis add_0_right mod_less not0_implies_Suc)
  have shift: "(nxt ?n i + m') mod ?n = (i + Suc m') mod ?n" for m' by (simp add: nxt_def mod_simps)
  have away: "(i + Suc m') mod ?n \<noteq> i" if "m' \<le> m" for m'
    using ring_away [OF i, of "Suc m'"] that m(1) by simp
  have in_range: "(i + Suc m') mod ?n < ?n" for m' using i by (rule ring_less)
  have same: "bs1 ! ((nxt ?n i + m') mod ?n) = bs ! ((i + Suc m') mod ?n)" if "m' \<le> m" for m'
    using away [OF that] by (simp add: shift bs1_def)
  have ok1: "array_ok cfg bs1" unfolding bs1_def by (rule array_put [OF ok c(1) lt])
  have c1: "carry_ok cfg bs1 (nxt ?n i) (m_dist (bs ! i) + 1) ?h k'"
    unfolding bs1_def by (rule carry_displaced [OF ok c(1) lt w])
  have len: "length bs1 = ?n" by (simp add: bs1_def)
  have "\<forall>m' \<le> m. m_dist (bs1 ! ((nxt ?n i + m') mod ?n)) \<le> D"
    using same D(1) in_range by (metis (no_types))
  moreover have "m_dist (bs1 ! ((nxt ?n i + m) mod ?n)) = - 1" using same [of m] j(2) m(2) by simp
  moreover have "\<forall>j < ?n. m_dist (bs1 ! j) \<le> D + 1"
    using D(1) c(2) i by (auto simp: bs1_def nth_list_update intro: order_trans)
  moreover have "m_dist (bs ! i) + 1 \<le> D + 1" using D(1) i by simp
  ultimately obtain bs' where bs': "\<forall>grow. \<exists>g. insert_value_loop cfg msk (?n + 1) bs1 (nxt ?n i)
         (m_dist (bs ! i) + 1) ?h (k', v') grow = Some (bs', g)"
      "array_ok cfg bs'" "length bs' = ?n" "mset (vals bs') = add_mset (k', v') (mset (vals bs1))"
      "\<forall>j < ?n. m_dist (bs' ! j) \<le> D + 1"
      "\<forall>j. (\<forall>m' \<le> m. j \<noteq> (nxt ?n i + m') mod ?n) \<longrightarrow> bs' ! j = bs1 ! j"
    using insert_loops [OF ok1, of msk "nxt ?n i" "m_dist (bs ! i) + 1" ?h k' m "?n + 1" D v'] msk c1 m(1) D(2) len
    by auto
  have "bs' ! i = bs1 ! i" using bs'(6) away by (metis shift)
  moreover have "mset (vals bs') = add_mset (k, v) (mset (vals bs))"
    using bs'(4) mset_vals_update [OF i, of "set_value_of_empty_bucket cfg d h (k, v) (bs ! i)"] w
    by (simp add: bs1_def)
  moreover have "distance_type (m_dist (bs ! i) + 1) = m_dist (bs ! i) + 1"
    using D i array_dist(1) [OF ok i] by (intro distance_type_id) auto
  ultimately show ?thesis
    using bs'(1-3,5) i mask_ok_next [OF msk i] by (intro exI [of _ bs']) (simp add: bs1_def)
qed

lemma place_value_ok:
  fixes k :: 'k and t :: "('k, 'v) robin_hash"
  assumes ok: "table_ok cfg t" and n: "m_nb_elements t + 1 < m_bucket_count t"
    and D: "\<forall>b \<in> set (m_buckets_data t). m_dist b \<le> D" "D < 32767" "- 1 \<le> D"
  defines "h \<equiv> home cfg (m_bucket_count t) k"
  defines "s \<equiv> stop_dist (m_buckets_data t) h"
  shows "\<exists>bs' g. place_value cfg ((h + s) mod m_bucket_count t) (int s) (truncate_hash (hash_key cfg k)) (k, v) t =
             Some (t\<lparr>m_buckets_data := bs', m_grow_on_next_insert := g\<rparr>) \<and>
           array_ok cfg bs' \<and> length bs' = m_bucket_count t \<and>
           mset (vals bs') = add_mset (k, v) (mset (vals (m_buckets_data t))) \<and>
           (\<forall>b \<in> set bs'. m_dist b \<le> D + 1) \<and>
           m_value (bs' ! ((h + s) mod m_bucket_count t)) = Some (k, v)"
proof -
  let ?bs = "m_buckets_data t" and ?i = "(h + s) mod m_bucket_count t"
  let ?hash = "truncate_hash (hash_key cfg k)"
  have n0: "m_bucket_count t \<noteq> 0" using n by simp
  note tk = table_okD [OF ok n0]
  obtain j where j: "j < length ?bs" "m_dist (?bs ! j) = - 1" using tk(7) by blast
  have hs: "h = home cfg (length ?bs) k" by (simp add: h_def tk(1))
  note stop = stop_dist_props [OF tk(3) j, of h, folded s_def]
  have i: "?i < length ?bs" using n0 tk(1) by simp
  have c: "carry_ok cfg ?bs ?i (int s) ?hash k"
    using carry_at_stop [OF tk(3) j, of ?hash k] hs by (simp add: s_def truncate_hash_def tk(1))
  have lt: "m_dist (?bs ! ?i) < int s" using stop(1) by (simp add: passes_def tk(1))
  have D': "\<forall>j < length ?bs. m_dist (?bs ! j) \<le> D" using D(1) by auto
  have sD: "int s \<le> D + 1"
  proof (cases s)
    case (Suc e)
    then have "passes ?bs h e" using stop(2) by simp
    moreover have "(h + e) mod length ?bs < length ?bs" using j(1) by (rule ring_less)
    ultimately have "int e \<le> D" using D' by (auto simp: passes_def intro: order_trans)
    with Suc show ?thesis by simp
  qed (use D(3) in simp)
  have all: "(\<forall>b \<in> set bs'. m_dist b \<le> D + 1) \<longleftrightarrow> (\<forall>j < length bs'. m_dist (bs' ! j) \<le> D + 1)"
    for bs' :: "('k, 'v) bucket_entry list" by (metis in_set_conv_nth)
  show ?thesis
  proof (cases "m_value (?bs ! ?i)")
    case None
    let ?bs' = "?bs[?i := set_value_of_empty_bucket cfg (int s) ?hash (k, v) (?bs ! ?i)]"
    have e: "bucket_empty (?bs ! ?i)" using None array_dist(3) [OF tk(3) i] by simp
    have "mset (vals ?bs') = add_mset (k, v) (mset (vals ?bs))"
      using mset_vals_update [OF i, of "set_value_of_empty_bucket cfg (int s) ?hash (k, v) (?bs ! ?i)"] None
      by simp
    moreover have "\<forall>j < length ?bs. m_dist (?bs' ! j) \<le> D + 1"
      using D' sD i by (auto simp: nth_list_update intro: order_trans)
    moreover have "array_ok cfg ?bs'" by (rule array_put [OF tk(3) c lt])
    moreover have "place_value cfg ?i (int s) ?hash (k, v) t =
        Some (t\<lparr>m_buckets_data := ?bs', m_grow_on_next_insert := m_grow_on_next_insert t\<rparr>)"
      using e i by (simp add: place_value_def bucket_at_def)
    ultimately show ?thesis
      using i tk(1) unfolding all by (intro exI [of _ ?bs'] exI [of _ "m_grow_on_next_insert t"]) simp
  next
    case (Some w)
    obtain k' v' where w: "m_value (?bs ! ?i) = Some (k', v')" using Some by (cases w) auto
    have ne: "\<not> bucket_empty (?bs ! ?i)" using w array_dist(3) [OF tk(3) i] by simp
    from place_in_array [OF tk(3,2,5) D' D(2) c sD lt w, of v]
    obtain bs' g where bs': "insert_value_loop cfg (m_mask t) (length ?bs + 1)
          (?bs[?i := set_value_of_empty_bucket cfg (int s) ?hash (k, v) (?bs ! ?i)]) (next_bucket (m_mask t) ?i)
          (distance_type (m_dist (?bs ! ?i) + 1)) (if STORE_HASH cfg then m_hash (?bs ! ?i) else ?hash)
          (k', v') (m_grow_on_next_insert t) = Some (bs', g)"
        "array_ok cfg bs'" "length bs' = length ?bs" "mset (vals bs') = add_mset (k, v) (mset (vals ?bs))"
        "\<forall>j < length ?bs. m_dist (bs' ! j) \<le> D + 1" "m_value (bs' ! ?i) = Some (k, v)" by blast
    have "place_value cfg ?i (int s) ?hash (k, v) t =
        Some (t\<lparr>m_buckets_data := bs', m_grow_on_next_insert := g\<rparr>)"
      using ne i w bs'(1) tk(1)
      by (simp add: place_value_def insert_value_impl_def bucket_at_def swap_put probe_fuel_def
          del: insert_value_loop.simps)
    then show ?thesis
      using bs'(2-6) tk(1) unfolding all by (intro exI [of _ bs'] exI [of _ g]) simp
  qed
qed

text \<open>
  When an insertion cannot overflow the 16-bit distances: the table holds fewer than 32767 values,
  or it is not about to be rebuilt and no value is 32766 or more buckets away from its ideal one.
\<close>

definition insert_ready :: "('k, 'v) robin_hash \<Rightarrow> bool" where
  "insert_ready t =
     (m_nb_elements t < 32767 \<or>
      \<not> rehash_due t \<and> list_all (\<lambda>b. m_dist b < 32766) (m_buckets_data t))"

lemma placed_table_ok:
  fixes g :: bool
  assumes ok: "table_ok cfg t" and n: "m_nb_elements t + 1 < m_bucket_count t" and new: "rh_map t k = None"
    and bs': "array_ok cfg bs'" "length bs' = m_bucket_count t"
      "mset (vals bs') = add_mset (k, v) (mset (vals (m_buckets_data t)))"
    and room: "m_nb_elements t < 32767 \<or> (\<forall>b \<in> set bs'. m_dist b < 32767)"
  defines "t' \<equiv> t\<lparr>m_buckets_data := bs', m_grow_on_next_insert := g, m_nb_elements := m_nb_elements t + 1\<rparr>"
  shows "table_ok cfg t'" "rh_map t' = (rh_map t)(k \<mapsto> v)"
proof -
  have nb: "m_nb_elements t = length (vals (m_buckets_data t))"
    and dk: "distinct (map fst (vals (m_buckets_data t)))" using ok by (simp_all add: table_ok_def)
  note added = vals_added [OF dk new [unfolded rh_map_None_iff] bs'(3)]
  have "m_dist b < 32767" if "b \<in> set bs'" for b
  proof (cases "m_nb_elements t < 32767")
    case True
    have "length (vals bs') < length bs'" using n nb added(3) bs'(2) by simp
    from dist_below_count [OF bs'(1) this] that True added(3) nb show ?thesis
      by (fastforce simp: in_set_conv_nth)
  qed (use room that in blast)
  with ok n bs' added nb show "table_ok cfg t'" by (auto simp: table_ok_def t'_def factors_ok_def)
  show "rh_map t' = (rh_map t)(k \<mapsto> v)" using added(2) by (simp add: rh_map_def t'_def)
qed

lemma insert_new_key:
  assumes ok: "table_ok cfg t" and new: "rh_map t k = None" and ready: "insert_ready t"
  shows "insert_impl cfg k v t = Inl e \<Longrightarrow> e = Length_Exceeded \<and> rehash_due t"
    and "insert_impl cfg k v t = Inr (t', i, b) \<Longrightarrow>
           b \<and> table_ok cfg t' \<and> rh_map t' = (rh_map t)(k \<mapsto> v) \<and>
           i < m_bucket_count t' \<and> m_value (m_buckets_data t' ! i) = Some (k, v)"
proof -
  let ?hash = "hash_key cfg k"
  have few: "m_nb_elements t \<le> 32767" if "rehash_due t" using ready that by (auto simp: insert_ready_def)
  obtain i0 d0 where pr: "probe_key cfg (m_mask t) (m_buckets t) (probe_fuel t) k ?hash
        (bucket_for_hash (m_mask t) ?hash) 0 = Some (Stopped i0 d0)"
      and pr0: "m_bucket_count t \<noteq> 0 \<Longrightarrow> i0 = (home cfg (m_bucket_count t) k +
          stop_dist (m_buckets_data t) (home cfg (m_bucket_count t) k)) mod m_bucket_count t \<and>
        d0 = int (stop_dist (m_buckets_data t) (home cfg (m_bucket_count t) k))"
    using probe_table(2) [OF ok _ new] find_zero [OF ok, of k ?hash ?hash]
    by (cases "m_bucket_count t = 0") auto
  have key: "\<exists>t' i. insert_impl cfg k v t = Inr (t', i, True) \<and> table_ok cfg t' \<and>
       rh_map t' = (rh_map t)(k \<mapsto> v) \<and> i < m_bucket_count t' \<and> m_value (m_buckets_data t' ! i) = Some (k, v)"
    if ext: "rehash_on_extreme_load cfg t = Inr (t1, r)" for t1 r
  proof -
    note e = extreme_load_ok(2) [OF ok few ext]
    let ?h = "home cfg (m_bucket_count t1) k"
    let ?s = "stop_dist (m_buckets_data t1) ?h"
    let ?i = "(?h + ?s) mod m_bucket_count t1"
    from e have ok1: "table_ok cfg t1" and n1: "m_nb_elements t1 + 1 < m_bucket_count t1"
      and map1: "rh_map t1 = rh_map t" by auto
    from n1 have c1: "m_bucket_count t1 \<noteq> 0" by simp
    note tk = table_okD [OF ok1 c1]
    obtain j where j: "j < length (m_buckets_data t1)" "m_dist (m_buckets_data t1 ! j) = - 1" using tk(7) by blast
    have slot: "(if r then probe_slot (m_mask t1) (m_buckets t1) (probe_fuel t1) (bucket_for_hash (m_mask t1) ?hash) 0
           else Some (i0, d0)) = Some (?i, int ?s)"
    proof (cases r)
      case True
      with probe_slot_stop [OF tk(3,2,4) j, of k] show ?thesis
        by (simp add: tk(1,6) probe_fuel_def bucket_home [OF tk(2)] del: probe_slot.simps)
    next
      case False
      with e have "m_buckets_data t1 = m_buckets_data t" "m_bucket_count t1 = m_bucket_count t" by auto
      with pr0 c1 False show ?thesis by simp
    qed
    define D :: int where "D = (if m_nb_elements t < 32767 then 32766 else 32765)"
    have D: "\<forall>b \<in> set (m_buckets_data t1). m_dist b \<le> D"
    proof (cases "m_nb_elements t < 32767")
      case True
      with ok1 c1 show ?thesis by (auto simp: table_ok_def D_def)
    next
      case False
      with ready have nd: "\<not> rehash_due t" "\<forall>b \<in> set (m_buckets_data t). m_dist b \<le> 32765"
        by (fastforce simp: insert_ready_def list_all_iff)+
      then have "m_buckets_data t1 = m_buckets_data t" using e by auto
      with nd(2) False show ?thesis by (simp add: D_def)
    qed
    have D2: "D < 32767" "- 1 \<le> D" by (simp_all add: D_def)
    obtain bs' g where pl: "place_value cfg ?i (int ?s) (truncate_hash ?hash) (k, v) t1 =
           Some (t1\<lparr>m_buckets_data := bs', m_grow_on_next_insert := g\<rparr>)"
        and bs': "array_ok cfg bs'" "length bs' = m_bucket_count t1"
           "mset (vals bs') = add_mset (k, v) (mset (vals (m_buckets_data t1)))"
           "\<forall>b \<in> set bs'. m_dist b \<le> D + 1" "m_value (bs' ! ?i) = Some (k, v)"
      using place_value_ok [OF ok1 n1 D D2, of k v] by blast
    have "m_nb_elements t1 < 32767 \<or> (\<forall>b \<in> set bs'. m_dist b < 32767)"
      using bs'(4) e by (auto simp: D_def split: if_splits)
    note fin = placed_table_ok [OF ok1 n1 _ bs'(1-3) this, of g]
    show ?thesis
      using fin new map1 bs'(5) n1 pr ext slot pl
      by (intro exI [of _ "t1\<lparr>m_buckets_data := bs', m_grow_on_next_insert := g, m_nb_elements := m_nb_elements t1 + 1\<rparr>"]
          exI [of _ ?i]) (simp add: insert_impl_def del: probe_key.simps)
  qed
  show "e = Length_Exceeded \<and> rehash_due t" if res: "insert_impl cfg k v t = Inl e"
  proof (cases "rehash_on_extreme_load cfg t")
    case (Inl x)
    with res pr have "e = x" by (simp add: insert_impl_def del: probe_key.simps)
    with extreme_load_ok(1) [OF ok few Inl] Inl show ?thesis
      by (auto simp: rehash_on_extreme_load_def rehash_due_def Let_def split: if_splits)
  next
    case (Inr p)
    with key [of "fst p" "snd p"] res show ?thesis by auto
  qed
  show "b \<and> table_ok cfg t' \<and> rh_map t' = (rh_map t)(k \<mapsto> v) \<and>
           i < m_bucket_count t' \<and> m_value (m_buckets_data t' ! i) = Some (k, v)"
    if res: "insert_impl cfg k v t = Inr (t', i, b)"
  proof (cases "rehash_on_extreme_load cfg t")
    case (Inl x)
    with res pr show ?thesis by (simp add: insert_impl_def del: probe_key.simps)
  next
    case (Inr p)
    with key [of "fst p" "snd p"] res show ?thesis by auto
  qed
qed

lemma insert_old_key:
  assumes ok: "table_ok cfg t" and old: "rh_map t k = Some w"
  shows "\<exists>i < m_bucket_count t. insert_impl cfg k v t = Inr (t, i, False) \<and>
           m_value (m_buckets_data t ! i) = Some (k, w)"
proof -
  have "m_bucket_count t \<noteq> 0" using old table_ok_zero(5) [OF ok] by (auto intro: ccontr)
  from probe_table(1) [OF ok this old] show ?thesis
    by (auto simp: insert_impl_def simp del: probe_key.simps)
qed

section \<open>Erasing\<close>

lemma erase_from_bucket_ok:
  assumes ok: "table_ok cfg t" and p: "p < m_bucket_count t" and kv: "m_value (m_buckets_data t ! p) = Some (k, v)"
  shows "\<exists>bs'. erase_from_bucket cfg p t =
             Some (t\<lparr>m_buckets_data := bs', m_nb_elements := m_nb_elements t - 1\<rparr>) \<and>
           table_ok cfg (t\<lparr>m_buckets_data := bs', m_nb_elements := m_nb_elements t - 1\<rparr>) \<and>
           map_of (vals bs') = (rh_map t)(k := None)"
proof -
  let ?bs = "m_buckets_data t" and ?n = "m_bucket_count t"
  have n0: "?n \<noteq> 0" using p by simp
  note tk = table_okD [OF ok n0]
  define bs1 where "bs1 = ?bs[p := bucket_clear (?bs ! p)]"
  have p': "p < length ?bs" using p tk(1) by simp
  note bp = array_bucket [OF tk(3) p']
  have hole: "hole_ok cfg bs1 p" unfolding bs1_def by (rule hole_made [OF tk(3) p'])
  obtain j where j: "j < length ?bs" "m_dist (?bs ! j) = - 1" using tk(7) by blast
  have jp: "j \<noteq> p" using array_dist(2) [OF tk(3) p'] kv j(2) by auto
  then obtain m where m: "Suc m < length ?bs" "j = (p + Suc m) mod length ?bs"
    using ring_offset [OF j(1) p'] p' by (metis add_0_right mod_less not0_implies_Suc)
  have "m_dist (bs1 ! ((p + 1 + m) mod length bs1)) \<le> 0" using j(2) jp m(2) by (simp add: bs1_def)
  moreover have "\<forall>j < length bs1. m_dist (bs1 ! j) \<le> 32766"
    using tk(4) bp p' by (auto simp: bs1_def nth_list_update)
  ultimately obtain bs' where bs': "backward_shift cfg (m_mask t) (length ?bs + 1) bs1 p (nxt (length ?bs) p) = Some bs'"
      "array_ok cfg bs'" "length bs' = length ?bs" "mset (vals bs') = mset (vals bs1)"
      "\<forall>j < length ?bs. m_dist (bs' ! j) \<le> 32766"
    using backward_shift_ok [OF hole, of "m_mask t" m "length ?bs + 1" 32766] tk(2) m(1)
    by (auto simp: bs1_def)
  have res: "erase_from_bucket cfg p t = Some (t\<lparr>m_buckets_data := bs', m_nb_elements := m_nb_elements t - 1\<rparr>)"
    using p' bs'(1) mask_ok_next [OF tk(2) p'] tk(1)
    by (simp add: erase_from_bucket_def bucket_at_def probe_fuel_def bs1_def del: backward_shift.simps)
  have "mset (vals ?bs) = add_mset (k, v) (mset (vals bs'))"
    using mset_vals_update [OF p', of "bucket_clear (?bs ! p)"] kv bp bs'(4) by (simp add: bs1_def)
  note removed = vals_removed [OF tk(8) this]
  have "m_dist b < 32767" if "b \<in> set bs'" for b
    using that bs'(3,5) by (fastforce simp: in_set_conv_nth)
  then have "table_ok cfg (t\<lparr>m_buckets_data := bs', m_nb_elements := m_nb_elements t - 1\<rparr>)"
    using ok n0 bs'(2,3) removed tk(9) by (auto simp: table_ok_def factors_ok_def)
  with res removed(2) show ?thesis by (auto simp: rh_map_def)
qed

lemma erase_key_ok:
  assumes ok: "table_ok cfg t"
  shows "\<exists>t'. erase_key cfg k t = Some (t', if k \<in> dom (rh_map t) then 1 else 0) \<and>
           table_ok cfg t' \<and> rh_map t' = (rh_map t)(k := None)"
proof (cases "rh_map t k")
  case None
  then have "(rh_map t)(k := None) = rh_map t" by auto
  with None find_impl_correct(2) [OF ok None] ok show ?thesis by (auto simp: erase_key_def)
next
  case (Some v)
  from find_impl_correct(1) [OF ok Some] obtain i
    where i: "i < m_bucket_count t" "find_impl cfg k (hash_key cfg k) t = Some i"
      "m_value (m_buckets_data t ! i) = Some (k, v)" by blast
  from erase_from_bucket_ok [OF ok i(1,3)] i(1,2) Some show ?thesis
    by (auto simp: erase_key_def rh_map_def)
qed

section \<open>Clearing and load factors\<close>

lemma clear_and_shrink_ok:
  "factors_ok t \<Longrightarrow> table_ok cfg (clear_and_shrink t) \<and> rh_map (clear_and_shrink t) = Map.empty"
  by (simp add: clear_and_shrink_def table_ok_def factors_ok_def rh_map_def pow2_clear_def)

lemma clear_ok:
  assumes ok: "table_ok cfg t"
  shows "table_ok cfg (clear t) \<and> rh_map (clear t) = Map.empty"
proof (cases "m_min_load_factor t > 0")
  case True
  moreover have "factors_ok t" using ok by (simp add: table_ok_def)
  ultimately show ?thesis using clear_and_shrink_ok [of t cfg] by (simp add: clear_def)
next
  case False
  show ?thesis
  proof (cases "m_bucket_count t = 0")
    case True
    with False ok table_ok_zero [OF ok True] show ?thesis
      by (simp add: clear_def table_ok_def factors_ok_def rh_map_def)
  next
    case n: False
    let ?bs = "m_buckets_data t" and ?bs' = "map bucket_clear (m_buckets_data t)"
    note tk = table_okD [OF ok n]
    have b: "m_dist (?bs' ! i) = - 1" "m_value (?bs' ! i) = None" "m_last_bucket (?bs' ! i) = m_last_bucket (?bs ! i)"
      if "i < length ?bs" for i using that array_bucket [OF tk(3) that] by simp_all
    then have v: "vals ?bs' = []" by (intro vals_None) (auto simp: in_set_conv_nth)
    have "array_ok cfg ?bs'"
      using tk(3) b by (auto simp: array_ok_def bucket_ok_def ring_ok_def last_ok_def)
    moreover have "\<forall>b \<in> set ?bs'. m_dist b < 32767"
      using b by (auto simp: in_set_conv_nth)
    ultimately show ?thesis
      using False ok n v by (simp add: clear_def table_ok_def factors_ok_def rh_map_def)
  qed
qed

lemma set_max_load_factor_ok:
  assumes ok: "table_ok cfg t"
  shows "table_ok cfg (set_max_load_factor ml t) \<and> rh_map (set_max_load_factor ml t) = rh_map t"
proof -
  have "flt (2 / 10) \<le> flt (95 / 100)"
    using flt_upper [of "2 / 10"] flt_lower [of "95 / 100"] by simp
  from clamp_range [OF this, of ml]
  have c: "flt (2 / 10) \<le> clamp ml (flt (2 / 10)) (flt (95 / 100))"
      "clamp ml (flt (2 / 10)) (flt (95 / 100)) \<le> flt (95 / 100)" by auto
  moreover from c(1) have "0 \<le> clamp ml (flt (2 / 10)) (flt (95 / 100))" by (rule order_trans [OF flt_nonneg])
  ultimately show ?thesis
    using ok load_threshold_less [of "clamp ml (flt (2 / 10)) (flt (95 / 100))" "m_bucket_count t"]
    by (auto simp: set_max_load_factor_def Let_def table_ok_def factors_ok_def rh_map_def flt_def [of 0]
        round_fp_def split: if_splits)
qed

lemma set_min_load_factor_ok:
  "table_ok cfg t \<Longrightarrow> table_ok cfg (set_min_load_factor ml t) \<and> rh_map (set_min_load_factor ml t) = rh_map t"
  using clamp_range [OF flt_nonneg [of "15 / 100"], of ml]
  by (auto simp: set_min_load_factor_def table_ok_def factors_ok_def rh_map_def split: if_splits)

end
