(* ===== verification/Table_Bench.thy ===== *)
theory Table_Bench
  imports ELH_Prelude
begin

text \<open>
  How the hash table benchmarks use a table (\<open>bench_hashtable_throughput\<close> in
  \<open>benchmark_tables.cpp\<close>): the build loop assigns to every key of the data set its index, and the
  probe loops add up the values found. The table is a parameter of the loops, as it is a template
  parameter of the source; what the loops need of it is the locale \<open>hash_table\<close>.
\<close>

section \<open>The loops of the benchmark\<close>

text \<open>
  \<open>for (unsigned i = 0; i < data.size(); i++) map[data[i]] = val;\<close> with \<open>int\<close> values: the throughput
  benchmark assigns the index, the latency benchmark a random value below three.
\<close>

fun bench_build :: "('k \<Rightarrow> int \<Rightarrow> 't \<Rightarrow> 'e + 't) \<Rightarrow> (nat \<Rightarrow> int) \<Rightarrow> 'k list \<Rightarrow> nat \<Rightarrow> 't \<Rightarrow> 'e + 't" where
  "bench_build put val [] i t = Inr t"
| "bench_build put val (k # ks) i t =
     (case put k (val i) t of
        Inl e \<Rightarrow> Inl e
      | Inr t' \<Rightarrow> bench_build put val ks (i + 1) t')"

definition index_value :: "nat \<Rightarrow> int" where
  "index_value i = signed_take_bit 31 (int i)"

definition random_value :: "(nat \<Rightarrow> nat) \<Rightarrow> nat \<Rightarrow> int" where
  "random_value rand i = int (rand i mod 3)"

text \<open>The warm-up loop; \<open>None\<close> when a lookup is undefined.\<close>

fun bench_probe :: "('k \<Rightarrow> 't \<Rightarrow> int option option) \<Rightarrow> 't \<Rightarrow> 'k list \<Rightarrow> int \<Rightarrow> int option" where
  "bench_probe get t [] s = Some s"
| "bench_probe get t (p # ps) s =
     (case get p t of
        None \<Rightarrow> None
      | Some None \<Rightarrow> bench_probe get t ps s
      | Some (Some v) \<Rightarrow> bench_probe get t ps (s + v))"

section \<open>What the benchmark needs of a table\<close>

text \<open>
  A table of bounded capacity that refines a finite map, for the keys that can be hashed: a successful assignment updates
  the map, a failed one has thrown, and a lookup gives what the map holds.
\<close>

locale hash_table =
  fixes invar :: "'t \<Rightarrow> bool"
    and table_map :: "'t \<Rightarrow> 'k \<rightharpoonup> int"
    and capacity :: nat
    and keys :: "'k set"
    and throws :: "'e \<Rightarrow> bool"
    and put :: "'k \<Rightarrow> int \<Rightarrow> 't \<Rightarrow> 'e + 't"
    and get :: "'k \<Rightarrow> 't \<Rightarrow> int option option"
  assumes put_ok: "invar t \<Longrightarrow> k \<in> keys \<Longrightarrow> card (dom (table_map t)) < capacity \<Longrightarrow> put k v t = Inr t' \<Longrightarrow>
             invar t' \<and> table_map t' = (table_map t)(k \<mapsto> v)"
    and put_error: "invar t \<Longrightarrow> k \<in> keys \<Longrightarrow> card (dom (table_map t)) < capacity \<Longrightarrow> put k v t = Inl e \<Longrightarrow> throws e"
    and get_ok: "invar t \<Longrightarrow> k \<in> keys \<Longrightarrow> get k t = Some (table_map t k)"
    and finite_map: "invar t \<Longrightarrow> finite (dom (table_map t))"
begin

lemma build_ok:
  assumes "invar t" "set ks \<subseteq> keys" "card (dom (table_map t)) + length ks \<le> capacity"
  shows "case bench_build put val ks i t of
           Inl e \<Rightarrow> throws e
         | Inr t' \<Rightarrow> invar t' \<and> table_map t' = table_map t ++ map_of (rev (zip ks (map val [i ..< i + length ks])))"
  using assms
proof (induction ks arbitrary: i t)
  case (Cons k ks)
  have k: "k \<in> keys" "card (dom (table_map t)) < capacity" using Cons.prems by simp_all
  show ?case
  proof (cases "put k (val i) t")
    case (Inl e)
    then show ?thesis using put_error [OF Cons.prems(1) k Inl] by simp
  next
    case (Inr t1)
    note s = put_ok [OF Cons.prems(1) k Inr]
    have "card (dom (table_map t1)) \<le> Suc (card (dom (table_map t)))"
      using finite_map [OF Cons.prems(1)] by (simp add: s card_insert_if)
    then have c: "card (dom (table_map t1)) + length ks \<le> capacity" using Cons.prems(3) by simp
    have u: "[i ..< Suc (i + length ks)] = i # [Suc i ..< Suc (i + length ks)]"
      by (simp add: upt_conv_Cons del: upt_Suc)
    show ?thesis
      using Cons.IH [OF conjunct1 [OF s] _ c, of "i + 1"] Cons.prems(2) s Inr
      by (simp add: u split: sum.splits del: upt_Suc)
  qed
qed simp

lemma probe_ok:
  assumes "invar t" "set ps \<subseteq> keys"
  shows "bench_probe get t ps s = Some (s + (\<Sum>p \<leftarrow> ps. case table_map t p of None \<Rightarrow> 0 | Some v \<Rightarrow> v))"
  using assms by (induction ps arbitrary: s) (simp_all add: get_ok split: option.split)

end

text \<open>An index below \<open>2 ^ 31\<close> is an \<open>int\<close>, and a random value is 0, 1 or 2.\<close>

lemma index_values: "n \<le> 2 ^ 31 \<Longrightarrow> map index_value [0 ..< n] = map int [0 ..< n]"
  by (auto simp: index_value_def intro: signed_take_bit_int_eq_self)

lemma random_value_bounds: "0 \<le> random_value rand i" "random_value rand i < 3"
  by (simp_all add: random_value_def)

end
