(* ===== verification/Robin_Map.thy ===== *)
theory Robin_Map
  imports Robin_Ops Table_Bench
begin

text \<open>
  The rest of the interface of \<open>robin_hash\<close> and \<open>robin_map\<close>: element access, insertion with
  assignment, iteration, erasing by position and by range, comparison, and the lookup
  \<open>find_guaranteed\<close> for keys known to be present. The table interprets the interface that the
  benchmarks use.
\<close>

section \<open>Element access\<close>

definition it_value :: "('k, 'v) robin_hash \<Rightarrow> nat \<Rightarrow> ('k \<times> 'v) option" where
  "it_value t i = (case bucket_at (m_buckets t) i of None \<Rightarrow> None | Some b \<Rightarrow> m_value b)"

definition at_key :: "'k rh_config \<Rightarrow> 'k \<Rightarrow> ('k, 'v) robin_hash \<Rightarrow> rh_error + 'v" where
  "at_key cfg key t =
     (case find_impl cfg key (hash_key cfg key) t of
        None \<Rightarrow> Inl Undefined
      | Some i \<Rightarrow>
          if i \<noteq> m_bucket_count t then
            (case it_value t i of None \<Rightarrow> Inl Undefined | Some (k, v) \<Rightarrow> Inr v)
          else Inl Out_Of_Range)"

definition count_key :: "'k rh_config \<Rightarrow> 'k \<Rightarrow> ('k, 'v) robin_hash \<Rightarrow> nat option" where
  "count_key cfg key t =
     map_option (\<lambda>i. if i \<noteq> m_bucket_count t then 1 else 0) (find_impl cfg key (hash_key cfg key) t)"

definition contains :: "'k rh_config \<Rightarrow> 'k \<Rightarrow> ('k, 'v) robin_hash \<Rightarrow> bool option" where
  "contains cfg key t = map_option (\<lambda>c. c \<noteq> 0) (count_key cfg key t)"

text \<open>The lookup of the benchmarks: \<open>find\<close>, the comparison with \<open>end\<close>, and \<open>it->second\<close>.\<close>

definition get_value :: "'k rh_config \<Rightarrow> 'k \<Rightarrow> ('k, 'v) robin_hash \<Rightarrow> 'v option option" where
  "get_value cfg key t =
     (case find_impl cfg key (hash_key cfg key) t of
        None \<Rightarrow> None
      | Some i \<Rightarrow>
          if i \<noteq> m_bucket_count t then map_option (\<lambda>kv. Some (snd kv)) (it_value t i) else Some None)"

section \<open>Insertion with assignment\<close>

text \<open>Assigning through an iterator, \<open>it.value() = v\<close>.\<close>

definition assign_value :: "nat \<Rightarrow> 'v \<Rightarrow> ('k, 'v) robin_hash \<Rightarrow> ('k, 'v) robin_hash option" where
  "assign_value i v t =
     (case bucket_at (m_buckets_data t) i of
        None \<Rightarrow> None
      | Some b \<Rightarrow> (case m_value b of
          None \<Rightarrow> None
        | Some (k, _) \<Rightarrow>
            Some (t\<lparr>m_buckets_data := (m_buckets_data t)[i := b\<lparr>m_value := Some (k, v)\<rparr>]\<rparr>)))"

definition try_emplace ::
  "'k rh_config \<Rightarrow> 'k \<Rightarrow> 'v \<Rightarrow> ('k, 'v) robin_hash \<Rightarrow> rh_error + (('k, 'v) robin_hash \<times> nat \<times> bool)" where
  "try_emplace cfg key v t = insert_impl cfg key v t"

definition insert_or_assign ::
  "'k rh_config \<Rightarrow> 'k \<Rightarrow> 'v \<Rightarrow> ('k, 'v) robin_hash \<Rightarrow> rh_error + (('k, 'v) robin_hash \<times> nat \<times> bool)" where
  "insert_or_assign cfg key obj t =
     (case try_emplace cfg key obj t of
        Inl e \<Rightarrow> Inl e
      | Inr (t', i, inserted) \<Rightarrow>
          if \<not> inserted then
            (case assign_value i obj t' of None \<Rightarrow> Inl Undefined | Some t'' \<Rightarrow> Inr (t'', i, inserted))
          else Inr (t', i, inserted))"

text \<open>\<open>map[key] = v\<close>: \<open>operator[]\<close> inserts the default value of the mapped type when the key is new.\<close>

definition index_assign ::
  "'k rh_config \<Rightarrow> 'v \<Rightarrow> 'k \<Rightarrow> 'v \<Rightarrow> ('k, 'v) robin_hash \<Rightarrow> rh_error + ('k, 'v) robin_hash" where
  "index_assign cfg dflt key v t =
     (case try_emplace cfg key dflt t of
        Inl e \<Rightarrow> Inl e
      | Inr (t', i, _) \<Rightarrow> (case assign_value i v t' of None \<Rightarrow> Inl Undefined | Some t'' \<Rightarrow> Inr t''))"

text \<open>
  Insertion of a sequence: the table is enlarged first when it has too few free places. The number
  of free places is computed modulo \<open>2 ^ 64\<close>.
\<close>

fun insert_all ::
  "'k rh_config \<Rightarrow> ('k \<times> 'v) list \<Rightarrow> ('k, 'v) robin_hash \<Rightarrow> rh_error + ('k, 'v) robin_hash" where
  "insert_all cfg [] t = Inr t"
| "insert_all cfg ((k, v) # kvs) t =
     (case insert_impl cfg k v t of Inl e \<Rightarrow> Inl e | Inr (t', _, _) \<Rightarrow> insert_all cfg kvs t')"

definition insert_sequence ::
  "'k rh_config \<Rightarrow> ('k \<times> 'v) list \<Rightarrow> ('k, 'v) robin_hash \<Rightarrow> rh_error + ('k, 'v) robin_hash" where
  "insert_sequence cfg kvs t =
     (let nb_free_buckets = unat (of_nat (m_load_threshold t) - of_nat (m_nb_elements t) :: u64) in
      if length kvs > 0 \<and> nb_free_buckets < length kvs then
        (case reserve cfg (m_nb_elements t + length kvs) t of
           Inl e \<Rightarrow> Inl e
         | Inr t' \<Rightarrow> insert_all cfg kvs t')
      else insert_all cfg kvs t)"

section \<open>Iteration\<close>

fun begin_loop :: "('k, 'v) bucket_entry list \<Rightarrow> nat \<Rightarrow> nat \<Rightarrow> nat \<Rightarrow> nat" where
  "begin_loop bs bucket_count 0 i = i"
| "begin_loop bs bucket_count (Suc fuel) i =
     (if i < bucket_count \<and> bucket_empty (bs ! i) then begin_loop bs bucket_count fuel (i + 1) else i)"

definition it_begin :: "('k, 'v) robin_hash \<Rightarrow> nat" where
  "it_begin t = begin_loop (m_buckets t) (m_bucket_count t) (m_bucket_count t) 0"

text \<open>\<open>operator++\<close> of the iterator stops after the bucket that is marked as the last one.\<close>

fun it_next :: "('k, 'v) bucket_entry list \<Rightarrow> nat \<Rightarrow> nat \<Rightarrow> nat option" where
  "it_next bs 0 i = None"
| "it_next bs (Suc fuel) i =
     (case bucket_at bs i of
        None \<Rightarrow> None
      | Some b \<Rightarrow>
          if m_last_bucket b then Some (i + 1)
          else (case bucket_at bs (i + 1) of
              None \<Rightarrow> None
            | Some b' \<Rightarrow> if \<not> bucket_empty b' then Some (i + 1) else it_next bs fuel (i + 1)))"

text \<open>The values that a loop \<open>for (it = begin(); it != end(); ++it)\<close> visits.\<close>

fun visit_from :: "('k, 'v) robin_hash \<Rightarrow> nat \<Rightarrow> nat \<Rightarrow> ('k \<times> 'v) list option" where
  "visit_from t 0 i = None"
| "visit_from t (Suc fuel) i =
     (if i = m_bucket_count t then Some []
      else case it_value t i of
        None \<Rightarrow> None
      | Some kv \<Rightarrow>
          (case it_next (m_buckets t) (m_bucket_count t) i of
             None \<Rightarrow> None
           | Some i' \<Rightarrow> map_option (\<lambda>kvs. kv # kvs) (visit_from t fuel i')))"

definition visit_all :: "('k, 'v) robin_hash \<Rightarrow> ('k \<times> 'v) list option" where
  "visit_all t = visit_from t (m_bucket_count t + 1) (it_begin t)"

text \<open>\<open>operator==\<close> of two maps.\<close>

fun all_found ::
  "'k rh_config \<Rightarrow> ('k \<times> 'v) list \<Rightarrow> ('k, 'v) robin_hash \<Rightarrow> bool option" where
  "all_found cfg [] rhs = Some True"
| "all_found cfg ((k, v) # kvs) rhs =
     (case find_impl cfg k (hash_key cfg k) rhs of
        None \<Rightarrow> None
      | Some i \<Rightarrow>
          if i = m_bucket_count rhs then Some False
          else (case it_value rhs i of
              None \<Rightarrow> None
            | Some (k', v') \<Rightarrow> if v \<noteq> v' then Some False else all_found cfg kvs rhs))"

definition maps_equal ::
  "'k rh_config \<Rightarrow> ('k, 'v) robin_hash \<Rightarrow> ('k, 'v) robin_hash \<Rightarrow> bool option" where
  "maps_equal cfg lhs rhs =
     (if m_nb_elements lhs \<noteq> m_nb_elements rhs then Some False
      else case visit_all lhs of None \<Rightarrow> None | Some kvs \<Rightarrow> all_found cfg kvs rhs)"

section \<open>Erasing by position and by range\<close>

definition erase_at ::
  "'k rh_config \<Rightarrow> nat \<Rightarrow> ('k, 'v) robin_hash \<Rightarrow> (('k, 'v) robin_hash \<times> nat) option" where
  "erase_at cfg pos t =
     (case erase_from_bucket cfg pos t of
        None \<Rightarrow> None
      | Some t1 \<Rightarrow>
          (case bucket_at (m_buckets_data t1) pos of
             None \<Rightarrow> None
           | Some b \<Rightarrow>
               map_option (\<lambda>pos'. (t1\<lparr>m_try_shrink_on_next_insert := True\<rparr>, pos'))
                 (if bucket_empty b then it_next (m_buckets t1) (m_bucket_count t1) pos else Some pos)))"

text \<open>The loop that clears the buckets of the range and counts them out.\<close>

fun clear_range ::
  "nat list \<Rightarrow> ('k, 'v) bucket_entry list \<Rightarrow> nat \<Rightarrow> ('k, 'v) bucket_entry list \<times> nat" where
  "clear_range [] bs nb = (bs, nb)"
| "clear_range (i # is') bs nb =
     (if \<not> bucket_empty (bs ! i) then clear_range is' (bs[i := bucket_clear (bs ! i)]) (nb - 1)
      else clear_range is' bs nb)"

definition closer_bucket :: "('k, 'v) bucket_entry list \<Rightarrow> nat \<Rightarrow> nat \<Rightarrow> nat" where
  "closer_bucket bs icloser ito =
     ito - min (ito - icloser) (unat (word_of_int (m_dist (bs ! ito)) :: u64))"

fun range_shift ::
  "'k rh_config \<Rightarrow> nat \<Rightarrow> nat \<Rightarrow> ('k, 'v) bucket_entry list \<Rightarrow> nat \<Rightarrow> nat \<Rightarrow>
   ('k, 'v) bucket_entry list option" where
  "range_shift cfg bucket_count 0 bs icloser ito = None"
| "range_shift cfg bucket_count (Suc fuel) bs icloser ito =
     (if ito < bucket_count \<and> m_dist (bs ! ito) > 0 then
        (let icloser' = closer_bucket bs icloser ito in
         case m_value (bs ! ito) of
           None \<Rightarrow> None
         | Some v \<Rightarrow>
             range_shift cfg bucket_count fuel
               (bs[icloser' := set_value_of_empty_bucket cfg
                                 (distance_type (m_dist (bs ! ito) - int (ito - icloser')))
                                 (truncated_hash cfg (bs ! ito)) v (bs ! icloser'),
                   ito := bucket_clear (bs ! ito)])
               (icloser' + 1) (ito + 1))
      else Some bs)"

definition erase_range ::
  "'k rh_config \<Rightarrow> nat \<Rightarrow> nat \<Rightarrow> ('k, 'v) robin_hash \<Rightarrow> (('k, 'v) robin_hash \<times> nat) option" where
  "erase_range cfg ifirst ilast t =
     (if ifirst = ilast then Some (t, ifirst)
      else
        let (bs, nb) = clear_range [ifirst ..< ilast] (m_buckets_data t) (m_nb_elements t) in
        if ilast = m_bucket_count t then
          Some (t\<lparr>m_buckets_data := bs, m_nb_elements := nb, m_try_shrink_on_next_insert := True\<rparr>, ilast)
        else
          map_option
            (\<lambda>bs'. (t\<lparr>m_buckets_data := bs', m_nb_elements := nb, m_try_shrink_on_next_insert := True\<rparr>,
                    closer_bucket bs ifirst ilast))
            (range_shift cfg (m_bucket_count t) (m_bucket_count t + 1) bs ifirst ilast))"

section \<open>Access and assignment on a valid table\<close>

lemma it_value_data:
  "table_ok cfg t \<Longrightarrow> i < m_bucket_count t \<Longrightarrow> it_value t i = m_value (m_buckets_data t ! i)"
  by (auto simp: it_value_def bucket_at_def m_buckets_def table_ok_def)

lemma at_key_correct:
  assumes "table_ok cfg t"
  shows "at_key cfg k t = (case rh_map t k of None \<Rightarrow> Inl Out_Of_Range | Some v \<Rightarrow> Inr v)"
  using find_impl_correct [OF assms, of k] it_value_data [OF assms]
  by (cases "rh_map t k") (fastforce simp: at_key_def)+

lemma count_key_correct:
  assumes "table_ok cfg t"
  shows "count_key cfg k t = Some (if k \<in> dom (rh_map t) then 1 else 0)"
  using find_impl_correct [OF assms, of k]
  by (cases "rh_map t k") (fastforce simp: count_key_def)+

lemma vals_assign:
  assumes "i < length bs" "m_value (bs ! i) = Some (k, w)" "m_value b = Some (k, v)"
  obtains xs ys where "vals bs = xs @ (k, w) # ys" "vals (bs[i := b]) = xs @ (k, v) # ys"
proof
  have upd: "bs[i := b] = take i bs @ b # drop (Suc i) bs" using assms(1) by (rule upd_conv_take_nth_drop)
  have bs: "bs = take i bs @ bs ! i # drop (Suc i) bs" using assms(1) by (rule id_take_nth_drop)
  show "vals bs = vals (take i bs) @ (k, w) # vals (drop (Suc i) bs)" by (subst bs) (simp add: assms(2))
  show "vals (bs[i := b]) = vals (take i bs) @ (k, v) # vals (drop (Suc i) bs)" by (simp add: upd assms(3))
qed

lemma assign_value_ok:
  assumes ok: "table_ok cfg t" and i: "i < m_bucket_count t" "m_value (m_buckets_data t ! i) = Some (k, w)"
  shows "\<exists>t'. assign_value i v t = Some t' \<and> table_ok cfg t' \<and> rh_map t' = (rh_map t)(k \<mapsto> v) \<and>
              m_bucket_count t' = m_bucket_count t"
proof -
  let ?bs = "m_buckets_data t" and ?b = "(m_buckets_data t ! i)\<lparr>m_value := Some (k, v)\<rparr>"
  have n: "m_bucket_count t \<noteq> 0" using i by simp
  note tk = table_okD [OF ok n]
  have i': "i < length ?bs" using i tk(1) by simp
  obtain xs ys where v: "vals ?bs = xs @ (k, w) # ys" "vals (?bs[i := ?b]) = xs @ (k, v) # ys"
    using vals_assign [OF i' i(2), of ?b v] by auto
  have dist: "m_dist (?bs[i := ?b] ! j) = m_dist (?bs ! j)" "m_last_bucket (?bs[i := ?b] ! j) = m_last_bucket (?bs ! j)"
    for j using i' by (auto simp: nth_list_update)
  have "bucket_ok cfg (length ?bs) j (?bs[i := ?b] ! j)" if "j < length ?bs" for j
    using array_bucket [OF tk(3) that] array_bucket [OF tk(3) i'] i(2) i'
    by (cases "j = i") (auto simp: bucket_ok_def)
  then have arr: "array_ok cfg (?bs[i := ?b])"
    using tk(3) by (simp add: array_ok_def ring_ok_def last_ok_def dist)
  moreover have "\<forall>b \<in> set (?bs[i := ?b]). m_dist b < 32767"
    using tk(4) by (auto simp: in_set_conv_nth dist)
  ultimately have "table_ok cfg (t\<lparr>m_buckets_data := ?bs[i := ?b]\<rparr>)"
    using ok n v by (auto simp: table_ok_def factors_ok_def)
  moreover have "map_of xs k = None" "map_of ys k = None"
    using tk(8) by (auto simp: v(1) map_of_eq_None_iff)
  then have "map_of (vals (?bs[i := ?b])) = (map_of (vals ?bs))(k \<mapsto> v)"
    by (auto simp: v map_add_def fun_eq_iff split: option.split)
  ultimately show ?thesis
    using i' i(2) by (simp add: assign_value_def bucket_at_def rh_map_def)
qed

lemma insert_or_assign_ok:
  assumes ok: "table_ok cfg t" and ready: "insert_ready t"
    and res: "insert_or_assign cfg k v t = Inr (t', i, b)"
  shows "table_ok cfg t' \<and> rh_map t' = (rh_map t)(k \<mapsto> v) \<and> b = (k \<notin> dom (rh_map t))"
proof (cases "rh_map t k")
  case None
  with insert_new_key(2) [OF ok None ready] res show ?thesis
    by (fastforce simp: insert_or_assign_def try_emplace_def split: sum.splits prod.splits if_splits)
next
  case (Some w)
  from insert_old_key [OF ok Some, of v] obtain j where j: "j < m_bucket_count t"
      "insert_impl cfg k v t = Inr (t, j, False)" "m_value (m_buckets_data t ! j) = Some (k, w)" by blast
  from assign_value_ok [OF ok j(1,3), of v] j(2) res Some show ?thesis
    by (auto simp: insert_or_assign_def try_emplace_def)
qed

lemma index_assign_ok:
  assumes ok: "table_ok cfg t" and ready: "insert_ready t"
  shows "index_assign cfg d k v t = Inl e \<Longrightarrow> e = Length_Exceeded"
    and "index_assign cfg d k v t = Inr t' \<Longrightarrow> table_ok cfg t' \<and> rh_map t' = (rh_map t)(k \<mapsto> v)"
proof (atomize(full), goal_cases)
  case 1
  show ?case
  proof (cases "rh_map t k")
    case None
    show ?thesis
    proof (cases "insert_impl cfg k d t")
      case (Inl x)
      with insert_new_key(1) [OF ok None ready Inl] show ?thesis by (simp add: index_assign_def try_emplace_def)
    next
      case (Inr p)
      obtain t1 i b where p: "insert_impl cfg k d t = Inr (t1, i, b)" using Inr by (cases p) auto
      note n = insert_new_key(2) [OF ok None ready p]
      then obtain t2 where "assign_value i v t1 = Some t2" "table_ok cfg t2" "rh_map t2 = (rh_map t1)(k \<mapsto> v)"
        using assign_value_ok [of cfg t1 i k d v] by blast
      with n p show ?thesis by (auto simp: index_assign_def try_emplace_def)
    qed
  next
    case (Some w)
    from insert_old_key [OF ok Some, of d] obtain j where j: "j < m_bucket_count t"
        "insert_impl cfg k d t = Inr (t, j, False)" "m_value (m_buckets_data t ! j) = Some (k, w)" by blast
    from assign_value_ok [OF ok j(1,3), of v] j(2) show ?thesis
      by (auto simp: index_assign_def try_emplace_def)
  qed
qed

section \<open>Iteration visits every value once\<close>

lemma begin_loop_skips:
  assumes "\<forall>j. i \<le> j \<and> j < i' \<longrightarrow> bucket_empty (bs ! j)" "i \<le> i'" "i' \<le> n" "i' - i \<le> fuel"
    and "i' = n \<or> \<not> bucket_empty (bs ! i')"
  shows "begin_loop bs n fuel i = i'"
  using assms
proof (induction fuel arbitrary: i)
  case (Suc fuel)
  show ?case
  proof (cases "i = i'")
    case False
    then have "i < n" "bucket_empty (bs ! i)" using Suc.prems by auto
    moreover have "begin_loop bs n fuel (i + 1) = i'"
      using Suc.prems False by (intro Suc.IH) auto
    ultimately show ?thesis by simp
  qed (use Suc.prems in auto)
qed simp

lemma it_next_skips:
  assumes "\<forall>j < length bs. m_last_bucket (bs ! j) = (Suc j = length bs)"
    and "\<forall>j. i < j \<and> j < i' \<longrightarrow> bucket_empty (bs ! j)" "i < i'" "i' \<le> length bs" "i' - i \<le> fuel"
    and "i' = length bs \<or> \<not> bucket_empty (bs ! i')"
  shows "it_next bs fuel i = Some i'"
  using assms(2-)
proof (induction fuel arbitrary: i)
  case (Suc fuel)
  have i: "i < length bs" using Suc.prems by simp
  show ?case
  proof (cases "Suc i = length bs")
    case True
    then have "i' = Suc i" using Suc.prems by simp
    with True i assms(1) show ?thesis by (simp add: bucket_at_def)
  next
    case False
    then have s: "Suc i < length bs" using i by simp
    show ?thesis
    proof (cases "i' = Suc i")
      case True
      with Suc.prems(5) False s i assms(1) show ?thesis by (auto simp: bucket_at_def)
    next
      case neq: False
      then have "bucket_empty (bs ! Suc i)" using Suc.prems(1,2) by simp
      moreover have "it_next bs fuel (Suc i) = Some i'"
        using Suc.prems neq by (intro Suc.IH) auto
      ultimately show ?thesis using False s i assms(1) by (simp add: bucket_at_def)
    qed
  qed
qed simp

lemma vals_skip:
  assumes "\<forall>j. i \<le> j \<and> j < i' \<longrightarrow> m_value (bs ! j) = None" "i \<le> i'" "i' \<le> length bs"
  shows "vals (drop i bs) = vals (drop i' bs)"
  using assms
proof (induction "i' - i" arbitrary: i)
  case (Suc x)
  then have i: "i < length bs" "m_value (bs ! i) = None" by simp_all
  have "vals (drop (Suc i) bs) = vals (drop i' bs)" using Suc by (intro Suc(1)) auto
  with i show ?case by (simp add: Cons_nth_drop_Suc [symmetric])
qed simp

lemma next_occupied:
  assumes "i \<le> (n :: nat)"
  shows "\<exists>i'. i \<le> i' \<and> i' \<le> n \<and> (\<forall>j. i \<le> j \<and> j < i' \<longrightarrow> \<not> P j) \<and> (i' = n \<or> P i')"
proof -
  let ?Q = "\<lambda>j. i \<le> j \<and> (j = n \<or> P j)"
  have Q: "?Q n" using assms by simp
  note props = LeastI [of ?Q, OF Q] Least_le [of ?Q, OF Q] not_less_Least [of _ ?Q]
  show ?thesis by (rule exI [of _ "LEAST j. ?Q j"]) (use props in blast)
qed

lemma visit_from_vals:
  assumes ok: "table_ok cfg t" and "i = m_bucket_count t \<or> m_value (m_buckets_data t ! i) \<noteq> None"
    and "i \<le> m_bucket_count t" "m_bucket_count t - i < fuel"
  shows "visit_from t fuel i = Some (vals (drop i (m_buckets_data t)))"
  using assms(2-)
proof (induction fuel arbitrary: i)
  case (Suc fuel)
  let ?bs = "m_buckets_data t"
  show ?case
  proof (cases "i = m_bucket_count t")
    case True
    with ok show ?thesis by (simp add: table_ok_def)
  next
    case False
    then have i: "i < m_bucket_count t" using Suc.prems by simp
    then have n: "m_bucket_count t \<noteq> 0" by simp
    note tk = table_okD [OF ok n]
    obtain kv where kv: "m_value (?bs ! i) = Some kv" using Suc.prems(1) False by auto
    obtain i' where i': "Suc i \<le> i'" "i' \<le> m_bucket_count t" "i' = m_bucket_count t \<or> m_value (?bs ! i') \<noteq> None"
        and skip: "\<forall>j. Suc i \<le> j \<and> j < i' \<longrightarrow> m_value (?bs ! j) = None"
      using next_occupied [of "Suc i" "m_bucket_count t" "\<lambda>j. m_value (?bs ! j) \<noteq> None"] i
      by (auto simp del: not_None_eq)
    have e: "bucket_empty (?bs ! j) \<longleftrightarrow> m_value (?bs ! j) = None" if "j < m_bucket_count t" for j
      using array_dist(3) [OF tk(3)] that tk(1) by simp
    have "it_next ?bs (m_bucket_count t) i = Some i'"
      using tk(1,3) i' skip e by (intro it_next_skips) (auto simp: array_ok_def last_ok_def)
    moreover have "visit_from t fuel i' = Some (vals (drop i' ?bs))"
      using i' Suc.prems(3) by (intro Suc.IH) auto
    moreover have "vals (drop i ?bs) = kv # vals (drop i' ?bs)"
      using vals_skip [of "Suc i" i' ?bs] skip i' kv i tk(1) by (simp add: Cons_nth_drop_Suc [symmetric])
    ultimately show ?thesis
      using False kv it_value_data [OF ok i] tk(6) by simp
  qed
qed simp

lemma visit_all_vals:
  assumes ok: "table_ok cfg t"
  shows "visit_all t = Some (vals (m_buckets_data t))"
proof (cases "m_bucket_count t = 0")
  case True
  then show ?thesis using table_ok_zero(1) [OF ok] by (simp add: visit_all_def it_begin_def)
next
  case False
  let ?bs = "m_buckets_data t"
  note tk = table_okD [OF ok False]
  obtain i where i: "i \<le> m_bucket_count t" "i = m_bucket_count t \<or> m_value (?bs ! i) \<noteq> None"
      and skip: "\<forall>j. 0 \<le> j \<and> j < i \<longrightarrow> m_value (?bs ! j) = None"
    using next_occupied [of 0 "m_bucket_count t" "\<lambda>j. m_value (?bs ! j) \<noteq> None"]
    by (auto simp del: not_None_eq)
  have e: "bucket_empty (?bs ! j) \<longleftrightarrow> m_value (?bs ! j) = None" if "j < m_bucket_count t" for j
    using array_dist(3) [OF tk(3)] that tk(1) by simp
  have "it_begin t = i"
    unfolding it_begin_def tk(6) using i skip e by (intro begin_loop_skips) auto
  moreover have "vals ?bs = vals (drop i ?bs)" using vals_skip [of 0 i ?bs] skip i(1) tk(1) by simp
  ultimately show ?thesis
    unfolding visit_all_def using visit_from_vals [OF ok i(2,1), of "m_bucket_count t + 1"] by simp
qed

section \<open>Comparison\<close>

lemma all_found_ok:
  assumes "table_ok cfg rhs"
  shows "all_found cfg kvs rhs = Some (\<forall>(k, v) \<in> set kvs. rh_map rhs k = Some v)"
proof (induction kvs)
  case (Cons kv kvs)
  obtain k v where kv: "kv = (k, v)" by (cases kv)
  show ?case
  proof (cases "rh_map rhs k")
    case None
    with find_impl_correct(2) [OF assms None] kv show ?thesis by simp
  next
    case (Some w)
    from find_impl_correct(1) [OF assms Some] obtain i where i: "i < m_bucket_count rhs"
      "find_impl cfg k (hash_key cfg k) rhs = Some i" "m_value (m_buckets_data rhs ! i) = Some (k, w)" by blast
    with it_value_data [OF assms i(1)] Cons kv Some show ?thesis by auto
  qed
qed simp

lemma maps_equal_ok:
  assumes "table_ok cfg lhs" "table_ok cfg rhs"
  shows "maps_equal cfg lhs rhs = Some (rh_map lhs = rh_map rhs)"
proof -
  let ?kvs = "vals (m_buckets_data lhs)"
  have dk: "distinct (map fst ?kvs)" using assms(1) by (simp add: table_ok_def)
  have sub: "(\<forall>(k, v) \<in> set ?kvs. rh_map rhs k = Some v) \<longleftrightarrow> rh_map lhs \<subseteq>\<^sub>m rh_map rhs"
    using dk by (auto simp: map_le_def rh_map_def dom_map_of_conv_image_fst Ball_def)
  have fin: "finite (dom (rh_map t))" for t :: "('a, 'b) robin_hash"
    by (simp add: rh_map_def finite_dom_map_of)
  have "rh_map lhs = rh_map rhs"
    if "rh_map lhs \<subseteq>\<^sub>m rh_map rhs" "m_nb_elements lhs = m_nb_elements rhs"
  proof -
    have "dom (rh_map lhs) \<subseteq> dom (rh_map rhs)" using that(1) by (rule map_le_implies_dom_le)
    moreover have "card (dom (rh_map lhs)) = card (dom (rh_map rhs))"
      using that(2) nb_elements_card [OF assms(1)] nb_elements_card [OF assms(2)] by simp
    ultimately have "dom (rh_map lhs) = dom (rh_map rhs)" using fin by (intro card_subset_eq) auto
    with that(1) show ?thesis by (metis map_le_antisym map_le_def)
  qed
  then show ?thesis
    using all_found_ok [OF assms(2), of ?kvs] visit_all_vals [OF assms(1)] sub
      nb_elements_card [OF assms(1)] nb_elements_card [OF assms(2)]
    by (auto simp: maps_equal_def)
qed

section \<open>The lookup of keys that are known to be present\<close>

definition matches :: "'k rh_config \<Rightarrow> ('k, 'v) bucket_entry list \<Rightarrow> u64 \<Rightarrow> nat \<Rightarrow> nat \<Rightarrow> nat \<Rightarrow> nat list" where
  "matches cfg bs hash h0 e m =
     map (\<lambda>e. (h0 + e) mod length bs)
       (filter (\<lambda>e. bucket_hash_equal cfg hash (bs ! ((h0 + e) mod length bs))) [e ..< m])"

lemma matches_step:
  "e < m \<Longrightarrow> matches cfg bs hash h0 e m =
     (if bucket_hash_equal cfg hash (bs ! ((h0 + e) mod length bs)) then [(h0 + e) mod length bs] else []) @
     matches cfg bs hash h0 (Suc e) m"
  by (simp add: matches_def upt_conv_Cons del: upt_Suc)

lemma collect_matches_ok:
  assumes msk: "mask_ok msk (length bs)" and n: "length bs \<le> 2 ^ 31"
    and room: "\<forall>j < length bs. m_dist (bs ! j) < 32767"
    and pass: "\<forall>e' < m. passes bs h0 e'" "\<not> passes bs h0 m"
    and "e \<le> m" "m - e < fuel"
  shows "collect_matches cfg msk bs fuel hash ((h0 + e) mod length bs) (int e) acc = Some (Inl ()) \<or>
         collect_matches cfg msk bs fuel hash ((h0 + e) mod length bs) (int e) acc =
           Some (Inr (acc @ map int (matches cfg bs hash h0 e m)))"
  using assms(6,7)
proof (induction "m - e" arbitrary: e fuel acc)
  case 0
  then obtain f where "fuel = Suc f" "e = m" by (cases fuel) auto
  moreover have "(h0 + m) mod length bs < length bs" using mask_ok_pos [OF msk] by simp
  ultimately show ?case using pass(2) by (simp add: bucket_at_def passes_def matches_def)
next
  case (Suc x)
  let ?n = "length bs" and ?i = "(h0 + e) mod length bs"
  from Suc have e: "e < m" "x = m - Suc e" by simp_all
  from Suc(4) e obtain f0 where f0: "fuel = Suc f0" "m - Suc e < f0" by (cases fuel) simp_all
  have i: "?i < ?n" using mask_ok_pos [OF msk] by simp
  have p: "int e \<le> m_dist (bs ! ?i)" using pass(1) e(1) by (auto simp: passes_def)
  have "e < 32767" using p room i by (metis of_nat_less_iff of_nat_numeral order_le_less_trans)
  note dt = distance_type_Suc [OF this]
  have si: "signed_take_bit 31 (int ?i) = int ?i"
    using i n by (intro signed_take_bit_int_eq_self) simp_all
  note nx = next_ring [OF msk, of h0 e]
  note IH = Suc(1) [OF e(2), of f0]
  show ?case
  proof (cases "bucket_hash_equal cfg hash (bs ! ?i)")
    case True
    with IH [of "acc @ [int ?i]"] e(1) f0 p i dt si nx show ?thesis
      by (auto simp: bucket_at_def matches_step)
  next
    case False
    with IH [of acc] e(1) f0 p i dt nx show ?thesis
      by (auto simp: bucket_at_def matches_step)
  qed
qed

lemma match_among_ok:
  assumes "\<forall>i \<in> set is'. i < length (m_buckets t) \<and> m_value (m_buckets t ! i) \<noteq> None"
    and "j \<in> set is'" "\<forall>i \<in> set is'. key_at (m_buckets t) k i \<longleftrightarrow> i = j"
  shows "match_among t k (map int is') = Some j"
  using assms
proof (induction is')
  case (Cons i is')
  then obtain k' v' where kv: "m_value (m_buckets t ! i) = Some (k', v')" "i < length (m_buckets t)" by auto
  then have "k' = k \<longleftrightarrow> i = j" using Cons.prems(3) by (auto simp: key_at_def)
  with Cons kv show ?case by (auto simp: bucket_at_def)
qed simp

lemma find_guaranteed_present:
  assumes ok: "table_ok cfg t" and store: "StoreHash cfg" and n: "m_bucket_count t \<le> 2 ^ 31"
    and kv: "rh_map t k = Some v"
  shows "find_guaranteed_impl cfg k (hash_key cfg k) t = find_impl cfg k (hash_key cfg k) t"
proof -
  let ?bs = "m_buckets_data t" and ?hash = "hash_key cfg k"
  have n0: "m_bucket_count t \<noteq> 0" using kv table_ok_zero(5) [OF ok] by (auto intro: ccontr)
  note tk = table_okD [OF ok n0]
  let ?h = "home cfg (length ?bs) k"
  let ?m = "stop_dist ?bs ?h"
  let ?ms = "matches cfg ?bs ?hash ?h 0 ?m"
  from find_impl_correct(1) [OF ok kv] obtain i where i: "i < m_bucket_count t"
    "find_impl cfg k ?hash t = Some i" "m_value (?bs ! i) = Some (k, v)" by blast
  have i': "i < length ?bs" using i(1) tk(1) by simp
  obtain j where j: "j < length ?bs" "m_dist (?bs ! j) = - 1" using tk(7) by blast
  note stop = stop_dist_props [OF tk(3) j, of ?h]
  note before = key_before_stop [OF tk(3) i' i(3) j]
  have "collect_matches cfg (m_mask t) ?bs (length ?bs + 1) ?hash ((?h + 0) mod length ?bs) (int 0) [] = Some (Inl ()) \<or>
        collect_matches cfg (m_mask t) ?bs (length ?bs + 1) ?hash ((?h + 0) mod length ?bs) (int 0) [] = Some (Inr ([] @ map int ?ms))"
    using stop n tk(1) by (intro collect_matches_ok [OF tk(2) _ tk(4) stop(2,1)]) auto
  moreover have "?h mod length ?bs = ?h" by (simp add: home_def)
  ultimately have col: "collect_matches cfg (m_mask t) (m_buckets t) (probe_fuel t) ?hash
        (bucket_for_hash (m_mask t) ?hash) 0 [] \<in> {Some (Inl ()), Some (Inr (map int ?ms))}"
    by (simp add: tk(1,6) probe_fuel_def bucket_home [OF tk(2)] del: collect_matches.simps)
  have "bucket_hash_equal cfg ?hash (?bs ! i)"
    using array_bucket [OF tk(3) i'] i(3) by (simp add: bucket_ok_def bucket_hash_equal_def)
  then have mem: "i \<in> set ?ms"
    using before by (auto simp: matches_def intro!: image_eqI [of _ _ "nat (m_dist (?bs ! i))"])
  have "m_value (?bs ! x) \<noteq> None \<and> x < length ?bs" if "x \<in> set ?ms" for x
  proof -
    from that obtain e where e: "e < ?m" "x = (?h + e) mod length ?bs" by (auto simp: matches_def)
    then have "x < length ?bs" using j(1) by (auto intro: ring_less)
    moreover have "0 \<le> m_dist (?bs ! x)" using stop(2) e by (auto simp: passes_def)
    ultimately show ?thesis using array_dist(2) [OF tk(3)] by (metis neg_0_le_iff_le not_one_le_zero)
  qed
  moreover have "key_at ?bs k x \<longleftrightarrow> x = i" if "x < length ?bs" for x
    using key_unique [OF tk(8) that i'] i(3) by (auto simp: key_at_def)
  ultimately have among: "match_among t k (map int ?ms) = Some i"
    using mem by (intro match_among_ok) (auto simp: tk(6))
  have single: "?ms = [x] \<Longrightarrow> x = i" for x using mem by auto
  show ?thesis
  proof (cases "collect_matches cfg (m_mask t) (m_buckets t) (probe_fuel t) ?hash
        (bucket_for_hash (m_mask t) ?hash) 0 [] = Some (Inl ())")
    case True
    then show ?thesis using store by (simp add: find_guaranteed_impl_def USE_STORED_HASH_ON_LOOKUP_def)
  next
    case False
    with col have c: "collect_matches cfg (m_mask t) (m_buckets t) (probe_fuel t) ?hash
        (bucket_for_hash (m_mask t) ?hash) 0 [] = Some (Inr (map int ?ms))" by auto
    then show ?thesis
      using store among single i(2)
      by (auto simp: find_guaranteed_impl_def USE_STORED_HASH_ON_LOOKUP_def split: list.split)
  qed
qed

section \<open>Range erasure and values that wrapped around\<close>

lemma clear_range_props:
  assumes "\<forall>i < length bs. bucket_ok cfg (length bs) i (bs ! i)" "set is' \<subseteq> {..< length bs}"
  shows "length (fst (clear_range is' bs nb)) = length bs \<and>
         (\<forall>j < length bs. fst (clear_range is' bs nb) ! j = (if j \<in> set is' then bucket_clear (bs ! j) else bs ! j))"
  using assms
proof (induction is' arbitrary: bs nb)
  case (Cons i is')
  let ?bs = "if \<not> bucket_empty (bs ! i) then bs[i := bucket_clear (bs ! i)] else bs"
  have i: "i < length bs" using Cons.prems(2) by simp
  have same: "?bs ! j = (if j = i then bucket_clear (bs ! i) else bs ! j)" if "j < length bs" for j
    using i that by (auto simp: bucket_clear_def)
  have twice: "bucket_clear (bucket_clear b) = bucket_clear b" for b :: "('a, 'b) bucket_entry"
    by (simp add: bucket_clear_def bucket_empty_def)
  have "\<forall>j < length ?bs. bucket_ok cfg (length ?bs) j (?bs ! j)"
    using Cons.prems(1) i bucket_clear_ok [of cfg "length bs" i "bs ! i" i] by (auto simp: nth_list_update)
  from Cons.IH [OF this] Cons.prems(2)
  have IH: "length (fst (clear_range is' ?bs nb')) = length bs \<and>
      (\<forall>j < length bs. fst (clear_range is' ?bs nb') ! j = (if j \<in> set is' then bucket_clear (?bs ! j) else ?bs ! j))"
    for nb' by (auto split: if_splits)
  have eq: "clear_range (i # is') bs nb = clear_range is' ?bs (if \<not> bucket_empty (bs ! i) then nb - 1 else nb)"
    by simp
  show ?case unfolding eq using IH same twice by auto
qed simp

text \<open>
  A value in bucket 0 whose ideal bucket is in the last part of the array is not moved by the
  erasure of that part, and its probe stops at its cleared ideal bucket.
\<close>

lemma erase_range_to_end:
  assumes ok: "table_ok cfg t" and r: "0 < f" "f < m_bucket_count t"
    and kv: "m_value (m_buckets_data t ! 0) = Some (k, v)"
    and w: "0 < m_dist (m_buckets_data t ! 0)" "m_dist (m_buckets_data t ! 0) \<le> int (m_bucket_count t - f)"
  shows "\<exists>t'. erase_range cfg f (m_bucket_count t) t = Some (t', m_bucket_count t) \<and>
           m_value (m_buckets_data t' ! 0) = Some (k, v) \<and>
           find_impl cfg k (hash_key cfg k) t' = Some (m_bucket_count t')"
proof -
  let ?n = "m_bucket_count t" and ?bs = "m_buckets_data t"
  have n0: "?n \<noteq> 0" using r by simp
  note tk = table_okD [OF ok n0]
  obtain bs nb where c: "clear_range [f ..< ?n] ?bs (m_nb_elements t) = (bs, nb)"
    by (cases "clear_range [f ..< ?n] ?bs (m_nb_elements t)")
  have bs: "length bs = ?n" "\<And>j. j < ?n \<Longrightarrow> bs ! j = (if f \<le> j then bucket_clear (?bs ! j) else ?bs ! j)"
  proof -
    have "set [f ..< ?n] \<subseteq> {..< length ?bs}" using tk(1) by auto
    with clear_range_props [of ?bs cfg "[f ..< ?n]" "m_nb_elements t"] tk(1,3) c
    show "length bs = ?n" "\<And>j. j < ?n \<Longrightarrow> bs ! j = (if f \<le> j then bucket_clear (?bs ! j) else ?bs ! j)"
      by (simp_all add: array_ok_def)
  qed
  define t' where "t' = t\<lparr>m_buckets_data := bs, m_nb_elements := nb, m_try_shrink_on_next_insert := True\<rparr>"
  have er: "erase_range cfg f ?n t = Some (t', ?n)" using r c by (simp add: erase_range_def t'_def)
  let ?h = "home cfg ?n k" and ?d = "nat (m_dist (?bs ! 0))"
  have pos: "(?h + ?d) mod ?n = 0" using array_bucket [OF tk(3), of 0] kv tk(1) n0 by (simp add: bucket_ok_def)
  have hn: "?h < ?n" using n0 by (simp add: home_def)
  have "?d \<le> ?n" "0 < ?d" using w by linarith+
  then have "?h + ?d = ?n"
  proof -
    obtain q where q: "?h + ?d = ?n * q" using mod_0_imp_dvd [OF pos] by (rule dvdE)
    have "?n * q < ?n * 2" "?n * 0 < ?n * q" using hn \<open>?d \<le> ?n\<close> \<open>0 < ?d\<close> q by linarith+
    then have "q < 2" "0 < q" by (simp_all only: mult_less_cancel1)
    then have "q = 1" by simp
    with q show ?thesis by simp
  qed
  with w r have fh: "f \<le> ?h" by linarith
  have "bucket_ok cfg (length ?bs) ?h (?bs ! ?h)" using array_bucket [OF tk(3)] hn tk(1) by simp
  then have dh: "m_dist (bs ! ?h) = - 1" using bs(2) [OF hn] fh by simp
  have "m_buckets t' = bs" "m_mask t' = m_mask t" "m_bucket_count t' = ?n"
    using bs(1) n0 by (auto simp: m_buckets_def t'_def)
  moreover have "bucket_for_hash (m_mask t) (hash_key cfg k) = ?h" using bucket_home [OF tk(2)] tk(1) by simp
  ultimately have "find_impl cfg k (hash_key cfg k) t' = Some ?n"
    using hn bs(1) dh by (simp add: find_impl_def probe_fuel_def bucket_at_def)
  with er kv bs(2) [of 0] r show ?thesis by (simp add: t'_def)
qed

section \<open>The interface of the benchmarks\<close>

lemma get_value_ok:
  assumes "table_ok cfg t"
  shows "get_value cfg k t = Some (rh_map t k)"
  using find_impl_correct [OF assms, of k] it_value_data [OF assms]
  by (cases "rh_map t k") (fastforce simp: get_value_def)+

interpretation robin: hash_table "table_ok cfg" rh_map 32767 UNIV "\<lambda>e. e = Length_Exceeded" "index_assign cfg 0" "get_value cfg"
  for cfg :: "'k rh_config"
proof (unfold_locales, goal_cases)
  case (1 t k v t')
  then have "insert_ready t" using nb_elements_card [OF 1(1)] by (simp add: insert_ready_def)
  from index_assign_ok(2) [OF 1(1) this 1(4)] show ?case .
next
  case (2 t k v e)
  then have "insert_ready t" using nb_elements_card [OF 2(1)] by (simp add: insert_ready_def)
  from index_assign_ok(1) [OF 2(1) this 2(4)] show ?case .
next
  case (3 t k)
  then show ?case by (simp add: get_value_ok)
next
  case (4 t)
  show ?case by (simp add: rh_map_def finite_dom_map_of)
qed

end
