(* ===== verification/Robin_Props.thy ===== *)
theory Robin_Props
  imports Robin_Map
begin

text \<open>
  The properties of the Robin Hood table. Two small tables, of one and of two keys with the same
  ideal bucket, serve as the concrete inputs of the witnesses.
\<close>

section \<open>Sequences of operations\<close>

datatype ('k, 'v) rh_op =
    Op_Insert 'k 'v
  | Op_Insert_Or_Assign 'k 'v
  | Op_Erase 'k
  | Op_Clear
  | Op_Rehash u64
  | Op_Max_Load rat
  | Op_Min_Load rat

fun robin_exec ::
  "'k rh_config \<Rightarrow> ('k, 'v) rh_op \<Rightarrow> ('k, 'v) robin_hash \<Rightarrow> rh_error + ('k, 'v) robin_hash" where
  "robin_exec cfg (Op_Insert k v) t = map_sum id fst (insert_impl cfg k v t)"
| "robin_exec cfg (Op_Insert_Or_Assign k v) t = map_sum id fst (insert_or_assign cfg k v t)"
| "robin_exec cfg (Op_Erase k) t =
     (case erase_key cfg k t of None \<Rightarrow> Inl Undefined | Some (t', _) \<Rightarrow> Inr t')"
| "robin_exec cfg Op_Clear t = Inr (clear t)"
| "robin_exec cfg (Op_Rehash c) t = rehash cfg c t"
| "robin_exec cfg (Op_Max_Load ml) t = Inr (set_max_load_factor ml t)"
| "robin_exec cfg (Op_Min_Load ml) t = Inr (set_min_load_factor ml t)"

text \<open>The same operations on finite maps.\<close>

fun map_exec :: "('k, 'v) rh_op \<Rightarrow> ('k \<rightharpoonup> 'v) \<Rightarrow> ('k \<rightharpoonup> 'v)" where
  "map_exec (Op_Insert k v) m = (if k \<in> dom m then m else m(k \<mapsto> v))"
| "map_exec (Op_Insert_Or_Assign k v) m = m(k \<mapsto> v)"
| "map_exec (Op_Erase k) m = m(k := None)"
| "map_exec Op_Clear m = Map.empty"
| "map_exec _ m = m"

fun robin_run ::
  "'k rh_config \<Rightarrow> ('k, 'v) rh_op list \<Rightarrow> ('k, 'v) robin_hash \<Rightarrow> rh_error + ('k, 'v) robin_hash" where
  "robin_run cfg [] t = Inr t"
| "robin_run cfg (op # ops) t = (case robin_exec cfg op t of Inl e \<Rightarrow> Inl e | Inr t' \<Rightarrow> robin_run cfg ops t')"

text \<open>
  When the 16-bit distances cannot wrap in an operation: an insertion into fewer than 32767 elements, or that does not rebuild the table and finds
  all distances below 32766; a rebuild of at most 32767 elements; the other operations always.
\<close>

definition op_ready :: "('k, 'v) rh_op \<Rightarrow> ('k, 'v) robin_hash \<Rightarrow> bool" where
  "op_ready op t =
     (case op of
        Op_Insert k v \<Rightarrow> insert_ready t
      | Op_Insert_Or_Assign k v \<Rightarrow> insert_ready t
      | Op_Rehash c \<Rightarrow> m_nb_elements t \<le> 32767
      | _ \<Rightarrow> True)"

text \<open>
  The tables that operations reach from a new one, each operation in a table that is ready for it. This is not every table that the
  code can produce: beyond these bounds a distance can wrap.
\<close>

inductive ready_reachable :: "'k rh_config \<Rightarrow> ('k, 'v) robin_hash \<Rightarrow> bool" for cfg where
  reach_new: "robin_hash_new cfg c min_lf max_lf = Inr t \<Longrightarrow> ready_reachable cfg t"
| reach_op: "ready_reachable cfg t \<Longrightarrow> op_ready op t \<Longrightarrow> robin_exec cfg op t = Inr t' \<Longrightarrow> ready_reachable cfg t'"

inductive_cases ready_reachableE: "ready_reachable cfg t"

lemma few_ready: "m_nb_elements t < 32767 \<Longrightarrow> insert_ready t"
  by (simp add: insert_ready_def)

lemma few_op_ready: "m_nb_elements t < 32767 \<Longrightarrow> op_ready op t"
  by (auto simp: op_ready_def few_ready split: rh_op.split)

lemma insert_impl_cases:
  assumes ok: "table_ok cfg t" and ready: "insert_ready t"
  obtains (new) t' i where "insert_impl cfg k v t = Inr (t', i, True)" "table_ok cfg t'" "k \<notin> dom (rh_map t)"
      "rh_map t' = (rh_map t)(k \<mapsto> v)" "i < m_bucket_count t'" "m_value (m_buckets_data t' ! i) = Some (k, v)"
    | (old) i w where "insert_impl cfg k v t = Inr (t, i, False)" "rh_map t k = Some w" "i < m_bucket_count t"
      "m_value (m_buckets_data t ! i) = Some (k, w)"
    | (full) "insert_impl cfg k v t = Inl Length_Exceeded" "k \<notin> dom (rh_map t)" "rehash_due t"
proof (cases "rh_map t k")
  case None
  show ?thesis
  proof (cases "insert_impl cfg k v t")
    case (Inl e)
    from insert_new_key(1) [OF ok None ready Inl] Inl None show ?thesis by (intro full) auto
  next
    case (Inr p)
    obtain t' i b where p: "insert_impl cfg k v t = Inr (t', i, b)" using Inr by (cases p) auto
    from insert_new_key(2) [OF ok None ready p] p None show ?thesis by (intro new) auto
  qed
next
  case (Some w)
  from insert_old_key [OF ok Some, of v] Some show ?thesis by (blast intro: old)
qed

lemma insert_or_assign_error:
  assumes ok: "table_ok cfg t" and ready: "insert_ready t" and res: "insert_or_assign cfg k v t = Inl e"
  shows "e = Length_Exceeded"
  using ok ready
proof (cases rule: insert_impl_cases [of cfg t k v])
  case (old i w)
  from assign_value_ok [OF ok old(3,4), of v] old(1) res show ?thesis
    by (auto simp: insert_or_assign_def try_emplace_def)
qed (use res in \<open>auto simp: insert_or_assign_def try_emplace_def\<close>)

lemma robin_exec_ok:
  assumes ok: "table_ok cfg t" and ready: "op_ready op t"
  shows "robin_exec cfg op t = Inl e \<Longrightarrow> e = Length_Exceeded"
    and "robin_exec cfg op t = Inr t' \<Longrightarrow> table_ok cfg t' \<and> rh_map t' = map_exec op (rh_map t)"
proof (atomize(full), cases op)
  case (Op_Insert k v)
  have "insert_ready t" using ready by (simp add: Op_Insert op_ready_def)
  with ok show "(robin_exec cfg op t = Inl e \<longrightarrow> e = Length_Exceeded) \<and>
      (robin_exec cfg op t = Inr t' \<longrightarrow> table_ok cfg t' \<and> rh_map t' = map_exec op (rh_map t))"
    by (cases rule: insert_impl_cases [of cfg t k v]) (insert ok, auto simp: Op_Insert)
next
  case (Op_Insert_Or_Assign k v)
  have ins: "insert_ready t" using ready by (simp add: Op_Insert_Or_Assign op_ready_def)
  show "(robin_exec cfg op t = Inl e \<longrightarrow> e = Length_Exceeded) \<and>
      (robin_exec cfg op t = Inr t' \<longrightarrow> table_ok cfg t' \<and> rh_map t' = map_exec op (rh_map t))"
  proof (cases "insert_or_assign cfg k v t")
    case (Inl x)
    with insert_or_assign_error [OF ok ins Inl] Op_Insert_Or_Assign show ?thesis by simp
  next
    case (Inr p)
    obtain t1 i b where "insert_or_assign cfg k v t = Inr (t1, i, b)" using Inr by (cases p) auto
    with insert_or_assign_ok [OF ok ins this] Op_Insert_Or_Assign show ?thesis by auto
  qed
next
  case (Op_Erase k)
  from erase_key_ok [OF ok, of k] show "(robin_exec cfg op t = Inl e \<longrightarrow> e = Length_Exceeded) \<and>
      (robin_exec cfg op t = Inr t' \<longrightarrow> table_ok cfg t' \<and> rh_map t' = map_exec op (rh_map t))"
    by (auto simp: Op_Erase)
next
  case (Op_Rehash c)
  from rehash_ok [OF ok, of c] ready show "(robin_exec cfg op t = Inl e \<longrightarrow> e = Length_Exceeded) \<and>
      (robin_exec cfg op t = Inr t' \<longrightarrow> table_ok cfg t' \<and> rh_map t' = map_exec op (rh_map t))"
    by (auto simp: Op_Rehash op_ready_def)
qed (auto simp: clear_ok [OF ok] set_max_load_factor_ok [OF ok] set_min_load_factor_ok [OF ok])

lemma map_exec_card:
  assumes "finite (dom m)"
  shows "finite (dom (map_exec op m)) \<and> card (dom (map_exec op m)) \<le> Suc (card (dom m))"
  using assms by (cases op) (auto simp: card_insert_if card_Diff1_le le_SucI)

lemma robin_run_ok:
  assumes "table_ok cfg t" "card (dom (rh_map t)) + length ops \<le> 32767"
  shows "robin_run cfg ops t = Inl e \<Longrightarrow> e = Length_Exceeded"
    and "robin_run cfg ops t = Inr t' \<Longrightarrow> table_ok cfg t' \<and> rh_map t' = fold map_exec ops (rh_map t)"
  using assms
proof (atomize(full), induction ops arbitrary: t)
  case (Cons op ops)
  note ok = Cons.prems(1) and few = Cons.prems(2)
  have nb: "m_nb_elements t < 32767" using nb_elements_card [OF ok] few by simp
  show ?case
  proof (cases "robin_exec cfg op t")
    case (Inl x)
    with robin_exec_ok(1) [OF ok few_op_ready [OF nb] Inl] show ?thesis by simp
  next
    case (Inr t1)
    note e = robin_exec_ok(2) [OF ok few_op_ready [OF nb] Inr]
    have "finite (dom (rh_map t))" by (simp add: rh_map_def finite_dom_map_of)
    from map_exec_card [OF this, of op] few e have "card (dom (rh_map t1)) + length ops \<le> 32767" by simp
    with Cons.IH [of t1] e Inr show ?thesis by simp
  qed
qed auto

lemma reachable_ok: "ready_reachable cfg t \<Longrightarrow> table_ok cfg t"
  by (induction rule: ready_reachable.induct) (auto dest: robin_hash_new_Inr(1) robin_exec_ok(2))

section \<open>The tables of the witnesses\<close>

definition demo_cfg :: "nat rh_config" where
  "demo_cfg = \<lparr>hash_key = of_nat, StoreHash = True, hash_for_free = False, vector_max_size = 100\<rparr>"

definition demo_one :: "(nat, int) robin_hash" where
  "demo_one = \<lparr>m_mask = 3,
     m_buckets_data = [new_bucket False, new_bucket False, new_bucket False,
       \<lparr>m_dist = 0, m_last_bucket = True, m_hash = 3, m_value = Some (3, 10)\<rparr>],
     m_bucket_count = 4, m_nb_elements = 1, m_load_threshold = 2,
     m_min_load_factor = 0, m_max_load_factor = 1 / 2,
     m_grow_on_next_insert = False, m_try_shrink_on_next_insert = False\<rparr>"

definition demo_two :: "(nat, int) robin_hash" where
  "demo_two = demo_one\<lparr>m_buckets_data := (m_buckets_data demo_one)
       [0 := \<lparr>m_dist = 1, m_last_bucket = False, m_hash = 7, m_value = Some (7, 20)\<rparr>],
     m_nb_elements := 2\<rparr>"

lemmas demo_defs = demo_cfg_def demo_one_def demo_two_def new_bucket_def

lemma demo_factors: "flt (2 / 10) \<le> 1 / 2" "1 / 2 \<le> flt (95 / 100)"
  using flt_upper [of "2 / 10"] flt_lower [of "95 / 100"] by simp_all

lemma demo_mask: "mask_ok 3 4"
  unfolding mask_ok_def by (rule exI [of _ 2]) (simp add: mask_eq_exp_minus_1)

lemma demo_one_array: "array_ok demo_cfg (m_buckets_data demo_one)" by code_simp

lemma demo_two_array: "array_ok demo_cfg (m_buckets_data demo_two)" by code_simp

lemma demo_one_ok: "table_ok demo_cfg demo_one"
  using demo_factors demo_mask demo_one_array by (simp add: table_ok_def factors_ok_def demo_defs)

lemma demo_two_ok: "table_ok demo_cfg demo_two"
  using demo_factors demo_mask demo_two_array by (simp add: table_ok_def factors_ok_def demo_defs)

lemma demo_one_map: "rh_map demo_one = [3 \<mapsto> 10]"
  by (simp add: rh_map_def demo_defs)

lemma demo_two_map: "rh_map demo_two = [3 \<mapsto> 10, 7 \<mapsto> 20]"
  by (simp add: rh_map_def demo_defs)

definition demo_zero :: "(nat, int) robin_hash" where
  "demo_zero = demo_one\<lparr>m_buckets_data := new_buckets 4, m_nb_elements := 0\<rparr>"

lemma demo_policy: "pow2_new 4 = Inr (3, 4)"
  by (simp add: pow2_new_def pow2_max_bucket_count_def round_up_to_power_of_two_def is_power_of_two_def)

lemma demo_flt: "flt 4 = 4" "flt 2 = 2" by code_simp+

lemma demo_new: "robin_hash_new demo_cfg 4 0 (1 / 2) = Inr demo_zero"
proof -
  have c1: "clamp (1 / 2) (flt (2 / 10)) (flt (95 / 100)) = 1 / 2"
    using demo_factors by (simp add: clamp_def max_def min_def)
  have c2: "clamp 0 0 (flt (15 / 100)) = 0" by (simp add: clamp_def min_absorb2)
  show ?thesis
    unfolding robin_hash_new_def set_max_load_factor_def set_min_load_factor_def c1 c2
    by (simp add: max_bucket_count_def unat_pow2_max demo_policy demo_zero_def demo_flt demo_defs)
qed

section \<open>Properties\<close>

text \<open>
  C1. Refinement of a finite map by any sequence of operations: starting from a new table, up to
  32767 insertions, assignments, erasures, clearings, rehashes and load factor changes, in any
  order and for every hash function, never run into undefined behaviour; they end in an exhausted
  table size or in a valid table that stands for the map that the same operations give, and every
  lookup in it returns what the map holds.\<close>
theorem robin_run_refines:
  assumes "robin_hash_new cfg c min_lf max_lf = Inr t0" "length ops \<le> 32767"
  shows "case robin_run cfg ops t0 of
           Inl e \<Rightarrow> e = Length_Exceeded
         | Inr t \<Rightarrow> table_ok cfg t \<and> rh_map t = fold map_exec ops Map.empty \<and>
                    (\<forall>k. get_value cfg k t = Some (fold map_exec ops Map.empty k))"
proof -
  note new = robin_hash_new_Inr(1,2) [OF assms(1)]
  have "card (dom (rh_map t0)) + length ops \<le> 32767" using new(2) assms(2) by simp
  note run = robin_run_ok [OF new(1) this]
  show ?thesis
  proof (cases "robin_run cfg ops t0")
    case (Inl e)
    with run(1) [OF Inl] show ?thesis by simp
  next
    case (Inr t)
    from run(2) [OF Inr] have t: "table_ok cfg t" "rh_map t = fold map_exec ops Map.empty" by (auto simp: new(2))
    with get_value_ok [OF t(1)] Inr show ?thesis by simp
  qed
qed

theorem robin_run_refines_witness:
  "robin_hash_new demo_cfg 4 0 (1 / 2) = Inr demo_zero \<and>
   (case robin_run demo_cfg [Op_Insert 3 10, Op_Insert_Or_Assign 7 20, Op_Erase 3] demo_zero of
      Inl e \<Rightarrow> False
    | Inr t \<Rightarrow> table_ok demo_cfg t \<and> get_value demo_cfg 7 t = Some (Some 20) \<and>
               get_value demo_cfg 3 t = Some None)"
proof -
  have "case robin_run demo_cfg [Op_Insert 3 10, Op_Insert_Or_Assign 7 20, Op_Erase 3] demo_zero of
      Inl e \<Rightarrow> False | Inr t \<Rightarrow> True" by code_simp
  with robin_run_refines [OF demo_new, of "[Op_Insert 3 10, Op_Insert_Or_Assign 7 20, Op_Erase 3]"] demo_new
  show ?thesis by (simp split: sum.splits del: robin_run.simps)
qed

text \<open>
  C17. Invariant of every table that is reached by operations within their bounds, that is, by insertions into fewer than 32767 elements (or,
  without a rebuild, where all distances are below 32766), by rebuilding at most 32767 elements, and by erasing, clearing and changing
  the load factors at any size: the bucket array is a Robin Hood ring, the mask matches
  the bucket count, keys are distinct, the element count is the number of occupied buckets and is
  below the bucket count, and the load threshold is below the bucket count.\<close>
theorem robin_reachable_ok:
  "ready_reachable cfg t \<Longrightarrow> table_ok cfg t \<and> m_nb_elements t = card (dom (rh_map t))"
  using reachable_ok nb_elements_card by blast

text \<open>The witness goes through an insertion that wraps around, a deletion that shifts it back and one more insertion.\<close>

fun stays_below :: "nat \<Rightarrow> 'k rh_config \<Rightarrow> ('k, 'v) rh_op list \<Rightarrow> ('k, 'v) robin_hash \<Rightarrow> bool" where
  "stays_below n cfg [] t = True"
| "stays_below n cfg (op # ops) t =
     (m_nb_elements t < n \<and> (case robin_exec cfg op t of Inl e \<Rightarrow> True | Inr t' \<Rightarrow> stays_below n cfg ops t'))"

lemma run_reachable:
  assumes "n \<le> 32767"
  shows "ready_reachable cfg t \<Longrightarrow> stays_below n cfg ops t \<Longrightarrow> robin_run cfg ops t = Inr t' \<Longrightarrow> ready_reachable cfg t'"
proof (induction ops arbitrary: t)
  case (Cons op ops)
  obtain t1 where t1: "robin_exec cfg op t = Inr t1" "robin_run cfg ops t1 = Inr t'"
    using Cons.prems(3) by (auto split: sum.splits)
  have "m_nb_elements t < 32767" using Cons.prems(2) assms by simp
  then have "ready_reachable cfg t1" using reach_op [OF Cons.prems(1) few_op_ready t1(1)] by blast
  then show ?case using Cons.IH Cons.prems(2) t1 by simp
qed simp

definition demo_ops :: "(nat, int) rh_op list" where
  "demo_ops = [Op_Insert 3 10, Op_Insert 7 20, Op_Erase 3, Op_Insert 11 30]"

lemma demo_run:
  "case robin_run demo_cfg demo_ops demo_zero of Inl e \<Rightarrow> False | Inr t \<Rightarrow> m_nb_elements t = 2"
  "stays_below 4 demo_cfg demo_ops demo_zero"
  by code_simp+

theorem robin_reachable_ok_witness:
  "\<exists>t. robin_run demo_cfg demo_ops demo_zero = Inr t \<and> ready_reachable demo_cfg t \<and> table_ok demo_cfg t \<and>
     card (dom (rh_map t)) = 2"
proof (cases "robin_run demo_cfg demo_ops demo_zero")
  case (Inr t)
  have "ready_reachable demo_cfg t" using run_reachable [OF _ reach_new [OF demo_new] demo_run(2) Inr] by simp
  with robin_reachable_ok [OF this] demo_run(1) Inr show ?thesis by simp
qed (use demo_run(1) in simp)

text \<open>
  C15. Lookup: in a valid table \<open>find\<close> ends within its bound, never reads the value of an empty
  bucket, and returns the bucket that holds the key, or the end when the key is absent.\<close>
theorem robin_find_correct:
  assumes "table_ok cfg t"
  shows "case rh_map t k of
           None \<Rightarrow> find_impl cfg k (hash_key cfg k) t = Some (m_bucket_count t)
         | Some v \<Rightarrow> \<exists>i < m_bucket_count t. find_impl cfg k (hash_key cfg k) t = Some i \<and>
                       m_value (m_buckets_data t ! i) = Some (k, v)"
  using find_impl_correct [OF assms] by (cases "rh_map t k") auto

theorem robin_find_correct_witness:
  "find_impl demo_cfg 7 7 demo_two = Some 0 \<and> find_impl demo_cfg 11 11 demo_two = Some 4"
proof
  show "find_impl demo_cfg 7 7 demo_two = Some 0" by code_simp
  show "find_impl demo_cfg 11 11 demo_two = Some 4"
    using robin_find_correct [OF demo_two_ok, of 11] unfolding demo_two_map by (simp add: demo_defs)
qed

text \<open>
  C14. Insertion into a valid table whose 16-bit distances cannot wrap (it has fewer than 32767 elements, or it needs no rebuild and all
  distances are below 32766): a key that is present leaves the table as it is and gives its position; a new key
  is added to the map and the returned position holds it; the only error is an exhausted table
  size, and only when the table had to be rebuilt.\<close>
theorem robin_insert_correct:
  assumes "table_ok cfg t" "insert_ready t"
  shows "case insert_impl cfg k v t of
           Inl e \<Rightarrow> e = Length_Exceeded \<and> k \<notin> dom (rh_map t) \<and> rehash_due t
         | Inr (t', i, inserted) \<Rightarrow>
             table_ok cfg t' \<and> i < m_bucket_count t' \<and> inserted = (k \<notin> dom (rh_map t)) \<and>
             rh_map t' = (if inserted then (rh_map t)(k \<mapsto> v) else rh_map t) \<and>
             m_value (m_buckets_data t' ! i) = Some (k, the (rh_map t' k))"
  using assms by (cases rule: insert_impl_cases [of cfg t k v]) (insert assms(1), auto)

theorem robin_insert_correct_witness:
  "insert_impl demo_cfg 7 20 demo_one = Inr (demo_two, 0, True) \<and>
   rh_map demo_two = (rh_map demo_one)(7 \<mapsto> 20)"
proof -
  have "insert_impl demo_cfg 7 20 demo_one = Inr (demo_two, 0, True)" by code_simp
  moreover have "insert_ready demo_one" by (simp add: insert_ready_def demo_defs)
  ultimately show ?thesis using robin_insert_correct [OF demo_one_ok, of 7 20] by simp
qed

text \<open>
  C16. Erasing a key: the backward shift ends within its bound, the table stays valid, the map
  loses exactly the key and the result tells whether it was there.\<close>
theorem robin_erase_correct:
  assumes "table_ok cfg t"
  shows "\<exists>t'. erase_key cfg k t = Some (t', if k \<in> dom (rh_map t) then 1 else 0) \<and>
           table_ok cfg t' \<and> rh_map t' = (rh_map t)(k := None)"
  using assms by (rule erase_key_ok)

theorem robin_erase_correct_witness:
  "\<exists>t'. erase_key demo_cfg 3 demo_two = Some (t', 1) \<and> rh_map t' = [7 \<mapsto> 20] \<and>
        find_impl demo_cfg 7 7 t' = Some 3"
proof -
  have "map_option (\<lambda>(t', _). find_impl demo_cfg 7 7 t') (erase_key demo_cfg 3 demo_two) = Some (Some 3)"
    by code_simp
  moreover have "((rh_map demo_two)(3 := None)) = [7 \<mapsto> 20]" by (auto simp: demo_two_map)
  ultimately show ?thesis
    using robin_erase_correct [OF demo_two_ok, of 3] by (auto simp: demo_two_map)
qed

text \<open>
  Rehashing a valid table of at most 32767 values to any requested bucket count keeps the map,
  gives at least the requested number of buckets, and fails only when that number is too large.\<close>
theorem robin_rehash_correct:
  assumes "table_ok cfg t" "m_nb_elements t \<le> 32767"
  shows "case rehash cfg c t of
           Inl e \<Rightarrow> e = Length_Exceeded
         | Inr t' \<Rightarrow> table_ok cfg t' \<and> rh_map t' = rh_map t \<and> unat c \<le> m_bucket_count t'"
  using rehash_ok [OF assms] by (cases "rehash cfg c t") auto

theorem robin_rehash_correct_witness:
  "case rehash demo_cfg 8 demo_two of
     Inl e \<Rightarrow> e = Length_Exceeded
   | Inr t' \<Rightarrow> table_ok demo_cfg t' \<and> rh_map t' = rh_map demo_two \<and> 8 \<le> m_bucket_count t'"
proof -
  have "m_nb_elements demo_two \<le> 32767" by (simp add: demo_defs)
  from robin_rehash_correct [OF demo_two_ok this, of 8] show ?thesis by (simp split: sum.splits)
qed

text \<open>
  The stored 32-bit hash may replace the 64-bit hash on a rehash: whenever the table decides to
  use it, it selects the same bucket.\<close>
theorem stored_hash_selects_bucket:
  assumes "pow2_new n = Inr (msk, c)" "0 < n" "USE_STORED_HASH_ON_REHASH cfg c"
  shows "bucket_for_hash msk (ucast (truncate_hash hash)) = bucket_for_hash msk hash"
proof -
  obtain k where k: "k \<le> 63" "unat c = 2 ^ k" "msk = mask k" using pow2_new_Inr [OF assms(1)] assms(2) by auto
  then have m: "mask_ok msk (unat c)" by (auto simp: mask_ok_def)
  then have "c \<noteq> 0" using mask_ok_pos [OF m] by auto
  then have "unat (c - 1) = unat c - 1" by (rule unat_minus_one)
  moreover have "unat (c - 1) \<le> 0xFFFFFFFF"
    using assms(3) by (simp add: USE_STORED_HASH_ON_REHASH_def word_le_nat_alt)
  ultimately have "unat c \<le> 2 ^ 32" by simp
  from stored_hash_bucket [OF m this, of hash] show ?thesis by (simp add: truncate_hash_def)
qed

theorem stored_hash_selects_bucket_witness:
  "bucket_for_hash 3 (ucast (truncate_hash 0x500000007)) = bucket_for_hash 3 0x500000007 \<and>
   bucket_for_hash 3 0x500000007 = 3"
proof -
  from stored_hash_selects_bucket [OF demo_policy, of demo_cfg "0x500000007"] show ?thesis
    by (simp add: USE_STORED_HASH_ON_REHASH_def STORE_HASH_def demo_cfg_def bucket_for_hash_def
        pow2_bucket_for_hash_def)
qed

text \<open>
  Probe lengths: in a valid table no value is as far from its ideal bucket as there are values,
  so every probe looks at no more buckets than there are values plus one.\<close>
theorem robin_distance_bound:
  assumes "table_ok cfg t" "i < m_bucket_count t"
  shows "m_dist (m_buckets_data t ! i) < int (m_nb_elements t)"
proof -
  have n: "m_bucket_count t \<noteq> 0" using assms(2) by simp
  note tk = table_okD [OF assms(1) n]
  show ?thesis using dist_below_count [OF tk(3,5), of i] assms(2) tk(1,9) by simp
qed

theorem robin_distance_bound_witness: "m_dist (m_buckets_data demo_two ! 0) < int (m_nb_elements demo_two)"
  using robin_distance_bound [OF demo_two_ok, of 0] by (simp add: demo_defs)

text \<open>
  C28. Iteration from \<open>begin\<close> to \<open>end\<close> visits every pair of the map exactly once.\<close>
theorem robin_iteration_complete:
  assumes "table_ok cfg t"
  shows "\<exists>kvs. visit_all t = Some kvs \<and> distinct (map fst kvs) \<and> length kvs = m_nb_elements t \<and>
               (\<forall>k v. (k, v) \<in> set kvs \<longleftrightarrow> rh_map t k = Some v)"
  using visit_all_vals [OF assms] assms by (auto simp: table_ok_def rh_map_def)

theorem robin_iteration_complete_witness: "visit_all demo_two = Some [(7, 20), (3, 10)]"
proof -
  obtain kvs where "visit_all demo_two = Some kvs" using robin_iteration_complete [OF demo_two_ok] by blast
  moreover have "visit_all demo_two = Some [(7, 20), (3, 10)]" by code_simp
  ultimately show ?thesis by simp
qed

text \<open>
  Comparison of two maps answers whether they hold the same pairs, whatever their bucket
  counts and histories.\<close>
theorem robin_equality_correct:
  assumes "table_ok cfg lhs" "table_ok cfg rhs"
  shows "maps_equal cfg lhs rhs = Some (rh_map lhs = rh_map rhs)"
  using assms by (rule maps_equal_ok)

theorem robin_equality_correct_witness:
  "maps_equal demo_cfg demo_two demo_two = Some True \<and> maps_equal demo_cfg demo_one demo_two = Some False"
proof -
  have "rh_map demo_one 7 \<noteq> rh_map demo_two 7" by (simp add: demo_one_map demo_two_map)
  then have "rh_map demo_one \<noteq> rh_map demo_two" by auto
  then show ?thesis
    using robin_equality_correct [OF demo_two_ok demo_two_ok] robin_equality_correct [OF demo_one_ok demo_two_ok]
    by simp
qed

text \<open>
  The lookup \<open>find_guaranteed\<close>, which skips the comparison of keys when a single bucket on the
  probe's way has the wanted stored hash, finds every key that is present exactly where \<open>find\<close> does
  (with stored hashes and at most \<open>2 ^ 31\<close> buckets).\<close>
theorem find_guaranteed_correct:
  assumes "table_ok cfg t" "StoreHash cfg" "m_bucket_count t \<le> 2 ^ 31" "k \<in> dom (rh_map t)"
  shows "find_guaranteed_impl cfg k (hash_key cfg k) t = find_impl cfg k (hash_key cfg k) t"
  using assms find_guaranteed_present [OF assms(1-3)] by auto

theorem find_guaranteed_correct_witness:
  "find_guaranteed_impl demo_cfg 7 7 demo_two = find_impl demo_cfg 7 7 demo_two"
  using find_guaranteed_correct [OF demo_two_ok, of 7] by (simp add: demo_two_map) (simp add: demo_defs)

text \<open>
  C33. Erasing a range that reaches the end loses keys outside the range: a value that wrapped around
  into bucket 0 stays there although its ideal bucket has been cleared, so its key is still stored
  but is no longer found.\<close>
theorem erase_range_loses_wrapped_key:
  assumes "table_ok cfg t" "0 < f" "f < m_bucket_count t" "m_value (m_buckets_data t ! 0) = Some (k, v)"
    and "0 < m_dist (m_buckets_data t ! 0)" "m_dist (m_buckets_data t ! 0) \<le> int (m_bucket_count t - f)"
  shows "\<exists>t'. erase_range cfg f (m_bucket_count t) t = Some (t', m_bucket_count t) \<and>
           m_value (m_buckets_data t' ! 0) = Some (k, v) \<and>
           find_impl cfg k (hash_key cfg k) t' = Some (m_bucket_count t')"
  using assms by (rule erase_range_to_end)

theorem erase_range_loses_wrapped_key_witness:
  "\<exists>t'. erase_range demo_cfg 3 4 demo_two = Some (t', 4) \<and> m_value (m_buckets_data t' ! 0) = Some (7, 20) \<and>
        find_impl demo_cfg 7 7 t' = Some (m_bucket_count t')"
  using erase_range_loses_wrapped_key [OF demo_two_ok, of 3 7 20] by (simp add: demo_defs)

text \<open>
  The table benchmark on a Robin Hood map: when the build loop over at most 32767 keys succeeds,
  the warm-up loop adds, for each probe, the index of the last occurrence of the probe in the data,
  and nothing for a probe that is not in the data.\<close>
theorem robin_benchmark_sum:
  assumes "robin_hash_new cfg c min_lf max_lf = Inr t0" "length data \<le> 32767"
    and "bench_build (index_assign cfg 0) index_value data 0 t0 = Inr t"
  shows "bench_probe (get_value cfg) t probes s =
           Some (s + (\<Sum>p \<leftarrow> probes. case map_of (rev (zip data (map int [0 ..< length data]))) p of
                                        None \<Rightarrow> 0 | Some i \<Rightarrow> i))"
proof -
  note new = robin_hash_new_Inr(1,2) [OF assms(1)]
  from robin.build_ok [OF new(1), of data index_value 0] new(2) assms(2,3)
  have "table_ok cfg t" "rh_map t = map_of (rev (zip data (map int [0 ..< length data])))"
    using index_values [of "length data"] by simp_all
  then show ?thesis using robin.probe_ok [of cfg t probes s] by simp
qed

theorem robin_benchmark_sum_witness:
  "case bench_build (index_assign demo_cfg 0) index_value [3, 7, 3] 0 demo_zero of
     Inl e \<Rightarrow> False
   | Inr t \<Rightarrow> bench_probe (get_value demo_cfg) t [3, 7, 11] 0 = Some 3"
proof -
  have ok: "case bench_build (index_assign demo_cfg 0) index_value [3, 7, 3] 0 demo_zero of Inl e \<Rightarrow> False | Inr t \<Rightarrow> True"
    by code_simp
  show ?thesis
  proof (cases "bench_build (index_assign demo_cfg 0) index_value [3, 7, 3] 0 demo_zero")
    case (Inl e)
    with ok show ?thesis by (simp del: bench_build.simps)
  next
    case (Inr t)
    have "[0 ..< length [3, 7, 3 :: nat]] = [0, 1, 2]" by (simp add: upt_rec)
    with robin_benchmark_sum [OF demo_new _ Inr, of "[3, 7, 11]" 0] Inr show ?thesis
      by (simp del: bench_build.simps bench_probe.simps)
  qed
qed

end
