(* ===== verification/Bench_Timing.thy ===== *)
theory Bench_Timing
  imports Bench_Common
begin

text \<open>
  What a benchmark records: the function template \<open>benchmark\<close> (\<open>include/benchmarks.hh\<close>) runs a
  measured lambda, adds a time to the statistics and hands the result on. The state holds the globals it uses; the
  clock is a sequence of readings in nanoseconds, of which the state counts those already taken.
\<close>

section \<open>State\<close>

record bench_state =
  clock_reads :: nat
  total_time_without_dummy_hashing :: rat
  total_time_without_dummy_hashing_filter :: rat
  total_time_without_dummy_hashing_partition :: rat
  timings :: "string \<Rightarrow> (string \<rightharpoonup> rat)"
  reported :: "(string \<times> string \<times> int) list"

type_synonym clock = "nat \<Rightarrow> int"

definition now :: "clock \<Rightarrow> bench_state \<Rightarrow> int \<times> bench_state" where
  "now clock st = (clock (clock_reads st), st\<lparr>clock_reads := clock_reads st + 1\<rparr>)"

text \<open>\<open>timings[metric][name] += d\<close>, where an absent entry is created as 0, and \<open>timings[metric][name] = d\<close>.\<close>

definition set_timing :: "string \<Rightarrow> string \<Rightarrow> rat \<Rightarrow> bench_state \<Rightarrow> bench_state" where
  "set_timing metric name d st =
     st\<lparr>timings := (timings st)(metric := (timings st metric)(name \<mapsto> d))\<rparr>"

definition add_timing :: "string \<Rightarrow> string \<Rightarrow> rat \<Rightarrow> bench_state \<Rightarrow> bench_state" where
  "add_timing metric name d st =
     set_timing metric name (sdbl ((case timings st metric name of None \<Rightarrow> 0 | Some x \<Rightarrow> x) + d)) st"

text \<open>
  The clock is read before and after a group of lookups, and the difference is added to the total of the kind of benchmark.
  The lookups leave the state as it is.
\<close>

definition elapsed :: "clock \<Rightarrow> bench_state \<Rightarrow> rat \<times> bench_state" where
  "elapsed clock st =
     (let (start, st) = now clock st;
          (stop, st) = now clock st
      in (sdbl (of_int (stop - start)), st))"

definition add_elapsed :: "clock \<Rightarrow> bench_state \<Rightarrow> bench_state" where
  "add_elapsed clock st =
     (let (time, st) = elapsed clock st
      in st\<lparr>total_time_without_dummy_hashing := sdbl (total_time_without_dummy_hashing st + time)\<rparr>)"

definition add_elapsed_filter :: "clock \<Rightarrow> bench_state \<Rightarrow> bench_state" where
  "add_elapsed_filter clock st =
     (let (time, st) = elapsed clock st
      in st\<lparr>total_time_without_dummy_hashing_filter := sdbl (total_time_without_dummy_hashing_filter st + time)\<rparr>)"

text \<open>In the latency benchmark of the filters the difference is scaled from the lookups that were made to a full step.\<close>

definition add_elapsed_scaled :: "clock \<Rightarrow> nat \<Rightarrow> bench_state \<Rightarrow> bench_state" where
  "add_elapsed_scaled clock counter st =
     (let (time, st) = elapsed clock st
      in st\<lparr>total_time_without_dummy_hashing_filter :=
           sdbl (total_time_without_dummy_hashing_filter st + sdbl (time / sdbl (of_nat counter / of_nat step_size)))\<rparr>)"

definition add_elapsed_partition :: "clock \<Rightarrow> bench_state \<Rightarrow> bench_state" where
  "add_elapsed_partition clock st =
     (let (time, st) = elapsed clock st
      in st\<lparr>total_time_without_dummy_hashing_partition := sdbl (total_time_without_dummy_hashing_partition st + time)\<rparr>)"

section \<open>The benchmark function\<close>

definition inner_loop_reuse :: nat where
  "inner_loop_reuse = 1"

text \<open>
  The time since the start is computed but not used: the recorded time is one of two globals, which the measured lambda is
  expected to set. The result is what \<open>verify\<close> is called with.
\<close>

definition benchmark_result ::
    "clock \<Rightarrow> string \<Rightarrow> string \<Rightarrow> (bench_state \<Rightarrow> bench_error + int \<times> bench_state) \<Rightarrow> bench_state \<Rightarrow>
     bench_error + int \<times> bench_state" where
  "benchmark_result clock name metric_class func st =
     (let (start, st) = now clock st
      in bind_result (func st) (\<lambda>(result, st).
           let (stop, st) = now clock st;
               total_time = total_time_without_dummy_hashing st;
               st = (if metric_class = ''filter_latency'' \<or> metric_class = ''filter_throughput'' \<or> metric_class = ''hash_func''
                     then add_timing metric_class name
                       (sdbl (total_time_without_dummy_hashing_filter st / of_nat inner_loop_reuse)) st
                     else add_timing metric_class name total_time st)
           in Inr (result, st\<lparr>reported := reported st @ [(metric_class, name, result)]\<rparr>)))"

text \<open>For the benchmarks whose \<open>verify\<close> does not keep the result.\<close>

definition benchmark ::
    "clock \<Rightarrow> string \<Rightarrow> string \<Rightarrow> (bench_state \<Rightarrow> bench_error + int \<times> bench_state) \<Rightarrow> bench_state \<Rightarrow>
     bench_error + bench_state" where
  "benchmark clock name metric_class func st =
     bind_result (benchmark_result clock name metric_class func st) (\<lambda>(result, st). Inr st)"

section \<open>Lemmas\<close>

text \<open>An outcome is acceptable when it is no error or an allowed one.\<close>

definition ends_with :: "(bench_error \<Rightarrow> bool) \<Rightarrow> ('a \<Rightarrow> bool) \<Rightarrow> bench_error + 'a \<Rightarrow> bool" where
  "ends_with E P r = (case r of Inl e \<Rightarrow> E e | Inr x \<Rightarrow> P x)"

lemma ends_with_simps [simp]: "ends_with E P (Inl e) = E e" "ends_with E P (Inr x) = P x"
  by (simp_all add: ends_with_def)

lemma ends_with_bind:
  "ends_with E P m \<Longrightarrow> (\<And>x. P x \<Longrightarrow> ends_with E Q (f x)) \<Longrightarrow> ends_with E Q (bind_result m f)"
  by (cases m) simp_all

lemma ends_with_mono: "ends_with E P m \<Longrightarrow> (\<And>x. P x \<Longrightarrow> Q x) \<Longrightarrow> ends_with E Q m"
  by (cases m) simp_all

lemma run_steps_ends:
  assumes "\<And>g s t. (g, s) \<in> set ss \<Longrightarrow> g \<Longrightarrow> ends_with E (\<lambda>_. True) (s t)"
  shows "ends_with E (\<lambda>_. True) (run_steps ss t)"
  using assms
proof (induction ss arbitrary: t)
  case (Cons gs ss)
  obtain g s where gs: "gs = (g, s)" by (cases gs)
  have "ends_with E (\<lambda>_. True) (if g then s t else Inr t)" using Cons.prems [of g s t] gs by simp
  moreover have "ends_with E (\<lambda>_. True) (run_steps ss u)" for u
    using Cons.prems by (intro Cons.IH) (meson list.set_intros(2))
  ultimately show ?case by (auto simp: gs intro: ends_with_bind)
qed simp

text \<open>What a benchmark leaves: the result is reported and one time is recorded.\<close>

lemma benchmark_result_Inr:
  assumes "func (snd (now clock st)) = Inr (r, st')"
  shows "\<exists>st''. benchmark_result clock name metric func st = Inr (r, st'') \<and>
    reported st'' = reported st' @ [(metric, name, r)] \<and>
    timings st'' = timings (add_timing metric name
      (if metric \<in> {''filter_latency'', ''filter_throughput'', ''hash_func''}
       then sdbl (total_time_without_dummy_hashing_filter st') else total_time_without_dummy_hashing st') st')"
  using assms by (auto simp: benchmark_result_def now_def Let_def add_timing_def set_timing_def inner_loop_reuse_def)

lemma benchmark_Inr:
  assumes "func (snd (now clock st)) = Inr (r, st')"
  shows "\<exists>st''. benchmark clock name metric func st = Inr st'' \<and> reported st'' = reported st' @ [(metric, name, r)]"
  using benchmark_result_Inr [where func = func, OF assms, of name metric] by (auto simp: benchmark_def)

lemma benchmark_ends:
  assumes "\<And>st. ends_with E (\<lambda>_. True) (func st)"
  shows "ends_with E (\<lambda>_. True) (benchmark clock name metric func st)"
  unfolding benchmark_def benchmark_result_def now_def Let_def prod.case
  by (intro ends_with_bind [OF assms] ends_with_bind [where P = "\<lambda>_. True"]) (auto split: prod.split)

text \<open>The time of \<open>n\<close> groups of lookups, from the readings of the clock around them.\<close>

definition lookup_time :: "clock \<Rightarrow> nat \<Rightarrow> nat \<Rightarrow> rat" where
  "lookup_time clock k n =
     foldl (\<lambda>time i. sdbl (time + sdbl (of_int (clock (k + 2 * i + 1) - clock (k + 2 * i))))) 0 [0..<n]"

lemma lookup_time_Suc:
  "lookup_time clock k (Suc n) =
     sdbl (lookup_time clock k n + sdbl (of_int (clock (k + 2 * n + 1) - clock (k + 2 * n))))"
  by (simp add: lookup_time_def)

lemma add_elapsed_filter_time:
  "add_elapsed_filter clock (st\<lparr>clock_reads := k + 2 * n, total_time_without_dummy_hashing_filter := lookup_time clock k n\<rparr>) =
    st\<lparr>clock_reads := k + 2 * Suc n, total_time_without_dummy_hashing_filter := lookup_time clock k (Suc n)\<rparr>"
  by (simp add: add_elapsed_filter_def elapsed_def now_def Let_def lookup_time_Suc)

end
