(* ===== verification/Table_Driver.thy ===== *)
theory Table_Driver
  imports Robin_Props Bench_Timing
begin

text \<open>
  The table benchmarks of \<open>benchmark_tables.cpp\<close>: how a table is measured (\<open>bench_hashtable_throughput\<close>,
  \<open>bench_hashtable_latency\<close>, \<open>bench_hashtable\<close>) and how the drivers choose the hash functions,
  construct the tables and run the measurements. The class of the table is a parameter, as it is a template
  parameter in the source. It is instantiated by the Robin Hood map of this repository and by
  \<open>std::unordered_map\<close>; the drivers of the Abseil and sparsehash tables take any class that keeps the contract. Sums of values are mathematical integers: the
  64-bit sum of the source cannot overflow for fewer than \<open>2 ^ 31\<close> probes.
\<close>

section \<open>Tables and settings\<close>

record table_config = bench_config +
  set_load_factor :: bool
  cfg_load_factor :: rat

text \<open>
  The operations the benchmarks use of a table with a given functor: the constructor with a bucket count,
  \<open>max_load_factor(float)\<close>, \<open>map[k] = v\<close>, and \<open>find\<close> with the comparison to \<open>end\<close> and \<open>it->second\<close>.
\<close>

record 't table_ops =
  table_new :: "nat \<Rightarrow> bench_error + 't"
  table_max_load_factor :: "rat \<Rightarrow> 't \<Rightarrow> bench_error + 't"
  table_assign :: "bytes \<Rightarrow> int \<Rightarrow> 't \<Rightarrow> bench_error + 't"
  table_find :: "bytes \<Rightarrow> 't \<Rightarrow> int option option"

type_synonym hash_functor = "bytes \<Rightarrow> u64 option"

text \<open>
  \<open>std::unordered_map<std::string, int, H>\<close>: a finite map whose operations hash their key.
\<close>

definition std_class :: "hash_functor \<Rightarrow> (bytes \<rightharpoonup> int) table_ops" where
  "std_class hash = \<lparr>
     table_new = (\<lambda>n. Inr Map.empty),
     table_max_load_factor = (\<lambda>f m. Inr m),
     table_assign = (\<lambda>k v m. bind_result (defined (hash k)) (\<lambda>_. Inr (m(k \<mapsto> v)))),
     table_find = (\<lambda>k m. hash k \<bind> (\<lambda>_. Some (m k)))\<rparr>"

text \<open>
  \<open>tsl::robin_map<std::string, int, H, ..., store_hash>\<close>: every operation hashes its key first; the keys
  in the table have been hashed before. The bound on the size of a vector is the parameter.
\<close>

definition robin_config :: "nat \<Rightarrow> hash_functor \<Rightarrow> bytes rh_config" where
  "robin_config max_size hash =
     \<lparr>hash_key = (\<lambda>x. case hash x of None \<Rightarrow> 0 | Some h \<Rightarrow> h), StoreHash = True, hash_for_free = False,
      vector_max_size = max_size\<rparr>"

definition from_robin :: "rh_error + 'a \<Rightarrow> bench_error + 'a" where
  "from_robin r = map_sum (\<lambda>e. if e = Robin_Hash.Undefined then Undefined else Uncaught) id r"

definition robin_class :: "nat \<Rightarrow> hash_functor \<Rightarrow> (bytes, int) robin_hash table_ops" where
  "robin_class max_size hash =
     (let cfg = robin_config max_size hash in \<lparr>
     table_new = (\<lambda>n. from_robin (robin_hash_new cfg (of_nat n) 0 (1 / 2))),
     table_max_load_factor = (\<lambda>f t. Inr (set_max_load_factor f t)),
     table_assign = (\<lambda>k v t. bind_result (defined (hash k)) (\<lambda>_. from_robin (index_assign cfg 0 k v t))),
     table_find = (\<lambda>k t. hash k \<bind> (\<lambda>_. get_value cfg k t))\<rparr>)"

section \<open>Measuring one table\<close>

definition set_factor :: "table_config \<Rightarrow> 't table_ops \<Rightarrow> 't \<Rightarrow> bench_error + 't" where
  "set_factor cfg ops t =
     (if set_load_factor cfg then table_max_load_factor ops (cfg_load_factor cfg) t else Inr t)"

text \<open>The time of the build loop, in milliseconds.\<close>

definition build_time :: "clock \<Rightarrow> bench_state \<Rightarrow> rat \<times> bench_state" where
  "build_time clock st =
     (let (start, st) = now clock st;
          (stop, st) = now clock st
      in (sdbl (sdbl (of_int (stop - start)) / 1000000), st))"

definition found_value :: "int option \<Rightarrow> int" where
  "found_value r = (case r of None \<Rightarrow> 0 | Some v \<Rightarrow> v)"

text \<open>The timed lambda of the throughput benchmark goes on with the sum of the warm-up loop.\<close>

definition timed_finds ::
    "clock \<Rightarrow> (bytes \<Rightarrow> int option option) \<Rightarrow> bytes list \<Rightarrow> int \<Rightarrow> bench_state \<Rightarrow> (int \<times> u64 \<times> bench_state) option" where
  "timed_finds clock get p s st =
     for_opt [0..<length p div step_size] (\<lambda>i (s, dummy, st). do {
       dummy \<leftarrow> dummy_hashing p i dummy;
       s \<leftarrow> for_opt [i * step_size..<(i + 1) * step_size]
              (\<lambda>j s. nth_opt p j \<bind> get \<bind> (\<lambda>r. Some (s + found_value r))) s;
       Some (s, dummy, add_elapsed clock st)
     }) (s, 0, st\<lparr>total_time_without_dummy_hashing := 0\<rparr>)"

definition bench_hashtable_throughput ::
    "table_config \<Rightarrow> clock \<Rightarrow> 't table_ops \<Rightarrow> string \<Rightarrow> bytes list \<Rightarrow> bytes list \<Rightarrow> 't \<Rightarrow> bench_state \<Rightarrow>
     bench_error + 't \<times> bench_state" where
  "bench_hashtable_throughput cfg clock ops name data probes t st =
     bind_result (set_factor cfg ops t) (\<lambda>t.
     bind_result (bench_build (table_assign ops) index_value data 0 t) (\<lambda>t.
     let (duration, st) = build_time clock st;
         st = add_timing ''hash_table_build'' name duration st in
     bind_result (defined (bench_probe (table_find ops) t probes 0)) (\<lambda>s.
     bind_result (benchmark clock name ''hash_table_throughput''
         (\<lambda>st. bind_result (defined (timed_finds clock (\<lambda>x. table_find ops x t) probes s st))
                 (\<lambda>(s, dummy, st). Inr (s, st))) st) (\<lambda>st.
     Inr (t, st)))))"

text \<open>
  The latency benchmark steps over as many further probes as the value that it finds, so each lookup depends on the one before. The
  indices are 32-bit. A loop that does not end is \<open>None\<close>.
\<close>

partial_function (option) latency_walk ::
    "(bytes \<Rightarrow> int option option) \<Rightarrow> bytes list \<Rightarrow> u32 \<Rightarrow> int \<Rightarrow> (u32 \<times> int) option" where
  "latency_walk get p i s =
     (if unat i < length p then
        nth_opt p (unat i) \<bind> get \<bind> (\<lambda>r.
          latency_walk get p (i + word_of_int (found_value r) + 1) (s + found_value r))
      else Some (i, s))"

definition latency_warm_up :: "(bytes \<Rightarrow> int option option) \<Rightarrow> bytes list \<Rightarrow> int option" where
  "latency_warm_up get p =
     map_option snd (for_opt [0, 1 :: nat] (\<lambda>r (i, s). do {
       (i, s) \<leftarrow> latency_walk get p i s;
       Some (i - of_nat (length p), s)
     }) (0, 0))"

partial_function (option) latency_block ::
    "(bytes \<Rightarrow> int option option) \<Rightarrow> bytes list \<Rightarrow> u32 \<Rightarrow> nat \<Rightarrow> int \<Rightarrow> int option" where
  "latency_block get p j limit s =
     (if unat j < limit then
        nth_opt p (unat j) \<bind> get \<bind> (\<lambda>r.
          latency_block get p (j + word_of_int (found_value r) + 1) limit (s + found_value r))
      else Some s)"

text \<open>The index of the block is back at 0 after each of the two rounds.\<close>

definition timed_walks ::
    "clock \<Rightarrow> (bytes \<Rightarrow> int option option) \<Rightarrow> bytes list \<Rightarrow> int \<Rightarrow> bench_state \<Rightarrow> (int \<times> u64 \<times> bench_state) option" where
  "timed_walks clock get p s st =
     for_opt [0, 1 :: nat] (\<lambda>r.
       for_opt [0..<length p div step_size] (\<lambda>i (s, dummy, st). do {
         dummy \<leftarrow> dummy_hashing p i dummy;
         s \<leftarrow> latency_block get p (of_nat (i * step_size)) ((i + 1) * step_size) s;
         Some (s, dummy, add_elapsed clock st)
       })) (s, 0, st\<lparr>total_time_without_dummy_hashing := 0\<rparr>)"

definition bench_hashtable_latency ::
    "table_config \<Rightarrow> clock \<Rightarrow> (nat \<Rightarrow> nat) \<Rightarrow> 't table_ops \<Rightarrow> string \<Rightarrow> bytes list \<Rightarrow> bytes list \<Rightarrow> 't \<Rightarrow> bench_state \<Rightarrow>
     bench_error + 't \<times> bench_state" where
  "bench_hashtable_latency cfg clock rand ops name data probes t st =
     bind_result (set_factor cfg ops t) (\<lambda>t.
     bind_result (bench_build (table_assign ops) (random_value rand) data 0 t) (\<lambda>t.
     let (duration, st) = build_time clock st;
         st = set_timing ''hash_table_build'' name duration st in
     bind_result (defined (latency_warm_up (\<lambda>x. table_find ops x t) probes)) (\<lambda>s.
     bind_result (benchmark clock name ''hash_table_latency''
         (\<lambda>st. bind_result (defined (timed_walks clock (\<lambda>x. table_find ops x t) probes s st))
                 (\<lambda>(s, dummy, st). Inr (s, st))) st) (\<lambda>st.
     Inr (t, st)))))"

definition bench_hashtable ::
    "table_config \<Rightarrow> clock \<Rightarrow> (nat \<Rightarrow> nat) \<Rightarrow> 't table_ops \<Rightarrow> string \<Rightarrow> bytes list \<Rightarrow> bytes list \<Rightarrow> 't \<Rightarrow> bench_state \<Rightarrow>
     bench_error + 't \<times> bench_state" where
  "bench_hashtable cfg clock rand ops name data probes t st =
     bind_result (if table_metrics cfg ''latency''
                  then bench_hashtable_latency cfg clock rand ops name data probes t st else Inr (t, st)) (\<lambda>(t, st).
     if table_metrics cfg ''throughput''
     then bench_hashtable_throughput cfg clock ops name data probes t st else Inr (t, st))"

section \<open>The drivers\<close>

text \<open>
  One benchmark of a driver: the functor is made (or cannot be), the table is constructed with as many
  buckets as there are keys and prepared, and measured. The benchmarks of a driver do not share random numbers,
  since each reseeds the generator from the time: \<open>rand\<close> has a sequence for every name.
\<close>

definition run_table_with ::
    "('t \<Rightarrow> 't) \<Rightarrow> table_config \<Rightarrow> clock \<Rightarrow> (string \<Rightarrow> nat \<Rightarrow> nat) \<Rightarrow> (hash_functor \<Rightarrow> 't table_ops) \<Rightarrow>
     bytes list \<Rightarrow> bytes list \<Rightarrow> string \<Rightarrow> hash_functor option \<Rightarrow> bench_state \<Rightarrow> bench_error + bench_state" where
  "run_table_with prepare cfg clock rand cls data probes name hasher st =
     bind_result (defined hasher) (\<lambda>hash.
     bind_result (table_new (cls hash) (length data)) (\<lambda>t.
     bind_result (bench_hashtable cfg clock (rand name) (cls hash) name data probes (prepare t) st) (\<lambda>(_, st). Inr st)))"

definition run_table ::
    "table_config \<Rightarrow> clock \<Rightarrow> (string \<Rightarrow> nat \<Rightarrow> nat) \<Rightarrow> (hash_functor \<Rightarrow> 't table_ops) \<Rightarrow>
     bytes list \<Rightarrow> bytes list \<Rightarrow> string \<Rightarrow> hash_functor option \<Rightarrow> bench_state \<Rightarrow> bench_error + bench_state" where
  "run_table = run_table_with id"

definition bench_robin_table ::
    "platform \<Rightarrow> table_config \<Rightarrow> clock \<Rightarrow> (string \<Rightarrow> nat \<Rightarrow> nat) \<Rightarrow> nat \<Rightarrow> bytes list \<Rightarrow> bytes list \<Rightarrow>
     (int \<rightharpoonup> int list) \<Rightarrow> bench_state \<Rightarrow> bench_error + bench_state" where
  "bench_robin_table lib cfg clock rand max_size data probes locations =
     (let bench = run_table cfg clock rand (robin_class max_size) data probes;
          locs = hash_locations (at_chunk locations 4) 4
      in run_steps
        [(hashfuncs cfg ''standard'', bench ''robin_standard'' (Some (Some \<circ> std_hash lib))),
         (hashfuncs cfg ''xxh3'', bench ''robin_xxh3'' (Some hash_xxh64_call)),
         (hashfuncs cfg ''xxh3_sub8'', bench ''robin_xxh3_sub82locSub8''
            (locs \<bind> (\<lambda>hl. map_option hash_XXH3_2loc_call (hash_XXH3_2loc_s hl)))),
         (hashfuncs cfg ''mmh2_sub4'', bench ''robin_mmh2_sub4''
            (map_option (\<lambda>hl. hash_sub4_mmh2_call hl (length hl)) locs))])"

text \<open>The number of locations that the table drivers take: more than four words of eight bytes become four.\<close>

definition num_for_chunk_table :: "double \<Rightarrow> (int \<rightharpoonup> double list) \<Rightarrow> int \<Rightarrow> int" where
  "num_for_chunk_table needed entropies k =
     (case entropies k of None \<Rightarrow> 0
      | Some es \<Rightarrow>
          let n = (case first_enough needed es 0 of Some i \<Rightarrow> int i | None \<Rightarrow> int (length es) - 1)
          in if k = 8 \<and> n > 4 then 4 else n)"

definition bench_std_table ::
    "platform \<Rightarrow> table_config \<Rightarrow> clock \<Rightarrow> (string \<Rightarrow> nat \<Rightarrow> nat) \<Rightarrow> bytes list \<Rightarrow> bytes list \<Rightarrow>
     (int \<rightharpoonup> int list) \<Rightarrow> (int \<rightharpoonup> double list) \<Rightarrow> bench_state \<Rightarrow> bench_error + bench_state" where
  "bench_std_table lib cfg clock rand data probes locations entropies =
     (let needed_entropy = sdbl (lib_log2 lib (of_nat (length data)) + 3 / 2);
          num = num_for_chunk_table (Fin needed_entropy) entropies;
          bench = run_table cfg clock rand std_class data probes;
          sub8 = (\<lambda>family. select_sub8 family (dataIsFixedLength cfg) (num 8) (at_chunk locations 8))
      in run_steps
        [(hashfuncs cfg ''standard'', bench ''std_standard'' (Some (Some \<circ> std_hash lib))),
         (hashfuncs cfg ''crc32'', bench ''std_crc32'' (Some CRC32Hash_call)),
         (hashfuncs cfg ''mmh2'', bench ''std_mmh2'' (Some hash_mmh2_call)),
         (hashfuncs cfg ''sdbm'', bench ''std_sdbm'' (Some hash_sdbm_call)),
         (hashfuncs cfg ''xxh3'', bench ''std_xxh3'' (Some hash_xxh64_call)),
         (hashfuncs cfg ''wyhash'', bench ''std_wyhash'' (Some hash_wyhash_call)),
         (hashfuncs cfg ''xxh3_sub8'', bench ''std_xxh3_sub8'' (sub8 xxh3_sub8_block)),
         (hashfuncs cfg ''wyhash_sub8'', bench ''std_wyhash_sub8'' (sub8 wyhash_sub8_block)),
         (hashfuncs cfg ''crc_wyhash_sub8'', bench ''std_crc_wyhash_sub8'' (sub8 crc_sub8_filter)),
         (hashfuncs cfg ''mmh2_sub4'', bench ''std_mm2_sub4''
            (map_option (\<lambda>hl. hash_sub4_mmh2_call hl (length hl)) (hash_locations (at_chunk locations 4) 4)))])"

text \<open>
  The table of sparsehash is told its empty key first: the literal \<open>"\0"\<close> gives the empty string.
\<close>

definition bench_google_table ::
    "platform \<Rightarrow> table_config \<Rightarrow> clock \<Rightarrow> (string \<Rightarrow> nat \<Rightarrow> nat) \<Rightarrow> (hash_functor \<Rightarrow> 't table_ops) \<Rightarrow>
     (bytes \<Rightarrow> 't \<Rightarrow> 't) \<Rightarrow> bytes list \<Rightarrow> bytes list \<Rightarrow> bench_state \<Rightarrow> bench_error + bench_state" where
  "bench_google_table lib cfg clock rand dense_class set_empty_key data probes =
     run_steps [(hashfuncs cfg ''standard'',
       run_table_with (set_empty_key []) cfg clock rand dense_class data probes ''google_standard'' (Some (Some \<circ> std_hash lib)))]"

definition bench_swiss_table ::
    "platform \<Rightarrow> table_config \<Rightarrow> clock \<Rightarrow> (string \<Rightarrow> nat \<Rightarrow> nat) \<Rightarrow> (hash_functor \<Rightarrow> 't table_ops) \<Rightarrow> (bytes \<Rightarrow> u64) \<Rightarrow>
     bytes list \<Rightarrow> bytes list \<Rightarrow> (int \<rightharpoonup> int list) \<Rightarrow> (int \<rightharpoonup> double list) \<Rightarrow> bench_state \<Rightarrow> bench_error + bench_state" where
  "bench_swiss_table lib cfg clock rand flat_class absl_hash data probes locations entropies =
     (let needed_entropy = sdbl (sdbl (lib_log2 lib 5 - 1) + lib_log2 lib (of_nat (length data)));
          num = num_for_chunk_table (Fin needed_entropy) entropies;
          bench = run_table cfg clock rand flat_class data probes;
          sub8 = (\<lambda>family. select_sub8 family (dataIsFixedLength cfg) (num 8) (at_chunk locations 8))
      in run_steps
        [(hashfuncs cfg ''default'', bench ''swiss_default'' (Some (Some \<circ> absl_hash))),
         (hashfuncs cfg ''standard'', bench ''swiss_standard'' (Some (Some \<circ> std_hash lib))),
         (hashfuncs cfg ''crc32'', bench ''swiss_crc32'' (Some CRC32Hash_call)),
         (hashfuncs cfg ''mmh2'', bench ''swiss_mmh2'' (Some hash_mmh2_call)),
         (hashfuncs cfg ''sdbm'', bench ''swiss_sdbm'' (Some hash_sdbm_call)),
         (hashfuncs cfg ''xxh3'', bench ''swiss_xxh3'' (Some hash_xxh64_call)),
         (hashfuncs cfg ''wyhash'', bench ''swiss_wyhash'' (Some hash_wyhash_call)),
         (hashfuncs cfg ''xxh3_sub8'', bench ''swiss_xxh3_sub8'' (sub8 xxh3_sub8_block)),
         (hashfuncs cfg ''wyhash_sub8'', bench ''swiss_wyhash_sub8'' (sub8 wyhash_sub8_block)),
         (hashfuncs cfg ''crc_wyhash_sub8'', bench ''swiss_crc_wyhash_sub8'' (sub8 crc_sub8_filter)),
         (hashfuncs cfg ''wyhash_sub8_hardcode'', bench ''swiss_wyhash_sub8_hardcode'' (Some hash_wyhash_hardcode_call)),
         (hashfuncs cfg ''mmh2_sub4'', bench ''swiss_mm2_sub4''
            (map_option (\<lambda>hl. hash_sub4_mmh2_call hl (length hl)) (hash_locations (at_chunk locations 4) (num 4)))),
         (hashfuncs cfg ''sdbm_sub1'', bench ''swiss_sdbm_sub1''
            (map_option (\<lambda>hl. hash_sub1_sdbm_call hl (length hl)) (hash_locations (at_chunk locations 1) (num 1))))])"

section \<open>The timed loops\<close>

text \<open>A group of lookups adds the values found, and a timed loop those of the probes in full blocks.\<close>

lemma finds_sum:
  assumes "\<forall>x \<in> set p. get x = Some (m x)" "a \<le> b" "b \<le> length p"
  shows "for_opt [a..<b] (\<lambda>j s. nth_opt p j \<bind> get \<bind> (\<lambda>r. Some (s + found_value r))) s =
    Some (s + (\<Sum>x \<leftarrow> take (b - a) (drop a p). found_value (m x)))"
  using assms(2,3)
proof (induction b arbitrary: s rule: dec_induct)
  case (step b)
  have "take (Suc b - a) (drop a p) = take (b - a) (drop a p) @ [p ! b]"
    using step by (simp add: Suc_diff_le take_Suc_conv_app_nth)
  then show ?case using step assms(1) by (simp add: for_opt_append nth_opt_Some upt_Suc_append)
qed simp

lemma add_elapsed_reported [simp]: "reported (add_elapsed clock st) = reported st"
  by (simp add: add_elapsed_def elapsed_def now_def Let_def)

lemma timed_finds_sum:
  assumes "\<forall>x \<in> set p. get x = Some (m x)" "\<forall>x \<in> set p. length x < 2 ^ 64"
  shows "\<exists>dummy st'. reported st' = reported st \<and> timed_finds clock get p s st =
    Some (s + (\<Sum>x \<leftarrow> take (length p div step_size * step_size) p. found_value (m x)), dummy, st')"
proof -
  let ?body = "\<lambda>i (s, dummy, st). do {
       dummy \<leftarrow> dummy_hashing p i dummy;
       s \<leftarrow> for_opt [i * step_size..<(i + 1) * step_size]
              (\<lambda>j s. nth_opt p j \<bind> get \<bind> (\<lambda>r. Some (s + found_value r))) s;
       Some (s, dummy, add_elapsed clock st)
     } :: (int \<times> u64 \<times> bench_state) option"
  have "\<exists>dummy st'. reported st' = reported st \<and>
      for_opt [0..<n] ?body (s, 0, st\<lparr>total_time_without_dummy_hashing := 0\<rparr>) =
        Some (s + (\<Sum>x \<leftarrow> take (n * step_size) p. found_value (m x)), dummy, st')"
    if "n * step_size \<le> length p" for n
    using that
  proof (induction n)
    case (Suc n)
    then obtain d st' where d: "reported st' = reported st"
        "for_opt [0..<n] ?body (s, 0, st\<lparr>total_time_without_dummy_hashing := 0\<rparr>) =
          Some (s + (\<Sum>x \<leftarrow> take (n * step_size) p. found_value (m x)), d, st')"
      by auto
    obtain d' where d': "dummy_hashing p n d = Some d'"
      using dummy_hashing_total [OF assms(2), of n d] Suc.prems by auto
    have t: "take (Suc n * step_size) p = take (n * step_size) p @ take step_size (drop (n * step_size) p)"
      by (metis mult_Suc add.commute take_add)
    have "for_opt [n * step_size..<(n + 1) * step_size]
        (\<lambda>j s. nth_opt p j \<bind> get \<bind> (\<lambda>r. Some (s + found_value r))) u =
      Some (u + (\<Sum>x \<leftarrow> take step_size (drop (n * step_size) p). found_value (m x)))" for u
      using finds_sum [OF assms(1), of "n * step_size" "(n + 1) * step_size" u] Suc.prems by simp
    then show ?case using d d' t by (simp add: for_opt_append add.assoc)
  qed simp
  from this [of "length p div step_size"] show ?thesis by (simp add: timed_finds_def)
qed

text \<open>
  The walks of the latency benchmark end, and read no probe outside the list, when every value found is 0, 1 or 2.
\<close>

definition short_hops :: "(bytes \<Rightarrow> int option option) \<Rightarrow> bytes list \<Rightarrow> bool" where
  "short_hops get p \<longleftrightarrow> (\<forall>x \<in> set p. \<exists>r. get x = Some r \<and> 0 \<le> found_value r \<and> found_value r < 3)"

lemma short_hops_step:
  assumes "short_hops get p" "unat i < length p" "length p + 3 \<le> 2 ^ 32"
  obtains r where "get (p ! unat i) = Some r"
    "unat i < unat (i + word_of_int (found_value r) + 1 :: u32)" "unat (i + word_of_int (found_value r) + 1) < unat i + 4"
proof -
  obtain r where r: "get (p ! unat i) = Some r" "0 \<le> found_value r" "found_value r < 3"
    using assms(1) nth_mem [OF assms(2)] unfolding short_hops_def by blast
  let ?v = "nat (found_value r)"
  have w: "word_of_int (found_value r) = (of_nat ?v :: u32)" using r(2) by simp
  have e: "i + word_of_int (found_value r) + 1 = of_nat (unat i + ?v + 1)" unfolding w by simp
  have "unat i + ?v + 1 < 2 ^ 32" using assms(2,3) r(3) by linarith
  then have "unat (i + word_of_int (found_value r) + 1) = unat i + ?v + 1"
    unfolding e by (intro unat_of_nat_small) simp
  then show ?thesis using r by (intro that [of r]) linarith+
qed

lemma latency_walk_ends:
  assumes "short_hops get p" "length p + 3 \<le> 2 ^ 32" "unat i < length p + 3"
  shows "\<exists>i' s'. latency_walk get p i s = Some (i', s') \<and> length p \<le> unat i' \<and> unat i' < length p + 3"
  using assms(3)
proof (induction "length p - unat i" arbitrary: i s rule: less_induct)
  case less
  show ?case
  proof (cases "unat i < length p")
    case True
    obtain r where r: "get (p ! unat i) = Some r" "unat i < unat (i + word_of_int (found_value r) + 1)"
        "unat (i + word_of_int (found_value r) + 1) < unat i + 4"
      using short_hops_step [OF assms(1) True assms(2)] .
    with less(1) [of "i + word_of_int (found_value r) + 1" "s + found_value r"] True
    show ?thesis by (subst latency_walk.simps) (simp add: nth_opt_Some)
  qed (use less.prems in \<open>simp add: latency_walk.simps\<close>)
qed

lemma latency_block_ends:
  assumes "short_hops get p" "length p + 3 \<le> 2 ^ 32" "limit \<le> length p"
  shows "\<exists>s'. latency_block get p j limit s = Some s'"
proof (induction "limit - unat j" arbitrary: j s rule: less_induct)
  case less
  show ?case
  proof (cases "unat j < limit")
    case True
    then have j: "unat j < length p" using assms(3) by simp
    obtain r where r: "get (p ! unat j) = Some r" "unat j < unat (j + word_of_int (found_value r) + 1)"
      using short_hops_step [OF assms(1) j assms(2)] .
    with less [of "j + word_of_int (found_value r) + 1" "s + found_value r"] True j
    show ?thesis by (subst latency_block.simps) (simp add: nth_opt_Some)
  qed (simp add: latency_block.simps)
qed

lemma latency_warm_up_ends:
  assumes "short_hops get p" "length p + 3 \<le> 2 ^ 32"
  shows "\<exists>s. latency_warm_up get p = Some s"
proof -
  have u: "unat (i - of_nat (length p) :: u32) < length p + 3" if "length p \<le> unat i" "unat i < length p + 3" for i :: u32
  proof -
    have "unat (of_nat (length p) :: u32) = length p" using assms(2) by (intro unat_of_nat_small) simp
    then have "unat (i - of_nat (length p)) = unat i - length p" using that by (simp add: unat_sub word_le_nat_alt)
    then show ?thesis using that by simp
  qed
  obtain i s where 1: "latency_walk get p 0 0 = Some (i, s)" "length p \<le> unat i" "unat i < length p + 3"
    using latency_walk_ends [OF assms, of 0 0] by auto
  obtain i' s' where "latency_walk get p (i - of_nat (length p)) s = Some (i', s')"
    using latency_walk_ends [OF assms u [OF 1(2,3)]] by blast
  with 1 show ?thesis by (simp add: latency_warm_up_def)
qed

lemma timed_walks_ends:
  assumes "short_hops get p" "length p + 3 \<le> 2 ^ 32" "\<forall>x \<in> set p. length x < 2 ^ 64"
  shows "\<exists>s' dummy st'. timed_walks clock get p s st = Some (s', dummy, st')"
proof -
  let ?body = "\<lambda>i (s, dummy, st). do {
         dummy \<leftarrow> dummy_hashing p i dummy;
         s \<leftarrow> latency_block get p (of_nat (i * step_size)) ((i + 1) * step_size) s;
         Some (s, dummy, add_elapsed clock st)
       } :: (int \<times> u64 \<times> bench_state) option"
  have step: "\<exists>x'. ?body i x = Some x'" if i: "i \<in> set [0..<length p div step_size]" for i x
  proof -
    obtain s d st where x: "x = (s, d, st)" by (cases x)
    have "i + 1 \<le> length p div step_size" using i by simp
    then have l: "(i + 1) * step_size \<le> length p" by (metis mult_le_mono1 div_times_less_eq_dividend le_trans)
    obtain d' where "dummy_hashing p i d = Some d'" using dummy_hashing_total [OF assms(3) l] by blast
    moreover obtain s' where "latency_block get p (of_nat (i * step_size)) ((i + 1) * step_size) s = Some s'"
      using latency_block_ends [OF assms(1,2) l] by blast
    ultimately show ?thesis by (simp add: x)
  qed
  have "\<exists>y. for_opt [0..<length p div step_size] ?body x = Some y" for x
    using for_opt_invar [of "\<lambda>_. True" x "[0..<length p div step_size]" ?body "\<lambda>_ _. True"] step by simp
  then have round: "\<exists>y. for_opt [0, 1 :: nat] (\<lambda>r. for_opt [0..<length p div step_size] ?body) x = Some y" for x
    by (metis (no_types, lifting) bind.bind_lunit for_opt.simps)
  obtain y where "timed_walks clock get p s st = Some y"
    using round [of "(s, 0, st\<lparr>total_time_without_dummy_hashing := 0\<rparr>)"] unfolding timed_walks_def by blast
  then show ?thesis by (cases y) simp
qed

text \<open>The table that the throughput benchmark of a driver fills.\<close>

definition build_table :: "table_config \<Rightarrow> 't table_ops \<Rightarrow> bytes list \<Rightarrow> bench_error + 't" where
  "build_table cfg ops data =
     bind_result (table_new ops (length data)) (\<lambda>t.
     bind_result (set_factor cfg ops t) (bench_build (table_assign ops) index_value data 0))"

section \<open>The contract of a table class\<close>

text \<open>
  For every functor, the tables of the class refine finite maps on the keys that the functor hashes; a new table is empty, and the
  maximum load factor does not change what a table holds. A class may throw.
\<close>

locale benchmark_table =
  fixes cls :: "hash_functor \<Rightarrow> 't table_ops"
    and invar :: "hash_functor \<Rightarrow> 't \<Rightarrow> bool"
    and contents :: "'t \<Rightarrow> bytes \<rightharpoonup> int"
    and capacity :: nat
    and throws :: "bench_error \<Rightarrow> bool"
  assumes table: "hash_table (invar hash) contents capacity {k. hash k \<noteq> None} throws
      (table_assign (cls hash)) (table_find (cls hash))"
    and new_ok: "ends_with throws (\<lambda>t. invar hash t \<and> contents t = Map.empty) (table_new (cls hash) n)"
    and load_ok: "invar hash t \<Longrightarrow>
      ends_with throws (\<lambda>t'. invar hash t' \<and> contents t' = contents t) (table_max_load_factor (cls hash) f t)"
begin

lemma set_factor_ok:
  "invar hash t \<Longrightarrow> ends_with throws (\<lambda>t'. invar hash t' \<and> contents t' = contents t) (set_factor cfg (cls hash) t)"
  by (simp add: set_factor_def load_ok)

lemma build_ends:
  assumes "invar hash t" "\<forall>x \<in> set data. hash x \<noteq> None" "card (dom (contents t)) + length data \<le> capacity"
  shows "ends_with throws (\<lambda>t'. invar hash t' \<and>
      contents t' = contents t ++ map_of (rev (zip data (map val [0..<length data]))))
    (bench_build (table_assign (cls hash)) val data 0 t)"
proof -
  have "set data \<subseteq> {k. hash k \<noteq> None}" using assms(2) by auto
  from hash_table.build_ok [OF table assms(1) this assms(3), of val 0] show ?thesis
    unfolding ends_with_def add_0 .
qed

lemma find_eq: "invar hash t \<Longrightarrow> hash x \<noteq> None \<Longrightarrow> table_find (cls hash) x t = Some (contents t x)"
  using hash_table.get_ok [OF table] by simp

text \<open>The value that the data gives a key: that of its last occurrence.\<close>

lemma data_card: "card (dom (map_of (rev (zip data (map val [0..<length data]))))) \<le> length data"
  using card_length [of "map fst (rev (zip data (map val [0..<length data])))"] by (simp add: dom_map_of_conv_image_fst)

text \<open>The throughput benchmark reports the sum of the values of all probes and of those in full blocks.\<close>

lemma throughput_run:
  assumes "set_factor cfg (cls hash) t = Inr t1" "bench_build (table_assign (cls hash)) index_value data 0 t1 = Inr t2"
    "invar hash t2" "\<forall>x \<in> set probes. hash x \<noteq> None" "\<forall>x \<in> set probes. length x < 2 ^ 64"
  shows "\<exists>st'. bench_hashtable_throughput cfg clock (cls hash) name data probes t st = Inr (t2, st') \<and>
    reported st' = reported st @ [(''hash_table_throughput'', name,
      (\<Sum>x \<leftarrow> probes @ take (length probes div step_size * step_size) probes. found_value (contents t2 x)))]"
proof -
  have f: "\<forall>x \<in> set probes. table_find (cls hash) x t2 = Some (contents t2 x)"
    using assms(3,4) find_eq by blast
  have w: "bench_probe (table_find (cls hash)) t2 probes 0 = Some (\<Sum>x \<leftarrow> probes. found_value (contents t2 x))"
    using hash_table.probe_ok [OF table, of hash t2 probes 0] assms(3,4) by (auto simp: found_value_def)
  let ?func = "\<lambda>st. bind_result (defined (timed_finds clock (\<lambda>x. table_find (cls hash) x t2) probes
      (\<Sum>x \<leftarrow> probes. found_value (contents t2 x)) st)) (\<lambda>(s, dummy, st). Inr (s, st))"
  obtain d st0 where b: "build_time clock st = (d, st0)" "reported st0 = reported st"
    by (simp add: build_time_def now_def Let_def)
  let ?st = "add_timing ''hash_table_build'' name d st0"
  have r: "reported ?st = reported st" using b by (simp add: add_timing_def set_timing_def)
  obtain dummy st1 where "reported st1 = reported st"
      "?func (snd (now clock ?st)) = Inr ((\<Sum>x \<leftarrow> probes. found_value (contents t2 x)) +
        (\<Sum>x \<leftarrow> take (length probes div step_size * step_size) probes. found_value (contents t2 x)), st1)"
    using timed_finds_sum [OF f assms(5), of "snd (now clock ?st)" clock "\<Sum>x \<leftarrow> probes. found_value (contents t2 x)"] r
    by (auto simp: now_def)
  from benchmark_Inr [of ?func clock ?st, OF this(2)] this(1) obtain st' where
      "benchmark clock name ''hash_table_throughput'' ?func ?st = Inr st'"
      "reported st' = reported st @ [(''hash_table_throughput'', name, (\<Sum>x \<leftarrow> probes @
        take (length probes div step_size * step_size) probes. found_value (contents t2 x)))]"
    by auto
  then show ?thesis by (simp add: bench_hashtable_throughput_def assms(1,2) b(1) w)
qed

lemma built_ends:
  assumes "invar hash t" "\<forall>x \<in> set data. hash x \<noteq> None" "card (dom (contents t)) + length data \<le> capacity"
  shows "ends_with throws (\<lambda>t'. invar hash t' \<and>
      contents t' = contents t ++ map_of (rev (zip data (map val [0..<length data]))))
    (bind_result (set_factor cfg (cls hash) t) (bench_build (table_assign (cls hash)) val data 0))"
proof (rule ends_with_bind [OF set_factor_ok [OF assms(1)]])
  fix t1
  assume "invar hash t1 \<and> contents t1 = contents t"
  then show "ends_with throws (\<lambda>t'. invar hash t' \<and> contents t' = contents t ++ map_of (rev (zip data (map val [0..<length data]))))
      (bench_build (table_assign (cls hash)) val data 0 t1)"
    using build_ends [of hash t1 data val] assms(2,3) by simp
qed

lemma throughput_ends:
  assumes "invar hash t" "\<forall>x \<in> set data \<union> set probes. hash x \<noteq> None"
    "card (dom (contents t)) + length data \<le> capacity" "\<forall>x \<in> set probes. length x < 2 ^ 64"
  shows "ends_with throws (\<lambda>_. True) (bench_hashtable_throughput cfg clock (cls hash) name data probes t st)"
proof (cases "bind_result (set_factor cfg (cls hash) t) (bench_build (table_assign (cls hash)) index_value data 0)")
  case (Inl e)
  then have "bench_hashtable_throughput cfg clock (cls hash) name data probes t st = Inl e"
    by (auto simp: bench_hashtable_throughput_def bind_result_def split: sum.splits)
  then show ?thesis using built_ends [of hash t data index_value cfg] Inl assms(1-3) by simp
next
  case (Inr t2)
  then obtain t1 where "set_factor cfg (cls hash) t = Inr t1" "bench_build (table_assign (cls hash)) index_value data 0 t1 = Inr t2"
    by (auto simp: bind_result_def split: sum.splits)
  moreover have "invar hash t2" using built_ends [of hash t data index_value cfg] Inr assms(1-3) by simp
  ultimately show ?thesis using throughput_run [of cfg hash t t1 data t2 probes clock name st] assms(2,4) by auto
qed

text \<open>The latency benchmark of an empty table ends.\<close>

lemma latency_ends:
  assumes "invar hash t" "contents t = Map.empty" "\<forall>x \<in> set data \<union> set probes. hash x \<noteq> None"
    "length data \<le> capacity" "\<forall>x \<in> set probes. length x < 2 ^ 64" "length probes + 3 \<le> 2 ^ 32"
  shows "ends_with throws (\<lambda>(t', st'). invar hash t' \<and> card (dom (contents t')) \<le> length data)
    (bench_hashtable_latency cfg clock rand (cls hash) name data probes t st)"
  unfolding bench_hashtable_latency_def
proof (rule ends_with_bind [OF set_factor_ok [OF assms(1)]], rule ends_with_bind [OF build_ends])
  fix t1 t2
  assume t1: "invar hash t1 \<and> contents t1 = contents t"
  then show "invar hash t1" "card (dom (contents t1)) + length data \<le> capacity"
    using assms(2,4) by simp_all
  show "\<forall>x \<in> set data. hash x \<noteq> None" using assms(3) by blast
  assume t2: "invar hash t2 \<and> contents t2 = contents t1 ++ map_of (rev (zip data (map (random_value rand) [0..<length data])))"
  have c: "contents t2 = map_of (rev (zip data (map (random_value rand) [0..<length data])))"
    using t1 t2 assms(2) by simp
  have "0 \<le> found_value (contents t2 x) \<and> found_value (contents t2 x) < 3" for x
  proof (cases "contents t2 x")
    case (Some v)
    then have "v \<in> set (map (random_value rand) [0..<length data])"
      unfolding c by (auto dest!: map_of_SomeD simp: set_zip)
    then show ?thesis using Some random_value_bounds by (auto simp: found_value_def)
  qed (simp add: found_value_def)
  then have h: "short_hops (\<lambda>x. table_find (cls hash) x t2) probes"
    using find_eq [of hash t2] t2 assms(3) by (simp add: short_hops_def)
  obtain s where s: "latency_warm_up (\<lambda>x. table_find (cls hash) x t2) probes = Some s"
    using latency_warm_up_ends [OF h assms(6)] by blast
  have "ends_with throws (\<lambda>_. True) (bind_result (defined (timed_walks clock (\<lambda>x. table_find (cls hash) x t2) probes s st))
      (\<lambda>(s, dummy, st). Inr (s, st)))" for st
    using timed_walks_ends [OF h assms(6,5), of clock s st] by auto
  note walks = benchmark_ends [OF this]
  obtain d st0 where b: "build_time clock st = (d, st0)" by (cases "build_time clock st")
  have i: "invar hash t2 \<and> card (dom (contents t2)) \<le> length data"
    using t2 data_card [of data "random_value rand"] c by simp
  show "ends_with throws (\<lambda>(t', st'). invar hash t' \<and> card (dom (contents t')) \<le> length data)
    (let (duration, st) = build_time clock st; st = set_timing ''hash_table_build'' name duration st in
     bind_result (defined (latency_warm_up (\<lambda>x. table_find (cls hash) x t2) probes)) (\<lambda>s.
     bind_result (benchmark clock name ''hash_table_latency''
         (\<lambda>st. bind_result (defined (timed_walks clock (\<lambda>x. table_find (cls hash) x t2) probes s st))
                 (\<lambda>(s, dummy, st). Inr (s, st))) st) (\<lambda>st. Inr (t2, st))))"
    unfolding b Let_def prod.case s defined_simps bind_result_simps
    by (rule ends_with_bind [OF walks]) (simp add: i)
qed

lemma run_table_ends:
  assumes "\<forall>x \<in> set data \<union> set probes. length x < 2 ^ 64 \<and> (\<exists>v. hash x = Some v)"
    "2 * length data \<le> capacity" "length probes + 3 \<le> 2 ^ 32"
  shows "ends_with throws (\<lambda>_. True) (run_table cfg clock rand cls data probes name (Some hash) st)"
proof -
  have h: "\<forall>x \<in> set data \<union> set probes. hash x \<noteq> None" "\<forall>x \<in> set probes. length x < 2 ^ 64"
    using assms(1) by auto
  have l: "ends_with throws (\<lambda>(t, st). invar hash t \<and> card (dom (contents t)) \<le> length data)
    (if table_metrics cfg ''latency'' then bench_hashtable_latency cfg clock (rand name) (cls hash) name data probes t st
     else Inr (t, st))" if "invar hash t \<and> contents t = Map.empty" for t
    using latency_ends [OF _ _ h(1) _ h(2) assms(3)] that assms(2) by simp
  have "ends_with throws (\<lambda>_. True) (bench_hashtable cfg clock (rand name) (cls hash) name data probes t st)"
    if t: "invar hash t \<and> contents t = Map.empty" for t
    unfolding bench_hashtable_def
  proof (rule ends_with_bind [OF l [OF t]], clarify)
    fix u su
    assume "invar hash u" "card (dom (contents u)) \<le> length data"
    with throughput_ends [OF this(1) h(1) _ h(2), where cfg = cfg and clock = clock and name = name and st = su] assms(2)
    show "ends_with throws (\<lambda>_. True) (if table_metrics cfg ''throughput''
      then bench_hashtable_throughput cfg clock (cls hash) name data probes u su else Inr (u, su))"
      by (auto elim!: ends_with_mono)
  qed
  then show ?thesis unfolding run_table_def run_table_with_def
    by (auto intro!: ends_with_bind [OF new_ok] ends_with_bind [where P = "\<lambda>_. True"])
qed

text \<open>The throughput benchmark of a driver, measuring nothing else: it fails only where the table cannot be built.\<close>

lemma run_table_exact:
  assumes "\<forall>x \<in> set data \<union> set probes. length x < 2 ^ 64 \<and> (\<exists>v. hash x = Some v)" "length data \<le> capacity"
    "length data \<le> 2 ^ 31" "table_metrics cfg ''throughput''" "\<not> table_metrics cfg ''latency''"
  shows "case build_table cfg (cls hash) data of
      Inl e \<Rightarrow> throws e \<and> run_table cfg clock rand cls data probes name (Some hash) st = Inl e
    | Inr t \<Rightarrow> \<exists>st'. run_table cfg clock rand cls data probes name (Some hash) st = Inr st' \<and>
        reported st' = reported st @ [(''hash_table_throughput'', name,
          (\<Sum>x \<leftarrow> probes @ take (length probes div step_size * step_size) probes.
            found_value (map_of (rev (zip data (map int [0..<length data]))) x)))]"
proof -
  have h: "\<forall>x \<in> set data. hash x \<noteq> None" "\<forall>x \<in> set probes. hash x \<noteq> None" "\<forall>x \<in> set probes. length x < 2 ^ 64"
    using assms(1) by auto
  have b: "ends_with throws (\<lambda>t. invar hash t \<and> contents t = map_of (rev (zip data (map int [0..<length data]))))
      (build_table cfg (cls hash) data)"
    unfolding build_table_def
  proof (rule ends_with_bind [OF new_ok])
    fix t
    assume t: "invar hash t \<and> contents t = Map.empty"
    with built_ends [of hash t data index_value cfg] h(1) assms(2) index_values [OF assms(3)]
    show "ends_with throws (\<lambda>t. invar hash t \<and> contents t = map_of (rev (zip data (map int [0..<length data]))))
      (bind_result (set_factor cfg (cls hash) t) (bench_build (table_assign (cls hash)) index_value data 0))" by simp
  qed
  show ?thesis
  proof (cases "build_table cfg (cls hash) data")
    case (Inl e)
    then have "run_table cfg clock rand cls data probes name (Some hash) st = Inl e"
      using assms(4,5) by (auto simp: run_table_def run_table_with_def bench_hashtable_def bench_hashtable_throughput_def
          build_table_def bind_result_def split: sum.splits)
    then show ?thesis using Inl b by simp
  next
    case (Inr t)
    then obtain t0 t1 where t: "table_new (cls hash) (length data) = Inr t0" "set_factor cfg (cls hash) t0 = Inr t1"
        "bench_build (table_assign (cls hash)) index_value data 0 t1 = Inr t"
      by (auto simp: build_table_def bind_result_def split: sum.splits)
    have c: "invar hash t" "contents t = map_of (rev (zip data (map int [0..<length data])))" using b Inr by simp_all
    show ?thesis
      using throughput_run [OF t(2,3) c(1) h(2,3), of clock name st] assms(4,5)
      by (auto simp: run_table_def run_table_with_def bench_hashtable_def t(1) Inr c(2))
  qed
qed

end

lemma robin_hash_new_Inl: "robin_hash_new cfg c min_lf max_lf = Inl e \<Longrightarrow> e = Length_Exceeded"
  by (auto simp: robin_hash_new_def pow2_new_def Let_def split: if_splits sum.splits)

interpretation std: benchmark_table std_class "\<lambda>_. \<lambda>m. finite (dom m)" id capacity "\<lambda>_. False" for capacity
  by unfold_locales (auto simp: std_class_def simp del: fun_upd_apply)

interpretation robin_bench: benchmark_table "robin_class max_size" "\<lambda>hash. table_ok (robin_config max_size hash)" rh_map 32767
  "\<lambda>e. e = Uncaught" for max_size
proof (unfold_locales, goal_cases)
  case (1 hash t k v t')
  then show ?case using robin.put_ok [of "robin_config max_size hash" t k v t']
    by (cases "index_assign (robin_config max_size hash) 0 k v t") (auto simp: robin_class_def from_robin_def Let_def)
next
  case (2 hash t k v e)
  then show ?case using robin.put_error [of "robin_config max_size hash" t k v]
    by (cases "index_assign (robin_config max_size hash) 0 k v t") (auto simp: robin_class_def from_robin_def Let_def)
next
  case (3 hash t k)
  then show ?case using robin.get_ok [of "robin_config max_size hash" t k] by (auto simp: robin_class_def Let_def)
next
  case (4 hash t)
  then show ?case using robin.finite_map by blast
next
  case (5 hash n)
  show ?case
  proof (cases "robin_hash_new (robin_config max_size hash) (of_nat n) 0 (1 / 2) :: rh_error + (bytes, int) robin_hash")
    case (Inl e)
    then show ?thesis using robin_hash_new_Inl [OF Inl] by (simp add: robin_class_def from_robin_def Let_def)
  next
    case (Inr t)
    then show ?thesis using robin_hash_new_Inr(1,2) [OF Inr] by (simp add: robin_class_def from_robin_def Let_def)
  qed
next
  case (6 hash t f)
  then show ?case using set_max_load_factor_ok [of "robin_config max_size hash" t f] by (simp add: robin_class_def Let_def)
qed

section \<open>The hash functions of the drivers\<close>

lemma hash_mmh2_total: "length s < 2 ^ 31 \<Longrightarrow> \<exists>h. hash_mmh2_call s = Some h"
  using orig_murmurhash2_total [of "int (length s)" "str_data s" 0] by (auto simp: hash_mmh2_eq str_data_def)

lemma hash_sdbm_total: "length s < 2 ^ 31 \<Longrightarrow> \<exists>h. hash_sdbm_call s = Some h"
  by (simp add: hash_sdbm_call_def)

text \<open>Four locations of words of four bytes, sorted.\<close>

lemma hash_sub4_total:
  assumes "4 \<le> length locs" "\<forall>l \<in> set locs. 0 \<le> l \<and> l < 2 ^ 31"
  shows "\<exists>hl. hash_locations locs 4 = Some hl \<and>
    (\<forall>s. length s < 2 ^ 64 \<longrightarrow> (\<exists>h. hash_sub4_mmh2_call hl (length hl) s = Some h))"
proof -
  have hl: "hash_locations locs 4 = Some (sort (take 4 locs))" using assms(1) by (auto simp: hash_locations_def)
  have "hash_sub4_mmh2_cust s (sort (take 4 locs)) 4 = Some (sub4_spec s (take 4 (sort (take 4 locs))))"
    if "length s < 2 ^ 64" for s
    using assms that by (intro sub4_cust_eq) (auto dest: in_set_takeD)
  then show ?thesis using hl assms(1) by (simp add: hash_sub4_mmh2_call_def)
qed

text \<open>With at least two estimates the drivers take one to four locations.\<close>

lemma num_for_chunk_table_bounds:
  assumes "entropies 8 = Some es" "2 \<le> length es"
  shows "1 \<le> num_for_chunk_table needed entropies 8" "num_for_chunk_table needed entropies 8 \<le> 4"
    "num_for_chunk_table needed entropies 8 \<le> int (length es)"
  using assms first_enough_bounds [of needed es 0]
  by (auto simp: num_for_chunk_table_def Let_def split: option.splits)

lemma sub8_block_eq:
  assumes "1 \<le> n" "n \<le> 4"
  shows "xxh3_sub8_block b n = xxh3_sub8 b n" "wyhash_sub8_block b n = wyhash_sub8 b n" "crc_sub8_filter b n = crc_sub8 b n"
proof -
  have "n = 1 \<or> n = 2 \<or> n = 3 \<or> n = 4" using assms by linarith
  then show "xxh3_sub8_block b n = xxh3_sub8 b n" "wyhash_sub8_block b n = wyhash_sub8 b n" "crc_sub8_filter b n = crc_sub8 b n"
    by (auto simp: fun_eq_iff xxh3_sub8_block_def xxh3_sub8_def wyhash_sub8_block_def wyhash_sub8_def
        crc_sub8_filter_def crc_sub8_def)
qed

lemma select_sub8_table_ok:
  assumes "entropies 8 = Some es" "2 \<le> length es" "length es \<le> length locs" "usable_locs locs"
    "family \<in> {xxh3_sub8_block, wyhash_sub8_block, crc_sub8_filter}"
  shows "\<exists>f. select_sub8 family fixedLength (num_for_chunk_table needed entropies 8) locs = Some f \<and>
    (\<forall>s. length s < 2 ^ 64 \<longrightarrow> (fixedLength \<longrightarrow> long_for locs s) \<longrightarrow> (\<exists>h. f s = Some h))"
proof -
  let ?n = "num_for_chunk_table needed entropies 8"
  note b = num_for_chunk_table_bounds [of entropies es needed, OF assms(1,2)]
  have "nat ?n \<le> length locs" using b(3) assms(3) by linarith
  moreover have "locs \<noteq> []" using assms(2,3) by auto
  ultimately obtain hl where hl: "hash_locations locs ?n = Some hl" "set hl \<subseteq> set locs"
    using b(1) by (auto simp: hash_locations_def dest: in_set_takeD)
  have "functor_ok fixedLength hl (family fixedLength ?n hl)"
    using sub8_ok [OF assms(4) hl(1), of fixedLength] sub8_block_eq [OF b(1,2)] assms(5) by auto
  moreover have "long_for hl x" if "long_for locs x" for x using that hl(2) by (auto simp: long_for_def)
  ultimately show ?thesis unfolding select_sub8_def hl(1) by (auto simp: functor_ok_def)
qed

definition hashes_all :: "bytes set \<Rightarrow> hash_functor \<Rightarrow> bool" where
  "hashes_all keys hash \<longleftrightarrow> (\<forall>x \<in> keys. length x < 2 ^ 64 \<and> (\<exists>v. hash x = Some v))"

lemma whole_key_functors:
  assumes "\<forall>x \<in> keys. length x < 2 ^ 31"
  shows "hashes_all keys (Some \<circ> std_hash lib)" "hashes_all keys (Some \<circ> absl_hash)" "hashes_all keys CRC32Hash_call"
    "hashes_all keys hash_mmh2_call" "hashes_all keys hash_sdbm_call" "hashes_all keys hash_xxh64_call"
    "hashes_all keys hash_wyhash_call"
proof -
  have l: "length x < 2 ^ 64" if "x \<in> keys" for x using bspec [OF assms that] by simp
  show "hashes_all keys (Some \<circ> std_hash lib)" "hashes_all keys (Some \<circ> absl_hash)" "hashes_all keys CRC32Hash_call"
    "hashes_all keys hash_mmh2_call" "hashes_all keys hash_sdbm_call" "hashes_all keys hash_xxh64_call"
    "hashes_all keys hash_wyhash_call"
    unfolding hashes_all_def
    using assms l CRC32Hash_total hash_mmh2_total hash_sdbm_total hash_xxh64_total hash_wyhash_total by simp_all
qed

lemma table_functors:
  assumes "\<forall>x \<in> keys. length x < 2 ^ 31 \<and> (fixedLength \<longrightarrow> long_for locs x)"
    "entropies 8 = Some es" "2 \<le> length es" "length es \<le> length locs" "usable_locs locs"
  obtains hx hw hc where
    "select_sub8 xxh3_sub8_block fixedLength (num_for_chunk_table needed entropies 8) locs = Some hx"
    "select_sub8 wyhash_sub8_block fixedLength (num_for_chunk_table needed entropies 8) locs = Some hw"
    "select_sub8 crc_sub8_filter fixedLength (num_for_chunk_table needed entropies 8) locs = Some hc"
    "hashes_all keys hx" "hashes_all keys hw" "hashes_all keys hc"
proof -
  have k: "length x < 2 ^ 64 \<and> (fixedLength \<longrightarrow> long_for locs x)" if "x \<in> keys" for x
    using bspec [OF assms(1) that] by simp
  have "\<exists>hash. select_sub8 family fixedLength (num_for_chunk_table needed entropies 8) locs = Some hash \<and> hashes_all keys hash"
    if "family \<in> {xxh3_sub8_block, wyhash_sub8_block, crc_sub8_filter}" for family
    using select_sub8_table_ok [where entropies = entropies, OF assms(2-5) that, of fixedLength needed] k unfolding hashes_all_def by blast
  from this [of xxh3_sub8_block] this [of wyhash_sub8_block] this [of crc_sub8_filter] that show ?thesis by blast
qed

text \<open>Without enough entropy in a single location the drivers take none, and make the functor of four.\<close>

lemma select_sub8_table_none:
  assumes "entropies 8 = Some [e]" "\<not> needed < e" "family \<in> {xxh3_sub8_block, wyhash_sub8_block, crc_sub8_filter}"
  shows "select_sub8 family fixedLength (num_for_chunk_table needed entropies 8) locs = None"
proof -
  have "num_for_chunk_table needed entropies 8 = 0" using assms(1,2) by (simp add: num_for_chunk_table_def)
  then show ?thesis using assms(3)
    by (auto simp: select_sub8_def hash_locations_def xxh3_sub8_block_def wyhash_sub8_block_def crc_sub8_filter_def
        functor_defs cached_locations_def scaled_locations_def)
qed

section \<open>Properties of the table benchmarks\<close>

text \<open>
  C8. The throughput benchmark on a Robin Hood map reports an exact sum: for at most 32767 keys, when latency is not measured, for every functor that hashes the keys and every
  load factor, when the table can be built without an exception, the benchmark ends and reports, for
  the probes and once more for those in full blocks of 100, the index of the last occurrence of the probe in the data,
  and nothing for a probe that is not in the data; it fails only by that exception.
\<close>

theorem robin_throughput_exact:
  assumes "table_metrics cfg ''throughput''" "\<not> table_metrics cfg ''latency''" "length data \<le> 32767"
    "\<forall>x \<in> set data \<union> set probes. length x < 2 ^ 64 \<and> (\<exists>v. hash x = Some v)"
  shows "case build_table cfg (robin_class max_size hash) data of
      Inl e \<Rightarrow> e = Uncaught \<and> run_table cfg clock rand (robin_class max_size) data probes name (Some hash) st = Inl e
    | Inr t \<Rightarrow> \<exists>st'. run_table cfg clock rand (robin_class max_size) data probes name (Some hash) st = Inr st' \<and>
        reported st' = reported st @ [(''hash_table_throughput'', name,
          (\<Sum>x \<leftarrow> probes @ take (length probes div step_size * step_size) probes.
            found_value (map_of (rev (zip data (map int [0..<length data]))) x)))]"
proof -
  have "length data \<le> 2 ^ 31" using assms(3) by simp
  from robin_bench.run_table_exact [OF assms(4,3) this assms(1,2)] show ?thesis .
qed

lemma bench_std_table_ends:
  assumes "\<forall>x \<in> set data \<union> set probes. length x < 2 ^ 31 \<and> (dataIsFixedLength cfg \<longrightarrow> long_for (at_chunk locations 8) x)"
    "entropies 8 = Some es" "2 \<le> length es" "length es \<le> length (at_chunk locations 8)" "usable_locs (at_chunk locations 8)"
    "4 \<le> length (at_chunk locations 4)" "\<forall>l \<in> set (at_chunk locations 4). 0 \<le> l \<and> l < 2 ^ 31"
    "length data < 2 ^ 32" "length probes + 3 \<le> 2 ^ 32"
  shows "\<exists>st'. bench_std_table lib cfg clock rand data probes locations entropies st = Inr st'"
proof -
  define needed where "needed = sdbl (lib_log2 lib (of_nat (length data)) + 3 / 2)"
  let ?good = "hashes_all (set data \<union> set probes)"
  obtain hx hw hc where sel:
    "select_sub8 xxh3_sub8_block (dataIsFixedLength cfg) (num_for_chunk_table (Fin needed) entropies 8) (at_chunk locations 8) = Some hx"
    "select_sub8 wyhash_sub8_block (dataIsFixedLength cfg) (num_for_chunk_table (Fin needed) entropies 8) (at_chunk locations 8) = Some hw"
    "select_sub8 crc_sub8_filter (dataIsFixedLength cfg) (num_for_chunk_table (Fin needed) entropies 8) (at_chunk locations 8) = Some hc"
    "?good hx" "?good hw" "?good hc"
    using table_functors [where entropies = entropies, OF assms(1-5)] .
  have k: "\<forall>x \<in> set data \<union> set probes. length x < 2 ^ 31" using assms(1) by blast
  note whole = whole_key_functors [OF k]
  obtain hl where hl: "hash_locations (at_chunk locations 4) 4 = Some hl" "?good (hash_sub4_mmh2_call hl (length hl))"
    using hash_sub4_total [OF assms(6,7)] whole(3) unfolding hashes_all_def by blast
  have "ends_with (\<lambda>_. False) (\<lambda>_. True) (run_table cfg clock rand std_class data probes name (Some hash) st)"
    if "?good hash" for name hash st
    using that std.run_table_ends [of data probes hash "2 * length data"] assms(9) unfolding hashes_all_def by simp
  then have "ends_with (\<lambda>_. False) (\<lambda>_. True) (bench_std_table lib cfg clock rand data probes locations entropies st)"
    unfolding bench_std_table_def Let_def needed_def [symmetric] sel(1-3) hl(1) option.map
    using whole sel(4-6) hl(2) by (intro run_steps_ends) auto
  then show ?thesis by (auto simp: ends_with_def split: sum.splits)
qed

text \<open>
  C10. The benchmarks of \<open>std::unordered_map\<close> end, those of latency too: with at least two estimates, distinct estimated
  locations of eight-byte words, at least four nonnegative ones of four-byte words, and keys that fit (and have all the locations when the data is of fixed length), all ten hash functions, whichever are requested, are made and
  called without undefined behaviour, and the walks of the latency benchmark, whose steps depend on the values found,
  reach their end.
\<close>

theorem bench_std_table_returns:
  assumes "\<forall>x \<in> set data \<union> set probes. length x < 2 ^ 31 \<and> (dataIsFixedLength cfg \<longrightarrow> long_for (at_chunk locations 8) x)"
    "entropies 8 = Some es" "2 \<le> length es" "length es \<le> length (at_chunk locations 8)" "usable_locs (at_chunk locations 8)"
    "4 \<le> length (at_chunk locations 4)" "\<forall>l \<in> set (at_chunk locations 4). 0 \<le> l \<and> l < 2 ^ 31"
    "length data < 2 ^ 32" "length probes + 3 \<le> 2 ^ 32"
  shows "\<exists>st'. bench_std_table lib cfg clock rand data probes locations entropies st = Inr st'"
  using assms by (rule bench_std_table_ends)

text \<open>
  The same holds of the driver of the Abseil tables, for every class of tables that keeps the contract of the
  benchmarks: it ends normally or with an exception that the class may throw.
\<close>

theorem bench_swiss_table_safe:
  assumes "benchmark_table flat_class invar contents capacity throws" "2 * length data \<le> capacity"
    "\<forall>x \<in> set data \<union> set probes. length x < 2 ^ 31 \<and> (dataIsFixedLength cfg \<longrightarrow> long_for (at_chunk locations 8) x)"
    "entropies 8 = Some es" "2 \<le> length es" "length es \<le> length (at_chunk locations 8)" "usable_locs (at_chunk locations 8)"
    "length data < 2 ^ 32" "length probes + 3 \<le> 2 ^ 32"
    "\<not> hashfuncs cfg ''wyhash_sub8_hardcode''" "\<not> hashfuncs cfg ''mmh2_sub4''" "\<not> hashfuncs cfg ''sdbm_sub1''"
  shows "case bench_swiss_table lib cfg clock rand flat_class absl_hash data probes locations entropies st of
      Inl e \<Rightarrow> throws e | Inr st' \<Rightarrow> True"
proof -
  define needed where "needed = sdbl (sdbl (lib_log2 lib 5 - 1) + lib_log2 lib (of_nat (length data)))"
  let ?good = "hashes_all (set data \<union> set probes)"
  obtain hx hw hc where sel:
    "select_sub8 xxh3_sub8_block (dataIsFixedLength cfg) (num_for_chunk_table (Fin needed) entropies 8) (at_chunk locations 8) = Some hx"
    "select_sub8 wyhash_sub8_block (dataIsFixedLength cfg) (num_for_chunk_table (Fin needed) entropies 8) (at_chunk locations 8) = Some hw"
    "select_sub8 crc_sub8_filter (dataIsFixedLength cfg) (num_for_chunk_table (Fin needed) entropies 8) (at_chunk locations 8) = Some hc"
    "?good hx" "?good hw" "?good hc"
    using table_functors [where entropies = entropies, OF assms(3-7)] .
  have k: "\<forall>x \<in> set data \<union> set probes. length x < 2 ^ 31" using assms(3) by blast
  have "ends_with throws (\<lambda>_. True) (run_table cfg clock rand flat_class data probes name (Some hash) st)"
    if "?good hash" for name hash st
    using that benchmark_table.run_table_ends [OF assms(1), of data probes hash] assms(2,9) unfolding hashes_all_def by simp
  then have "ends_with throws (\<lambda>_. True)
      (bench_swiss_table lib cfg clock rand flat_class absl_hash data probes locations entropies st)"
    unfolding bench_swiss_table_def Let_def needed_def [symmetric] sel(1-3)
    using whole_key_functors [OF k] sel(4-6) assms(10-12) by (intro run_steps_ends) auto
  then show ?thesis by (simp add: ends_with_def)
qed

text \<open>
  C36. A single estimated location without enough entropy makes the table drivers take no location at all, but still construct the functor of
  four locations from the empty vector: the benchmark of each of the three learned hashes is undefined.
\<close>

theorem bench_std_table_undefined:
  assumes "entropies 8 = Some [e]" "\<not> Fin (sdbl (lib_log2 lib (of_nat (length data)) + 3 / 2)) < e"
    "learned \<in> {''xxh3_sub8'', ''wyhash_sub8'', ''crc_wyhash_sub8''}" "hashfuncs cfg = (\<lambda>f. f = learned)"
  shows "bench_std_table lib cfg clock rand data probes locations entropies st = Inl Undefined"
proof -
  have r: "run_table cfg clock rand std_class data probes name None t = Inl Undefined" for name t
    by (simp add: run_table_def run_table_with_def)
  have n: "select_sub8 family fixedLength (num_for_chunk_table (Fin (sdbl (lib_log2 lib (of_nat (length data)) + 3 / 2))) entropies 8) locs = None"
    if "family \<in> {xxh3_sub8_block, wyhash_sub8_block, crc_sub8_filter}" for family fixedLength locs
    using select_sub8_table_none [where entropies = entropies, OF assms(1,2) that] .
  show ?thesis
    unfolding bench_std_table_def Let_def n [of xxh3_sub8_block, simplified] n [of wyhash_sub8_block, simplified]
      n [of crc_sub8_filter, simplified] assms(4)
    using assms(3) by (elim insertE emptyE) (simp_all add: r)
qed

section \<open>Witnesses\<close>

definition table_example_config :: table_config where
  "table_example_config = \<lparr>hashfuncs = (\<lambda>f. f \<in> {''standard'', ''wyhash_sub8'', ''mmh2_sub4''}),
     table_metrics = (\<lambda>_. True), dataIsFixedLength = False, bits_per_element = 8, bits_per_element_rb = 24,
     added_fpr = 1 / 100, set_load_factor = True, cfg_load_factor = 3 / 4\<rparr>"

definition table_example_lib :: platform where
  "table_example_lib = \<lparr>std_hash = (\<lambda>x. of_nat (length x)), lib_log2 = (\<lambda>x. x), lib_ln2 = 3 / 4,
     lib_pow = (\<lambda>_ _. 1), lib_sqrt = (\<lambda>x. x), fprGivenK512 = (\<lambda>_ _. 1), fprGivenK64 = (\<lambda>_ _. 1)\<rparr>"

definition example_state :: bench_state where
  "example_state = \<lparr>clock_reads = 0, total_time_without_dummy_hashing = 0, total_time_without_dummy_hashing_filter = 0, total_time_without_dummy_hashing_partition = 0,
     timings = (\<lambda>_. Map.empty), reported = []\<rparr>"

text \<open>
  Four keys, three of them equal, fit a table of four buckets; a hundred probes, sixty of which find the last
  index of their key, 3, in both loops.
\<close>

abbreviation example_hash :: hash_functor where
  "example_hash \<equiv> \<lambda>x. Some (of_nat (length x))"

definition throughput_config :: table_config where
  "throughput_config = table_example_config\<lparr>table_metrics := (\<lambda>m. m = ''throughput''), set_load_factor := False\<rparr>"

definition example_robin :: "(bytes, int) robin_hash" where
  "example_robin = \<lparr>m_mask = 3, m_buckets_data = new_buckets 4, m_bucket_count = 4, m_nb_elements = 0, m_load_threshold = 2,
     m_min_load_factor = 0, m_max_load_factor = 1 / 2, m_grow_on_next_insert = False, m_try_shrink_on_next_insert = False\<rparr>"

lemma example_robin_new: "table_new (robin_class 100 example_hash) 4 = Inr example_robin"
proof -
  have c1: "clamp (1 / 2) (flt (2 / 10)) (flt (95 / 100)) = 1 / 2"
    using demo_factors by (simp add: clamp_def max_def min_def)
  have c2: "clamp 0 0 (flt (15 / 100)) = 0" by (simp add: clamp_def min_absorb2)
  have "robin_hash_new (robin_config 100 example_hash) 4 0 (1 / 2) = Inr example_robin"
    unfolding robin_hash_new_def set_max_load_factor_def set_min_load_factor_def c1 c2
    by (simp add: max_bucket_count_def unat_pow2_max demo_policy robin_config_def demo_flt example_robin_def)
  then show ?thesis by (simp add: robin_class_def Let_def from_robin_def)
qed

lemma example_robin_built:
  "\<exists>t. build_table throughput_config (robin_class 100 example_hash) [[1], [2, 3], [1], [1]] = Inr t"
proof -
  have "case bench_build (table_assign (robin_class 100 example_hash)) index_value [[1], [2, 3], [1], [1]] 0 example_robin of
      Inl e \<Rightarrow> False | Inr t \<Rightarrow> True" by code_simp
  moreover have "length [[1], [2, 3], [1], [1 :: u8]] = 4" by simp
  ultimately show ?thesis
    unfolding build_table_def by (simp only: example_robin_new)
    (auto simp: set_factor_def throughput_config_def split: sum.splits simp del: bench_build.simps)
qed

theorem robin_throughput_exact_witness:
  "\<exists>st'. run_table throughput_config int (\<lambda>_ i. i) (robin_class 100) [[1], [2, 3], [1], [1]]
      (replicate 60 [1] @ replicate 40 [4]) ''robin'' (Some example_hash) example_state = Inr st' \<and>
    reported st' = [(''hash_table_throughput'', ''robin'', 360)]"
proof -
  let ?p = "replicate 60 [1] @ replicate 40 [4 :: u8]" and ?d = "[[1], [2, 3], [1], [1 :: u8]]"
  have v: "(\<Sum>x \<leftarrow> ?p @ take (length ?p div step_size * step_size) ?p.
      found_value (map_of (rev (zip ?d (map int [0..<length ?d]))) x)) = 360"
    by (simp add: step_size_def found_value_def upt_rec sum_list_replicate)
  have e: "reported example_state = []" by (simp add: example_state_def)
  obtain t where "build_table throughput_config (robin_class 100 example_hash) ?d = Inr t" using example_robin_built by blast
  with robin_throughput_exact [where cfg = throughput_config and data = ?d and probes = ?p and clock = int
      and hash = example_hash and rand = "\<lambda>_ i. i" and max_size = 100 and name = "''robin''" and st = example_state]
  show ?thesis unfolding v e append_Nil by (auto simp: throughput_config_def)
qed

theorem bench_std_table_returns_witness:
  "\<exists>st'. bench_std_table table_example_lib table_example_config int (\<lambda>_ i. i) [[1], [2, 3]] [[1], [4]]
      [8 \<mapsto> [3, 0], 4 \<mapsto> [0, 5, 1, 2]] [8 \<mapsto> [Fin 5, Fin 25]] example_state = Inr st'"
  using bench_std_table_returns [where entropies = "[8 \<mapsto> [Fin 5, Fin 25]]" and es = "[Fin 5, Fin 25]" and cfg = table_example_config
      and locations = "[8 \<mapsto> [3, 0], 4 \<mapsto> [0, 5, 1, 2]]" and data = "[[1], [2, 3]]" and probes = "[[1], [4]]"]
  by (simp add: table_example_config_def at_chunk_def usable_locs_def)

theorem bench_swiss_table_safe_witness:
  "case bench_swiss_table table_example_lib (table_example_config\<lparr>hashfuncs := (\<lambda>f. f = ''crc_wyhash_sub8'')\<rparr>) int (\<lambda>_ i. i)
      std_class (\<lambda>_. 0) [[1], [2, 3]] [[1], [4]] [8 \<mapsto> [3, 0]] [8 \<mapsto> [Fin 5, Fin 25]] example_state of
    Inl e \<Rightarrow> False | Inr st' \<Rightarrow> True"
  using bench_swiss_table_safe [OF std.benchmark_table_axioms [of 4], where entropies = "[8 \<mapsto> [Fin 5, Fin 25]]" and es = "[Fin 5, Fin 25]"
      and cfg = "table_example_config\<lparr>hashfuncs := (\<lambda>f. f = ''crc_wyhash_sub8'')\<rparr>"
      and locations = "[8 \<mapsto> [3, 0]]" and data = "[[1], [2, 3]]" and probes = "[[1], [4]]"]
  by (simp add: table_example_config_def at_chunk_def usable_locs_def)

theorem bench_std_table_undefined_witness:
  "bench_std_table table_example_lib (table_example_config\<lparr>hashfuncs := (\<lambda>f. f = ''wyhash_sub8'')\<rparr>) int (\<lambda>_ i. i)
     [[1], [2, 3]] [[1], [4]] [8 \<mapsto> [3, 0]] [8 \<mapsto> [Fin 1]] example_state = Inl Undefined"
proof -
  have "\<not> Fin (sdbl (lib_log2 table_example_lib (of_nat (length [[1], [2, 3 :: u8]])) + 3 / 2)) < Fin 1" by code_simp
  from bench_std_table_undefined [where entropies = "[8 \<mapsto> [Fin 1]]" and e = "Fin 1" and learned = "''wyhash_sub8''"
      and cfg = "table_example_config\<lparr>hashfuncs := (\<lambda>f. f = ''wyhash_sub8'')\<rparr>", OF _ this]
  show ?thesis by simp
qed

end
