(* ===== verification/Filter_Bench.thy ===== *)
theory Filter_Bench
  imports ELH_Prelude
begin

text \<open>
  What the filter benchmark (\<open>benchmark_filters.cpp\<close>, \<open>benchFilter_throughput\<close>) does with a
  filter, and the contract it relies on: it adds every key of the data set and then asserts
  that testing each of them answers true. The functions are templates over the filter's
  operations, as in the source; the contract is the locale \<open>membership_filter\<close>, which the
  theories of the three filters interpret on their models.
\<close>

section \<open>The benchmark's use of a filter\<close>

definition benchFilter_add :: "('x \<Rightarrow> 'f \<Rightarrow> 'f option) \<Rightarrow> 'x list \<Rightarrow> 'f \<Rightarrow> 'f option" where
  "benchFilter_add addValue data flt = for_opt data addValue flt"

text \<open>The 64-bit counter \<open>result\<close>, to which each test adds 0 or 1.\<close>

primrec benchFilter_count :: "('f \<Rightarrow> 'x \<Rightarrow> bool option) \<Rightarrow> 'x list \<Rightarrow> 'f \<Rightarrow> u64 \<Rightarrow> u64 option" where
  "benchFilter_count testValue [] flt result = Some result"
| "benchFilter_count testValue (x # xs) flt result =
     testValue flt x \<bind> (\<lambda>b. benchFilter_count testValue xs flt (result + (if b then 1 else 0)))"

text \<open>\<open>assert((unsigned int)result == data.size())\<close>: the cast keeps 32 bits.\<close>

definition benchFilter_assert :: "('f \<Rightarrow> 'x \<Rightarrow> bool option) \<Rightarrow> 'x list \<Rightarrow> 'f \<Rightarrow> bool option" where
  "benchFilter_assert testValue data flt =
     benchFilter_count testValue data flt 0 \<bind>
       (\<lambda>result. Some (unat (ucast result :: u32) = length data))"

section \<open>The contract of a filter\<close>

locale membership_filter =
  fixes addValue :: "'x \<Rightarrow> 'f \<Rightarrow> 'f option"
    and testValue :: "'f \<Rightarrow> 'x \<Rightarrow> bool option"
    and invar :: "'f \<Rightarrow> bool"
    and grows :: "'f \<Rightarrow> 'f \<Rightarrow> bool"
  assumes add_total: "invar f \<Longrightarrow> \<exists>f'. addValue x f = Some f' \<and> invar f' \<and> grows f f'"
    and test_added: "invar f \<Longrightarrow> addValue x f = Some f' \<Longrightarrow> testValue f' x = Some True"
    and test_grows: "invar f \<Longrightarrow> invar f' \<Longrightarrow> grows f f' \<Longrightarrow> testValue f x = Some True \<Longrightarrow> testValue f' x = Some True"
    and test_total: "invar f \<Longrightarrow> testValue f x \<noteq> None"
    and grows_refl: "grows f f"
    and grows_trans: "grows f g \<Longrightarrow> grows g h \<Longrightarrow> grows f h"
begin

lemma add_all_total:
  assumes "invar f"
  shows "\<exists>f'. benchFilter_add addValue data f = Some f' \<and> invar f' \<and> grows f f'"
  unfolding benchFilter_add_def
  by (rule for_opt_invar [where I = invar and R = grows, OF assms])
    (blast intro: add_total grows_refl grows_trans)+

lemma no_false_negative:
  assumes "invar f" "benchFilter_add addValue data f = Some f'" "x \<in> set data"
  shows "testValue f' x = Some True"
  using assms
proof (induction data arbitrary: f)
  case Nil
  then show ?case by simp
next
  case (Cons y ys)
  obtain g where g: "addValue y f = Some g" "invar g"
    using add_total [OF Cons.prems(1)] by blast
  with Cons.prems(2) have rest: "benchFilter_add addValue ys g = Some f'"
    by (simp add: benchFilter_add_def)
  show ?case
  proof (cases "x = y")
    case True
    have "grows g f'" "invar f'" using add_all_total [OF g(2), of ys] rest by auto
    with True show ?thesis using test_added [OF Cons.prems(1) g(1)] test_grows g(2) by blast
  next
    case False
    with Cons show ?thesis using g(2) rest by simp
  qed
qed

lemma count_all:
  assumes "\<And>x. x \<in> set data \<Longrightarrow> testValue f x = Some True"
  shows "benchFilter_count testValue data f r = Some (r + of_nat (length data))"
  using assms by (induction data arbitrary: r) (auto simp: algebra_simps)

text \<open>The assertion of the benchmark holds, for data sets its 32-bit counter can count.\<close>

lemma assert_holds:
  assumes "invar f" "length data < 2 ^ 32"
  shows "\<exists>f'. benchFilter_add addValue data f = Some f' \<and>
              benchFilter_assert testValue data f' = Some True"
proof -
  obtain f' where f': "benchFilter_add addValue data f = Some f'"
    using add_all_total [OF assms(1)] by blast
  then have "benchFilter_count testValue data f' 0 = Some (of_nat (length data))"
    using count_all [of data f' 0] no_false_negative [OF assms(1) f'] by simp
  moreover have "unat (ucast (of_nat (length data) :: u64) :: u32) = length data"
    using assms(2) by (simp add: unat_ucast_down unat_of_nat_small)
  ultimately show ?thesis using f' by (simp add: benchFilter_assert_def)
qed

end

end
