(* ===== verification/Self_Bloom.thy ===== *)
theory Self_Bloom
  imports ELH_Prelude Float_Model Filter_Bench
begin

text \<open>
  The standard Bloom filter of \<open>include/self_reg_bloom.hh\<close>: class \<open>selfBloom\<close> with its bit array,
  its constructor, \<open>setBit\<close>, \<open>testBit\<close>, \<open>addValue\<close> and \<open>testValue\<close>, and the multiply-shift
  range reduction. Shown: the range reduction stays below its bound; every bit written or tested
  lies inside the array; a value that was added tests true for ever after; the filter
  meets the contract of the benchmark.
\<close>

unbundle bit_operations_syntax

section \<open>Range reduction\<close>

definition mult_reduce :: "u32 \<Rightarrow> u32 \<Rightarrow> u32" where
  "mult_reduce hash n = ucast (shr ((ucast hash :: u64) * ucast n) 32)"

section \<open>The class\<close>

record selfBloom =
  sizeInBits :: u64
  filter_bytes :: bytes
  numElementsExpected :: u64
  fprAtExpectedElements :: "rat option"
  numHashes :: u32

text \<open>
  \<open>log(2)\<close> and \<open>pow\<close> are the C library's; the constructor takes them as \<open>log2c\<close> and \<open>pow\<close>.
\<close>

text \<open>
  For no expected elements the bits per element are infinite, and \<open>pow(0.5, inf)\<close> is 0; without a byte they are not a number, and neither is
  the rate (\<open>None\<close>).
\<close>

definition calculateFPR :: "rat \<Rightarrow> (rat \<Rightarrow> rat \<Rightarrow> rat) \<Rightarrow> u64 \<Rightarrow> u64 \<Rightarrow> rat option" where
  "calculateFPR log2c pow size_in_bytes n =
     (if n = 0 then (if size_in_bytes = 0 then None else Some 0)
      else let bitsPerElement = dbl (dbl (dbl (of_nat (unat size_in_bytes)) * 8) / dbl (of_nat (unat n)))
        in Some (pow (1 / 2) (dbl (bitsPerElement * log2c))))"

text \<open>
  The conversion of a \<open>double\<close> to \<open>unsigned int\<close> is undefined when the truncated value does
  not fit. A division by a zero element count gives an infinity, which does not fit, or without a byte no number, for which
  \<open>std::max(1.0, ...)\<close> is 1.
\<close>

definition double_to_u32 :: "rat \<Rightarrow> u32 option" where
  "double_to_u32 x = (if x < 2 ^ 32 then Some (of_nat (nat \<lfloor>x\<rfloor>)) else None)"

definition selfBloom_new ::
  "rat \<Rightarrow> (rat \<Rightarrow> rat \<Rightarrow> rat) \<Rightarrow> u64 \<Rightarrow> u64 \<Rightarrow> selfBloom option" where
  "selfBloom_new log2c pow sz n =
     (let addByte = (if sz mod 8 \<noteq> 0 then 1 else 0);
          sizeInBytes = sz div 8 + addByte;
          bits = dbl (log2c * dbl (dbl (of_nat (unat sizeInBytes)) * 8))
      in do {
           k \<leftarrow> (if n = 0 then (if sizeInBytes = 0 then Some 1 else None)
                else double_to_u32 (max 1 (dbl (bits / dbl (of_nat (unat n))))));
           Some \<lparr>sizeInBits = 8 * sizeInBytes,
                 filter_bytes = replicate (unat sizeInBytes) 0,
                 numElementsExpected = n,
                 fprAtExpectedElements = calculateFPR log2c pow sizeInBytes n,
                 numHashes = k\<rparr>
         })"

text \<open>\<open>selfBloomUtils::generateNumBits\<close>: the product is converted to \<open>int\<close>, then to \<open>size_t\<close>.\<close>

definition generateNumBits :: "rat \<Rightarrow> u64 \<Rightarrow> u64 option" where
  "generateNumBits bitsPerElement n =
     (let x = dbl (dbl (of_nat (unat n)) * bitsPerElement) in
      if x < 2 ^ 31 then Some (of_nat (nat \<lfloor>x\<rfloor>)) else None)"

definition setBit :: "u64 \<Rightarrow> bytes \<Rightarrow> bytes option" where
  "setBit position bs =
     (let byte = unat (shr position 3); mask = shl 1 (unat (position AND 7))
      in byte_or bs byte mask)"

definition testBit :: "bytes \<Rightarrow> u64 \<Rightarrow> bool option" where
  "testBit bs position =
     (let byte = unat (shr position 3); mask = shl 1 (unat (position AND 7))
      in byte_test bs byte mask)"

text \<open>The bit that the \<open>i\<close>-th hash of a value selects (double hashing in 32 bits).\<close>

definition position_at :: "u64 \<Rightarrow> u32 \<Rightarrow> u32 \<Rightarrow> nat \<Rightarrow> u64" where
  "position_at sz hash1 hash2 i = ucast (mult_reduce (hash1 + of_nat i * hash2) (ucast sz))"

definition addValue :: "('x \<Rightarrow> u64) \<Rightarrow> 'x \<Rightarrow> selfBloom \<Rightarrow> selfBloom option" where
  "addValue hash x f =
     (let hash_full = hash x;
          hash1 = ucast hash_full :: u32;
          hash2 = ucast (shr hash_full 32) :: u32;
          position1 = ucast (mult_reduce hash1 (ucast (sizeInBits f))) :: u64
      in do {
        bs \<leftarrow> setBit position1 (filter_bytes f);
        bs \<leftarrow> for_opt [1..<unat (numHashes f)]
               (\<lambda>i bs. setBit (position_at (sizeInBits f) hash1 hash2 i) bs) bs;
        Some (f\<lparr>filter_bytes := bs\<rparr>)
      })"

definition testValue :: "('x \<Rightarrow> u64) \<Rightarrow> selfBloom \<Rightarrow> 'x \<Rightarrow> bool option" where
  "testValue hash f x =
     (let hash_full = hash x;
          hash1 = ucast hash_full :: u32;
          hash2 = ucast (shr hash_full 32) :: u32;
          position1 = ucast (mult_reduce hash1 (ucast (sizeInBits f))) :: u64
      in do {
        returnVal \<leftarrow> testBit (filter_bytes f) position1;
        if returnVal
        then all_opt [1..<unat (numHashes f)]
               (\<lambda>i. testBit (filter_bytes f) (position_at (sizeInBits f) hash1 hash2 i))
        else Some False
      })"

text \<open>
  The type invariant: the bit array has as many bits as \<open>sizeInBits\<close> says, at least one byte,
  and a value has at least one hash.
\<close>

definition bloom_ok :: "selfBloom \<Rightarrow> bool" where
  "bloom_ok f \<longleftrightarrow> unat (sizeInBits f) = 8 * length (filter_bytes f) \<and> filter_bytes f \<noteq> [] \<and>
     1 \<le> unat (numHashes f)"

definition bloom_grows :: "selfBloom \<Rightarrow> selfBloom \<Rightarrow> bool" where
  "bloom_grows f g \<longleftrightarrow> bytes_le (filter_bytes f) (filter_bytes g) \<and>
     sizeInBits f = sizeInBits g \<and> numHashes f = numHashes g"

text \<open>The abstraction: the set of bits, and the bits a value selects.\<close>

definition positions :: "('x \<Rightarrow> u64) \<Rightarrow> selfBloom \<Rightarrow> 'x \<Rightarrow> nat set" where
  "positions hash f x =
     (\<lambda>i. unat (position_at (sizeInBits f) (ucast (hash x)) (ucast (shr (hash x) 32)) i)) `
       {..<unat (numHashes f)}"

section \<open>Lemmas on the range reduction\<close>

lemma unat_mult_reduce: "unat (mult_reduce h n) = (unat h * unat n) div 2 ^ 32"
proof -
  have "unat h * unat n div 2 ^ 32 < 2 ^ 32"
    using unat_u32_mult_less [of h n] by (rule less_mult_imp_div_less)
  then show ?thesis
    by (simp add: mult_reduce_def unat_ucast_down unat_shr unat_u32_mult)
qed

lemma mult_reduce_less: "n \<noteq> 0 \<Longrightarrow> unat (mult_reduce h n) < unat n"
  using unat_u32_less [of h]
  by (simp add: unat_mult_reduce less_mult_imp_div_less mult.commute unat_gt_0)

lemma mult_reduce_0 [simp]: "mult_reduce h 0 = 0"
  by (simp add: mult_reduce_def)

section \<open>Lemmas on the bit array\<close>

lemma low3_less: "unat ((p :: u64) AND 7) < 8"
proof -
  have "(7 :: u64) = mask 3" by (simp add: mask_eq_exp_minus_1)
  then show ?thesis using unat_and_mask [of p 3] by simp
qed

lemma unat_shr3_less: "unat (p :: u64) < 8 * n \<Longrightarrow> unat (shr p 3) < n"
  by (simp add: unat_shr less_mult_imp_div_less mult.commute)

lemma setBit_Some:
  assumes "unat p < 8 * length bs"
  obtains cs where "setBit p bs = Some cs" "bytes_le bs cs" "testBit cs p = Some True"
  using byte_or_Some [OF unat_shr3_less [OF assms], of "unat (p AND 7)"] low3_less [of p]
  by (auto simp: setBit_def testBit_def Let_def)

lemma testBit_mono: "bytes_le bs cs \<Longrightarrow> testBit bs p = Some True \<Longrightarrow> testBit cs p = Some True"
  unfolding testBit_def Let_def by (rule byte_test_mono)

lemma testBit_total: "unat p < 8 * length bs \<Longrightarrow> testBit bs p \<noteq> None"
  using unat_shr3_less by (auto simp: testBit_def byte_test_def Let_def)

lemma bytes_le_length: "bytes_le bs cs \<Longrightarrow> length cs = length bs"
  by (simp add: bytes_le_def)

text \<open>A sequence of writes sets all its bits and keeps those that were set.\<close>

lemma setBits_Some:
  assumes "\<And>i. i \<in> set is \<Longrightarrow> unat (pos i) < 8 * length bs"
  shows "\<exists>cs. for_opt is (\<lambda>i bs. setBit (pos i) bs) bs = Some cs \<and> bytes_le bs cs \<and>
              (\<forall>i \<in> set is. testBit cs (pos i) = Some True)"
  using assms
proof (induction "is" arbitrary: bs)
  case Nil
  then show ?case by simp
next
  case (Cons i "is")
  obtain cs where cs: "setBit (pos i) bs = Some cs" "bytes_le bs cs" "testBit cs (pos i) = Some True"
    using setBit_Some Cons.prems by (metis list.set_intros(1))
  obtain ds where "for_opt is (\<lambda>i bs. setBit (pos i) bs) cs = Some ds" "bytes_le cs ds"
    "\<forall>i \<in> set is. testBit ds (pos i) = Some True"
    using Cons.IH [of cs] Cons.prems bytes_le_length [OF cs(2)] by auto
  with cs show ?case by (auto intro: bytes_le_trans testBit_mono)
qed

section \<open>The filter keeps its invariant and never forgets\<close>

lemma position_bound:
  assumes "bloom_ok f"
  shows "unat (ucast (mult_reduce h (ucast (sizeInBits f))) :: u64) < 8 * length (filter_bytes f)"
proof (cases "(ucast (sizeInBits f) :: u32) = 0")
  case True
  with assms show ?thesis by (simp add: bloom_ok_def)
next
  case False
  have "unat (ucast (sizeInBits f) :: u32) \<le> unat (sizeInBits f)"
    by (simp add: unat_ucast_down)
  with mult_reduce_less [OF False, of h] assms show ?thesis
    by (simp add: bloom_ok_def unat_ucast_up)
qed

lemma position_at_bound: "bloom_ok f \<Longrightarrow> unat (position_at (sizeInBits f) h1 h2 i) < 8 * length (filter_bytes f)"
  unfolding position_at_def by (rule position_bound)

text \<open>The test asks for exactly the bits that adding sets: hash \<open>0\<close> is the first position.\<close>

lemma position_at_0: "position_at sz h1 h2 0 = ucast (mult_reduce h1 (ucast sz))"
  by (simp add: position_at_def)

lemma testValue_True_iff:
  assumes "bloom_ok f"
  shows "testValue hash f x = Some True \<longleftrightarrow>
    (\<forall>i < unat (numHashes f). testBit (filter_bytes f)
       (position_at (sizeInBits f) (ucast (hash x)) (ucast (shr (hash x) 32)) i) = Some True)"
    (is "_ \<longleftrightarrow> (\<forall>i < ?n. ?T i)")
proof -
  have "(\<forall>i < ?n. ?T i) \<longleftrightarrow> ?T 0 \<and> (\<forall>i \<in> {1..<?n}. ?T i)"
    using assms by (auto simp: bloom_ok_def) (metis gr0I One_nat_def Suc_leI atLeastLessThan_iff)
  then show ?thesis
    by (auto simp: testValue_def Let_def position_at_0 all_opt_True_iff split: bind_splits)
qed

lemma addValue_Some:
  assumes "bloom_ok f"
  shows "\<exists>g. addValue hash x f = Some g \<and> bloom_ok g \<and> bloom_grows f g \<and>
             testValue hash g x = Some True"
proof -
  define p where "p = position_at (sizeInBits f) (ucast (hash x)) (ucast (shr (hash x) 32))"
  have b: "unat (p i) < 8 * length (filter_bytes f)" for i
    unfolding p_def by (rule position_at_bound [OF assms])
  obtain bs where bs: "setBit (p 0) (filter_bytes f) = Some bs" "bytes_le (filter_bytes f) bs"
    "testBit bs (p 0) = Some True" using setBit_Some [OF b] by metis
  obtain cs where cs: "for_opt [1..<unat (numHashes f)] (\<lambda>i bs. setBit (p i) bs) bs = Some cs"
    "bytes_le bs cs" "\<forall>i \<in> set [1..<unat (numHashes f)]. testBit cs (p i) = Some True"
    using setBits_Some [of "[1..<unat (numHashes f)]" p bs] b bs(2) by (auto simp: bytes_le_length)
  define g where "g = f\<lparr>filter_bytes := cs\<rparr>"
  have le: "bytes_le (filter_bytes f) cs" using bs(2) cs(2) by (rule bytes_le_trans)
  have all: "testBit cs (p i) = Some True" if "i < unat (numHashes f)" for i
    using cs(3) that testBit_mono [OF cs(2) bs(3)] by (cases i) auto
  have "addValue hash x f = Some g"
    using bs(1) cs(1) by (simp add: addValue_def Let_def p_def position_at_0 g_def)
  moreover have ok: "bloom_ok g"
    using assms le by (auto simp: bloom_ok_def g_def bytes_le_def)
  moreover have "bloom_grows f g" using le by (simp add: bloom_grows_def g_def)
  moreover have "testValue hash g x = Some True"
    unfolding testValue_True_iff [OF ok] using all by (simp add: g_def p_def)
  ultimately show ?thesis by blast
qed

lemma testValue_grows:
  assumes "bloom_grows f g" "bloom_ok f" "testValue hash f x = Some True"
  shows "testValue hash g x = Some True"
proof -
  have "bloom_ok g" using assms(1,2) by (auto simp: bloom_grows_def bloom_ok_def bytes_le_def)
  with assms show ?thesis
    by (auto simp: testValue_True_iff bloom_grows_def intro: testBit_mono)
qed

lemma testValue_total: "bloom_ok f \<Longrightarrow> testValue hash f x \<noteq> None"
proof -
  assume ok: "bloom_ok f"
  have t: "testBit (filter_bytes f) (position_at (sizeInBits f) h1 h2 i) \<noteq> None" for h1 h2 i
    by (intro testBit_total position_at_bound ok)
  show ?thesis
    using t [of _ _ 0] all_opt_total [of _ "\<lambda>i. testBit (filter_bytes f) (position_at (sizeInBits f) _ _ i)", OF t]
    by (fastforce simp: testValue_def Let_def position_at_0 split: bind_splits)
qed

interpretation self_bloom: membership_filter "addValue hash" "testValue hash" bloom_ok bloom_grows
  for hash :: "'x \<Rightarrow> u64"
proof (unfold_locales, goal_cases)
  case (1 f x)
  then show ?case using addValue_Some [of f hash x] by blast
next
  case (2 f x f')
  then show ?case using addValue_Some [of f hash x] by auto
next
  case (3 f f' x)
  then show ?case using testValue_grows [of f f' hash x] by simp
next
  case (4 f x)
  then show ?case by (rule testValue_total)
next
  case (5 f)
  show ?case by (simp add: bloom_grows_def)
next
  case (6 f g h)
  then show ?case by (auto simp: bloom_grows_def intro: bytes_le_trans)
qed

text \<open>The constructor establishes the invariant.\<close>

lemma double_to_u32_pos: "1 \<le> x \<Longrightarrow> double_to_u32 x = Some k \<Longrightarrow> 1 \<le> unat k"
proof -
  assume x: "1 \<le> x" "double_to_u32 x = Some k"
  then have k: "k = of_nat (nat \<lfloor>x\<rfloor>)" and "x < 2 ^ 32"
    by (auto simp: double_to_u32_def split: if_splits)
  then have "\<lfloor>x\<rfloor> < 2 ^ 32" "1 \<le> \<lfloor>x\<rfloor>" using x(1) by (simp_all add: floor_less_iff)
  then have "nat \<lfloor>x\<rfloor> < nat (2 ^ 32)" "1 \<le> nat \<lfloor>x\<rfloor>" by linarith+
  then have "nat \<lfloor>x\<rfloor> < 2 ^ LENGTH(32)" "1 \<le> nat \<lfloor>x\<rfloor>" by simp_all
  then show ?thesis unfolding k by (simp only: unat_of_nat_small)
qed

lemma div8_round_up: "(a::nat) div 8 + (if a mod 8 \<noteq> 0 then 1 else 0) = (a + 7) div 8"
proof -
  have "(a mod 8 + 7) div 8 = (if a mod 8 \<noteq> 0 then 1 else 0)"
    by (auto intro!: div_nat_eqI simp: Suc_le_eq)
  then show ?thesis by (simp add: div_add1_eq [of a 7 8])
qed

lemma unat_sizeInBytes:
  fixes sz :: u64
  assumes "unat sz \<le> 2 ^ 64 - 8"
  defines "b \<equiv> sz div 8 + (if sz mod 8 \<noteq> 0 then 1 else 0)"
  shows "unat b = (unat sz + 7) div 8" "unat (8 * b) = 8 * unat b"
proof -
  have d: "unat (sz div 8) = unat sz div 8" "(sz mod 8 = 0) = (unat sz mod 8 = 0)"
    by (simp_all add: unat_div word_unat_eq_iff unat_mod)
  have "unat (sz div 8) + 1 < 2 ^ 64" using assms(1) by (simp add: d)
  then have "unat b = unat sz div 8 + (if unat sz mod 8 \<noteq> 0 then 1 else 0)"
    using unat_add_lem [of "sz div 8" 1] by (simp add: b_def d)
  also have "\<dots> = (unat sz + 7) div 8" by (rule div8_round_up)
  finally show b: "unat b = (unat sz + 7) div 8" .
  have "8 * unat b < 2 ^ 64" using assms(1) by (simp add: b)
  then show "unat (8 * b) = 8 * unat b" by (simp add: unat_word_ariths)
qed

lemma selfBloom_new_ok:
  assumes "selfBloom_new log2c pow sz n = Some f" "0 < sz" "unat sz \<le> 2 ^ 64 - 8"
  shows "bloom_ok f"
proof -
  define b where "b = sz div 8 + (if sz mod 8 \<noteq> 0 then 1 else 0)"
  note ub = unat_sizeInBytes [OF assms(3), folded b_def]
  have k: "numHashes f = 1 \<or> (\<exists>x. double_to_u32 (max 1 x) = Some (numHashes f))"
    and f: "sizeInBits f = 8 * b" "filter_bytes f = replicate (unat b) 0"
    using assms(1) by (auto simp: selfBloom_new_def Let_def b_def split: if_splits bind_splits)
  have "0 < unat sz" using assms(2) by (simp add: unat_gt_0 word_neq_0_conv)
  then have "0 < unat b" by (simp add: ub)
  moreover have "1 \<le> unat (numHashes f)" using k double_to_u32_pos [OF max.cobounded1] by auto
  ultimately show ?thesis using f ub by (simp add: bloom_ok_def)
qed

section \<open>Refinement of a set of bits\<close>

lemma setBit_bits: "setBit p bs = Some cs \<Longrightarrow> bits_of cs = insert (unat p) (bits_of bs)"
  and testBit_bits: "unat p < 8 * length bs \<Longrightarrow> testBit bs p = Some (unat p \<in> bits_of bs)"
proof -
  have "(7 :: u64) = mask 3" by (simp add: mask_eq_exp_minus_1)
  then have "unat (p AND 7) = unat p mod 8" using unat_and_mask [of p 3] by simp
  then have p: "8 * unat (shr p 3) + unat (p AND 7) = unat p" by (simp add: unat_shr)
  show "setBit p bs = Some cs \<Longrightarrow> bits_of cs = insert (unat p) (bits_of bs)"
    using byte_or_bits [of bs "unat (shr p 3)" "unat (p AND 7)" cs] low3_less [of p] p
    by (simp add: setBit_def Let_def)
  show "unat p < 8 * length bs \<Longrightarrow> testBit bs p = Some (unat p \<in> bits_of bs)"
    using byte_test_bits [OF unat_shr3_less low3_less, of p bs p] p
    by (simp add: testBit_def Let_def)
qed

lemma setBits_bits:
  "for_opt is (\<lambda>i bs. setBit (pos i) bs) bs = Some cs \<Longrightarrow>
     bits_of cs = bits_of bs \<union> (\<lambda>i. unat (pos i)) ` set is"
proof (induction "is" arbitrary: bs)
  case (Cons i "is")
  then obtain ds where "setBit (pos i) bs = Some ds" "for_opt is (\<lambda>i bs. setBit (pos i) bs) ds = Some cs"
    by (auto simp: bind_eq_Some_conv)
  then show ?case using Cons.IH setBit_bits by auto
qed simp

lemma upto_insert_0: "1 \<le> n \<Longrightarrow> {..<n} = insert 0 (set [1..<n])"
  by auto

text \<open>
  C29. Adding a value to a standard Bloom filter always succeeds (no write outside the bit
  array), keeps the type invariant and sets exactly the bits that the value's hashes select,
  leaving every other bit as it was.
\<close>

theorem addValue_refines:
  assumes "bloom_ok f"
  shows "\<exists>g. addValue hash x f = Some g \<and> bloom_ok g \<and>
             bits_of (filter_bytes g) = bits_of (filter_bytes f) \<union> positions hash f x"
proof -
  obtain g where g: "addValue hash x f = Some g" "bloom_ok g"
    using addValue_Some [OF assms, of hash x] by blast
  define p where "p = position_at (sizeInBits f) (ucast (hash x)) (ucast (shr (hash x) 32))"
  define idx where "idx = [1..<unat (numHashes f)]"
  have eq: "setBit (p 0) (filter_bytes f) \<bind>
      (\<lambda>bs. for_opt idx (\<lambda>i bs. setBit (p i) bs) bs \<bind> (\<lambda>bs. Some (f\<lparr>filter_bytes := bs\<rparr>))) = Some g"
    using g(1) unfolding addValue_def Let_def p_def position_at_0 idx_def .
  obtain bs cs where bs: "setBit (p 0) (filter_bytes f) = Some bs"
    and cs: "for_opt idx (\<lambda>i bs. setBit (p i) bs) bs = Some cs" and gc: "g = f\<lparr>filter_bytes := cs\<rparr>"
    using eq by (auto simp: bind_eq_Some_conv)
  have "{..<unat (numHashes f)} = insert 0 (set idx)"
    unfolding idx_def using assms by (intro upto_insert_0) (simp add: bloom_ok_def)
  then have "positions hash f x = insert (unat (p 0)) ((\<lambda>i. unat (p i)) ` set idx)"
    unfolding positions_def p_def by (simp only: image_insert)
  then have "bits_of (filter_bytes g) = bits_of (filter_bytes f) \<union> positions hash f x"
    unfolding gc using setBit_bits [OF bs] setBits_bits [OF cs] by simp
  with g show ?thesis by blast
qed

text \<open>
  Testing a value always succeeds (no read outside the bit array) and answers true exactly
  when every bit that the value's hashes select is set.
\<close>

theorem testValue_refines:
  assumes "bloom_ok f"
  shows "testValue hash f x = Some (positions hash f x \<subseteq> bits_of (filter_bytes f))"
proof -
  have t: "testBit (filter_bytes f) (position_at (sizeInBits f) h1 h2 i) =
      Some (unat (position_at (sizeInBits f) h1 h2 i) \<in> bits_of (filter_bytes f))" for h1 h2 i
    by (intro testBit_bits position_at_bound assms)
  obtain b where b: "testValue hash f x = Some b"
    using testValue_total [OF assms] by (meson not_None_eq)
  have "testValue hash f x = Some True \<longleftrightarrow> positions hash f x \<subseteq> bits_of (filter_bytes f)"
    by (auto simp: testValue_True_iff [OF assms] t positions_def)
  with b show ?thesis by (cases b) auto
qed

text \<open>
  A filter that the constructor made for a nonempty bit array has no false negatives: adding
  the whole data set succeeds, and the assertion of the throughput benchmark, that every key of
  the data set then tests true, holds.
\<close>

theorem selfBloom_benchmark_assertion:
  assumes "selfBloom_new log2c pow sz n = Some f" "0 < sz" "unat sz \<le> 2 ^ 64 - 8"
    and "length data < 2 ^ 32"
  shows "\<exists>g. benchFilter_add (addValue hash) data f = Some g \<and>
             benchFilter_assert (testValue hash) data g = Some True"
  using self_bloom.assert_holds selfBloom_new_ok [OF assms(1-3)] assms(4) by blast

definition example_bloom :: selfBloom where
  "example_bloom = \<lparr>sizeInBits = 16, filter_bytes = [0, 0], numElementsExpected = 4,
     fprAtExpectedElements = Some 1, numHashes = 3\<rparr>"

lemma example_bloom_new: "selfBloom_new (3 / 4) (\<lambda>_ _. 1) 12 4 = Some example_bloom"
  by code_simp

lemma example_bloom_ok: "bloom_ok example_bloom"
  by code_simp

theorem addValue_refines_witness:
  "bloom_ok example_bloom \<and>
   (\<exists>g. addValue (\<lambda>x. x) 0x8000000040000000 example_bloom = Some g \<and> bloom_ok g \<and>
        bits_of (filter_bytes g) = bits_of (filter_bytes example_bloom) \<union>
          positions (\<lambda>x. x) example_bloom 0x8000000040000000)"
  using addValue_refines [OF example_bloom_ok, of "\<lambda>x. x" "0x8000000040000000"] example_bloom_ok
  by blast

theorem testValue_refines_witness:
  "bloom_ok example_bloom \<and>
   testValue (\<lambda>x. x) example_bloom 7 =
     Some (positions (\<lambda>x. x) example_bloom 7 \<subseteq> bits_of (filter_bytes example_bloom))"
  using testValue_refines [OF example_bloom_ok, of "\<lambda>x. x" 7] example_bloom_ok by blast

theorem selfBloom_benchmark_assertion_witness:
  "\<exists>g. benchFilter_add (addValue (\<lambda>x. x * 0x9E3779B97F4A7C15)) [1, 2, 3] example_bloom = Some g \<and>
       benchFilter_assert (testValue (\<lambda>x. x * 0x9E3779B97F4A7C15)) [1, 2, 3] g = Some True"
  by (rule selfBloom_benchmark_assertion [OF example_bloom_new]) simp_all

end
