(* ===== verification/Block_Bloom.thy ===== *)
theory Block_Bloom
  imports ELH_Prelude Float_Model Filter_Bench
begin

text \<open>
  The blocked Bloom filter of \<open>include/self_block_bloom.hh\<close> (class \<open>selfBlockBloom512\<close>): the
  bits of a value all lie in one 64-byte block. Shown: the block offset and the bit position
  stay inside the array; the incremental double hashing of \<open>testValue\<close> visits the positions
  that \<open>addValue\<close> computes by multiplication; the filter refines a set of bits and never
  forgets; which part of the array the 32-bit block offset can reach.
\<close>

unbundle bit_operations_syntax

section \<open>The class\<close>

record selfBlockBloom512 =
  b512_sizeInBits :: u64
  b512_bytes :: bytes
  b512_numElementsExpected :: u64
  b512_fpr :: rat
  b512_numHashes :: u32
  b512_numBlocks :: u32

definition mult_reduce_block :: "u32 \<Rightarrow> u32 \<Rightarrow> u32" where
  "mult_reduce_block hash n = ucast (shr ((ucast hash :: u64) * ucast n) 32)"

text \<open>
  The constructor's choice of the number of hashes: the first \<open>k\<close> of the candidates whose
  predicted false positive rate is strictly below the best so far, which starts at 1. The
  member is not set when no candidate qualifies (\<open>None\<close>). The predicted rate of
  \<open>calculateFPRGivenK\<close>, computed with \<open>exp\<close>, \<open>log\<close>, \<open>lgamma\<close> and \<open>pow\<close>, is a parameter.
\<close>

primrec choose_hashes :: "(nat \<Rightarrow> rat) \<Rightarrow> nat list \<Rightarrow> nat option \<times> rat \<Rightarrow> nat option \<times> rat" where
  "choose_hashes fprGivenK [] best = best"
| "choose_hashes fprGivenK (k # ks) best =
     choose_hashes fprGivenK ks
       (if fprGivenK k < snd best then (Some k, fprGivenK k) else best)"

definition selfBlockBloom512_new :: "(rat \<Rightarrow> nat \<Rightarrow> rat) \<Rightarrow> u64 \<Rightarrow> u64 \<Rightarrow> selfBlockBloom512 option" where
  "selfBlockBloom512_new fprGivenK sz n =
     (let sizeInBytes = (sz + (512 - sz mod 512)) div 8;
          bits = 8 * sizeInBytes
      in if n = 0 then None
         else case choose_hashes (fprGivenK (of_nat (unat (bits div n)))) [1..<5] (None, 1) of
           (None, _) \<Rightarrow> None
         | (Some k, fpr) \<Rightarrow>
             Some \<lparr>b512_sizeInBits = bits, b512_bytes = replicate (unat sizeInBytes) 0,
                   b512_numElementsExpected = n, b512_fpr = fpr, b512_numHashes = of_nat k,
                   b512_numBlocks = ucast (bits div 512)\<rparr>)"

definition setBit512 :: "u64 \<Rightarrow> u64 \<Rightarrow> bytes \<Rightarrow> bytes option" where
  "setBit512 blockOffset positionInBlock bs =
     (let byte = shr positionInBlock 3;
          full_byte = byte + blockOffset;
          mask = shl 1 (unat (positionInBlock AND 7))
      in byte_or bs (unat full_byte) mask)"

definition testBit512 :: "bytes \<Rightarrow> u64 \<Rightarrow> u64 \<Rightarrow> bool option" where
  "testBit512 bs blockOffset positionInBlock =
     (let byte = shr positionInBlock 3;
          full_byte = byte + blockOffset;
          mask = shl 1 (unat (positionInBlock AND 7))
      in byte_test bs (unat full_byte) mask)"

text \<open>\<open>uint32_t blockOffset = 64 * mult_reduce_block(hash1, numBlocks)\<close>, in 32 bits.\<close>

definition block_offset :: "selfBlockBloom512 \<Rightarrow> u32 \<Rightarrow> u32" where
  "block_offset f hash1 = 64 * mult_reduce_block hash1 (b512_numBlocks f)"

definition addValue512 :: "('x \<Rightarrow> u64) \<Rightarrow> 'x \<Rightarrow> selfBlockBloom512 \<Rightarrow> selfBlockBloom512 option" where
  "addValue512 hash x f =
     (let hash_full = hash x;
          hash1 = ucast hash_full :: u32;
          hash2 = ucast (shr hash_full 32) :: u32;
          blockOffset = ucast (block_offset f hash1)
      in do {
        bs \<leftarrow> for_opt [1..<Suc (unat (b512_numHashes f))]
               (\<lambda>i bs. setBit512 blockOffset (ucast ((hash1 + of_nat i * hash2) AND 511)) bs)
               (b512_bytes f);
        Some (f\<lparr>b512_bytes := bs\<rparr>)
      })"

text \<open>The loop of \<open>testValue\<close>: \<open>n\<close> rounds are left, \<open>double_hash\<close> is stepped by \<open>hash2\<close>.\<close>

primrec testLoop512 :: "bytes \<Rightarrow> u64 \<Rightarrow> u32 \<Rightarrow> nat \<Rightarrow> u32 \<Rightarrow> bool option" where
  "testLoop512 bs blockOffset hash2 0 double_hash = Some True"
| "testLoop512 bs blockOffset hash2 (Suc n) double_hash =
     (let double_hash = double_hash + hash2 in
      do {
        returnVal \<leftarrow> testBit512 bs blockOffset (ucast (double_hash AND 511));
        if returnVal then testLoop512 bs blockOffset hash2 n double_hash else Some False
      })"

definition testValue512 :: "('x \<Rightarrow> u64) \<Rightarrow> selfBlockBloom512 \<Rightarrow> 'x \<Rightarrow> bool option" where
  "testValue512 hash f x =
     (let hash_full = hash x;
          hash1 = ucast hash_full :: u32;
          hash2 = ucast (shr hash_full 32) :: u32;
          blockOffset = ucast (block_offset f hash1)
      in testLoop512 (b512_bytes f) blockOffset hash2 (unat (b512_numHashes f)) hash1)"

text \<open>The type invariant, and the abstraction: the bits a value selects.\<close>

definition block_ok :: "selfBlockBloom512 \<Rightarrow> bool" where
  "block_ok f \<longleftrightarrow> b512_bytes f \<noteq> [] \<and> length (b512_bytes f) mod 64 = 0 \<and>
     64 * unat (b512_numBlocks f) \<le> length (b512_bytes f) \<and> 1 \<le> unat (b512_numHashes f)"

definition positions512 :: "('x \<Rightarrow> u64) \<Rightarrow> selfBlockBloom512 \<Rightarrow> 'x \<Rightarrow> nat set" where
  "positions512 hash f x =
     (let hash1 = ucast (hash x) :: u32; hash2 = ucast (shr (hash x) 32) :: u32 in
      (\<lambda>i. 8 * unat (block_offset f hash1) + unat ((hash1 + of_nat i * hash2) AND 511)) `
        {1..unat (b512_numHashes f)})"

definition block_grows :: "selfBlockBloom512 \<Rightarrow> selfBlockBloom512 \<Rightarrow> bool" where
  "block_grows f g \<longleftrightarrow> bits_of (b512_bytes f) \<subseteq> bits_of (b512_bytes g) \<and>
     b512_numBlocks f = b512_numBlocks g \<and> b512_numHashes f = b512_numHashes g"

section \<open>Positions\<close>

lemma unat_mult_reduce_block: "unat (mult_reduce_block h n) = (unat h * unat n) div 2 ^ 32"
proof -
  have "unat h * unat n div 2 ^ 32 < 2 ^ 32"
    using unat_u32_mult_less [of h n] by (rule less_mult_imp_div_less)
  then show ?thesis
    by (simp add: mult_reduce_block_def unat_ucast_down unat_shr unat_u32_mult)
qed

lemma mult_reduce_block_less: "n \<noteq> 0 \<Longrightarrow> unat (mult_reduce_block h n) < unat n"
  using unat_u32_less [of h]
  by (simp add: unat_mult_reduce_block less_mult_imp_div_less mult.commute unat_gt_0)

lemma unat_block_offset:
  "unat (block_offset f h) = 64 * (unat (mult_reduce_block h (b512_numBlocks f)) mod 2 ^ 26)"
proof -
  have "(64 * m) mod (64 * 2 ^ 26) = 64 * (m mod 2 ^ 26)" for m :: nat
    by (rule mult_mod_right [symmetric])
  then show ?thesis by (simp add: block_offset_def unat_word_ariths)
qed

text \<open>A block lies inside the array.\<close>

lemma block_offset_bound:
  assumes "block_ok f"
  shows "unat (block_offset f h) + 64 \<le> length (b512_bytes f)"
proof (cases "b512_numBlocks f = 0")
  case True
  have "64 \<le> length (b512_bytes f)"
    using assms by (auto simp: block_ok_def intro!: dvd_imp_le)
  with True show ?thesis by (simp add: block_offset_def mult_reduce_block_def)
next
  case False
  have "unat (block_offset f h) \<le> 64 * unat (mult_reduce_block h (b512_numBlocks f))"
    by (simp add: unat_block_offset)
  also have "\<dots> + 64 \<le> 64 * unat (b512_numBlocks f)"
    using mult_reduce_block_less [OF False, of h] by simp
  finally show ?thesis using assms by (simp add: block_ok_def)
qed

lemma unat_and_511: "unat ((d :: u32) AND 511) = unat d mod 512"
proof -
  have "(511 :: u32) = mask 9" by (simp add: mask_eq_exp_minus_1)
  then show ?thesis using unat_and_mask [of d 9] by simp
qed

text \<open>The byte and the bit in it that a position of a block selects.\<close>

lemma position512_parts:
  fixes off d :: u32
  defines "pos \<equiv> ucast (d AND 511) :: u64"
  shows "unat (shr pos 3 + ucast off) = unat (d AND 511) div 8 + unat off"
    and "unat (pos AND 7) = unat (d AND 511) mod 8"
proof -
  have p: "unat pos = unat (d AND 511)" by (simp add: pos_def unat_ucast_up)
  have "unat (d AND 511) div 8 + unat off < 2 ^ 64"
    using unat_u32_less [of off] by (simp add: unat_and_511 less_imp_le_nat order_le_less_trans)
  then show "unat (shr pos 3 + ucast off) = unat (d AND 511) div 8 + unat off"
    by (simp add: unat_word_ariths unat_shr p unat_ucast_up)
  have "(7 :: u64) = mask 3" by (simp add: mask_eq_exp_minus_1)
  then show "unat (pos AND 7) = unat (d AND 511) mod 8"
    using unat_and_mask [of pos 3] by (simp add: p)
qed

lemma setBit512_eq:
  "setBit512 (ucast (off :: u32)) (ucast ((d :: u32) AND 511)) bs =
     byte_or bs (unat (d AND 511) div 8 + unat off) (shl 1 (unat (d AND 511) mod 8))"
  by (simp only: setBit512_def Let_def position512_parts)

lemma testBit512_eq:
  assumes "unat off + 64 \<le> length bs"
  shows "testBit512 bs (ucast (off :: u32)) (ucast ((d :: u32) AND 511)) =
     Some (8 * unat off + unat (d AND 511) \<in> bits_of bs)"
proof -
  have "unat (d AND 511) div 8 < 64" by (simp add: unat_and_511 less_mult_imp_div_less)
  then have "unat (d AND 511) div 8 + unat off < length bs" using assms by simp
  then have "byte_test bs (unat (d AND 511) div 8 + unat off) (shl 1 (unat (d AND 511) mod 8)) =
      Some (8 * (unat (d AND 511) div 8 + unat off) + unat (d AND 511) mod 8 \<in> bits_of bs)"
    by (intro byte_test_bits) simp_all
  moreover have "8 * (unat (d AND 511) div 8 + unat off) + unat (d AND 511) mod 8 =
      8 * unat off + unat (d AND 511)" by simp
  ultimately show ?thesis
    by (simp only: testBit512_def Let_def position512_parts)
qed

section \<open>Incremental double hashing\<close>

text \<open>
  \<open>testValue\<close> steps \<open>double_hash\<close> by \<open>hash2\<close> where \<open>addValue\<close> multiplies: the positions are the
  same, and the loop answers whether all of their bits are set.
\<close>

lemma testLoop512_eq:
  assumes "unat off + 64 \<le> length bs"
  shows "testLoop512 bs (ucast (off :: u32)) h2 n (h1 + of_nat m * h2) =
     Some (\<forall>i \<in> {Suc m..m + n}. 8 * unat off + unat ((h1 + of_nat i * h2) AND 511) \<in> bits_of bs)"
proof (induction n arbitrary: m)
  case 0
  then show ?case by simp
next
  case (Suc n)
  have step: "h1 + of_nat m * h2 + h2 = h1 + of_nat (Suc m) * h2"
    by (simp add: algebra_simps)
  have "{Suc m..m + Suc n} = insert (Suc m) {Suc (Suc m)..Suc m + n}" by auto
  then show ?case
    by (simp add: Let_def step Suc.IH [of "Suc m"] testBit512_eq [OF assms] del: of_nat_Suc)
qed

lemma testValue512_eq:
  "block_ok f \<Longrightarrow> testValue512 hash f x = Some (positions512 hash f x \<subseteq> bits_of (b512_bytes f))"
  using testLoop512_eq [OF block_offset_bound, of f "ucast (hash x)" "ucast (shr (hash x) 32)"
      "unat (b512_numHashes f)" "ucast (hash x)" 0]
  by (simp add: testValue512_def Let_def positions512_def image_subset_iff)

lemma addValue512_Some:
  assumes "block_ok f"
  shows "\<exists>g. addValue512 hash x f = Some g \<and> block_ok g \<and>
             b512_numBlocks g = b512_numBlocks f \<and> b512_numHashes g = b512_numHashes f \<and>
             bits_of (b512_bytes g) = bits_of (b512_bytes f) \<union> positions512 hash f x"
proof -
  define h1 h2 :: u32 where "h1 = ucast (hash x)" and "h2 = ucast (shr (hash x) 32)"
  define off where "off = block_offset f h1"
  define d where "d i = unat ((h1 + of_nat i * h2) AND 511)" for i
  have "d i div 8 + unat off < length (b512_bytes f)" for i
  proof -
    have "d i div 8 < 64" by (simp add: d_def unat_and_511 less_mult_imp_div_less)
    then show ?thesis using block_offset_bound [OF assms, of h1] by (simp add: off_def)
  qed
  then obtain cs where cs:
    "for_opt [1..<Suc (unat (b512_numHashes f))]
       (\<lambda>i bs. byte_or bs (d i div 8 + unat off) (shl 1 (d i mod 8))) (b512_bytes f) = Some cs"
    "length cs = length (b512_bytes f)"
    "bits_of cs = bits_of (b512_bytes f) \<union>
       (\<lambda>i. 8 * (d i div 8 + unat off) + d i mod 8) ` set [1..<Suc (unat (b512_numHashes f))]"
    using byte_ors_bits [of "[1..<Suc (unat (b512_numHashes f))]" "\<lambda>i. d i div 8 + unat off"
        "b512_bytes f" "\<lambda>i. d i mod 8"] by auto
  have bit: "8 * (d i div 8 + unat off) + d i mod 8 = 8 * unat off + d i" for i by simp
  have "positions512 hash f x = (\<lambda>i. 8 * unat off + d i) ` set [1..<Suc (unat (b512_numHashes f))]"
    by (simp only: positions512_def Let_def h1_def h2_def off_def d_def set_upt
        atLeastLessThanSuc_atLeastAtMost)
  then have bits: "bits_of cs = bits_of (b512_bytes f) \<union> positions512 hash f x"
    using cs(3) by (simp only: bit)
  have "(\<lambda>i bs. setBit512 (ucast off) (ucast ((h1 + of_nat i * h2) AND 511)) bs) =
      (\<lambda>i bs. byte_or bs (d i div 8 + unat off) (shl 1 (d i mod 8)))"
    by (intro ext) (simp only: setBit512_eq d_def)
  with cs(1) have add: "addValue512 hash x f = Some (f\<lparr>b512_bytes := cs\<rparr>)"
    by (simp only: addValue512_def Let_def h1_def [symmetric] h2_def [symmetric]
        off_def [symmetric] Option.bind.bind_lunit)
  have "block_ok (f\<lparr>b512_bytes := cs\<rparr>)" using assms cs(2) by (auto simp: block_ok_def)
  with add bits show ?thesis by simp
qed

lemma positions512_cong:
  "b512_numBlocks f = b512_numBlocks g \<Longrightarrow> b512_numHashes f = b512_numHashes g \<Longrightarrow>
     positions512 hash f x = positions512 hash g x"
  by (simp add: positions512_def block_offset_def)

interpretation block_bloom: membership_filter "addValue512 hash" "testValue512 hash" block_ok block_grows
  for hash :: "'x \<Rightarrow> u64"
proof (unfold_locales, goal_cases)
  case (1 f x)
  then show ?case using addValue512_Some [of f hash x] by (auto simp: block_grows_def)
next
  case (2 f x f')
  then show ?case
    using addValue512_Some [of f hash x] positions512_cong [of f' f hash x]
    by (auto simp: testValue512_eq)
next
  case (3 f f' x)
  then show ?case
    using positions512_cong [of f f' hash x] by (auto simp: block_grows_def testValue512_eq)
next
  case (4 f x)
  then show ?case by (simp add: testValue512_eq)
next
  case (5 f)
  show ?case by (simp add: block_grows_def)
next
  case (6 f g h)
  then show ?case by (auto simp: block_grows_def)
qed

section \<open>The constructor\<close>

lemma choose_hashes_None: "choose_hashes fpr ks (b, r) = (None, r') \<Longrightarrow> b = None \<and> (\<forall>k \<in> set ks. r \<le> fpr k)"
  by (induction ks arbitrary: b r) (fastforce split: if_splits)+

lemma choose_hashes_best:
  "choose_hashes fpr ks (b, r) = (b', r') \<Longrightarrow>
     r' \<le> r \<and> (\<forall>k \<in> set ks. r' \<le> fpr k) \<and> (b' = b \<and> r' = r \<or> (\<exists>k \<in> set ks. b' = Some k \<and> r' = fpr k))"
proof (induction ks arbitrary: b r)
  case (Cons k ks)
  show ?case
  proof (cases "fpr k < r")
    case True
    with Cons.IH [of "Some k" "fpr k"] Cons.prems show ?thesis by auto
  next
    case False
    with Cons.IH [of b r] Cons.prems show ?thesis by auto
  qed
qed simp

lemma unat_block_bytes:
  fixes sz :: u64
  assumes "unat sz \<le> 2 ^ 64 - 1024"
  defines "b \<equiv> (sz + (512 - sz mod 512)) div 8"
  shows "unat b = 64 * (unat sz div 512 + 1)" and "unat (8 * b) = 512 * (unat sz div 512 + 1)"
proof -
  have m: "unat (sz mod 512) = unat sz mod 512" by (simp add: unat_mod)
  then have "unat (512 - sz mod 512) = 512 - unat sz mod 512"
    by (subst unat_sub) (simp_all add: word_le_nat_alt)
  then have "unat (sz + (512 - sz mod 512)) = unat sz + (512 - unat sz mod 512)"
    using assms(1) by (simp add: unat_word_ariths)
  also have "\<dots> = 512 * (unat sz div 512 + 1)"
    using mod_less_divisor [of 512 "unat sz"] by (simp add: minus_mod_eq_mult_div [symmetric])
  finally have s: "unat (sz + (512 - sz mod 512)) = 512 * (unat sz div 512 + 1)" .
  have "512 * (unat sz div 512 + 1) div 8 = 64 * (unat sz div 512 + 1)" by simp
  then show u: "unat b = 64 * (unat sz div 512 + 1)" by (simp add: b_def unat_div s)
  have "512 * (unat sz div 512) \<le> unat sz" by simp
  then have "512 * (unat sz div 512 + 1) < 2 ^ 64" using assms(1) by simp
  then show "unat (8 * b) = 512 * (unat sz div 512 + 1)" by (simp add: unat_word_ariths u)
qed

lemma selfBlockBloom512_new_ok:
  assumes "selfBlockBloom512_new fprGivenK sz n = Some f" "unat sz \<le> 2 ^ 64 - 1024"
  shows "block_ok f"
proof -
  define b where "b = (sz + (512 - sz mod 512)) div 8"
  note u = unat_block_bytes [OF assms(2), folded b_def]
  obtain k r where c: "choose_hashes (fprGivenK (of_nat (unat (8 * b div n)))) [1..<5] (None, 1) = (Some k, r)"
    and f: "b512_bytes f = replicate (unat b) 0" "b512_numHashes f = of_nat k"
      "b512_numBlocks f = ucast (8 * b div 512)"
    using assms(1)
    by (auto simp: selfBlockBloom512_new_def Let_def b_def simp del: upt_rec_numeral upt_Suc
        split: if_splits prod.splits option.splits)
  have "k \<in> set [1..<5]" using choose_hashes_best [OF c] by auto
  then have "unat (b512_numHashes f) = k" "1 \<le> k" by (simp_all add: f unat_of_nat_small)
  moreover have "unat (b512_numBlocks f) \<le> unat sz div 512 + 1"
    by (simp add: f unat_ucast_down unat_div u)
  ultimately show ?thesis by (simp add: block_ok_def f u)
qed

section \<open>Properties\<close>

text \<open>
  Adding a value to the blocked filter always succeeds (every write is inside the
  array), keeps the type invariant and sets exactly the bits of the value's block that its
  double hashes select.
\<close>

theorem addValue512_refines:
  assumes "block_ok f"
  shows "\<exists>g. addValue512 hash x f = Some g \<and> block_ok g \<and>
             bits_of (b512_bytes g) = bits_of (b512_bytes f) \<union> positions512 hash f x"
  using addValue512_Some [OF assms, of hash x] by blast

text \<open>
  Testing a value in the blocked filter always succeeds, and although it steps its hash
  incrementally where adding multiplies, it answers true exactly when all the bits that adding the
  value would set are set.
\<close>

theorem testValue512_refines:
  assumes "block_ok f"
  shows "testValue512 hash f x = Some (positions512 hash f x \<subseteq> bits_of (b512_bytes f))"
  using assms by (rule testValue512_eq)

text \<open>
  A blocked filter that the constructor made has no false negatives: after the whole data
  set has been added, the assertion of the throughput benchmark holds.
\<close>

theorem selfBlockBloom512_benchmark_assertion:
  assumes "selfBlockBloom512_new fprGivenK sz n = Some f" "unat sz \<le> 2 ^ 64 - 1024"
    and "length data < 2 ^ 32"
  shows "\<exists>g. benchFilter_add (addValue512 hash) data f = Some g \<and>
             benchFilter_assert (testValue512 hash) data g = Some True"
  using block_bloom.assert_holds selfBlockBloom512_new_ok [OF assms(1,2)] assms(3) by blast

text \<open>
  The number of hashes that the constructor of the blocked filter chooses lies between 1 and
  4, and its predicted false positive rate is below 1 and minimal among the four.
\<close>

theorem selfBlockBloom512_numHashes:
  assumes "selfBlockBloom512_new fprGivenK sz n = Some f"
  defines "rate \<equiv> fprGivenK (of_nat (unat (b512_sizeInBits f div b512_numElementsExpected f)))"
  shows "1 \<le> unat (b512_numHashes f) \<and> unat (b512_numHashes f) \<le> 4 \<and>
         b512_fpr f = rate (unat (b512_numHashes f)) \<and> b512_fpr f < 1 \<and>
         (\<forall>k. 1 \<le> k \<and> k \<le> 4 \<longrightarrow> b512_fpr f \<le> rate k)"
proof -
  obtain k where c: "choose_hashes rate [1..<5] (None, 1) = (Some k, b512_fpr f)"
    and f: "b512_numHashes f = of_nat k"
    using assms(1)
    by (auto simp: selfBlockBloom512_new_def Let_def rate_def simp del: upt_rec_numeral upt_Suc
        split: if_splits prod.splits option.splits)
  have b: "b512_fpr f \<le> 1" "\<forall>k \<in> {1..<5}. b512_fpr f \<le> rate k" "k \<in> {1..<5}" "b512_fpr f = rate k"
    using choose_hashes_best [OF c] by auto
  have "b512_fpr f \<noteq> 1"
    using c by (auto simp: upt_rec numeral_eq_Suc split: if_splits)
  moreover have "unat (b512_numHashes f) = k" using b(3) by (simp add: f unat_of_nat_small)
  ultimately show ?thesis using b by auto
qed

text \<open>
  The 32-bit block offset reaches only the first 4 GiB of the array, whatever the size
  of the filter: every bit a value selects lies below \<open>8 * 2 ^ 32\<close>, and a block from the
  \<open>2 ^ 26\<close>-th on is addressed at the offset of an earlier block. (The comment on the class
  says that filters up to 2 TB are supported.)
\<close>

theorem block_offset_reach:
  "(\<forall>p \<in> positions512 hash f x. p < 8 * 2 ^ 32) \<and>
   (2 ^ 26 \<le> unat (mult_reduce_block h (b512_numBlocks f)) \<longrightarrow>
     unat (block_offset f h) < 64 * unat (mult_reduce_block h (b512_numBlocks f)))"
proof -
  have off: "unat (block_offset f h) + 64 \<le> 2 ^ 32" for h
  proof -
    have "unat (mult_reduce_block h (b512_numBlocks f)) mod 2 ^ 26 + 1 \<le> 2 ^ 26"
      using mod_less_divisor [of "2 ^ 26"] by (simp add: Suc_le_eq)
    then have "64 * (unat (mult_reduce_block h (b512_numBlocks f)) mod 2 ^ 26 + 1) \<le> 64 * 2 ^ 26"
      by (rule mult_le_mono2)
    then show ?thesis by (simp add: unat_block_offset)
  qed
  have "8 * unat (block_offset f h) + unat ((d :: u32) AND 511) < 8 * 2 ^ 32" for h d
    using off [of h] mod_less_divisor [of 512 "unat d"] by (simp add: unat_and_511)
  then have "\<forall>p \<in> positions512 hash f x. p < 8 * 2 ^ 32"
    by (auto simp: positions512_def Let_def)
  moreover have "unat (mult_reduce_block h (b512_numBlocks f)) mod 2 ^ 26 < 2 ^ 26" by simp
  ultimately show ?thesis by (simp only: unat_block_offset) linarith
qed

definition example_block :: selfBlockBloom512 where
  "example_block = \<lparr>b512_sizeInBits = 512, b512_bytes = replicate 64 0,
     b512_numElementsExpected = 10, b512_fpr = 1 / 5, b512_numHashes = 4, b512_numBlocks = 1\<rparr>"

definition example_fpr :: "rat \<Rightarrow> nat \<Rightarrow> rat" where
  "example_fpr b k = 1 / of_nat (k + 1)"

lemma example_block_new: "selfBlockBloom512_new example_fpr 100 10 = Some example_block"
  by code_simp

lemma example_block_ok: "block_ok example_block"
  by (simp add: block_ok_def example_block_def)

theorem addValue512_refines_witness:
  "block_ok example_block \<and>
   (\<exists>g. addValue512 (\<lambda>x. x) 0x123456789ABCDEF0 example_block = Some g \<and> block_ok g \<and>
        bits_of (b512_bytes g) = bits_of (b512_bytes example_block) \<union>
          positions512 (\<lambda>x. x) example_block 0x123456789ABCDEF0)"
  using addValue512_refines [OF example_block_ok, of "\<lambda>x. x" "0x123456789ABCDEF0"] example_block_ok
  by blast

theorem testValue512_refines_witness:
  "block_ok example_block \<and>
   testValue512 (\<lambda>x. x) example_block 5 =
     Some (positions512 (\<lambda>x. x) example_block 5 \<subseteq> bits_of (b512_bytes example_block))"
  using testValue512_refines [OF example_block_ok, of "\<lambda>x. x" 5] example_block_ok by blast

theorem selfBlockBloom512_benchmark_assertion_witness:
  "\<exists>g. benchFilter_add (addValue512 (\<lambda>x. x * 0x9E3779B97F4A7C15)) [1, 2, 3] example_block = Some g \<and>
       benchFilter_assert (testValue512 (\<lambda>x. x * 0x9E3779B97F4A7C15)) [1, 2, 3] g = Some True"
  by (rule selfBlockBloom512_benchmark_assertion [OF example_block_new]) simp_all

theorem selfBlockBloom512_numHashes_witness:
  "1 \<le> unat (b512_numHashes example_block) \<and> b512_fpr example_block \<le> example_fpr 51 2"
  using selfBlockBloom512_numHashes [OF example_block_new]
  by (simp add: example_block_def)

definition large_block :: selfBlockBloom512 where
  "large_block = example_block\<lparr>b512_numBlocks := 0x8000000\<rparr>"

theorem block_offset_reach_witness:
  "2 ^ 26 \<le> unat (mult_reduce_block 0xFFFFFFFF (b512_numBlocks large_block)) \<and>
   unat (block_offset large_block 0xFFFFFFFF) <
     64 * unat (mult_reduce_block 0xFFFFFFFF (b512_numBlocks large_block))"
proof -
  have h: "2 ^ 26 \<le> unat (mult_reduce_block 0xFFFFFFFF (b512_numBlocks large_block))"
    by (simp add: large_block_def example_block_def unat_mult_reduce_block)
  show ?thesis
    using h block_offset_reach [where hash = "\<lambda>x. x" and x = 7 and f = large_block and h = "0xFFFFFFFF"]
    by blast
qed

end
