(* ===== verification/Register_Bloom.thy ===== *)
theory Register_Bloom
  imports ELH_Prelude Float_Model Filter_Bench Block_Bloom
begin

text \<open>
  The register-blocked Bloom filter of \<open>include/register_blocked_bloom.hh\<close> (class
  \<open>selfBlockBloom64\<close>): all bits of a value lie in one 64-bit word. The source builds the mask
  with \<open>testWord |= 1 << positionInBlock\<close>, a shift of the \<open>int\<close> literal 1 by a position of up to
  63: C++ defines it only below 32 (and \<open>1 << 31\<close> is the negative \<open>INT_MIN\<close>, whose conversion
  to \<open>uint64_t\<close> sets the upper 33 bits). The model answers \<open>None\<close> where the shift is undefined.
  Shown: when no position reaches 32 the filter never forgets; exactly when some position
  is 32 or more the operations are undefined; half of the word is therefore never used as
  intended.
\<close>

unbundle bit_operations_syntax

section \<open>The class\<close>

record selfBlockBloom64 =
  b64_sizeInBits :: u64
  b64_words :: "u64 list"
  b64_numElementsExpected :: u64
  b64_fpr :: rat
  b64_numHashes :: u32
  b64_numBlocks :: u32

definition selfBlockBloom64_new :: "(rat \<Rightarrow> nat \<Rightarrow> rat) \<Rightarrow> u64 \<Rightarrow> u64 \<Rightarrow> selfBlockBloom64 option" where
  "selfBlockBloom64_new fprGivenK64 sz n =
     (let sizeInBytes = (sz + (512 - sz mod 512)) div 8;
          bits = 8 * sizeInBytes
      in if n = 0 then None
         else case choose_hashes (fprGivenK64 (of_nat (unat (bits div n)))) [1..<3] (None, 1) of
           (None, _) \<Rightarrow> None
         | (Some k, fpr) \<Rightarrow>
             Some \<lparr>b64_sizeInBits = bits, b64_words = replicate (unat (sizeInBytes div 8)) 0,
                   b64_numElementsExpected = n, b64_fpr = fpr, b64_numHashes = of_nat k,
                   b64_numBlocks = ucast (bits div 64)\<rparr>)"

text \<open>\<open>1 << p\<close> on \<open>int\<close>, then converted to \<open>uint64_t\<close> (sign extension).\<close>

definition int_shl1 :: "u32 \<Rightarrow> u64 option" where
  "int_shl1 p = (if unat p < 32 then Some (scast (shl (1 :: u32) (unat p))) else None)"

text \<open>\<open>for (i = 1; i <= n; i++)\<close> of \<open>addValue\<close>: takes six bits of \<open>hash2\<close> per round.\<close>

primrec addMask64 :: "nat \<Rightarrow> u32 \<Rightarrow> u64 \<Rightarrow> u64 option" where
  "addMask64 0 hash2 testWord = Some testWord"
| "addMask64 (Suc n) hash2 testWord =
     (let positionInBlock = hash2 AND 63 in
      do {
        m \<leftarrow> int_shl1 positionInBlock;
        addMask64 n (shr hash2 6) (testWord OR m)
      })"

text \<open>The loop \<open>for (i = 1; i < n; i++)\<close> of \<open>testValue\<close> also hands on the shifted \<open>hash2\<close>.\<close>

primrec testMask64 :: "nat \<Rightarrow> u32 \<Rightarrow> u64 \<Rightarrow> (u32 \<times> u64) option" where
  "testMask64 0 hash2 testWord = Some (hash2, testWord)"
| "testMask64 (Suc n) hash2 testWord =
     (let positionInBlock = hash2 AND 63 in
      do {
        m \<leftarrow> int_shl1 positionInBlock;
        testMask64 n (shr hash2 6) (testWord OR m)
      })"

definition addValue64 :: "('x \<Rightarrow> u64) \<Rightarrow> 'x \<Rightarrow> selfBlockBloom64 \<Rightarrow> selfBlockBloom64 option" where
  "addValue64 hash x f =
     (let hash_full = hash x;
          hash1 = ucast hash_full :: u32;
          hash2 = ucast (shr hash_full 32) :: u32;
          wordNum = unat (mult_reduce_block hash1 (b64_numBlocks f))
      in do {
        testWord \<leftarrow> addMask64 (unat (b64_numHashes f)) hash2 0;
        if wordNum < length (b64_words f)
        then Some (f\<lparr>b64_words := (b64_words f)[wordNum := b64_words f ! wordNum OR testWord]\<rparr>)
        else None
      })"

definition testValue64 :: "('x \<Rightarrow> u64) \<Rightarrow> selfBlockBloom64 \<Rightarrow> 'x \<Rightarrow> bool option" where
  "testValue64 hash f x =
     (let hash_full = hash x;
          hash1 = ucast hash_full :: u32;
          hash2 = ucast (shr hash_full 32) :: u32;
          wordNum = unat (mult_reduce_block hash1 (b64_numBlocks f))
      in do {
        (hash2, testWord) \<leftarrow> testMask64 (unat (b64_numHashes f) - 1) hash2 0;
        m \<leftarrow> int_shl1 (hash2 AND 63);
        let testWord = testWord OR m;
        if wordNum < length (b64_words f)
        then Some (testWord AND b64_words f ! wordNum = testWord)
        else None
      })"

definition reg_ok :: "selfBlockBloom64 \<Rightarrow> bool" where
  "reg_ok f \<longleftrightarrow> b64_words f \<noteq> [] \<and> unat (b64_numBlocks f) \<le> length (b64_words f) \<and>
     1 \<le> unat (b64_numHashes f)"

text \<open>The six-bit position that round \<open>i\<close> takes from the upper half of the hash.\<close>

definition reg_position :: "u64 \<Rightarrow> nat \<Rightarrow> nat" where
  "reg_position h i = unat (shr (ucast (shr h 32) :: u32) (6 * i) AND 63)"

definition shifts_defined :: "selfBlockBloom64 \<Rightarrow> u64 \<Rightarrow> bool" where
  "shifts_defined f h \<longleftrightarrow> (\<forall>i < unat (b64_numHashes f). reg_position h i < 32)"

definition reg_grows :: "selfBlockBloom64 \<Rightarrow> selfBlockBloom64 \<Rightarrow> bool" where
  "reg_grows f g \<longleftrightarrow> length (b64_words f) = length (b64_words g) \<and>
     (\<forall>i < length (b64_words f). b64_words f ! i OR b64_words g ! i = b64_words g ! i) \<and>
     b64_numBlocks f = b64_numBlocks g \<and> b64_numHashes f = b64_numHashes g"

section \<open>The two mask loops agree\<close>

lemma testMask64_add:
  "addMask64 (Suc n) h w =
     testMask64 n h w \<bind> (\<lambda>(h', w'). int_shl1 (h' AND 63) \<bind> (\<lambda>m. Some (w' OR m)))"
proof (induction n arbitrary: h w)
  case 0
  show ?case by (simp add: Let_def)
next
  case (Suc n)
  show ?case
    by (simp only: addMask64.simps(2) [of "Suc n"] Suc.IH Let_def testMask64.simps Option.bind_assoc)
qed

lemma testValue64_mask:
  assumes "reg_ok f"
  shows "testValue64 hash f x =
     addMask64 (unat (b64_numHashes f)) (ucast (shr (hash x) 32)) 0 \<bind> (\<lambda>testWord.
       let wordNum = unat (mult_reduce_block (ucast (hash x)) (b64_numBlocks f)) in
       if wordNum < length (b64_words f)
       then Some (testWord AND b64_words f ! wordNum = testWord) else None)"
proof -
  obtain n where n: "unat (b64_numHashes f) = Suc n"
    using assms by (auto simp: reg_ok_def Suc_le_eq dest: gr0_implies_Suc)
  show ?thesis
    unfolding testValue64_def Let_def n testMask64_add
    by (auto split: bind_splits)
qed

lemma wordNum_bound:
  assumes "reg_ok f"
  shows "unat (mult_reduce_block h (b64_numBlocks f)) < length (b64_words f)"
proof (cases "b64_numBlocks f = 0")
  case True
  with assms show ?thesis by (simp add: reg_ok_def mult_reduce_block_def)
next
  case False
  from mult_reduce_block_less [OF this, of h] assms show ?thesis by (simp add: reg_ok_def)
qed

text \<open>The mask loop is defined exactly when every position it takes is below 32.\<close>

lemma addMask64_defined:
  "addMask64 n h w \<noteq> None \<longleftrightarrow> (\<forall>i < n. unat (shr h (6 * i) AND 63) < 32)"
proof (induction n arbitrary: h w)
  case (Suc n)
  have "(\<forall>i < Suc n. unat (shr h (6 * i) AND 63) < 32) \<longleftrightarrow>
      unat (h AND 63) < 32 \<and> (\<forall>i < n. unat (shr (shr h 6) (6 * i) AND 63) < 32)"
    by (simp add: All_less_Suc2 add.commute [of 6])
  then show ?case
    using Suc.IH [of "shr h 6"] by (simp add: Let_def int_shl1_def)
qed simp

lemma mask_defined_iff:
  "addMask64 (unat (b64_numHashes f)) (ucast (shr h 32)) 0 \<noteq> None \<longleftrightarrow> shifts_defined f h"
  by (simp only: addMask64_defined shifts_defined_def reg_position_def)

lemma word_or_absorb: "(m :: u64) AND (w OR m) = m"
  by (simp add: bit_eq_iff bit_and_iff bit_or_iff)

lemma word_and_mono: "(v :: u64) OR w = w \<Longrightarrow> m AND v = m \<Longrightarrow> m AND w = m"
  by (auto simp: bit_eq_iff bit_and_iff bit_or_iff)

lemma reg_blocks:
  fixes sz :: u64
  assumes "unat sz \<le> 2 ^ 64 - 1024"
  defines "b \<equiv> (sz + (512 - sz mod 512)) div 8"
  shows "unat (b div 8) = 8 * (unat sz div 512 + 1)"
    and "unat (ucast (8 * b div 64) :: u32) \<le> 8 * (unat sz div 512 + 1)"
proof -
  note u = unat_block_bytes [OF assms(1), folded b_def]
  show "unat (b div 8) = 8 * (unat sz div 512 + 1)" by (simp add: unat_div u)
  have "unat (8 * b div 64) = 8 * (unat sz div 512 + 1)" by (simp add: unat_div u)
  then show "unat (ucast (8 * b div 64) :: u32) \<le> 8 * (unat sz div 512 + 1)"
    by (simp only: unat_ucast_down mod_less_eq_dividend)
qed

section \<open>Properties\<close>

text \<open>
  The constructor of the register-blocked filter allocates one 64-bit word per block for
  every requested size (of at most \<open>2 ^ 64 - 1024\<close> bits) and chooses one or two hashes, so the
  filter it returns satisfies the type invariant.
\<close>

theorem selfBlockBloom64_new_ok:
  assumes "selfBlockBloom64_new fprGivenK64 sz n = Some f" "unat sz \<le> 2 ^ 64 - 1024"
  shows "reg_ok f \<and> unat (b64_numHashes f) \<in> {1, 2}"
proof -
  define b where "b = (sz + (512 - sz mod 512)) div 8"
  note u = reg_blocks [OF assms(2), folded b_def]
  obtain k r where c: "choose_hashes (fprGivenK64 (of_nat (unat (8 * b div n)))) [1..<3] (None, 1) = (Some k, r)"
    and f: "b64_words f = replicate (unat (b div 8)) 0" "b64_numHashes f = of_nat k"
      "b64_numBlocks f = ucast (8 * b div 64)"
    using assms(1)
    by (auto simp: selfBlockBloom64_new_def Let_def b_def simp del: upt_rec_numeral upt_Suc
        split: if_splits prod.splits option.splits)
  have "k \<in> {1..<3}" using choose_hashes_best [OF c] by auto
  then have "unat (b64_numHashes f) = k" "k \<in> {1, 2}" by (auto simp: f unat_of_nat_small)
  then show ?thesis using u by (auto simp: reg_ok_def f)
qed

text \<open>
  For a value whose six-bit positions are all below 32, adding to and testing the
  register-blocked filter succeed, adding keeps the invariant and only sets bits, and the
  value tests true after it was added.
\<close>

theorem addValue64_then_test:
  assumes "reg_ok f" "shifts_defined f (hash x)"
  shows "\<exists>g. addValue64 hash x f = Some g \<and> reg_ok g \<and> reg_grows f g \<and>
             testValue64 hash g x = Some True"
proof -
  define w where "w = unat (mult_reduce_block (ucast (hash x)) (b64_numBlocks f))"
  have wl: "w < length (b64_words f)" unfolding w_def by (rule wordNum_bound [OF assms(1)])
  obtain m where m: "addMask64 (unat (b64_numHashes f)) (ucast (shr (hash x) 32)) 0 = Some m"
    using mask_defined_iff assms(2) by blast
  define g where "g = f\<lparr>b64_words := (b64_words f)[w := b64_words f ! w OR m]\<rparr>"
  have "addValue64 hash x f = Some g"
    using m wl by (simp add: addValue64_def Let_def g_def flip: w_def)
  moreover have ok: "reg_ok g" using assms(1) by (simp add: reg_ok_def g_def)
  moreover have "reg_grows f g"
    using wl by (simp add: reg_grows_def g_def nth_list_update)
  moreover have "testValue64 hash g x = Some True"
    unfolding testValue64_mask [OF ok] using m wl
    by (simp add: g_def Let_def word_or_absorb flip: w_def)
  ultimately show ?thesis by blast
qed

text \<open>
  Once a value tests true in the register-blocked filter it tests true in every
  filter that later additions can reach: no operation clears a bit.
\<close>

theorem testValue64_stable:
  assumes "reg_ok f" "reg_grows f g" "testValue64 hash f x = Some True"
  shows "testValue64 hash g x = Some True"
proof -
  have ok: "reg_ok g" using assms(1,2) by (auto simp: reg_ok_def reg_grows_def)
  define w where "w = unat (mult_reduce_block (ucast (hash x)) (b64_numBlocks f))"
  have g: "b64_numBlocks g = b64_numBlocks f" "b64_numHashes g = b64_numHashes f"
    "w < length (b64_words f) \<Longrightarrow> b64_words f ! w OR b64_words g ! w = b64_words g ! w"
    "length (b64_words g) = length (b64_words f)"
    using assms(2) by (auto simp: reg_grows_def)
  show ?thesis
    using assms(3) g unfolding testValue64_mask [OF ok] testValue64_mask [OF assms(1)]
    by (auto simp: Let_def bind_eq_Some_conv split: if_splits intro: word_and_mono simp flip: w_def)
qed

text \<open>
  C34. Both operations of the register-blocked filter shift the \<open>int\<close> 1 by a six-bit position, so
  on a filter with a valid word index they have undefined behaviour exactly when one of the
  positions taken from the hash is 32 or more.
\<close>

theorem register_bloom_undefined_iff:
  assumes "reg_ok f"
  shows "(addValue64 hash x f = None \<longleftrightarrow> \<not> shifts_defined f (hash x)) \<and>
         (testValue64 hash f x = None \<longleftrightarrow> \<not> shifts_defined f (hash x))"
proof -
  have w: "unat (mult_reduce_block (ucast (hash x)) (b64_numBlocks f)) < length (b64_words f)"
    by (rule wordNum_bound [OF assms])
  show ?thesis
    using mask_defined_iff [of f "hash x"] w unfolding testValue64_mask [OF assms]
    by (auto simp: addValue64_def Let_def split: bind_splits)
qed

definition example_reg :: selfBlockBloom64 where
  "example_reg = \<lparr>b64_sizeInBits = 512, b64_words = replicate 8 0, b64_numElementsExpected = 10,
     b64_fpr = 1 / 3, b64_numHashes = 2, b64_numBlocks = 8\<rparr>"

lemma shifts_defined_2:
  "unat (b64_numHashes f) = 2 \<Longrightarrow>
     shifts_defined f h \<longleftrightarrow> reg_position h 0 < 32 \<and> reg_position h 1 < 32"
  by (auto simp: shifts_defined_def less_2_cases_iff)

lemma example_reg_new: "selfBlockBloom64_new example_fpr 100 10 = Some example_reg"
  by (simp add: selfBlockBloom64_new_def example_fpr_def example_reg_def upt_rec)

lemma example_reg_ok: "reg_ok example_reg"
  by code_simp

theorem selfBlockBloom64_new_ok_witness: "reg_ok example_reg \<and> unat (b64_numHashes example_reg) \<in> {1, 2}"
  by (rule selfBlockBloom64_new_ok [OF example_reg_new]) simp

theorem addValue64_then_test_witness:
  "reg_ok example_reg \<and> shifts_defined example_reg 0x000000C580000000 \<and>
   (\<exists>g. addValue64 (\<lambda>x. x) 0x000000C580000000 example_reg = Some g \<and> reg_ok g \<and>
        reg_grows example_reg g \<and> testValue64 (\<lambda>x. x) g 0x000000C580000000 = Some True)"
proof -
  have d: "shifts_defined example_reg 0x000000C580000000"
    by (simp add: shifts_defined_2 example_reg_def reg_position_def)
  show ?thesis
    using example_reg_ok d addValue64_then_test [OF example_reg_ok, of "\<lambda>x. x" "0x000000C580000000"] by simp
qed

definition full_reg :: selfBlockBloom64 where
  "full_reg = example_reg\<lparr>b64_words := replicate 8 1\<rparr>"

theorem testValue64_stable_witness:
  "testValue64 (\<lambda>x. x) full_reg 0 = Some True"
proof (rule testValue64_stable [of full_reg])
  show "reg_ok full_reg" by code_simp
  show "reg_grows full_reg full_reg" by (simp add: reg_grows_def)
  show "testValue64 (\<lambda>x. x) full_reg 0 = Some True" by code_simp
qed

theorem register_bloom_undefined_iff_witness:
  "addValue64 (\<lambda>x. x) 0x0000002000000000 example_reg = None \<and>
   testValue64 (\<lambda>x. x) example_reg 0x0000002000000000 = None"
proof -
  have "\<not> shifts_defined example_reg 0x0000002000000000"
    by (simp add: shifts_defined_2 example_reg_def reg_position_def)
  then show ?thesis
    using register_bloom_undefined_iff [OF example_reg_ok, of "\<lambda>x. x" "0x0000002000000000"] by simp
qed

end
