(* ===== verification/Filter_Driver.thy ===== *)
theory Filter_Driver
  imports Self_Bloom Block_Bloom Register_Bloom Bench_Timing
begin

text \<open>
  The filter benchmarks of \<open>benchmark_filters.cpp\<close>: how a filter is measured
  (\<open>benchFilter_throughput\<close>, \<open>benchFilter_latency\<close>, \<open>benchFilter\<close>, \<open>relay_filter_statistics\<close>) and how the
  drivers \<open>bench_selfbloom\<close>, \<open>bench_blockbloom\<close> and \<open>bench_register_block_bloom\<close> choose hash functions from
  the estimated entropies, build the filters and run the measurements in order. The state holds what
  a benchmark reports: the false positive rates and the recorded times. The theorems show
  that the throughput benchmark reports the exact false positive rate and the time of its lookups, and that the drivers
  run without undefined behaviour, and where they do not.
\<close>

section \<open>Statistics\<close>

text \<open>
  \<open>fprs[metric][name]\<close>: a rate is \<open>None\<close> when it is not a finite number, which a division by zero unsuccessful probes
  gives; an absent entry is created as 0.
\<close>

type_synonym fpr_table = "string \<Rightarrow> (string \<rightharpoonup> rat option)"

definition float_ratio :: "int \<Rightarrow> int \<Rightarrow> rat option" where
  "float_ratio a b = (if b = 0 then None else Some (sflt (sflt (of_int a) / sflt (of_int b))))"

definition add_fpr :: "string \<Rightarrow> string \<Rightarrow> rat option \<Rightarrow> fpr_table \<Rightarrow> fpr_table" where
  "add_fpr metric name fpr t =
     (let old = (case t metric name of None \<Rightarrow> Some 0 | Some v \<Rightarrow> v);
          new = (case (old, fpr) of (Some a, Some b) \<Rightarrow> Some (sdbl (a + b)) | _ \<Rightarrow> None)
      in t(metric := (t metric)(name \<mapsto> new)))"

definition relay_filter_statistics ::
    "string \<Rightarrow> bytes list \<Rightarrow> int \<Rightarrow> string \<Rightarrow> int \<Rightarrow> fpr_table \<Rightarrow> bench_error + fpr_table" where
  "relay_filter_statistics metric_class probes result name numProbesUnsuccessful t =
     (if metric_class = ''filter_latency'' then
        let fps = c_int result
        in Inr (add_fpr ''filter_latency'' name (float_ratio fps numProbesUnsuccessful) t)
      else if metric_class = ''filter_throughput'' then
        let successful = c_int (int (length probes) - numProbesUnsuccessful);
            fps = c_int (result - successful)
        in Inr (add_fpr ''filter_throughput'' name (float_ratio fps numProbesUnsuccessful) t)
      else Inl Exit)"

section \<open>Measuring one filter\<close>

text \<open>
  The timed lambda: per step, the dummy hashing of a block of keys and the lookups of the same keys. Keys after the
  last full block are not looked up.
\<close>

definition timed_tests ::
    "clock \<Rightarrow> (bytes \<Rightarrow> bool option) \<Rightarrow> bytes list \<Rightarrow> bench_state \<Rightarrow> (u64 \<times> u64 \<times> bench_state) option" where
  "timed_tests clock test p st =
     for_opt [0..<length p div step_size] (\<lambda>i (s, dummy, st). do {
       dummy \<leftarrow> dummy_hashing p i dummy;
       s \<leftarrow> for_opt [i * step_size..<(i + 1) * step_size]
              (\<lambda>j s. nth_opt p j \<bind> test \<bind> (\<lambda>b. Some (s + (if b then 1 else 0)))) s;
       Some (s, dummy, add_elapsed_filter clock st)
     }) (0, 0, st\<lparr>total_time_without_dummy_hashing_filter := 0\<rparr>)"

text \<open>The false positive rates and the state of the benchmarks.\<close>

type_synonym filter_state = "fpr_table \<times> bench_state"

definition benchFilter_throughput ::
    "bench_config \<Rightarrow> clock \<Rightarrow> (bytes \<Rightarrow> 'f \<Rightarrow> 'f option) \<Rightarrow> ('f \<Rightarrow> bytes \<Rightarrow> bool option) \<Rightarrow> bytes list \<Rightarrow> bytes list \<Rightarrow>
     'f \<Rightarrow> string \<Rightarrow> int \<Rightarrow> filter_state \<Rightarrow> bench_error + 'f \<times> filter_state" where
  "benchFilter_throughput cfg clock add test data probes bf name numProbesUnsuccessful = (\<lambda>(t, st).
     bind_result (defined (if \<not> table_metrics cfg ''latency'' then benchFilter_add add data bf else Some bf)) (\<lambda>bf.
     bind_result (defined (benchFilter_assert test data bf)) (\<lambda>ok.
     if \<not> ok then Inl Assertion_failed else
     bind_result (defined (benchFilter_count test probes bf 0)) (\<lambda>s_w.
     bind_result (benchmark_result clock name ''filter_throughput''
         (\<lambda>st. bind_result (defined (timed_tests clock (test bf) probes st)) (\<lambda>(s, dummy, st). Inr (sint s, st))) st)
       (\<lambda>(result, st).
     bind_result (relay_filter_statistics ''filter_throughput'' probes result name numProbesUnsuccessful t) (\<lambda>t.
     Inr (bf, t, st)))))))"

text \<open>Assignment to an element of a \<open>std::vector\<close>; \<open>reserve\<close> leaves the size as it is.\<close>

definition vec_set :: "'a list \<Rightarrow> nat \<Rightarrow> 'a \<Rightarrow> 'a list option" where
  "vec_set v i x = (if i < length v then Some (v[i := x]) else None)"

definition assign_probes :: "(bytes \<rightharpoonup> nat) \<Rightarrow> bytes list \<Rightarrow> bool list option" where
  "assign_probes m p =
     for_opt [0..<length p] (\<lambda>i v. nth_opt p i \<bind> (\<lambda>x. vec_set v i (m x \<noteq> None))) []"

text \<open>The lookup loop of the latency benchmark skips the key after one that is found.\<close>

function latency_lookups ::
    "(bytes \<Rightarrow> bool option) \<Rightarrow> bool list \<Rightarrow> bytes list \<Rightarrow> nat \<Rightarrow> nat \<Rightarrow> u64 \<Rightarrow> nat \<Rightarrow> (u64 \<times> nat) option" where
  "latency_lookups test found p j limit s counter =
     (if j < limit then do {
        x \<leftarrow> nth_opt p j;
        interm \<leftarrow> test x;
        known \<leftarrow> nth_opt found j;
        latency_lookups test found p (j + (if interm then 1 else 0) + 1) limit
          (s + (if interm \<and> \<not> known then 1 else 0)) (counter + 1)
      } else Some (s, counter))"
  by pat_completeness auto
termination by (relation "measure (\<lambda>(test, found, p, j, limit, s, counter). limit - j)") auto

declare latency_lookups.simps [simp del]

definition timed_latency ::
    "clock \<Rightarrow> (bytes \<Rightarrow> bool option) \<Rightarrow> bool list \<Rightarrow> bytes list \<Rightarrow> bench_state \<Rightarrow> (u64 \<times> u64 \<times> bench_state) option" where
  "timed_latency clock test found p st =
     for_opt [0..<length p div step_size] (\<lambda>i (s, dummy, st). do {
       dummy \<leftarrow> dummy_hashing p i dummy;
       (s, counter) \<leftarrow> latency_lookups test found p (i * step_size) ((i + 1) * step_size) s 0;
       Some (s, dummy, add_elapsed_scaled clock counter st)
     }) (0, 0, st\<lparr>total_time_without_dummy_hashing_filter := 0\<rparr>)"

text \<open>The Abseil hash map of the data, which the latency benchmark fills beside the filter, is a finite map.\<close>

definition latency_add :: "(bytes \<Rightarrow> 'f \<Rightarrow> 'f option) \<Rightarrow> bytes list \<Rightarrow> 'f \<Rightarrow> ('f \<times> (bytes \<rightharpoonup> nat)) option" where
  "latency_add add data bf =
     for_opt [0..<length data] (\<lambda>i (bf, m). do {
       x \<leftarrow> nth_opt data i;
       bf \<leftarrow> add x bf;
       Some (bf, m(x \<mapsto> i))
     }) (bf, Map.empty)"

definition benchFilter_latency ::
    "clock \<Rightarrow> (bytes \<Rightarrow> 'f \<Rightarrow> 'f option) \<Rightarrow> ('f \<Rightarrow> bytes \<Rightarrow> bool option) \<Rightarrow> bytes list \<Rightarrow> bytes list \<Rightarrow>
     'f \<Rightarrow> string \<Rightarrow> int \<Rightarrow> filter_state \<Rightarrow> bench_error + 'f \<times> filter_state" where
  "benchFilter_latency clock add test data probes bf name numProbesUnsuccessful = (\<lambda>(t, st).
     bind_result (defined (latency_add add data bf)) (\<lambda>(bf, m).
     bind_result (defined (benchFilter_assert test data bf)) (\<lambda>ok.
     if \<not> ok then Inl Assertion_failed else
     bind_result (defined (assign_probes m probes)) (\<lambda>probe_to_filter_map.
     bind_result (defined (benchFilter_count test probes bf 0)) (\<lambda>s_w.
     bind_result (benchmark_result clock name ''filter_latency''
         (\<lambda>st. bind_result (defined (timed_latency clock (test bf) probe_to_filter_map probes st))
                 (\<lambda>(s, dummy, st). Inr (sint s, st))) st)
       (\<lambda>(result, st).
     bind_result (relay_filter_statistics ''filter_latency'' probes result name numProbesUnsuccessful t) (\<lambda>t.
     Inr (bf, t, st))))))))"

definition benchFilter ::
    "bench_config \<Rightarrow> clock \<Rightarrow> (bytes \<Rightarrow> 'f \<Rightarrow> 'f option) \<Rightarrow> ('f \<Rightarrow> bytes \<Rightarrow> bool option) \<Rightarrow> bytes list \<Rightarrow> bytes list \<Rightarrow>
     'f \<Rightarrow> string \<Rightarrow> int \<Rightarrow> filter_state \<Rightarrow> bench_error + 'f \<times> filter_state" where
  "benchFilter cfg clock add test data probes bf name numProbesUnsuccessful ts =
     bind_result
       (if table_metrics cfg ''latency''
        then benchFilter_latency clock add test data probes bf name numProbesUnsuccessful ts else Inr (bf, ts)) (\<lambda>(bf, ts).
     if table_metrics cfg ''throughput''
     then benchFilter_throughput cfg clock add test data probes bf name numProbesUnsuccessful ts else Inr (bf, ts))"

text \<open>\<open>in_filter\<close> searches the data for a probe.\<close>

fun in_filter :: "bytes \<Rightarrow> bytes list \<Rightarrow> bool" where
  "in_filter key [] = False"
| "in_filter key (d # data) = (if key = d then True else in_filter key data)"

lemma in_filter_iff: "in_filter key data \<longleftrightarrow> key \<in> set data"
  by (induction data) auto

section \<open>The drivers\<close>

text \<open>
  A filter over a functor: the operations of the class call the functor once, on the key, first.
\<close>

definition hashed_add :: "((bytes \<Rightarrow> u64) \<Rightarrow> bytes \<Rightarrow> 'f \<Rightarrow> 'f option) \<Rightarrow> (bytes \<Rightarrow> u64 option) \<Rightarrow> bytes \<Rightarrow> 'f \<Rightarrow> 'f option" where
  "hashed_add add hash x bf = hash x \<bind> (\<lambda>h. add (\<lambda>_. h) x bf)"

definition hashed_test :: "((bytes \<Rightarrow> u64) \<Rightarrow> 'f \<Rightarrow> bytes \<Rightarrow> bool option) \<Rightarrow> (bytes \<Rightarrow> u64 option) \<Rightarrow> 'f \<Rightarrow> bytes \<Rightarrow> bool option" where
  "hashed_test test hash bf x = hash x \<bind> (\<lambda>h. test (\<lambda>_. h) bf x)"

text \<open>
  One benchmark of a driver: the functor is made (or cannot be), the filter constructed and measured.
\<close>

definition run_filter ::
    "bench_config \<Rightarrow> clock \<Rightarrow> 'f option \<Rightarrow> ((bytes \<Rightarrow> u64) \<Rightarrow> bytes \<Rightarrow> 'f \<Rightarrow> 'f option) \<Rightarrow> ((bytes \<Rightarrow> u64) \<Rightarrow> 'f \<Rightarrow> bytes \<Rightarrow> bool option) \<Rightarrow>
     bytes list \<Rightarrow> bytes list \<Rightarrow> int \<Rightarrow> string \<Rightarrow> (bytes \<Rightarrow> u64 option) option \<Rightarrow> filter_state \<Rightarrow> bench_error + filter_state" where
  "run_filter cfg clock new_filter add test data probes numProbesUnsuccessful name hasher ts =
     bind_result (defined hasher) (\<lambda>hash.
     bind_result (defined new_filter) (\<lambda>bf.
     bind_result (benchFilter cfg clock (hashed_add add hash) (hashed_test test hash) data probes bf name numProbesUnsuccessful ts)
       (\<lambda>(_, ts). Inr ts)))"

definition bench_selfbloom ::
    "platform \<Rightarrow> bench_config \<Rightarrow> clock \<Rightarrow> bytes list \<Rightarrow> bytes list \<Rightarrow> (int \<rightharpoonup> int list) \<Rightarrow> (int \<rightharpoonup> double list) \<Rightarrow> int \<Rightarrow>
     filter_state \<Rightarrow> bench_error + filter_state" where
  "bench_selfbloom lib cfg clock data probes locations entropies numProbesUnsuccessful =
     (let needed_entropy = sdbl (sdbl (lib_log2 lib (of_nat (length data)) - lib_log2 lib (added_fpr cfg)) - 1);
          num = num_for_chunk (Fin needed_entropy) entropies;
          new_filter = generateNumBits (bits_per_element cfg) (of_nat (length data)) \<bind>
                     (\<lambda>bits. selfBloom_new (lib_ln2 lib) (lib_pow lib) bits (of_nat (length data)));
          bench = run_filter cfg clock new_filter addValue testValue data probes numProbesUnsuccessful;
          sub8 = (\<lambda>family. select_sub8 family (dataIsFixedLength cfg) (num 8) (at_chunk locations 8))
      in run_steps
        [(hashfuncs cfg ''standard'', bench ''selfbloom-std'' (Some (Some \<circ> std_hash lib))),
         (hashfuncs cfg ''wyhash'', bench ''selfbloom-wyhash'' (Some hash_wyhash_call)),
         (hashfuncs cfg ''xxh3'', bench ''selfbloom-xxh32'' (Some hash_xxh64_call)),
         (hashfuncs cfg ''crc32'', bench ''selfbloom-crc32'' (Some CRC32Hash_call)),
         (hashfuncs cfg ''xxh3_sub8'', bench ''selfbloom-xxh32_sub8'' (sub8 xxh3_sub8)),
         (hashfuncs cfg ''wyhash_sub8'', bench ''selfbloom-wyhash_sub8'' (sub8 wyhash_sub8)),
         (hashfuncs cfg ''crc_wyhash_sub8'', bench ''selfbloom-crc_wyhash_sub8'' (sub8 crc_sub8_filter)),
         (hashfuncs cfg ''mmh2_sub4'', bench ''selfbloom-sub4_mmh2''
            (map_option (\<lambda>hl. hash_sub4_mmh2_call hl (nat (num 4))) (hash_locations (at_chunk locations 4) (num 4)))),
         (hashfuncs cfg ''sdbm_sub1'', bench ''selfbloom-sub1_sbdm''
            (map_option (\<lambda>hl. hash_sub1_sdbm_call hl (nat (num 1))) (hash_locations (at_chunk locations 4) (num 1))))])"

definition bench_blockbloom ::
    "platform \<Rightarrow> bench_config \<Rightarrow> clock \<Rightarrow> bytes list \<Rightarrow> bytes list \<Rightarrow> (int \<rightharpoonup> int list) \<Rightarrow> (int \<rightharpoonup> double list) \<Rightarrow> int \<Rightarrow>
     filter_state \<Rightarrow> bench_error + filter_state" where
  "bench_blockbloom lib cfg clock data probes locations entropies numProbesUnsuccessful =
     (let needed_entropy = sdbl (lib_log2 lib (of_nat (length data)) - lib_log2 lib (added_fpr cfg));
          num = num_for_chunk_block (Fin needed_entropy) entropies;
          new_filter = generateNumBits (bits_per_element cfg) (of_nat (length data)) \<bind>
                     (\<lambda>bits. selfBlockBloom512_new (fprGivenK512 lib) bits (of_nat (length data)));
          bench = run_filter cfg clock new_filter addValue512 testValue512 data probes numProbesUnsuccessful;
          sub8 = (\<lambda>family. select_sub8 family (dataIsFixedLength cfg) (num 8) (at_chunk locations 8))
      in run_steps
        [(hashfuncs cfg ''standard'', bench ''blockbloom-std'' (Some (Some \<circ> std_hash lib))),
         (hashfuncs cfg ''sub4_mmh2'', bench ''blockbloom-sub4_mmh2''
            (map_option (\<lambda>hl. hash_sub4_mmh2_call hl (nat (num 4))) (hash_locations (at_chunk locations 4) (num 4)))),
         (hashfuncs cfg ''sub1_sdbm'', bench ''blockbloom-sub1_sbdm''
            (map_option (\<lambda>hl. hash_sub1_sdbm_call hl (nat (num 1))) (hash_locations (at_chunk locations 1) (num 1)))),
         (hashfuncs cfg ''wyhash'', bench ''blockbloom-wyhash'' (Some hash_wyhash_call)),
         (hashfuncs cfg ''xxh3'', bench ''blockbloom-xxh32'' (Some hash_xxh64_call)),
         (hashfuncs cfg ''xxh3_sub8'', bench ''blockbloom-xxh32_sub8'' (sub8 xxh3_sub8_block)),
         (hashfuncs cfg ''wyhash_sub8'', bench ''blockbloom-wyhash_sub8'' (sub8 wyhash_sub8_block))])"

definition bench_register_block_bloom ::
    "platform \<Rightarrow> bench_config \<Rightarrow> clock \<Rightarrow> bytes list \<Rightarrow> bytes list \<Rightarrow> (int \<rightharpoonup> int list) \<Rightarrow> (int \<rightharpoonup> double list) \<Rightarrow> int \<Rightarrow>
     filter_state \<Rightarrow> bench_error + filter_state" where
  "bench_register_block_bloom lib cfg clock data probes locations entropies numProbesUnsuccessful =
     (let needed_entropy = sdbl (lib_log2 lib (of_nat (length data)) - lib_log2 lib (added_fpr cfg));
          num = num_for_chunk (Fin needed_entropy) entropies;
          new_filter = generateNumBits (bits_per_element_rb cfg) (of_nat (length data)) \<bind>
                     (\<lambda>bits. selfBlockBloom64_new (fprGivenK64 lib) bits (of_nat (length data)));
          bench = run_filter cfg clock new_filter addValue64 testValue64 data probes numProbesUnsuccessful;
          sub8 = (\<lambda>family. select_sub8 family (dataIsFixedLength cfg) (num 8) (at_chunk locations 8))
      in run_steps
        [(hashfuncs cfg ''standard'', bench ''registerbloom-std'' (Some (Some \<circ> std_hash lib))),
         (hashfuncs cfg ''sub4_mmh2'', bench ''registerbloom-sub4_mmh2''
            (map_option (\<lambda>hl. hash_sub4_mmh2_call hl (nat (num 4))) (hash_locations (at_chunk locations 4) (num 4)))),
         (hashfuncs cfg ''sub1_sdbm'', bench ''registerbloom-sub1_sbdm''
            (map_option (\<lambda>hl. hash_sub1_sdbm_call hl (nat (num 1))) (hash_locations (at_chunk locations 1) (num 1)))),
         (hashfuncs cfg ''wyhash'', bench ''registerbloom-wyhash'' (Some hash_wyhash_call)),
         (hashfuncs cfg ''xxh3'', bench ''registerbloom-xxh32'' (Some hash_xxh64_call)),
         (hashfuncs cfg ''xxh3_sub8'', bench ''registerbloom-xxh32_sub8'' (sub8 xxh3_sub8)),
         (hashfuncs cfg ''wyhash_sub8'', bench ''registerbloom-wyhash_sub8'' (sub8 wyhash_sub8))])"

section \<open>The timed loops\<close>

text \<open>A block of lookups counts the keys of the block that are found.\<close>

lemma lookups_count:
  assumes "\<And>x. x \<in> set p \<Longrightarrow> test x = Some (f x)" "a \<le> b" "b \<le> length p"
  shows "for_opt [a..<b] (\<lambda>j s. nth_opt p j \<bind> test \<bind> (\<lambda>v. Some (s + (if v then 1 else 0)))) (s :: u64) =
    Some (s + of_nat (length (filter f (take (b - a) (drop a p)))))"
  using assms(2,3)
proof (induction b arbitrary: s rule: dec_induct)
  case (step b)
  have "take (Suc b - a) (drop a p) = take (b - a) (drop a p) @ [p ! b]"
    using step by (simp add: Suc_diff_le take_Suc_conv_app_nth)
  then show ?case using step assms(1) [of "p ! b"]
    by (simp add: for_opt_append nth_opt_Some upt_Suc_append)
qed simp

lemma timed_tests_count:
  assumes "\<And>x. x \<in> set p \<Longrightarrow> test x = Some (f x)" "\<forall>x \<in> set p. length x < 2 ^ 64"
  shows "\<exists>dummy. timed_tests clock test p st =
    Some (of_nat (length (filter f (take (length p div step_size * step_size) p))), dummy,
      st\<lparr>clock_reads := clock_reads st + 2 * (length p div step_size),
        total_time_without_dummy_hashing_filter := lookup_time clock (clock_reads st) (length p div step_size)\<rparr>)"
proof -
  let ?body = "\<lambda>i (s, dummy, st). do {
       dummy \<leftarrow> dummy_hashing p i dummy;
       s \<leftarrow> for_opt [i * step_size..<(i + 1) * step_size]
              (\<lambda>j s. nth_opt p j \<bind> test \<bind> (\<lambda>b. Some (s + (if b then 1 else 0)))) s;
       Some (s, dummy, add_elapsed_filter clock st)
     } :: (u64 \<times> u64 \<times> bench_state) option"
  let ?st = "\<lambda>n. st\<lparr>clock_reads := clock_reads st + 2 * n, total_time_without_dummy_hashing_filter := lookup_time clock (clock_reads st) n\<rparr>"
  have "\<exists>dummy. for_opt [0..<n] ?body (0, 0, ?st 0) = Some (of_nat (length (filter f (take (n * step_size) p))), dummy, ?st n)"
    if "n * step_size \<le> length p" for n
    using that
  proof (induction n)
    case (Suc n)
    then obtain d where d: "for_opt [0..<n] ?body (0, 0, ?st 0) = Some (of_nat (length (filter f (take (n * step_size) p))), d, ?st n)"
      by auto
    obtain d' where d': "dummy_hashing p n d = Some d'"
      using dummy_hashing_total [OF assms(2), of n d] Suc.prems by auto
    have t: "take (Suc n * step_size) p = take (n * step_size) p @ take step_size (drop (n * step_size) p)"
      by (metis mult_Suc add.commute take_add)
    have "for_opt [n * step_size..<(n + 1) * step_size]
        (\<lambda>j s. nth_opt p j \<bind> test \<bind> (\<lambda>b. Some (s + (if b then 1 else 0)))) s =
      Some (s + of_nat (length (filter f (take step_size (drop (n * step_size) p)))))" for s :: u64
      using lookups_count [where p = p and test = test and f = f and a = "n * step_size" and b = "(n + 1) * step_size" and s = s] assms(1) Suc.prems by simp
    then show ?case using d d' t add_elapsed_filter_time [where clock = clock and st = st and k = "clock_reads st" and n = n] by (simp add: for_opt_append)
  qed (simp add: lookup_time_def)
  from this [of "length p div step_size"] show ?thesis by (simp add: timed_tests_def lookup_time_def [where n = 0])
qed

text \<open>
  The time that the throughput benchmark records: the sum of the clock differences around the blocks of lookups, from
  the second reading on.
\<close>

definition lookups_recorded :: "clock \<Rightarrow> string \<Rightarrow> bytes list \<Rightarrow> bench_state \<Rightarrow> bench_state \<Rightarrow> bool" where
  "lookups_recorded clock name p st st' \<longleftrightarrow>
     timings st' = timings (add_timing ''filter_throughput'' name
       (sdbl (lookup_time clock (clock_reads st + 1) (length p div step_size))) st)"

lemma timed_lookups_recorded:
  assumes "\<And>x. x \<in> set p \<Longrightarrow> test x = Some (f x)" "\<forall>x \<in> set p. length x < 2 ^ 64"
  shows "\<exists>st'. benchmark_result clock name ''filter_throughput'' (\<lambda>st. bind_result (defined (timed_tests clock test p st))
      (\<lambda>(s, dummy, st). Inr (sint s, st))) st =
    Inr (sint (of_nat (length (filter f (take (length p div step_size * step_size) p))) :: u64), st') \<and>
    lookups_recorded clock name p st st'"
proof -
  let ?func = "\<lambda>st. bind_result (defined (timed_tests clock test p st)) (\<lambda>(s, dummy, st). Inr (sint s, st))"
  let ?st = "snd (now clock st)"
  obtain dummy where "timed_tests clock test p ?st =
    Some (of_nat (length (filter f (take (length p div step_size * step_size) p))), dummy,
      ?st\<lparr>clock_reads := clock_reads ?st + 2 * (length p div step_size),
        total_time_without_dummy_hashing_filter := lookup_time clock (clock_reads ?st) (length p div step_size)\<rparr>)"
    using timed_tests_count [where p = p and test = test and f = f, OF assms] by blast
  then have "?func ?st = Inr (sint (of_nat (length (filter f (take (length p div step_size * step_size) p))) :: u64),
      ?st\<lparr>clock_reads := clock_reads ?st + 2 * (length p div step_size),
        total_time_without_dummy_hashing_filter := lookup_time clock (clock_reads ?st) (length p div step_size)\<rparr>)"
    by simp
  from benchmark_result_Inr [where func = ?func, OF this, of name "''filter_throughput''"] show ?thesis
    by (auto simp: lookups_recorded_def add_timing_def set_timing_def now_def)
qed

lemma count_defined:
  "(\<And>x. x \<in> set xs \<Longrightarrow> test f x \<noteq> None) \<Longrightarrow> \<exists>n. benchFilter_count test xs f r = Some n"
  by (induction xs arbitrary: r) (auto split: bind_splits)

text \<open>The map of the data is filled beside the filter.\<close>

lemma latency_add_eq:
  assumes "benchFilter_add add data f = Some g"
  shows "\<exists>m. latency_add add data f = Some (g, m)"
proof -
  let ?body = "\<lambda>i (bf, m). do {x \<leftarrow> nth_opt data i; bf \<leftarrow> add x bf; Some (bf, m(x \<mapsto> i))}"
  have "\<exists>m. for_opt [0..<n] ?body (f, Map.empty) = Some (g, m)"
    if "for_opt (take n data) add f = Some g" "n \<le> length data" for n g
    using that
  proof (induction n arbitrary: g)
    case (Suc n)
    obtain b where b: "for_opt (take n data) add f = Some b" "add (data ! n) b = Some g"
      using Suc.prems by (auto simp: take_Suc_conv_app_nth for_opt_append split: bind_splits)
    obtain m where m: "for_opt [0..<n] ?body (f, Map.empty) = Some (b, m)"
      using Suc.IH [OF b(1) Suc_leD [OF Suc.prems(2)]] by blast
    show ?case using Suc.prems(2) by (simp add: for_opt_append nth_opt_Some m b(2) del: fun_upd_apply)
  qed simp
  then show ?thesis using assms by (simp add: latency_add_def benchFilter_add_def)
qed

lemma assign_probes_undefined: "p \<noteq> [] \<Longrightarrow> assign_probes m p = None"
  by (cases p) (simp_all add: assign_probes_def vec_set_def upt_conv_Cons nth_opt_Some del: upt_Suc)

section \<open>The contract of a filter over a functor\<close>

text \<open>
  The operations of a filter class depend on the functor only through the hash of the key, and satisfy the
  contract of a membership filter for every functor.
\<close>

locale hashed_filter =
  fixes add :: "(bytes \<Rightarrow> u64) \<Rightarrow> bytes \<Rightarrow> 'f \<Rightarrow> 'f option"
    and test :: "(bytes \<Rightarrow> u64) \<Rightarrow> 'f \<Rightarrow> bytes \<Rightarrow> bool option"
    and invar :: "'f \<Rightarrow> bool"
    and grows :: "'f \<Rightarrow> 'f \<Rightarrow> bool"
  assumes member: "membership_filter (add h) (test h) invar grows"
    and add_key: "add (\<lambda>_. h x) x f = add h x f"
    and test_key: "test (\<lambda>_. h x) f x = test h f x"
begin

lemma hashed_add_eq: "hash x = Some (h x) \<Longrightarrow> hashed_add add hash x f = add h x f"
  by (simp add: hashed_add_def add_key)

lemma hashed_test_eq: "hash x = Some (h x) \<Longrightarrow> hashed_test test hash f x = test h f x"
  by (simp add: hashed_test_def test_key)

lemma add_all_eq:
  assumes "\<And>x. x \<in> set data \<Longrightarrow> hash x = Some (h x)"
  shows "benchFilter_add (hashed_add add hash) data f = benchFilter_add (add h) data f"
  using assms unfolding benchFilter_add_def
proof (induction data arbitrary: f)
  case (Cons x data)
  then show ?case by (simp add: hashed_add_eq cong: bind_option_cong)
qed simp

lemma count_eq:
  assumes "\<And>x. x \<in> set data \<Longrightarrow> hash x = Some (h x)"
  shows "benchFilter_count (hashed_test test hash) data f r = benchFilter_count (test h) data f r"
  using assms
proof (induction data arbitrary: r)
  case (Cons x data)
  then show ?case by (simp add: hashed_test_eq cong: bind_option_cong)
qed simp

text \<open>
  The throughput benchmark of a new filter: it adds the data, its assertion holds, it records the time of the lookups and hands on the
  number of probes found among those of the full blocks.
\<close>

lemma throughput_run:
  assumes "invar f" "\<not> table_metrics cfg ''latency''" "length data < 2 ^ 32"
    "\<forall>x \<in> set data \<union> set probes. hash x = Some (h x)" "\<forall>x \<in> set probes. length x < 2 ^ 64"
  shows "\<exists>g st'. benchFilter_add (add h) data f = Some g \<and> invar g \<and> (\<forall>x \<in> set data. test h g x = Some True) \<and>
    benchFilter_throughput cfg clock (hashed_add add hash) (hashed_test test hash) data probes f name npu (t, st) =
      bind_result (relay_filter_statistics ''filter_throughput'' probes (sint (of_nat (length
          (filter (\<lambda>x. test h g x = Some True) (take (length probes div step_size * step_size) probes))) :: u64)) name npu t)
        (\<lambda>t. Inr (g, t, st')) \<and> lookups_recorded clock name probes st st'"
proof -
  obtain g where g: "benchFilter_add (add h) data f = Some g" "invar g"
    using membership_filter.add_all_total [OF member assms(1)] by blast
  then have a: "benchFilter_add (hashed_add add hash) data f = Some g"
    using add_all_eq [of data hash h f] assms(4) by simp
  have "benchFilter_assert (test h) data g = Some True"
    using membership_filter.assert_holds [OF member assms(1,3), of h] g by auto
  then have asrt: "benchFilter_assert (hashed_test test hash) data g = Some True"
    using count_eq [of data hash h g 0] assms(4) by (simp add: benchFilter_assert_def)
  have t: "hashed_test test hash g x = Some (test h g x = Some True)" if "x \<in> set probes" for x
    using that assms(4) membership_filter.test_total [OF member g(2), of h x] by (auto simp: hashed_test_eq [of hash x h])
  obtain s_w where w: "benchFilter_count (hashed_test test hash) probes g 0 = Some s_w"
    using count_defined [of probes "hashed_test test hash" g 0] t by auto
  let ?n = "of_nat (length (filter (\<lambda>x. test h g x = Some True) (take (length probes div step_size * step_size) probes))) :: u64"
  obtain st' where st': "benchmark_result clock name ''filter_throughput'' (\<lambda>st. bind_result (defined
      (timed_tests clock (hashed_test test hash g) probes st)) (\<lambda>(s, dummy, st). Inr (sint s, st))) st = Inr (sint ?n, st')"
    "lookups_recorded clock name probes st st'"
    using timed_lookups_recorded [where p = probes and test = "hashed_test test hash g" and f = "\<lambda>x. test h g x = Some True"]
      t assms(5) by blast
  show ?thesis
    using g assms(2) membership_filter.no_false_negative [OF member assms(1) g(1)] st'(2)
    by (auto simp: benchFilter_throughput_def a asrt w st'(1))
qed

end

section \<open>The reported rate\<close>

text \<open>The number of probes that a filter wrongly reports.\<close>

definition false_positives :: "(bytes \<Rightarrow> bool option) \<Rightarrow> bytes list \<Rightarrow> bytes list \<Rightarrow> nat" where
  "false_positives test data probes = length (filter (\<lambda>x. x \<notin> set data \<and> test x = Some True) probes)"

lemma sint_of_nat_u64: "n < 2 ^ 63 \<Longrightarrow> sint (of_nat n :: u64) = int n"
  by (simp add: sint_uint uint_nat unat_of_nat_small signed_take_bit_int_eq_self)

lemma positives_split:
  assumes "\<forall>x \<in> set data. test x = Some True"
  shows "length (filter (\<lambda>x. test x = Some True) probes) =
    length (filter (\<lambda>x. x \<in> set data) probes) + false_positives test data probes"
  using assms unfolding false_positives_def by (induction probes) auto

lemma relay_exact:
  assumes "\<forall>x \<in> set data. test x = Some True" "length probes < 2 ^ 31"
    "int (length (filter (\<lambda>x. x \<in> set data) probes)) = int (length probes) - npu"
  shows "relay_filter_statistics ''filter_throughput'' probes
      (sint (of_nat (length (filter (\<lambda>x. test x = Some True) probes)) :: u64)) name npu t =
    Inr (add_fpr ''filter_throughput'' name (float_ratio (int (false_positives test data probes)) npu) t)"
proof -
  have l: "length (filter (\<lambda>x. test x = Some True) probes) \<le> length probes" "false_positives test data probes \<le> length probes"
    "length (filter (\<lambda>x. x \<in> set data) probes) \<le> length probes"
    by (simp_all add: false_positives_def)
  have "sint (of_nat (length (filter (\<lambda>x. test x = Some True) probes)) :: u64) =
      int (length (filter (\<lambda>x. x \<in> set data) probes)) + int (false_positives test data probes)"
    using l(1) assms(2) positives_split [OF assms(1), of probes] by (subst sint_of_nat_u64) auto
  moreover have "int (length probes) < 2 ^ 31" using assms(2) by simp
  moreover have "c_int (int (length probes) - npu) = int (length probes) - npu"
    using l(3) assms(3) calculation(2) by (intro c_int_small) linarith+
  moreover have "c_int (int (false_positives test data probes)) = int (false_positives test data probes)"
    using l(2) calculation(2) by (intro c_int_small) linarith+
  ultimately show ?thesis using assms(3) by (simp add: relay_filter_statistics_def Let_def)
qed

context hashed_filter
begin

lemma run_filter_exact:
  assumes "invar f" "table_metrics cfg ''throughput''" "\<not> table_metrics cfg ''latency''" "length data < 2 ^ 32"
    "\<forall>x \<in> set data \<union> set probes. hash x = Some (h x)" "\<forall>x \<in> set probes. length x < 2 ^ 64"
    "length probes < 2 ^ 31" "step_size dvd length probes"
    "int (length (filter (\<lambda>x. x \<in> set data) probes)) = int (length probes) - npu"
  shows "\<exists>g st'. benchFilter_add (add h) data f = Some g \<and>
    run_filter cfg clock (Some f) add test data probes npu name (Some hash) (t, st) =
      Inr (add_fpr ''filter_throughput'' name (float_ratio (int (false_positives (test h g) data probes)) npu) t, st') \<and>
    lookups_recorded clock name probes st st'"
proof -
  obtain g st' where g: "benchFilter_add (add h) data f = Some g" "\<forall>x \<in> set data. test h g x = Some True"
    "benchFilter_throughput cfg clock (hashed_add add hash) (hashed_test test hash) data probes f name npu (t, st) =
      bind_result (relay_filter_statistics ''filter_throughput'' probes (sint (of_nat (length
          (filter (\<lambda>x. test h g x = Some True) (take (length probes div step_size * step_size) probes))) :: u64)) name npu t)
        (\<lambda>t. Inr (g, t, st'))" "lookups_recorded clock name probes st st'"
    using throughput_run [OF assms(1,3,4,5,6), of clock name npu t st] by blast
  have "take (length probes div step_size * step_size) probes = probes" using assms(8) by simp
  with g relay_exact [OF g(2) assms(7,9), of name t] show ?thesis
    by (auto simp: run_filter_def benchFilter_def assms(2,3))
qed

lemma run_filter_latency:
  assumes "invar f" "table_metrics cfg ''latency''" "length data < 2 ^ 32"
    "\<And>x. x \<in> set data \<Longrightarrow> hash x = Some (h x)" "probes \<noteq> []"
  shows "run_filter cfg clock (Some f) add test data probes npu name (Some hash) ts = Inl Undefined"
proof -
  obtain g where g: "benchFilter_add (add h) data f = Some g" "benchFilter_assert (test h) data g = Some True"
    using membership_filter.assert_holds [OF member assms(1,3), of h] by blast
  have "benchFilter_add (hashed_add add hash) data f = Some g" using add_all_eq assms(4) g(1) by simp
  then obtain m where m: "latency_add (hashed_add add hash) data f = Some (g, m)"
    using latency_add_eq [of "hashed_add add hash" data f] by auto
  have "benchFilter_assert (hashed_test test hash) data g = Some True"
    using g(2) count_eq [of data hash h g 0] assms(4) by (simp add: benchFilter_assert_def)
  with m assign_probes_undefined [OF assms(5), of m] assms(2) show ?thesis
    by (simp add: run_filter_def benchFilter_def benchFilter_latency_def split: prod.split)
qed

end

interpretation self_hashed: hashed_filter addValue testValue bloom_ok bloom_grows
  by unfold_locales (auto simp: self_bloom.membership_filter_axioms addValue_def testValue_def)

interpretation block_hashed: hashed_filter addValue512 testValue512 block_ok block_grows
  by unfold_locales (auto simp: block_bloom.membership_filter_axioms addValue512_def testValue512_def)

context hashed_filter
begin

text \<open>A benchmark whose functor hashes every key ends normally.\<close>

lemma run_filter_defined:
  assumes "invar f" "\<not> table_metrics cfg ''latency''" "length data < 2 ^ 32"
    "\<forall>x \<in> set data \<union> set probes. length x < 2 ^ 64 \<and> (\<exists>v. hash x = Some v)"
  shows "\<exists>ts'. run_filter cfg clock (Some f) add test data probes npu name (Some hash) ts = Inr ts'"
proof -
  have h: "\<forall>x \<in> set data \<union> set probes. hash x = Some (the (hash x))" "\<forall>x \<in> set probes. length x < 2 ^ 64"
    using assms(4) by auto
  obtain t st where "ts = (t, st)" by (cases ts)
  then show ?thesis
    using throughput_run [OF assms(1-3) h, of clock name npu t st] assms(2)
    by (auto simp: run_filter_def benchFilter_def relay_filter_statistics_def Let_def)
qed

end

lemma generateNumBits_less:
  assumes "generateNumBits b n = Some bits"
  shows "unat bits < 2 ^ 31"
proof -
  let ?x = "dbl (dbl (of_nat (unat n)) * b)"
  have x: "?x < 2 ^ 31" "bits = of_nat (nat \<lfloor>?x\<rfloor>)"
    using assms by (auto simp: generateNumBits_def Let_def split: if_splits)
  then have "\<lfloor>?x\<rfloor> < 2 ^ 31" by (simp add: floor_less_iff)
  then have "nat \<lfloor>?x\<rfloor> < 2 ^ 31" by (simp add: nat_less_iff)
  then show ?thesis unfolding x(2) by (subst unat_of_nat_small) simp_all
qed

section \<open>Properties of the filter benchmarks\<close>

text \<open>
  C7. The throughput benchmark of a new, nonempty standard Bloom filter reports the exact false positive rate: for a functor that
  hashes every key, if latency is not measured, the number of probes is a multiple of the step size and all but
  \<open>numProbesUnsuccessful\<close> of them are in the data, no assertion fails and the rate added to the statistics is the
  number of the probes outside the data that the filled filter reports, divided by \<open>numProbesUnsuccessful\<close>. The time added to the
  statistics is the sum of the clock differences around the blocks of lookups, without the dummy hashing between them.
\<close>

theorem selfBloom_throughput_exact:
  assumes "selfBloom_new ln2 pow bits n = Some f" "0 < bits" "unat bits \<le> 2 ^ 64 - 8"
    "table_metrics cfg ''throughput''" "\<not> table_metrics cfg ''latency''" "length data < 2 ^ 32"
    "\<forall>x \<in> set data \<union> set probes. hash x = Some (h x)" "\<forall>x \<in> set probes. length x < 2 ^ 64"
    "length probes < 2 ^ 31" "step_size dvd length probes"
    "int (length (filter (\<lambda>x. x \<in> set data) probes)) = int (length probes) - npu"
  shows "\<exists>g st'. benchFilter_add (addValue h) data f = Some g \<and>
    run_filter cfg clock (Some f) addValue testValue data probes npu name (Some hash) (t, st) =
      Inr (add_fpr ''filter_throughput'' name
        (float_ratio (int (false_positives (testValue h g) data probes)) npu) t, st') \<and>
    lookups_recorded clock name probes st st'"
  using self_hashed.run_filter_exact [OF selfBloom_new_ok [OF assms(1-3)] assms(4-11)] .

text \<open>
  C39. The latency benchmark never produces a result: whenever there is a probe, it writes to an element
  of a vector for which only space has been reserved, which is undefined. Here for the standard filter and every functor that
  hashes the data.
\<close>

theorem selfBloom_latency_undefined:
  assumes "selfBloom_new ln2 pow bits n = Some f" "0 < bits" "unat bits \<le> 2 ^ 64 - 8"
    "table_metrics cfg ''latency''" "length data < 2 ^ 32" "\<forall>x \<in> set data. hash x = Some (h x)" "probes \<noteq> []"
  shows "run_filter cfg clock (Some f) addValue testValue data probes npu name (Some hash) ts = Inl Undefined"
  using self_hashed.run_filter_latency [OF selfBloom_new_ok [OF assms(1-3)] assms(4,5) _ assms(7)] assms(6) by blast

text \<open>
  C9. The driver of the standard filter's benchmarks, measuring throughput, ends normally: with distinct estimated
  locations, keys that fit (and have all the locations when the data is of fixed length) and
  a nonempty filter whose constructor is defined, the benchmarks of the four hashes of whole keys and of the learned XXH3 and wyhash
  functors run without undefined behaviour or a failed assertion, whichever of them are requested and however much
  entropy is needed. Latency is not measured, and the functors \<open>crc_wyhash_sub8\<close>, \<open>mmh2_sub4\<close> and \<open>sdbm_sub1\<close> are not requested.
\<close>

theorem bench_selfbloom_safe:
  assumes "generateNumBits (bits_per_element cfg) (of_nat (length data)) = Some bits" "0 < bits"
    "selfBloom_new (lib_ln2 lib) (lib_pow lib) bits (of_nat (length data)) = Some f"
    "\<not> table_metrics cfg ''latency''" "length data < 2 ^ 32"
    "\<forall>x \<in> set data \<union> set probes. length x < 2 ^ 64 \<and> (dataIsFixedLength cfg \<longrightarrow> long_for (at_chunk locations 8) x)"
    "entropies 8 = Some es" "es \<noteq> []" "length es \<le> length (at_chunk locations 8)" "usable_locs (at_chunk locations 8)"
    "\<not> hashfuncs cfg ''crc_wyhash_sub8''" "\<not> hashfuncs cfg ''mmh2_sub4''" "\<not> hashfuncs cfg ''sdbm_sub1''"
  shows "\<exists>ts'. bench_selfbloom lib cfg clock data probes locations entropies npu ts = Inr ts'"
proof -
  have "unat bits < 2 ^ 31" using generateNumBits_less [OF assms(1)] .
  then have ok: "bloom_ok f" using selfBloom_new_ok [OF assms(3,2)] by simp
  define needed where
    "needed = sdbl (sdbl (lib_log2 lib (of_nat (length data)) - lib_log2 lib (added_fpr cfg)) - 1)"
  have sub8: "\<exists>hash. select_sub8 family (dataIsFixedLength cfg) (num_for_chunk (Fin needed) entropies 8) (at_chunk locations 8) = Some hash \<and>
      (\<forall>x \<in> set data \<union> set probes. \<exists>v. hash x = Some v)"
    if "family \<in> {wyhash_sub8, crc_sub8, xxh3_sub8}" for family
    using select_sub8_ok [OF assms(10,8,9) that, of "dataIsFixedLength cfg" "Fin needed"] assms(6,7)
    by (fastforce simp: num_for_chunk_def)
  obtain hx hw where sel:
    "select_sub8 xxh3_sub8 (dataIsFixedLength cfg) (num_for_chunk (Fin needed) entropies 8) (at_chunk locations 8) = Some hx"
    "select_sub8 wyhash_sub8 (dataIsFixedLength cfg) (num_for_chunk (Fin needed) entropies 8) (at_chunk locations 8) = Some hw"
    and tot: "\<forall>x \<in> set data \<union> set probes. (\<exists>v. hx x = Some v) \<and> (\<exists>v. hw x = Some v)"
    using sub8 [of xxh3_sub8] sub8 [of wyhash_sub8] by auto
  have "\<exists>ts'. run_filter cfg clock (Some f) addValue testValue data probes npu name (Some hash) ts = Inr ts'"
    if "hash \<in> {Some \<circ> std_hash lib, hash_wyhash_call, hash_xxh64_call, CRC32Hash_call, hx, hw}" for name hash ts
    using that tot assms(6) hash_xxh64_total hash_wyhash_total CRC32Hash_total
    by (intro self_hashed.run_filter_defined [OF ok assms(4,5)]) fastforce
  then show ?thesis
    unfolding bench_selfbloom_def Let_def assms(1) bind.bind_lunit assms(3) needed_def [symmetric] sel
    using assms(11-13) by (intro run_steps_defined) auto
qed

section \<open>Witnesses\<close>

definition example_config :: bench_config where
  "example_config = \<lparr>hashfuncs = (\<lambda>f. f \<in> {''standard'', ''wyhash_sub8''}), table_metrics = (\<lambda>m. m = ''throughput''),
     dataIsFixedLength = False, bits_per_element = 8, bits_per_element_rb = 24, added_fpr = 1 / 100\<rparr>"

definition example_lib :: platform where
  "example_lib = \<lparr>std_hash = (\<lambda>x. of_nat (length x) * 0x9E3779B97F4A7C15), lib_log2 = (\<lambda>x. x), lib_ln2 = 3 / 4,
     lib_pow = (\<lambda>_ _. 1), lib_sqrt = (\<lambda>x. x), fprGivenK512 = example_fpr, fprGivenK64 = example_fpr\<rparr>"

definition filter_example_state :: filter_state where
  "filter_example_state = (\<lambda>_. Map.empty, \<lparr>clock_reads = 0, total_time_without_dummy_hashing = 0,
     total_time_without_dummy_hashing_filter = 0, total_time_without_dummy_hashing_partition = 0,
     timings = (\<lambda>_. Map.empty), reported = []\<rparr>)"

definition example_data :: "bytes list" where
  "example_data = [[1], [2, 3], [4, 5, 6]]"

theorem selfBloom_throughput_exact_witness:
  "\<exists>g st'. benchFilter_add (addValue (\<lambda>x. of_nat (length x))) [[1, 2 :: u8]] example_bloom = Some g \<and>
    run_filter example_config int (Some example_bloom) addValue testValue [[1, 2]] (replicate 75 [1, 2] @ replicate 25 [3]) 25 ''b''
      (Some (\<lambda>x. Some (of_nat (length x)))) (\<lambda>_. Map.empty, snd filter_example_state) =
      Inr (add_fpr ''filter_throughput'' ''b'' (float_ratio (int (false_positives
        (testValue (\<lambda>x. of_nat (length x)) g) [[1, 2]] (replicate 75 [1, 2] @ replicate 25 [3]))) 25) (\<lambda>_. Map.empty), st') \<and>
    lookups_recorded int ''b'' (replicate 75 [1, 2] @ replicate 25 [3]) (snd filter_example_state) st'"
  by (rule selfBloom_throughput_exact [OF example_bloom_new])
    (auto simp: example_config_def step_size_def)

theorem selfBloom_latency_undefined_witness:
  "run_filter (example_config\<lparr>table_metrics := (\<lambda>_. True)\<rparr>) int (Some example_bloom) addValue testValue [[1, 2]] [[3]] 1 ''b''
      (Some (\<lambda>x. Some (of_nat (length x)))) filter_example_state = Inl Undefined"
  by (rule selfBloom_latency_undefined [OF example_bloom_new, where h = "\<lambda>x. of_nat (length x)"]) simp_all

theorem bench_selfbloom_safe_witness:
  "\<exists>ts'. bench_selfbloom example_lib example_config int example_data example_data [8 \<mapsto> [3, 0]] [8 \<mapsto> [Fin 5, Fin 25]] 0
     filter_example_state = Inr ts'"
proof -
  have b: "generateNumBits (bits_per_element example_config) (of_nat (length example_data)) = Some 24"
    by code_simp
  obtain f where "selfBloom_new (lib_ln2 example_lib) (lib_pow example_lib) 24 (of_nat (length example_data)) = Some f"
  proof -
    have "selfBloom_new (lib_ln2 example_lib) (lib_pow example_lib) 24 (of_nat (length example_data)) \<noteq> None"
      by code_simp
    then show ?thesis using that by blast
  qed
  from bench_selfbloom_safe [OF b _ this, where probes = example_data and locations = "[8 \<mapsto> [3, 0]]"
      and entropies = "[8 \<mapsto> [Fin 5, Fin 25]]" and es = "[Fin 5, Fin 25]" and npu = 0 and clock = int and ts = filter_example_state]
  show ?thesis
    by (auto simp: example_config_def example_data_def at_chunk_def usable_locs_def)
qed

end
