(* ===== verification/Partition_Bench.thy ===== *)
theory Partition_Bench
  imports Bench_Timing
begin

text \<open>
  The partitioning benchmark of \<open>benchmark_partitions.cpp\<close>: a key goes to the partition that the low bits of its hash
  number, the benchmark sums these numbers, and reports the relative deviation of the partitions' sizes.
  The theorems show that the numbers are the remainders of the hashes, that the driver runs
  without undefined behaviour, and that neither the reported deviation nor the recorded time says anything about the hash function.
\<close>

section \<open>Statistics\<close>

type_synonym variances = "string \<rightharpoonup> rat option"

text \<open>
  \<open>partition_variances[name] += sqrt(avg_variance) / meanPerPartition\<close>; the quotient is not a finite number when the
  mean is 0.
\<close>

definition add_variance :: "string \<Rightarrow> rat option \<Rightarrow> variances \<Rightarrow> variances" where
  "add_variance name v t =
     (let old = (case t name of None \<Rightarrow> Some 0 | Some w \<Rightarrow> w);
          new = (case (old, v) of (Some a, Some b) \<Rightarrow> Some (sdbl (a + b)) | _ \<Rightarrow> None)
      in t(name \<mapsto> new))"

text \<open>The mean is a quotient of integers, converted to \<open>double\<close>.\<close>

definition variance_total :: "platform \<Rightarrow> rat \<Rightarrow> int list \<Rightarrow> rat" where
  "variance_total lib mean counts =
     foldl (\<lambda>v c. sdbl (v + lib_pow lib (sdbl (of_int c - mean)) 2)) 0 counts"

definition relay_partition_statistics ::
    "platform \<Rightarrow> bytes list \<Rightarrow> int list \<Rightarrow> string \<Rightarrow> variances \<Rightarrow> bench_error + variances" where
  "relay_partition_statistics lib data counts name t =
     (if counts = [] then Inl Undefined
      else let meanPerPartition = dbl (of_nat (length data div length counts));
               total = variance_total lib meanPerPartition counts;
               avg_variance = sdbl (total / of_nat (length counts))
           in Inr (add_variance name
                (if meanPerPartition = 0 then None
                 else Some (sdbl (lib_sqrt lib avg_variance / meanPerPartition))) t))"

section \<open>Partitioning\<close>

text \<open>\<open>int partitionNum = hashfn(key) & mask\<close>: the \<open>int\<close> mask is extended to 64 bits.\<close>

definition partition_num :: "u64 \<Rightarrow> int \<Rightarrow> int" where
  "partition_num hash pmask = c_int (uint (hash AND of_int pmask))"

text \<open>The warm-up: every key is hashed and its number added to \<open>dummy\<close>; nothing is stored.\<close>

definition partition_warmup :: "(bytes \<Rightarrow> u64 option) \<Rightarrow> int \<Rightarrow> bytes list \<Rightarrow> u64 \<Rightarrow> u64 option" where
  "partition_warmup hash pmask data dummy =
     for_opt data (\<lambda>x d. hash x \<bind> (\<lambda>h. Some (d + of_int (partition_num h pmask)))) dummy"

definition timed_partition ::
    "clock \<Rightarrow> (bytes \<Rightarrow> u64 option) \<Rightarrow> int \<Rightarrow> bytes list \<Rightarrow> u64 \<Rightarrow> bench_state \<Rightarrow> (u64 \<times> bench_state) option" where
  "timed_partition clock hash pmask data dummy st =
     for_opt [0..<length data div step_size] (\<lambda>i (dummy, st). do {
       dummy \<leftarrow> dummy_hashing data i dummy;
       dummy \<leftarrow> for_opt [i * step_size..<(i + 1) * step_size]
         (\<lambda>j d. nth_opt data j \<bind> hash \<bind> (\<lambda>h. Some (d + of_int (partition_num h pmask)))) dummy;
       Some (dummy, add_elapsed_partition clock st)
     }) (dummy, st\<lparr>total_time_without_dummy_hashing_partition := 0\<rparr>)"

text \<open>The deviations and the state of the benchmarks.\<close>

type_synonym partition_state = "variances \<times> bench_state"

text \<open>The assertion that the number of partitions is a power of two, by its logarithm.\<close>

definition log2_integral :: "platform \<Rightarrow> int \<Rightarrow> bool" where
  "log2_integral lib n = (lib_log2 lib (of_int n) = of_int \<lfloor>lib_log2 lib (of_int n)\<rfloor>)"

definition benchPartition ::
    "platform \<Rightarrow> clock \<Rightarrow> bytes list \<Rightarrow> int \<Rightarrow> string \<Rightarrow> (bytes \<Rightarrow> u64 option) option \<Rightarrow> partition_state \<Rightarrow>
     bench_error + partition_state" where
  "benchPartition lib clock data numPartitions name hasher = (\<lambda>(t, st).
     bind_result (defined hasher) (\<lambda>hash.
     if numPartitions \<le> 0 then Inl Undefined
     else if \<not> log2_integral lib numPartitions then Inl Assertion_failed
     else let pmask = numPartitions - 1;
              partitions = replicate (nat numPartitions) ([] :: bytes list) in
     bind_result (defined (partition_warmup hash pmask data 0)) (\<lambda>dummy.
     let partitions = map (\<lambda>_. ([] :: bytes list)) partitions in
     bind_result (benchmark clock name ''partition''
         (\<lambda>st. bind_result (defined (timed_partition clock hash pmask data dummy st)) (\<lambda>(dummy, st). Inr (0, st))) st) (\<lambda>st.
     let partitionCounts = map (\<lambda>p. c_int (int (length p))) partitions in
     bind_result (relay_partition_statistics lib data partitionCounts name t) (\<lambda>t. Inr (t, st))))))"

section \<open>The driver\<close>

definition bench_partitioners ::
    "platform \<Rightarrow> bench_config \<Rightarrow> clock \<Rightarrow> bytes list \<Rightarrow> (int \<rightharpoonup> int list) \<Rightarrow> (int \<rightharpoonup> double list) \<Rightarrow> int \<Rightarrow>
     partition_state \<Rightarrow> bench_error + partition_state" where
  "bench_partitioners lib cfg clock data locations entropies numPartitions =
     (let needed_entropy = sdbl (lib_log2 lib 1000 + lib_log2 lib (of_int numPartitions));
          num = num_for_chunk (Fin needed_entropy) entropies;
          bench = benchPartition lib clock data numPartitions;
          sub8 = (\<lambda>family. select_sub8 family (dataIsFixedLength cfg) (num 8) (at_chunk locations 8))
      in run_steps
        [(hashfuncs cfg ''standard'', bench ''partition-std'' (Some (Some \<circ> std_hash lib))),
         (hashfuncs cfg ''wyhash'', bench ''partition-wyhash'' (Some hash_wyhash_call)),
         (hashfuncs cfg ''xxh3'', bench ''partition-xxh3'' (Some hash_xxh64_call)),
         (hashfuncs cfg ''crc32'', bench ''partition-crc32'' (Some CRC32Hash_call)),
         (hashfuncs cfg ''xxh3_sub8'', bench ''partition-xxh3_sub8'' (sub8 xxh3_sub8)),
         (hashfuncs cfg ''wyhash_sub8'', bench ''partition-wyhash_sub8'' (sub8 wyhash_sub8)),
         (hashfuncs cfg ''crc_wyhash_sub8'', bench ''partition-crc_sub8'' (sub8 crc_sub8))])"

section \<open>The number of a partition\<close>

lemma c_int_of_small: "0 \<le> x \<Longrightarrow> x < 2 ^ 31 \<Longrightarrow> c_int x = x"
  by (rule c_int_small) simp_all

text \<open>
  With a power of two of partitions, the number that the benchmark computes for a key is the remainder of its hash, so
  it names one of the partitions, although the hash has 64 bits and the number is an \<open>int\<close>.
\<close>

theorem partition_num_mod:
  assumes "k \<le> 30"
  shows "partition_num h (2 ^ k - 1) = uint h mod 2 ^ k \<and> partition_num h (2 ^ k - 1) \<in> {0..<2 ^ k}"
proof -
  have "of_int (2 ^ k - 1) = (mask k :: u64)" by (simp add: mask_eq_exp_minus_1)
  then have e: "uint (h AND of_int (2 ^ k - 1)) = uint h mod 2 ^ k"
    by (simp only: take_bit_eq_mask [symmetric] unsigned_take_bit_eq) (simp add: take_bit_eq_mod)
  have "uint h mod 2 ^ k < 2 ^ k" by simp
  moreover have "(2 :: int) ^ k \<le> 2 ^ 30" using assms by (intro power_increasing) simp_all
  ultimately have "uint h mod 2 ^ k < 2 ^ 30" by (rule less_le_trans)
  then have "uint h mod 2 ^ k < 2 ^ 31" by simp
  then show ?thesis
    using e by (simp add: partition_num_def c_int_of_small)
qed

theorem partition_num_mod_witness: "partition_num 0xFFFFFFFF00000013 (2 ^ 4 - 1) = 3"
  using partition_num_mod [of 4 "0xFFFFFFFF00000013"] by simp

section \<open>The reported deviation\<close>

lemma warmup_defined:
  "\<forall>x \<in> set data. \<exists>v. hash x = Some v \<Longrightarrow> \<exists>d. partition_warmup hash m data dummy = Some d"
  unfolding partition_warmup_def by (induction data arbitrary: dummy) auto

text \<open>
  The timed loop changes the global of the partition benchmark, which the benchmark function does not read.
\<close>

definition same_times :: "bench_state \<Rightarrow> bench_state \<Rightarrow> bool" where
  "same_times st st' \<longleftrightarrow>
     timings st' = timings st \<and> total_time_without_dummy_hashing st' = total_time_without_dummy_hashing st"

lemma same_times_elapsed [simp]: "same_times st (add_elapsed_partition clock st') = same_times st st'"
  by (simp add: same_times_def add_elapsed_partition_def elapsed_def now_def Let_def)

lemma partition_block_defined:
  assumes "\<forall>x \<in> set data. \<exists>v. hash x = Some v" "\<forall>j \<in> set js. j < length data"
  shows "\<exists>d. for_opt js (\<lambda>j d. nth_opt data j \<bind> hash \<bind> (\<lambda>h. Some (d + of_int (partition_num h m)))) dummy = Some d"
  using assms(2)
proof (induction js arbitrary: dummy)
  case (Cons j js)
  obtain v where "hash (data ! j) = Some v" using Cons.prems assms(1) by fastforce
  then show ?case using Cons by (simp add: nth_opt_Some)
qed simp

lemma timed_partition_defined:
  assumes "\<forall>x \<in> set data. length x < 2 ^ 64 \<and> (\<exists>v. hash x = Some v)"
  shows "\<exists>d st'. timed_partition clock hash m data dummy st = Some (d, st') \<and> same_times st st'"
proof -
  let ?body = "\<lambda>i (dummy, st). do {
       dummy \<leftarrow> dummy_hashing data i dummy;
       dummy \<leftarrow> for_opt [i * step_size..<(i + 1) * step_size]
         (\<lambda>j d. nth_opt data j \<bind> hash \<bind> (\<lambda>h. Some (d + of_int (partition_num h m)))) dummy;
       Some (dummy, add_elapsed_partition clock st)
     } :: (u64 \<times> bench_state) option"
  have "\<exists>x. for_opt [0..<length data div step_size] ?body (dummy, st\<lparr>total_time_without_dummy_hashing_partition := 0\<rparr>) = Some x \<and>
      same_times st (snd x) \<and> True"
  proof (rule for_opt_invar [where I = "\<lambda>x. same_times st (snd x)" and R = "\<lambda>_ _. True"], goal_cases)
    case (2 i x)
    obtain d st' where x: "x = (d, st')" by (cases x)
    have i: "(i + 1) * step_size \<le> length data"
      using 2 by (metis Suc_eq_plus1 Suc_leI atLeastLessThan_iff div_times_less_eq_dividend le_trans mult_le_mono1 set_upt)
    then obtain e where "dummy_hashing data i d = Some e"
      using dummy_hashing_total [of data i d] assms by auto
    then show ?case
      using 2 partition_block_defined [of data hash "[i * step_size..<(i + 1) * step_size]" m e] assms i by (auto simp: x)
  qed (simp_all add: same_times_def)
  then show ?thesis by (auto simp: timed_partition_def)
qed

lemma sdbl_of_nat: "n < 2 ^ 53 \<Longrightarrow> sdbl (of_nat n) = of_nat n"
  by (simp add: sdbl_def dbl_of_nat)

text \<open>The sum of the squared deviations of \<open>k\<close> empty partitions is computed exactly.\<close>

lemma variance_total_empty:
  assumes "lib_pow lib (- of_nat m) 2 = of_nat (m * m)" "k * (m * m) < 2 ^ 53" "m < 2 ^ 53"
  shows "variance_total lib (of_nat m) (replicate k 0) = of_nat (k * (m * m))"
  using assms(2)
proof (induction k)
  case (Suc k)
  have s: "sdbl (- of_nat m) = - of_nat m" using assms(3) using dbl_of_nat [of m] by (auto simp: sdbl_def)
  have "sdbl (of_nat (k * (m * m)) + of_nat (m * m)) = of_nat (Suc k * (m * m))"
    using Suc.prems sdbl_of_nat [of "Suc k * (m * m)"] by (simp add: algebra_simps)
  moreover have "replicate (Suc k) 0 = replicate k 0 @ [0 :: int]" by (simp add: replicate_append_same)
  ultimately show ?case using Suc s assms(1) by (simp only: variance_total_def foldl_append foldl_Cons foldl_Nil) simp
qed (simp add: variance_total_def)

text \<open>What every run reports: the deviation of empty partitions, and as time the global of the table benchmarks.\<close>

lemma benchPartition_defined:
  assumes "0 < n" "log2_integral lib n" "\<forall>x \<in> set data. length x < 2 ^ 64 \<and> (\<exists>v. hash x = Some v)"
  shows "\<exists>st'. benchPartition lib clock data n name (Some hash) (t, st) =
      bind_result (relay_partition_statistics lib data (replicate (nat n) 0) name t) (\<lambda>t. Inr (t, st')) \<and>
    timings st' = timings (add_timing ''partition'' name (total_time_without_dummy_hashing st) st)"
proof -
  obtain d where d: "partition_warmup hash (n - 1) data 0 = Some d" using warmup_defined assms(3) by blast
  let ?func = "\<lambda>st. bind_result (defined (timed_partition clock hash (n - 1) data d st)) (\<lambda>(dummy, st). Inr (0, st))"
  obtain e st1 where e: "timed_partition clock hash (n - 1) data d (snd (now clock st)) = Some (e, st1)"
    and st1: "same_times (snd (now clock st)) st1"
    using timed_partition_defined [OF assms(3)] by blast
  have "?func (snd (now clock st)) = Inr (0, st1)" by (simp add: e)
  from benchmark_result_Inr [where func = ?func, OF this, of name "''partition''"] obtain st' where
    "benchmark clock name ''partition'' ?func st = Inr st'"
    "timings st' = timings (add_timing ''partition'' name (total_time_without_dummy_hashing st1) st1)"
    by (auto simp: benchmark_def)
  then show ?thesis
    using assms(1,2) st1
    by (auto simp: benchPartition_def d c_int_def same_times_def now_def add_timing_def set_timing_def)
qed

text \<open>
  C31. Nothing that the partitioning benchmark reports depends on the hash function: the keys are never put
  into the partitions, so for every functor that hashes them, the benchmark of at least as
  many keys as partitions adds exactly 1 to the deviations, and with fewer keys what it adds is not a number; and the time it adds is not that of the hashing, whatever the clock
  reads, but the one that the last table benchmark has left. The hypotheses on \<open>pow\<close> and \<open>sqrt\<close> say
  that they are exact on the square of the mean, and the squares are below \<open>2 ^ 53\<close>.
\<close>

theorem benchPartition_constant:
  assumes "0 < n" "log2_integral lib n" "\<forall>x \<in> set data. length x < 2 ^ 64 \<and> (\<exists>v. hash x = Some v)"
    "m = length data div nat n" "nat n * (m * m) < 2 ^ 53"
    "lib_pow lib (- of_nat m) 2 = of_nat (m * m)" "lib_sqrt lib (of_nat (m * m)) = of_nat m"
  shows "\<exists>st'. benchPartition lib clock data n name (Some hash) (t, st) =
      Inr (add_variance name (if length data < nat n then None else Some 1) t, st') \<and>
    timings st' = timings (add_timing ''partition'' name (total_time_without_dummy_hashing st) st)"
proof -
  let ?k = "nat n"
  have k: "0 < ?k" using assms(1) by simp
  have mm: "m * m < 2 ^ 53" using assms(5) k by (metis le_less_trans mult_le_mono1 nat_mult_1 One_nat_def Suc_leI)
  moreover have "m \<le> m * m" by simp
  ultimately have m: "m < 2 ^ 53" by linarith
  have total: "variance_total lib (of_nat m) (replicate ?k 0) = of_nat (?k * (m * m))"
    using variance_total_empty [OF assms(6,5) m] .
  have avg: "sdbl (of_nat (?k * (m * m)) / of_nat ?k) = of_nat (m * m)"
    using k dbl_of_nat [OF mm] by (simp add: sdbl_def)
  have one: "sdbl 1 = 1" using dbl_of_nat [of 1] by (simp add: sdbl_def)
  have mean: "dbl (of_nat (length data div length (replicate ?k (0 :: int)))) = of_nat m"
    using dbl_of_nat [OF m] assms(4) by simp
  have z: "m = 0 \<longleftrightarrow> length data < ?k" using assms(4) k by (simp add: div_eq_0_iff)
  have "relay_partition_statistics lib data (replicate ?k 0) name t =
      Inr (add_variance name (if length data < ?k then None else Some 1) t)"
    unfolding relay_partition_statistics_def Let_def mean
    unfolding total length_replicate avg assms(7) using k z one by simp
  with benchPartition_defined [OF assms(1-3), of clock name t st] show ?thesis by simp
qed

definition partition_lib :: platform where
  "partition_lib = \<lparr>std_hash = (\<lambda>x. of_nat (length x)), lib_log2 = (\<lambda>x. if x = 2 then 1 else 1 / 2), lib_ln2 = 3 / 4,
     lib_pow = (\<lambda>x y. x * x), lib_sqrt = (\<lambda>x. if x = 0 then 0 else if x = 1 then 1 else 2), fprGivenK512 = (\<lambda>_ _. 1 / 2), fprGivenK64 = (\<lambda>_ _. 1 / 2)\<rparr>"

definition partition_example_state :: bench_state where
  "partition_example_state = \<lparr>clock_reads = 0, total_time_without_dummy_hashing = 7,
     total_time_without_dummy_hashing_filter = 0, total_time_without_dummy_hashing_partition = 0,
     timings = (\<lambda>_. Map.empty), reported = []\<rparr>"

theorem benchPartition_constant_witness:
  "(\<exists>st'. benchPartition partition_lib int [[1], [2], [3], [4, 5]] 2 ''p'' (Some (\<lambda>_. Some 0)) (Map.empty, partition_example_state) =
       Inr (add_variance ''p'' (Some 1) Map.empty, st') \<and>
     timings st' = timings (add_timing ''partition'' ''p'' 7 partition_example_state)) \<and>
   (\<exists>st'. benchPartition partition_lib int [[1]] 2 ''p'' (Some (\<lambda>_. Some 0)) (Map.empty, partition_example_state) =
       Inr (add_variance ''p'' None Map.empty, st') \<and>
     timings st' = timings (add_timing ''partition'' ''p'' 7 partition_example_state))"
proof -
  have time: "total_time_without_dummy_hashing partition_example_state = 7" by (simp add: partition_example_state_def)
  let ?run = "\<lambda>data dev. \<exists>st'. benchPartition partition_lib int data 2 ''p'' (Some (\<lambda>_. Some 0)) (Map.empty, partition_example_state) =
       Inr (add_variance ''p'' dev Map.empty, st') \<and>
     timings st' = timings (add_timing ''partition'' ''p'' (total_time_without_dummy_hashing partition_example_state) partition_example_state)"
  have "?run [[1], [2], [3], [4, 5]] (if length [[1], [2], [3], [4, 5 :: u8]] < nat 2 then None else Some 1)"
    by (rule benchPartition_constant [where m = 2]) (simp_all add: partition_lib_def log2_integral_def)
  moreover have "?run [[1]] (if length [[1 :: u8]] < nat 2 then None else Some 1)"
    by (rule benchPartition_constant [where m = 0]) (simp_all add: partition_lib_def log2_integral_def)
  ultimately show ?thesis by (simp only: time) simp
qed

section \<open>Safety of the driver\<close>

lemma bench_partitioners_ends:
  assumes "0 < n" "log2_integral lib n"
    "\<forall>x \<in> set data. length x < 2 ^ 64 \<and> (dataIsFixedLength cfg \<longrightarrow> long_for (at_chunk locations 8) x)"
    "entropies 8 = Some es" "es \<noteq> []" "length es \<le> length (at_chunk locations 8)" "usable_locs (at_chunk locations 8)"
  shows "\<exists>ts'. bench_partitioners lib cfg clock data locations entropies n ts = Inr ts'"
proof -
  define needed where "needed = sdbl (lib_log2 lib 1000 + lib_log2 lib (of_int n))"
  have sub8: "\<exists>hash. select_sub8 family (dataIsFixedLength cfg) (num_for_chunk (Fin needed) entropies 8) (at_chunk locations 8) = Some hash \<and>
      (\<forall>x \<in> set data. \<exists>v. hash x = Some v)"
    if "family \<in> {wyhash_sub8, crc_sub8, xxh3_sub8}" for family
    using select_sub8_ok [OF assms(7,5,6) that, of "dataIsFixedLength cfg" "Fin needed"] assms(3,4)
    by (fastforce simp: num_for_chunk_def)
  obtain hx hw hc where sel:
    "select_sub8 xxh3_sub8 (dataIsFixedLength cfg) (num_for_chunk (Fin needed) entropies 8) (at_chunk locations 8) = Some hx"
    "select_sub8 wyhash_sub8 (dataIsFixedLength cfg) (num_for_chunk (Fin needed) entropies 8) (at_chunk locations 8) = Some hw"
    "select_sub8 crc_sub8 (dataIsFixedLength cfg) (num_for_chunk (Fin needed) entropies 8) (at_chunk locations 8) = Some hc"
    and tot: "\<forall>x \<in> set data. (\<exists>v. hx x = Some v) \<and> (\<exists>v. hw x = Some v) \<and> (\<exists>v. hc x = Some v)"
    using sub8 [of xxh3_sub8] sub8 [of wyhash_sub8] sub8 [of crc_sub8] by auto
  have n: "replicate (nat n) (0 :: int) \<noteq> []" using assms(1) by simp
  have "\<exists>ts'. benchPartition lib clock data n name (Some hash) ts = Inr ts'"
    if "hash \<in> {Some \<circ> std_hash lib, hash_wyhash_call, hash_xxh64_call, CRC32Hash_call, hx, hw, hc}" for name hash ts
  proof -
    have "\<forall>x \<in> set data. length x < 2 ^ 64 \<and> (\<exists>v. hash x = Some v)"
      using that tot assms(3) hash_xxh64_total hash_wyhash_total CRC32Hash_total by fastforce
    from benchPartition_defined [OF assms(1,2) this, of clock name "fst ts" "snd ts"] n show ?thesis
      by (auto simp: relay_partition_statistics_def Let_def)
  qed
  then show ?thesis
    unfolding bench_partitioners_def Let_def needed_def [symmetric] sel
    by (intro run_steps_defined) auto
qed

text \<open>
  C30. The driver of the partitioning benchmarks ends normally: for a positive number of partitions that passes the
  assertion, distinct estimated locations with at least one entropy and no more entropies than locations, and keys that fit (and have all the locations when the data
  is of fixed length), the requested benchmarks run without undefined behaviour, for all seven hashes.
\<close>

theorem bench_partitioners_safe:
  assumes "0 < n" "log2_integral lib n"
    "\<forall>x \<in> set data. length x < 2 ^ 64 \<and> (dataIsFixedLength cfg \<longrightarrow> long_for (at_chunk locations 8) x)"
    "entropies 8 = Some es" "es \<noteq> []" "length es \<le> length (at_chunk locations 8)" "usable_locs (at_chunk locations 8)"
  shows "\<exists>ts'. bench_partitioners lib cfg clock data locations entropies n ts = Inr ts'"
  using assms by (rule bench_partitioners_ends)

theorem bench_partitioners_safe_witness:
  "\<exists>ts'. bench_partitioners partition_lib \<lparr>hashfuncs = (\<lambda>_. True), table_metrics = (\<lambda>_. True), dataIsFixedLength = False,
      bits_per_element = 8, bits_per_element_rb = 24, added_fpr = 1 / 100\<rparr> int
     [[1], [2, 3]] [8 \<mapsto> [3, 0]] [8 \<mapsto> [Fin 5, Fin 25]] 2 (Map.empty, partition_example_state) = Inr ts'"
  by (rule bench_partitioners_safe [where es = "[Fin 5, Fin 25]"])
    (simp_all add: partition_lib_def log2_integral_def at_chunk_def usable_locs_def)

end
