(* ===== verification/Hash_Bench.thy ===== *)
theory Hash_Bench
  imports Bench_Timing
begin

text \<open>
  The benchmark of the hash functions alone (\<open>benchmark_hashes.cpp\<close>): it hashes the probes in groups of
  a thousand and adds up the hashes. The theorems show that it hashes exactly the probes of the full groups, with the same
  functions of two words as the functors of the tables, and that the time it records is not that of the hashing.
\<close>

section \<open>The benchmark\<close>

text \<open>\<open>s += hash(benchdat[1000 * i + k])\<close> adds to an \<open>int64_t\<close>, modulo \<open>2 ^ 64\<close>.\<close>

definition hash_group :: nat where
  "hash_group = 1000"

definition sum_hashes :: "(bytes \<Rightarrow> u64 option) \<Rightarrow> bytes list \<Rightarrow> u64 option" where
  "sum_hashes hash benchdat =
     for_opt [0..<length benchdat div hash_group] (\<lambda>i.
       for_opt [0..<inner_loop_reuse] (\<lambda>j.
         for_opt [0..<hash_group] (\<lambda>k s. nth_opt benchdat (hash_group * i + k) \<bind> hash \<bind> (\<lambda>h. Some (s + h))))) 0"

definition bench_hash ::
    "clock \<Rightarrow> bytes list \<Rightarrow> string \<Rightarrow> (bytes \<Rightarrow> u64 option) option \<Rightarrow> bench_state \<Rightarrow> bench_error + bench_state" where
  "bench_hash clock benchdat name hasher st =
     bind_result (defined hasher) (\<lambda>hash.
       benchmark clock name ''hash_func''
         (\<lambda>st. bind_result (defined (sum_hashes hash benchdat)) (\<lambda>s. Inr (sint s, st))) st)"

text \<open>
  The two locations are copied into a vector of \<open>unsigned int\<close>, sorted, scaled to bytes, and the end of the last word is appended.
\<close>

definition bench_locations :: "int list \<Rightarrow> u32 list option" where
  "bench_locations locations =
     (if 2 \<le> length locations then
        let ls = map (\<lambda>l. l * 8) (sort (map of_int (take 2 locations)))
        in Some (ls @ [ls ! (length ls - 1) + 8])
      else None)"

definition bench_hashes ::
    "platform \<Rightarrow> bench_config \<Rightarrow> clock \<Rightarrow> bytes list \<Rightarrow> bytes list \<Rightarrow> (int \<rightharpoonup> int list) \<Rightarrow> bench_state \<Rightarrow>
     bench_error + bench_state" where
  "bench_hashes lib cfg clock data probes locations =
     (let hash_probes = True;
          benchdat = (if hash_probes then probes else data);
          bench = bench_hash clock benchdat;
          locs = bench_locations (at_chunk locations 8)
      in run_steps
        [(hashfuncs cfg ''standard'', bench ''hash_standard'' (Some (Some \<circ> std_hash lib))),
         (hashfuncs cfg ''xxh3'', bench ''hash_xxh3'' (Some hash_xxh64_call)),
         (hashfuncs cfg ''wyhash'', bench ''wyhash'' (Some hash_wyhash_call)),
         (hashfuncs cfg ''xxh3_sub8'', bench ''hash_xxh3_sub8''
            (map_option (\<lambda>ls s. XXH3_2loc (str_data s) (str_len s) ls) locs)),
         (hashfuncs cfg ''wyhash_sub8'', bench ''wyhash_sub8''
            (map_option (\<lambda>ls s. wyhash_2loc (str_data s) (str_len s) ls 0 wyp) locs)),
         (hashfuncs cfg ''wyhash_sub8_hardcode'', bench ''wyhash_sub8_hardcode''
            (Some (\<lambda>s. crc32_wyhash_hardcode (str_data s) (str_len s)))),
         (hashfuncs cfg ''mmh2_sub4'', bench ''hash_mmh2_sub4''
            (map_option (\<lambda>hl s. hash_sub4_mmh2 s hl 4) (hash_locations (at_chunk locations 4) 4)))])"

section \<open>The sum\<close>

lemma hash_group_sum:
  assumes "\<forall>x \<in> set p. hash x = Some (h x)" "a + n \<le> length p"
  shows "for_opt [0..<n] (\<lambda>k s. nth_opt p (a + k) \<bind> hash \<bind> (\<lambda>v. Some (s + v))) s =
    Some (s + (\<Sum>x \<leftarrow> take n (drop a p). h x))"
  using assms(2)
proof (induction n)
  case (Suc n)
  have "take (Suc n) (drop a p) = take n (drop a p) @ [p ! (a + n)]"
    using Suc.prems by (simp add: take_Suc_conv_app_nth)
  then show ?case using Suc assms(1) by (simp add: for_opt_append nth_opt_Some add.assoc)
qed simp

lemma sum_hashes_eq:
  assumes "\<forall>x \<in> set p. hash x = Some (h x)"
  shows "sum_hashes hash p = Some (\<Sum>x \<leftarrow> take (length p div hash_group * hash_group) p. h x)"
proof -
  let ?inner = "\<lambda>i. for_opt [0..<hash_group] (\<lambda>k s. nth_opt p (hash_group * i + k) \<bind> hash \<bind> (\<lambda>h. Some (s + h)))"
  have "for_opt [0..<n] (\<lambda>i. for_opt [0..<inner_loop_reuse] (\<lambda>j. ?inner i)) 0 =
      Some (\<Sum>x \<leftarrow> take (n * hash_group) p. h x)" if "n * hash_group \<le> length p" for n
    using that
  proof (induction n)
    case (Suc n)
    have t: "take (hash_group + hash_group * n) p = take (hash_group * n) p @ take hash_group (drop (hash_group * n) p)"
      by (metis add.commute take_add)
    show ?case using Suc hash_group_sum [OF assms, of "hash_group * n" hash_group]
      by (simp add: for_opt_append inner_loop_reuse_def t mult.commute)
  qed simp
  from this [of "length p div hash_group"] show ?thesis by (simp add: sum_hashes_def)
qed

lemma bench_hash_eq:
  assumes "\<forall>x \<in> set p. hash x = Some (h x)"
  shows "\<exists>st'. bench_hash clock p name (Some hash) st = Inr st' \<and> reported st' = reported st @
    [(''hash_func'', name, sint (\<Sum>x \<leftarrow> take (length p div hash_group * hash_group) p. h x))]"
  using benchmark_Inr [of "\<lambda>st. bind_result (defined (sum_hashes hash p)) (\<lambda>s. Inr (sint s, st))" clock st]
  by (simp add: bench_hash_def sum_hashes_eq [OF assms] now_def)

section \<open>The locations\<close>

text \<open>The benchmark hashes with the same two words as the functors do.\<close>

lemma bench_locations_cached:
  assumes "usable_locs locs" "2 \<le> length locs"
  shows "\<exists>hl. hash_locations locs 2 = Some hl \<and> bench_locations locs = cached_locations 2 hl \<and> good_locs 2 hl"
proof -
  obtain a b xs where locs: "locs = a # b # xs" using assms(2) by (metis One_nat_def Suc_1 Suc_le_length_iff)
  have r: "0 \<le> a" "0 \<le> b" "8 * a + 8 < 2 ^ 31" "8 * b + 8 < 2 ^ 31" using assms(1) by (simp_all add: locs usable_locs_def)
  have u: "(of_int a :: u32) \<le> of_int b \<longleftrightarrow> a \<le> b" "(of_int b :: u32) \<le> of_int a \<longleftrightarrow> b \<le> a"
    using r by (simp_all add: word_le_def uint_word_of_int_eq take_bit_int_eq_self)
  have hl: "hash_locations locs 2 = Some (sort [a, b])" by (simp add: hash_locations_def locs)
  then have "good_locs 2 (sort [a, b])" using hash_locations_good(1) [OF assms(1), of 2] by simp
  moreover have "bench_locations locs = cached_locations 2 (sort [a, b])"
    using r u by (auto simp: bench_locations_def cached_locations_def scaled_locations_def nth_opt_def locs mult.commute)
  ultimately show ?thesis using hl by blast
qed

text \<open>What a run of guarded benchmarks keeps.\<close>

lemma run_steps_keeps:
  assumes "list_all (\<lambda>(g, s). \<forall>t t'. P t \<longrightarrow> s t = Inr t' \<longrightarrow> P t') ss" "P t" "run_steps ss t = Inr t'"
  shows "P t'"
  using assms
proof (induction ss arbitrary: t)
  case (Cons gs ss)
  obtain g s where gs: "gs = (g, s)" by (cases gs)
  obtain u where u: "(if g then s t else Inr t) = Inr u" "run_steps ss u = Inr t'"
    using Cons.prems(3) by (cases g; cases "s t") (auto simp: gs)
  have "P u" using u(1) Cons.prems(1,2) by (auto simp: gs split: if_splits)
  then show ?case using Cons.IH [OF _ _ u(2)] Cons.prems(1) by simp
qed simp

text \<open>A hash that is undefined on a probe of a full group makes the sum undefined.\<close>

lemma sum_hashes_None:
  assumes "j < length p div hash_group * hash_group" "hash (p ! j) = None"
  shows "sum_hashes hash p = None"
proof -
  have g: "0 < hash_group" by (simp add: hash_group_def)
  have j: "j div hash_group < length p div hash_group" "hash_group * (j div hash_group) + j mod hash_group = j" "j < length p"
    using assms(1) by (simp_all add: less_mult_imp_div_less) (meson div_times_less_eq_dividend less_le_trans)
  have "for_opt [0..<hash_group] (\<lambda>k s. nth_opt p (hash_group * (j div hash_group) + k) \<bind> hash \<bind> (\<lambda>h. Some (s + h))) s = None" for s
    using j(2,3) g assms(2) by (intro for_opt_None [of "j mod hash_group"]) (simp_all add: nth_opt_Some)
  then show ?thesis unfolding sum_hashes_def
    by (intro for_opt_None [where i = "j div hash_group" and js = "[0..<length p div hash_group]"])
      (use j(1) in \<open>simp_all add: inner_loop_reuse_def\<close>)
qed

lemma sub4_loop_overread:
  assumes "length str < 2 ^ 64" "\<forall>l \<in> set hl. 0 \<le> l \<and> l < 2 ^ 31" "\<forall>l \<in> set hl. sub4_present str l"
  shows "i < length hl \<Longrightarrow> sub4_loop str hl (str_len str div 4) (length hl) (of_int (hl ! i)) i h = None"
proof (induction "length hl - i" arbitrary: i h)
  case (Suc n)
  have l: "0 \<le> hl ! i" "hl ! i < 2 ^ 32" "sub4_present str (hl ! i)"
    using assms(2,3) nth_mem [OF Suc.prems] by (auto intro: less_trans)
  show ?case
  proof (cases "i + 1 < length hl")
    case True
    then show ?thesis using Suc l sub4_test [OF assms(1) l(1,2)] sub4_read [OF l]
      by (subst sub4_loop.simps) (simp add: nth_opt_Some)
  next
    case False
    then show ?thesis using Suc.prems l sub4_test [OF assms(1) l(1,2)] sub4_read [OF l]
      by (subst sub4_loop.simps) (simp add: nth_opt_def)
  qed
qed simp

section \<open>Properties of the hash benchmark\<close>

text \<open>The names under which the requested hash functions are measured, in order.\<close>

definition hash_bench_names :: "bench_config \<Rightarrow> string list" where
  "hash_bench_names cfg = map snd (filter (hashfuncs cfg \<circ> fst)
     [(''standard'', ''hash_standard''), (''xxh3'', ''hash_xxh3''), (''wyhash'', ''wyhash''), (''xxh3_sub8'', ''hash_xxh3_sub8''),
      (''wyhash_sub8'', ''wyhash_sub8''), (''wyhash_sub8_hardcode'', ''wyhash_sub8_hardcode''), (''mmh2_sub4'', ''hash_mmh2_sub4'')])"

definition record_times :: "rat \<Rightarrow> string list \<Rightarrow> bench_state \<Rightarrow> bench_state" where
  "record_times time names st = fold (\<lambda>name. add_timing ''hash_func'' name time) names st"

definition times_are :: "rat \<Rightarrow> bench_state \<Rightarrow> bench_state \<Rightarrow> bool" where
  "times_are filter_time st st' \<longleftrightarrow> timings st' = timings st \<and> total_time_without_dummy_hashing_filter st' = filter_time"

lemma times_are_refl: "total_time_without_dummy_hashing_filter st = T \<Longrightarrow> times_are T st st"
  by (simp add: times_are_def)

lemma bench_hash_times:
  assumes "bench_hash clock p name hasher t = Inr u" "times_are T st t"
  shows "times_are T (add_timing ''hash_func'' name (sdbl T) st) u"
proof -
  obtain s where u: "u = (add_timing ''hash_func'' name (sdbl (total_time_without_dummy_hashing_filter t / 1))
      (t\<lparr>clock_reads := Suc (Suc (clock_reads t))\<rparr>))\<lparr>reported := reported t @ [(''hash_func'', name, sint (s :: u64))]\<rparr>"
    using assms(1) by (auto simp: bench_hash_def benchmark_def benchmark_result_def bind_result_def defined_def now_def add_timing_def
        set_timing_def inner_loop_reuse_def split: option.splits)
  show ?thesis using assms(2) unfolding u by (simp add: times_are_def add_timing_def set_timing_def)
qed

lemma run_steps_times:
  assumes "run_steps (map (\<lambda>(g, name, hasher). (g, bench_hash clock p name hasher)) bs) t = Inr u" "times_are T st t"
  shows "times_are T (record_times (sdbl T) (map (fst \<circ> snd) (filter fst bs)) st) u"
  using assms
proof (induction bs arbitrary: st t)
  case (Cons b bs)
  obtain g name hasher where b: "b = (g, name, hasher)" by (cases b)
  obtain v where v: "(if g then bench_hash clock p name hasher t else Inr t) = Inr v"
      "run_steps (map (\<lambda>(g, name, hasher). (g, bench_hash clock p name hasher)) bs) v = Inr u"
    using Cons.prems(1) by (cases "if g then bench_hash clock p name hasher t else Inr t") (auto simp: b split: if_splits)
  show ?case
  proof (cases g)
    case True
    have "times_are T (add_timing ''hash_func'' name (sdbl T) st) v" using bench_hash_times v(1) Cons.prems(2) True by simp
    from Cons.IH [OF v(2) this] True show ?thesis by (simp add: b record_times_def)
  qed (use Cons.IH [OF v(2)] Cons.prems(2) v(1) in \<open>simp add: b\<close>)
qed (simp add: record_times_def)

text \<open>
  C40. The hash benchmark never measures the hash functions: whatever the clock reads and whatever is hashed, to the time of each requested
  hash function it adds the global \<open>total_time_without_dummy_hashing_filter\<close> as it was before the benchmark, which is the time of
  the last filter benchmark or, if there was none, 0; other times and the global itself stay as they are.
\<close>

theorem hash_benchmark_untimed:
  assumes "bench_hashes lib cfg clock data probes locations st = Inr st'"
  shows "timings st' = timings (record_times (sdbl (total_time_without_dummy_hashing_filter st)) (hash_bench_names cfg) st) \<and>
    total_time_without_dummy_hashing_filter st' = total_time_without_dummy_hashing_filter st"
proof -
  let ?locs = "bench_locations (at_chunk locations 8)"
  let ?bs = "[(hashfuncs cfg ''standard'', ''hash_standard'', Some (Some \<circ> std_hash lib)),
     (hashfuncs cfg ''xxh3'', ''hash_xxh3'', Some hash_xxh64_call),
     (hashfuncs cfg ''wyhash'', ''wyhash'', Some hash_wyhash_call),
     (hashfuncs cfg ''xxh3_sub8'', ''hash_xxh3_sub8'', map_option (\<lambda>ls s. XXH3_2loc (str_data s) (str_len s) ls) ?locs),
     (hashfuncs cfg ''wyhash_sub8'', ''wyhash_sub8'', map_option (\<lambda>ls s. wyhash_2loc (str_data s) (str_len s) ls 0 wyp) ?locs),
     (hashfuncs cfg ''wyhash_sub8_hardcode'', ''wyhash_sub8_hardcode'',
        Some (\<lambda>s. crc32_wyhash_hardcode (str_data s) (str_len s))),
     (hashfuncs cfg ''mmh2_sub4'', ''hash_mmh2_sub4'',
        map_option (\<lambda>hl s. hash_sub4_mmh2 s hl 4) (hash_locations (at_chunk locations 4) 4))]"
  have "run_steps (map (\<lambda>(g, name, hasher). (g, bench_hash clock probes name hasher)) ?bs) st = Inr st'"
    using assms by (simp add: bench_hashes_def Let_def del: run_steps.simps)
  from run_steps_times [OF this times_are_refl [OF refl]]
  have "times_are (total_time_without_dummy_hashing_filter st)
      (record_times (sdbl (total_time_without_dummy_hashing_filter st)) (map (fst \<circ> snd) (filter fst ?bs)) st) st'" .
  moreover have "map (fst \<circ> snd) (filter fst ?bs) = hash_bench_names cfg" by (simp add: hash_bench_names_def)
  ultimately show ?thesis by (simp add: times_are_def)
qed

text \<open>
  The hash benchmark of the learned wyhash hashes with the functor of the tables: it reports the sum, modulo \<open>2 ^ 64\<close>, of the hashes
  of the first two estimated words, over the probes of the full groups of a thousand.
\<close>

theorem learned_hash_benchmark_exact:
  assumes "usable_locs (at_chunk locations 8)" "2 \<le> length (at_chunk locations 8)" "\<forall>x \<in> set probes. length x < 2 ^ 64"
    "hashfuncs cfg = (\<lambda>f. f = ''wyhash_sub8'')"
  shows "\<exists>hl ls st'. hash_locations (at_chunk locations 8) 2 = Some hl \<and> hash_wyhash_2loc_s hl = Some ls \<and>
    bench_hashes lib cfg clock data probes locations st = Inr st' \<and>
    reported st' = reported st @ [(''hash_func'', ''wyhash_sub8'',
      sint (\<Sum>x \<leftarrow> take (length probes div hash_group * hash_group) probes. the (hash_wyhash_2loc_call ls x)))]"
proof -
  obtain hl where hl: "hash_locations (at_chunk locations 8) 2 = Some hl"
      "bench_locations (at_chunk locations 8) = cached_locations 2 hl"
    using bench_locations_cached [OF assms(1,2)] by blast
  have "functor_ok False hl (map_option hash_wyhash_2loc_call (hash_wyhash_2loc_s hl))"
    using sub8_ok [OF assms(1) hl(1), of False] by (simp add: wyhash_sub8_def)
  then obtain ls where ls: "hash_wyhash_2loc_s hl = Some ls"
      "\<forall>x \<in> set probes. hash_wyhash_2loc_call ls x = Some (the (hash_wyhash_2loc_call ls x))"
    using assms(3) by (auto simp: functor_ok_def)
  have f: "(\<lambda>s. wyhash_2loc (str_data s) (str_len s) ls 0 wyp) = hash_wyhash_2loc_call ls"
    by (simp add: fun_eq_iff hash_wyhash_2loc_call_def)
  have "bench_locations (at_chunk locations 8) = Some ls" using hl(2) ls(1) by (simp add: hash_wyhash_2loc_s_def)
  then show ?thesis
    using bench_hash_eq [OF ls(2), of clock "''wyhash_sub8''" st] hl(1) ls(1)
    by (auto simp: bench_hashes_def Let_def assms(4) f)
qed

text \<open>
  The hash benchmark of \<open>hash_sub4_mmh2\<close> is undefined as soon as one of the hashed probes has the words of all four locations: after the last
  word the hash reads a fifth location from the vector of four.
\<close>

theorem mmh2_hash_benchmark_undefined:
  assumes "hash_locations (at_chunk locations 4) 4 = Some hl" "\<forall>l \<in> set hl. 0 \<le> l \<and> l < 2 ^ 31"
    "j < length probes div hash_group * hash_group" "length (probes ! j) < 2 ^ 64" "\<forall>l \<in> set hl. sub4_present (probes ! j) l"
    "hashfuncs cfg = (\<lambda>f. f = ''mmh2_sub4'')"
  shows "bench_hashes lib cfg clock data probes locations st = Inl Undefined"
proof -
  have l: "length hl = 4" using assms(1) by (auto simp: hash_locations_def split: if_splits)
  have "hash_sub4_mmh2 (probes ! j) hl 4 = None"
    using sub4_loop_overread [OF assms(4,2,5), of 0 "str_len (probes ! j)"] l by (simp add: hash_sub4_mmh2_def nth_opt_Some)
  then have "sum_hashes (\<lambda>s. hash_sub4_mmh2 s hl 4) probes = None" using sum_hashes_None [OF assms(3)] by simp
  then show ?thesis
    by (simp add: bench_hashes_def Let_def assms(1,6) bench_hash_def benchmark_def benchmark_result_def now_def)
qed

section \<open>Witnesses\<close>

definition hash_example_config :: "string \<Rightarrow> bench_config" where
  "hash_example_config f = \<lparr>hashfuncs = (\<lambda>g. g = f), table_metrics = (\<lambda>_. False), dataIsFixedLength = False,
     bits_per_element = 8, bits_per_element_rb = 24, added_fpr = 1 / 100\<rparr>"

definition hash_example_lib :: platform where
  "hash_example_lib = \<lparr>std_hash = (\<lambda>x. of_nat (length x)), lib_log2 = (\<lambda>x. x), lib_ln2 = 3 / 4,
     lib_pow = (\<lambda>_ _. 1), lib_sqrt = (\<lambda>x. x), fprGivenK512 = (\<lambda>_ _. 1), fprGivenK64 = (\<lambda>_ _. 1)\<rparr>"

definition hash_example_state :: bench_state where
  "hash_example_state = \<lparr>clock_reads = 0, total_time_without_dummy_hashing = 0, total_time_without_dummy_hashing_filter = 0, total_time_without_dummy_hashing_partition = 0,
     timings = (\<lambda>_. Map.empty), reported = []\<rparr>"

text \<open>A filter benchmark has left the time 7; that of \<open>hash_standard\<close> was 5 before.\<close>

definition hash_later_state :: bench_state where
  "hash_later_state = hash_example_state\<lparr>total_time_without_dummy_hashing_filter := 7,
     timings := (\<lambda>_. Map.empty)(''hash_func'' := [''hash_standard'' \<mapsto> 5])\<rparr>"

theorem hash_benchmark_untimed_witness:
  "\<exists>st'. bench_hashes hash_example_lib (hash_example_config ''standard'') int [] (replicate 1000 [1]) Map.empty hash_later_state = Inr st' \<and>
    timings st' ''hash_func'' ''hash_standard'' = Some 12"
proof -
  obtain st' where "bench_hash int (replicate 1000 [1]) ''hash_standard'' (Some (Some \<circ> std_hash hash_example_lib)) hash_later_state = Inr st'"
    using bench_hash_eq [of "replicate 1000 [1]" "Some \<circ> std_hash hash_example_lib" "std_hash hash_example_lib"] by fastforce
  then have r: "bench_hashes hash_example_lib (hash_example_config ''standard'') int [] (replicate 1000 [1]) Map.empty hash_later_state = Inr st'"
    by (simp add: bench_hashes_def Let_def hash_example_config_def)
  have "sdbl 7 = 7" "sdbl 12 = 12" by code_simp+
  then have "timings (record_times (sdbl 7) (hash_bench_names (hash_example_config ''standard'')) hash_later_state) ''hash_func'' ''hash_standard'' =
      Some 12"
    by (simp add: record_times_def hash_bench_names_def hash_example_config_def hash_later_state_def add_timing_def set_timing_def)
  with hash_benchmark_untimed [OF r] r show ?thesis by (simp add: hash_later_state_def)
qed

theorem learned_hash_benchmark_exact_witness:
  "\<exists>hl ls st'. hash_locations [3, 0, 5] 2 = Some hl \<and> hash_wyhash_2loc_s hl = Some ls \<and>
    bench_hashes hash_example_lib (hash_example_config ''wyhash_sub8'') int [] (replicate 1500 [1, 2]) [8 \<mapsto> [3, 0, 5]] hash_example_state = Inr st' \<and>
    reported st' = [(''hash_func'', ''wyhash_sub8'', sint (\<Sum>x \<leftarrow> replicate 1000 [1, 2]. the (hash_wyhash_2loc_call ls x)))]"
proof -
  have "take (length (replicate 1500 [1, 2 :: u8]) div hash_group * hash_group) (replicate 1500 [1, 2]) = replicate 1000 [1, 2]"
    by (simp add: hash_group_def)
  moreover have "at_chunk [8 \<mapsto> [3, 0, 5 :: int]] 8 = [3, 0, 5]" by (simp add: at_chunk_def)
  moreover have "reported hash_example_state = []" by (simp add: hash_example_state_def)
  ultimately show ?thesis
    using learned_hash_benchmark_exact [where locations = "[8 \<mapsto> [3, 0, 5]]" and probes = "replicate 1500 [1, 2]"
        and cfg = "hash_example_config ''wyhash_sub8''" and lib = hash_example_lib and clock = int and data = "[]" and st = hash_example_state]
    by (simp add: usable_locs_def hash_example_config_def)
qed

theorem mmh2_hash_benchmark_undefined_witness:
  "bench_hashes hash_example_lib (hash_example_config ''mmh2_sub4'') int [] (replicate 1000 (replicate 16 7)) [4 \<mapsto> [3, 0, 2, 1]] hash_example_state =
    Inl Undefined"
  by (rule mmh2_hash_benchmark_undefined [where hl = "[0, 1, 2, 3]" and j = 0])
    (simp_all add: at_chunk_def hash_locations_def hash_group_def sub4_present_def hash_example_config_def)

end
