(* ===== verification/Benchmarker.thy ===== *)
theory Benchmarker
  imports Storage Workload Table_Driver Filter_Driver Partition_Bench Hash_Bench
begin

text \<open>
  The benchmark program (\<open>benchmarker.cpp\<close>): its options and globals, reading the data set, estimating and loading the
  locations, and the trials, which run the requested benchmarks on a fresh split of the data. Parsing the options is Boost's and a
  parameter, like the random number generator, the clock, the Abseil and sparsehash classes and what is a parameter in
  the components. The theorems follow the locations from the estimator through the file to the hash functions, and say when the program
  ends normally and when it cannot.
\<close>

section \<open>Options, environment and globals\<close>

text \<open>
  What \<open>parseCommandLineAndConfigFile\<close> returns. Options with a default always have a value; \<open>opt_byteLocations\<close> maps the chunk
  size to the file given for it. The multi-threaded benchmark is left out.
\<close>

record options =
  opt_help :: bool
  opt_hashfns :: "string list option"
  opt_partition_benchmarks :: "string list option"
  opt_filter_benchmarks :: "string list option"
  opt_hash_benchmarks :: "string list option"
  opt_table_benchmarks :: "string list option"
  opt_num_trials :: int
  opt_fract_successful :: rat
  opt_num_probes :: int
  opt_data_size :: "int option"
  opt_dataset :: "string option"
  opt_metrics :: "string list option"
  opt_set_load_factor :: bool
  opt_load_factor :: rat
  opt_byteLocations :: "int \<rightharpoonup> string"
  opt_regenerate :: bool
  opt_bits_per_element :: rat
  opt_bits_per_element_rb :: rat
  opt_added_fpr :: rat

text \<open>
  The random number generator \<open>'r\<close>, the library functions, the tables \<open>'t\<close> of Abseil and \<open>'g\<close> of sparsehash.
\<close>

record ('r, 't, 'g) environment =
  env_draw :: "'r \<Rightarrow> nat \<Rightarrow> nat \<Rightarrow> nat \<times> 'r"
  env_shuffle :: "'r \<Rightarrow> bytes list \<Rightarrow> bytes list \<times> 'r"
  env_rand :: "nat \<Rightarrow> string \<Rightarrow> nat \<Rightarrow> nat"
  env_iter :: "frequencies \<Rightarrow> frequencies"
  env_lib :: platform
  env_clock :: clock
  env_show_double :: "double \<Rightarrow> bytes"
  env_stod :: "bytes \<Rightarrow> double option"
  env_max_size :: nat
  env_flat_class :: "hash_functor \<Rightarrow> 't table_ops"
  env_absl_hash :: "bytes \<Rightarrow> u64"
  env_dense_class :: "hash_functor \<Rightarrow> 'g table_ops"
  env_set_empty_key :: "bytes \<Rightarrow> 'g \<Rightarrow> 'g"

text \<open>The globals of the program, its files and its random number generator; \<open>table_runs\<close> numbers the calls of table benchmarks.\<close>

record 'r prog_state =
  config :: table_config
  locations :: "int \<rightharpoonup> int list"
  entropies :: "int \<rightharpoonup> double list"
  bench :: bench_state
  fprs :: fpr_table
  partition_variances :: variances
  data_size :: int
  num_probes :: int
  num_trials :: int
  fract_successful :: rat
  files :: file_system
  rng :: 'r
  table_runs :: nat

definition initial_config :: table_config where
  "initial_config = \<lparr>hashfuncs = (\<lambda>_. False), table_metrics = (\<lambda>_. False), dataIsFixedLength = False, bits_per_element = 0,
     bits_per_element_rb = 0, added_fpr = 0, set_load_factor = False, cfg_load_factor = 0\<rparr>"

definition initial_state :: "file_system \<Rightarrow> 'r \<Rightarrow> 'r prog_state" where
  "initial_state fs r = \<lparr>config = initial_config, locations = Map.empty, entropies = Map.empty,
     bench = \<lparr>clock_reads = 0, total_time_without_dummy_hashing = 0, total_time_without_dummy_hashing_filter = 0,
       total_time_without_dummy_hashing_partition = 0, timings = (\<lambda>_. Map.empty), reported = []\<rparr>,
     fprs = (\<lambda>_. Map.empty), partition_variances = Map.empty, data_size = 0, num_probes = 0, num_trials = 0,
     fract_successful = 3 / 4, files = fs, rng = r, table_runs = 0\<rparr>"

section \<open>Setting up\<close>

text \<open>A message thrown inside the \<open>try\<close> of \<open>main\<close> is printed and the program exits.\<close>

definition read_dataset :: "('r, 't, 'g) environment \<Rightarrow> options \<Rightarrow> 'r prog_state \<Rightarrow> bench_error + bytes list \<times> 'r prog_state" where
  "read_dataset env vm ps =
     (case opt_dataset vm of
        None \<Rightarrow> Inl Exit
      | Some dataset \<Rightarrow>
          let (datasetHolder, r) = env_shuffle env (rng ps) (read_lines (files ps) dataset)
          in Inr (datasetHolder, ps\<lparr>rng := r\<rparr>))"

definition setHashFunctions :: "options \<Rightarrow> 'r prog_state \<Rightarrow> bench_error + 'r prog_state" where
  "setHashFunctions vm ps =
     (case opt_hashfns vm of
        None \<Rightarrow> Inl Exit
      | Some requested_hashfns \<Rightarrow>
          Inr (ps\<lparr>config := (config ps)\<lparr>hashfuncs := fold (\<lambda>f h. h(f := True)) requested_hashfns (hashfuncs (config ps))\<rparr>\<rparr>))"

text \<open>The same throw outside the \<open>try\<close> ends the program.\<close>

definition setTableMetrics :: "options \<Rightarrow> 'r prog_state \<Rightarrow> bench_error + 'r prog_state" where
  "setTableMetrics vm ps =
     (case opt_metrics vm of
        None \<Rightarrow> Inl Uncaught
      | Some metrics \<Rightarrow>
          Inr (ps\<lparr>config := (config ps)\<lparr>table_metrics := fold (\<lambda>m t. t(m := True)) metrics (table_metrics (config ps))\<rparr>\<rparr>))"

definition load_locations :: "('r, 't, 'g) environment \<Rightarrow> options \<Rightarrow> int \<Rightarrow> 'r prog_state \<Rightarrow> bench_error + 'r prog_state" where
  "load_locations env vm chunk ps =
     (case opt_byteLocations vm chunk of
        None \<Rightarrow> Inr ps
      | Some name \<Rightarrow>
          bind_result (read_entropies (env_stod env) (files ps) name) (\<lambda>(ls, es, fixed).
            Inr (ps\<lparr>locations := (locations ps)(chunk \<mapsto> ls), entropies := (entropies ps)(chunk \<mapsto> es),
              config := (config ps)\<lparr>dataIsFixedLength := fixed\<rparr>\<rparr>)))"

definition setLocationData :: "('r, 't, 'g) environment \<Rightarrow> options \<Rightarrow> 'r prog_state \<Rightarrow> bench_error + 'r prog_state" where
  "setLocationData env vm ps =
     bind_result (load_locations env vm 1 ps) (\<lambda>ps.
     bind_result (load_locations env vm 4 ps) (\<lambda>ps.
     load_locations env vm 8 ps))"

text \<open>
  One chunk size of \<open>generateLocationData\<close>: for one and four bytes the locations are written first, and the same file is
  overwritten with locations and entropies.
\<close>

definition estimate_locations :: "('r, 't, 'g) environment \<Rightarrow> options \<Rightarrow> nat \<Rightarrow> int \<Rightarrow> bool \<Rightarrow> bytes list \<Rightarrow> bytes list \<Rightarrow> bytes list \<Rightarrow>
    file_system \<Rightarrow> bench_error + file_system" where
  "estimate_locations env vm chunk numPositions write_first data sample_data sample_val fs =
     (case opt_byteLocations vm (int chunk) of
        None \<Rightarrow> Inr fs
      | Some name \<Rightarrow>
          bind_result (greedyRenyiSelectorStopK (lib_log2 (env_lib env)) (env_iter env) chunk (max_str_size data)
            sample_data sample_val [] [] numPositions) (\<lambda>(locs, es, fixedLengthData, entropy).
          let fs = (if write_first then write_locations locs name fs else fs)
          in write_entropies (env_show_double env) es locs fixedLengthData name fs))"

text \<open>The data is shuffled by the split.\<close>

definition generateLocationData :: "('r, 't, 'g) environment \<Rightarrow> options \<Rightarrow> bytes list \<Rightarrow> 'r prog_state \<Rightarrow>
    bench_error + bytes list \<times> 'r prog_state" where
  "generateLocationData env vm data ps =
     bind_result (get_subset (env_shuffle env) (rng ps) data (1 / 2)) (\<lambda>((sample_data, sample_val), data, r).
     bind_result (estimate_locations env vm 1 16 True data sample_data sample_val (files ps)) (\<lambda>fs.
     bind_result (estimate_locations env vm 4 16 True data sample_data sample_val fs) (\<lambda>fs.
     bind_result (estimate_locations env vm 8 12 False data sample_data sample_val fs) (\<lambda>fs.
     Inr (data, ps\<lparr>files := fs, rng := r\<rparr>)))))"

definition initialize_args :: "options \<Rightarrow> 'r prog_state \<Rightarrow> 'r prog_state" where
  "initialize_args vm ps =
     (let clear = (\<lambda>ms ps. ps\<lparr>bench := (bench ps)\<lparr>timings := fold (\<lambda>m t. t(m := Map.empty)) ms (timings (bench ps))\<rparr>\<rparr>);
          ps = (if opt_filter_benchmarks vm = None then ps
                else clear [''filter_throughput'', ''filter_latency'']
                  (ps\<lparr>fprs := (fprs ps)(''filter_throughput'' := Map.empty, ''filter_latency'' := Map.empty)\<rparr>));
          ps = (if opt_hash_benchmarks vm = None then ps else clear [''hash_func''] ps);
          ps = (if opt_table_benchmarks vm = None then ps
                else clear [''hash_table_throughput'', ''hash_table_latency'', ''hash_table_build''] ps)
      in if opt_partition_benchmarks vm = None then ps else clear [''partition''] ps)"

text \<open>The options that are stored in globals.\<close>

definition with_options :: "options \<Rightarrow> nat \<Rightarrow> 'r prog_state \<Rightarrow> 'r prog_state" where
  "with_options vm n ps =
     ps\<lparr>num_probes := opt_num_probes vm, fract_successful := opt_fract_successful vm, num_trials := opt_num_trials vm,
       data_size := (case opt_data_size vm of Some n \<Rightarrow> n | None \<Rightarrow> c_int (int n)),
       config := (config ps)\<lparr>bits_per_element := opt_bits_per_element vm, bits_per_element_rb := opt_bits_per_element_rb vm,
         added_fpr := opt_added_fpr vm\<rparr>\<rparr>"

text \<open>The part of \<open>main\<close> up to the trials.\<close>

definition set_up :: "('r, 't, 'g) environment \<Rightarrow> options \<Rightarrow> 'r prog_state \<Rightarrow> bench_error + bytes list \<times> 'r prog_state" where
  "set_up env vm ps =
     bind_result (read_dataset env vm ps) (\<lambda>(full_data, ps).
     bind_result (setHashFunctions vm ps) (\<lambda>ps.
     bind_result (if opt_regenerate vm then generateLocationData env vm full_data ps else Inr (full_data, ps)) (\<lambda>(full_data, ps).
     bind_result (setLocationData env vm ps) (\<lambda>ps.
     Inr (full_data, initialize_args vm (with_options vm (length full_data) ps))))))"

section \<open>Trials\<close>

text \<open>
  The requested benchmarks, by their names in the tables of the headers: \<open>find(f)->second\<close> for a name that is not there
  dereferences the end iterator.
\<close>

primrec run_names :: "(string \<rightharpoonup> ('s \<Rightarrow> bench_error + 's)) \<Rightarrow> string list \<Rightarrow> 's \<Rightarrow> bench_error + 's" where
  "run_names table [] s = Inr s"
| "run_names table (f # fs) s =
     bind_result (bind_result (defined (table f)) (\<lambda>fn. fn s)) (run_names table fs)"

definition partition_benchmarks :: "('r, 't, 'g) environment \<Rightarrow> bytes list \<Rightarrow> string \<rightharpoonup> ('r prog_state \<Rightarrow> bench_error + 'r prog_state)" where
  "partition_benchmarks env data = map_of
     [(''partition'', \<lambda>ps.
        bind_result (bench_partitioners (env_lib env) (bench_config.truncate (config ps)) (env_clock env) data (locations ps) (entropies ps)
          1024 (partition_variances ps, bench ps)) (\<lambda>(vs, st).
        Inr (ps\<lparr>partition_variances := vs, bench := st\<rparr>)))]"

definition filter_benchmarks :: "('r, 't, 'g) environment \<Rightarrow> bytes list \<Rightarrow> bytes list \<Rightarrow> int \<Rightarrow>
    string \<rightharpoonup> ('r prog_state \<Rightarrow> bench_error + 'r prog_state)" where
  "filter_benchmarks env data probes npu =
     (let run = (\<lambda>driver ps.
        bind_result (driver (env_lib env) (bench_config.truncate (config ps)) (env_clock env) data probes (locations ps) (entropies ps) npu
          (fprs ps, bench ps)) (\<lambda>(t, st).
        Inr (ps\<lparr>fprs := t, bench := st\<rparr>)))
      in map_of
        [(''self_bloom'', run bench_selfbloom), (''register_bloom'', run bench_register_block_bloom), (''block_bloom'', run bench_blockbloom)])"

definition hash_benchmarks :: "('r, 't, 'g) environment \<Rightarrow> bytes list \<Rightarrow> bytes list \<Rightarrow>
    string \<rightharpoonup> ('r prog_state \<Rightarrow> bench_error + 'r prog_state)" where
  "hash_benchmarks env data probes = map_of
     [(''bench_hashes'', \<lambda>ps.
        bind_result (bench_hashes (env_lib env) (bench_config.truncate (config ps)) (env_clock env) data probes (locations ps) (bench ps)) (\<lambda>st.
        Inr (ps\<lparr>bench := st\<rparr>)))]"

definition table_benchmarks :: "('r, 't, 'g) environment \<Rightarrow> bytes list \<Rightarrow> bytes list \<Rightarrow>
    string \<rightharpoonup> ('r prog_state \<Rightarrow> bench_error + 'r prog_state)" where
  "table_benchmarks env data probes =
     (let run = (\<lambda>driver ps.
        bind_result (driver (config ps) (env_rand env (table_runs ps)) (locations ps) (entropies ps) (bench ps)) (\<lambda>st.
        Inr (ps\<lparr>bench := st, table_runs := table_runs ps + 1\<rparr>)))
      in map_of
        [(''robin_table'', run (\<lambda>cfg rand ls es.
            bench_robin_table (env_lib env) cfg (env_clock env) rand (env_max_size env) data probes ls)),
         (''google_table'', run (\<lambda>cfg rand ls es.
            bench_google_table (env_lib env) cfg (env_clock env) rand (env_dense_class env) (env_set_empty_key env) data probes)),
         (''swiss_table'', run (\<lambda>cfg rand ls es.
            bench_swiss_table (env_lib env) cfg (env_clock env) rand (env_flat_class env) (env_absl_hash env) data probes ls es)),
         (''std_table'', run (\<lambda>cfg rand ls es.
            bench_std_table (env_lib env) cfg (env_clock env) rand data probes ls es))])"

definition data_fraction :: "int \<Rightarrow> nat \<Rightarrow> rat" where
  "data_fraction data_sz n = sdbl (of_int data_sz / of_nat n)"

text \<open>
  \<open>fract\<close> is the quotient of two doubles; without data it is not a number of \<open>[0, 1]\<close>, and the assertion of \<open>get_subset\<close> fails.
\<close>

definition select_data :: "('r, 't, 'g) environment \<Rightarrow> bytes list \<Rightarrow> 'r prog_state \<Rightarrow>
    bench_error + (bytes list \<times> bytes list) \<times> bytes list \<times> 'r prog_state" where
  "select_data env full_data ps =
     (if full_data = [] then Inl Assertion_failed
      else let fract = data_fraction (data_size ps) (length full_data) in
        if fract \<noteq> 1 then
          bind_result (get_subset (env_shuffle env) (rng ps) full_data (sflt fract)) (\<lambda>(parts, full_data, r).
          Inr (parts, full_data, ps\<lparr>rng := r\<rparr>))
        else Inr ((full_data, []), full_data, ps))"

definition run_requested :: "string list option \<Rightarrow> (string list \<Rightarrow> 's \<Rightarrow> bench_error + 's) \<Rightarrow> 's \<Rightarrow> bench_error + 's" where
  "run_requested requested f s = (case requested of None \<Rightarrow> Inr s | Some names \<Rightarrow> f names s)"

definition run_benchmarks :: "('r, 't, 'g) environment \<Rightarrow> options \<Rightarrow> bytes list \<Rightarrow> bytes list \<Rightarrow> int \<Rightarrow> 'r prog_state \<Rightarrow>
    bench_error + 'r prog_state" where
  "run_benchmarks env vm data probes npu ps =
     bind_result (run_requested (opt_partition_benchmarks vm) (run_names (partition_benchmarks env data)) ps) (\<lambda>ps.
     bind_result (run_requested (opt_filter_benchmarks vm) (\<lambda>names ps.
        bind_result (setTableMetrics vm ps) (run_names (filter_benchmarks env data probes npu) names)) ps) (\<lambda>ps.
     bind_result (run_requested (opt_hash_benchmarks vm) (run_names (hash_benchmarks env data probes)) ps) (\<lambda>ps.
     let ps = ps\<lparr>config := (config ps)\<lparr>set_load_factor := opt_set_load_factor vm, cfg_load_factor := flt (opt_load_factor vm)\<rparr>\<rparr> in
     run_requested (opt_table_benchmarks vm) (\<lambda>names ps.
        bind_result (setTableMetrics vm ps) (run_names (table_benchmarks env data probes) names)) ps)))"

definition run_trial :: "('r, 't, 'g) environment \<Rightarrow> options \<Rightarrow> bytes list \<times> 'r prog_state \<Rightarrow>
    bench_error + bytes list \<times> 'r prog_state" where
  "run_trial env vm s =
     (let (full_data, ps) = s in
      bind_result (select_data env full_data ps) (\<lambda>((data, uninserted), full_data, ps).
      bind_result (defined (generate_probes_with_unselected_keys_as_false (env_draw env) (env_shuffle env) (rng ps) data uninserted
        (fract_successful ps) (unat (of_int (num_probes ps) :: u32)))) (\<lambda>((probes, npu), r).
      bind_result (run_benchmarks env vm data probes (c_int (int npu)) (ps\<lparr>rng := r\<rparr>)) (\<lambda>ps.
      Inr (full_data, ps)))))"

primrec run_trials :: "('r, 't, 'g) environment \<Rightarrow> options \<Rightarrow> nat \<Rightarrow> bytes list \<times> 'r prog_state \<Rightarrow>
    bench_error + bytes list \<times> 'r prog_state" where
  "run_trials env vm 0 s = Inr s"
| "run_trials env vm (Suc n) s = bind_result (run_trial env vm s) (run_trials env vm n)"

definition main :: "('r, 't, 'g) environment \<Rightarrow> options \<Rightarrow> 'r prog_state \<Rightarrow> bench_error + bytes list \<times> 'r prog_state" where
  "main env vm ps =
     (if opt_help vm then Inl Exit
      else bind_result (set_up env vm ps) (\<lambda>(full_data, ps).
        run_trials env vm (nat (num_trials ps)) (full_data, ps)))"

section \<open>Results\<close>

text \<open>
  The averages that are printed at the end, by name: \<open>None\<close> for a quotient that is not finite.
\<close>

definition average :: "int \<Rightarrow> rat option \<Rightarrow> rat option" where
  "average n entry = (case entry of None \<Rightarrow> None | Some x \<Rightarrow> if n = 0 then None else Some (sdbl (x / of_int n)))"

definition print_variances :: "'r prog_state \<Rightarrow> string \<rightharpoonup> rat option" where
  "print_variances ps = (\<lambda>name. map_option (average (num_trials ps)) (partition_variances ps name))"

definition print_fprs :: "'r prog_state \<Rightarrow> string \<Rightarrow> string \<rightharpoonup> rat option" where
  "print_fprs ps metric = (\<lambda>name. map_option (average (num_trials ps)) (fprs ps metric name))"

definition print_benchmark_results :: "'r prog_state \<Rightarrow> string \<Rightarrow> string \<rightharpoonup> rat option" where
  "print_benchmark_results ps metric =
     (let n = (if metric = ''hash_table_build'' then data_size ps else num_probes ps);
          d = sdbl (of_int n * of_int (num_trials ps))
      in (\<lambda>name. map_option (\<lambda>t. if d = 0 then None else Some (sdbl (t / d))) (timings (bench ps) metric name)))"

section \<open>The state of the program\<close>

text \<open>
  The locations of a chunk size are numbers of type \<open>int\<close>, as many as there are entropies.
\<close>

definition locations_ok :: "'r prog_state \<Rightarrow> bool" where
  "locations_ok ps \<longleftrightarrow>
     (\<forall>k. case (locations ps k, entropies ps k) of
        (None, None) \<Rightarrow> True
      | (Some ls, Some es) \<Rightarrow> length es = length ls \<and> (\<forall>l \<in> set ls. - (2 ^ 31) \<le> l \<and> l < 2 ^ 31)
      | _ \<Rightarrow> False)"

lemma load_locations_typed:
  assumes "load_locations env vm k ps = Inr ps'" "locations_ok ps"
  shows "locations_ok ps' \<and> hashfuncs (config ps') = hashfuncs (config ps)"
proof (cases "opt_byteLocations vm k")
  case (Some name)
  then obtain ls es fixed where r: "read_entropies (env_stod env) (files ps) name = Inr (ls, es, fixed)"
    and ps': "ps' = ps\<lparr>locations := (locations ps)(k \<mapsto> ls), entropies := (entropies ps)(k \<mapsto> es),
              config := (config ps)\<lparr>dataIsFixedLength := fixed\<rparr>\<rparr>"
    using assms(1) by (auto simp: load_locations_def bind_result_Inr)
  show ?thesis using read_entropies_typed [OF r] assms(2) by (auto simp: ps' locations_ok_def)
qed (use assms in \<open>simp add: load_locations_def\<close>)

lemma setLocationData_ok:
  assumes "setLocationData env vm ps = Inr ps'" "locations_ok ps"
  shows "locations_ok ps' \<and> hashfuncs (config ps') = hashfuncs (config ps)"
  using assms unfolding setLocationData_def bind_result_Inr by (metis load_locations_typed)

text \<open>What no benchmark changes: the locations, their entropies and the chosen hash functions.\<close>

definition same_setting :: "'r prog_state \<Rightarrow> 'r prog_state \<Rightarrow> bool" where
  "same_setting ps ps' \<longleftrightarrow>
     locations ps' = locations ps \<and> entropies ps' = entropies ps \<and> hashfuncs (config ps') = hashfuncs (config ps) \<and>
     dataIsFixedLength (config ps') = dataIsFixedLength (config ps) \<and> data_size ps' = data_size ps \<and>
     num_probes ps' = num_probes ps \<and> fract_successful ps' = fract_successful ps"

lemma same_setting_refl [simp]: "same_setting ps ps"
  by (simp add: same_setting_def)

lemma same_setting_trans [trans]: "same_setting ps qs \<Longrightarrow> same_setting qs rs \<Longrightarrow> same_setting ps rs"
  by (simp add: same_setting_def)

lemma run_names_keeps:
  assumes "run_names table fs s = Inr s'" "\<forall>f fn s s'. table f = Some fn \<longrightarrow> fn s = Inr s' \<longrightarrow> same_setting s s'"
  shows "same_setting s s'"
  using assms(1)
proof (induction fs arbitrary: s)
  case (Cons f fs)
  obtain fn s1 where "table f = Some fn" "fn s = Inr s1" "run_names table fs s1 = Inr s'"
    using Cons.prems by (auto simp: bind_result_Inr defined_Inr)
  then show ?case using Cons.IH assms(2) same_setting_trans by blast
qed simp

lemma partition_benchmarks_keep:
  "partition_benchmarks env data f = Some fn \<Longrightarrow> fn s = Inr s' \<Longrightarrow> same_setting s s'"
  by (auto simp: partition_benchmarks_def bind_result_Inr same_setting_def split: if_splits)

lemma filter_benchmarks_keep:
  "filter_benchmarks env data probes npu f = Some fn \<Longrightarrow> fn s = Inr s' \<Longrightarrow> same_setting s s'"
  by (auto simp: filter_benchmarks_def bind_result_Inr same_setting_def split: if_splits)

lemma hash_benchmarks_keep:
  "hash_benchmarks env data probes f = Some fn \<Longrightarrow> fn s = Inr s' \<Longrightarrow> same_setting s s'"
  by (auto simp: hash_benchmarks_def bind_result_Inr same_setting_def split: if_splits)

lemma table_benchmarks_keep:
  "table_benchmarks env data probes f = Some fn \<Longrightarrow> fn s = Inr s' \<Longrightarrow> same_setting s s'"
  by (auto simp: table_benchmarks_def bind_result_Inr same_setting_def split: if_splits)

lemma setTableMetrics_keeps: "setTableMetrics vm ps = Inr ps' \<Longrightarrow> same_setting ps ps'"
  by (auto simp: setTableMetrics_def same_setting_def split: option.splits)

lemma run_requested_keeps:
  assumes "run_requested requested f s = Inr s'" "\<forall>names s s'. f names s = Inr s' \<longrightarrow> same_setting s s'"
  shows "same_setting s s'"
  using assms by (auto simp: run_requested_def split: option.splits)

lemma run_with_metrics_keeps:
  assumes "run_requested requested (\<lambda>names ps. bind_result (setTableMetrics vm ps) (run_names table names)) s = Inr s'"
    "\<forall>f fn s s'. table f = Some fn \<longrightarrow> fn s = Inr s' \<longrightarrow> same_setting s s'"
  shows "same_setting s s'"
proof (rule run_requested_keeps [OF assms(1)], intro allI impI)
  fix names t t' assume "bind_result (setTableMetrics vm t) (run_names table names) = Inr t'"
  then obtain u where "setTableMetrics vm t = Inr u" "run_names table names u = Inr t'" by (auto simp: bind_result_Inr)
  then show "same_setting t t'" using setTableMetrics_keeps run_names_keeps assms(2) same_setting_trans by blast
qed

lemma run_benchmarks_keeps:
  assumes "run_benchmarks env vm data probes npu ps = Inr ps'"
  shows "same_setting ps ps'"
proof -
  obtain p1 p2 p3 where p: "run_requested (opt_partition_benchmarks vm) (run_names (partition_benchmarks env data)) ps = Inr p1"
    "run_requested (opt_filter_benchmarks vm) (\<lambda>names ps.
        bind_result (setTableMetrics vm ps) (run_names (filter_benchmarks env data probes npu) names)) p1 = Inr p2"
    "run_requested (opt_hash_benchmarks vm) (run_names (hash_benchmarks env data probes)) p2 = Inr p3"
    "run_requested (opt_table_benchmarks vm) (\<lambda>names ps.
        bind_result (setTableMetrics vm ps) (run_names (table_benchmarks env data probes) names))
      (p3\<lparr>config := (config p3)\<lparr>set_load_factor := opt_set_load_factor vm, cfg_load_factor := flt (opt_load_factor vm)\<rparr>\<rparr>) = Inr ps'"
    using assms unfolding run_benchmarks_def bind_result_Inr Let_def by blast
  have "same_setting ps p1" by (rule run_requested_keeps [OF p(1)]) (blast intro: run_names_keeps partition_benchmarks_keep)
  also have "same_setting p1 p2" by (rule run_with_metrics_keeps [OF p(2)]) (blast intro: filter_benchmarks_keep)
  also have "same_setting p2 p3" by (rule run_requested_keeps [OF p(3)]) (blast intro: run_names_keeps hash_benchmarks_keep)
  also have "same_setting p3 (p3\<lparr>config := (config p3)\<lparr>set_load_factor := opt_set_load_factor vm,
      cfg_load_factor := flt (opt_load_factor vm)\<rparr>\<rparr>)" by (simp add: same_setting_def)
  also have "same_setting \<dots> ps'" by (rule run_with_metrics_keeps [OF p(4)]) (blast intro: table_benchmarks_keep)
  finally show ?thesis .
qed

lemma select_data_keeps:
  assumes "select_data env full ps = Inr ((data, uninserted), full', ps')" "\<forall>r xs. mset (fst (env_shuffle env r xs)) = mset xs"
  shows "mset full' = mset full \<and> same_setting ps ps' \<and> mset (data @ uninserted) = mset full"
proof (cases "data_fraction (data_size ps) (length full) = 1")
  case True
  then show ?thesis using assms(1) by (auto simp: select_data_def same_setting_def split: if_splits)
next
  case False
  then obtain r where g: "get_subset (env_shuffle env) (rng ps) full (sflt (data_fraction (data_size ps) (length full))) =
      Inr ((data, uninserted), full', r)" and ps': "ps' = ps\<lparr>rng := r\<rparr>"
    using assms(1) by (auto simp: select_data_def bind_result_Inr Let_def split: if_splits)
  obtain k where "data = take k full'" "uninserted = drop k full'" "full' = fst (env_shuffle env (rng ps) full)"
    using get_subset_parts [OF g] by blast
  then show ?thesis using assms(2) by (simp add: ps' same_setting_def)
qed

lemma run_trial_keeps:
  assumes "run_trial env vm (full, ps) = Inr (full', ps')" "\<forall>r xs. mset (fst (env_shuffle env r xs)) = mset xs"
  shows "mset full' = mset full \<and> same_setting ps ps'"
proof -
  obtain data uninserted p1 probes npu r where p1: "select_data env full ps = Inr ((data, uninserted), full', p1)"
    and p2: "run_benchmarks env vm data probes (c_int (int npu)) (p1\<lparr>rng := r\<rparr>) = Inr ps'"
    using assms(1) unfolding run_trial_def Let_def by (auto simp: bind_result_Inr)
  have "same_setting ps p1" using select_data_keeps [OF p1 assms(2)] by blast
  also have "same_setting p1 (p1\<lparr>rng := r\<rparr>)" by (simp add: same_setting_def)
  also have "same_setting \<dots> ps'" using run_benchmarks_keeps [OF p2] .
  finally show ?thesis using select_data_keeps [OF p1 assms(2)] by blast
qed

lemma run_trials_keep:
  assumes "run_trials env vm n (full, ps) = Inr (full', ps')" "\<forall>r xs. mset (fst (env_shuffle env r xs)) = mset xs"
  shows "mset full' = mset full \<and> same_setting ps ps'"
  using assms(1)
proof (induction n arbitrary: full ps)
  case (Suc n)
  obtain f1 p1 where "run_trial env vm (full, ps) = Inr (f1, p1)" "run_trials env vm n (f1, p1) = Inr (full', ps')"
    using Suc.prems by (auto simp: bind_result_Inr)
  then show ?case using Suc.IH run_trial_keeps [OF _ assms(2)] same_setting_trans by metis
qed simp

text \<open>Setting up.\<close>

lemma initialize_args_keeps: "same_setting ps (initialize_args vm ps)"
  by (simp add: initialize_args_def same_setting_def Let_def)

lemma generateLocationData_keeps:
  assumes "generateLocationData env vm data ps = Inr (data', ps')" "\<forall>r xs. mset (fst (env_shuffle env r xs)) = mset xs"
  shows "mset data' = mset data \<and> same_setting ps ps'"
proof -
  obtain chosen remaining r fs where g: "get_subset (env_shuffle env) (rng ps) data (1 / 2) = Inr ((chosen, remaining), data', r)"
    and "ps' = ps\<lparr>files := fs, rng := r\<rparr>"
    using assms(1) unfolding generateLocationData_def by (auto simp: bind_result_Inr)
  then show ?thesis using get_subset_parts [OF g] assms(2) by (auto simp: same_setting_def)
qed

lemma hashfuncs_fold: "fold (\<lambda>f h. h(f := True)) fs h f \<longleftrightarrow> f \<in> set fs \<or> h f"
  by (induction fs arbitrary: h) auto

lemma set_up_cases:
  assumes "set_up env vm ps = Inr (full, ps')"
  obtains dataset requested lines r hs p1 p2 where "opt_dataset vm = Some dataset"
    "env_shuffle env (rng ps) (read_lines (files ps) dataset) = (lines, r)"
    "opt_hashfns vm = Some requested" "hs = fold (\<lambda>f h. h(f := True)) requested (hashfuncs (config ps))"
    "(if opt_regenerate vm then generateLocationData env vm lines (ps\<lparr>rng := r, config := (config ps)\<lparr>hashfuncs := hs\<rparr>\<rparr>)
      else Inr (lines, ps\<lparr>rng := r, config := (config ps)\<lparr>hashfuncs := hs\<rparr>\<rparr>)) = Inr (full, p1)"
    "setLocationData env vm p1 = Inr p2" "ps' = initialize_args vm (with_options vm (length full) p2)"
proof -
  obtain dataset where d: "opt_dataset vm = Some dataset"
    using assms by (cases "opt_dataset vm") (auto simp: set_up_def read_dataset_def)
  obtain requested where q: "opt_hashfns vm = Some requested"
    using assms d by (cases "opt_hashfns vm") (auto simp: set_up_def read_dataset_def setHashFunctions_def case_prod_unfold Let_def)
  obtain lines r where l: "env_shuffle env (rng ps) (read_lines (files ps) dataset) = (lines, r)" by fastforce
  show ?thesis
    using assms that [OF d l q refl] by (auto simp: set_up_def read_dataset_def setHashFunctions_def d q l bind_result_Inr cong: if_cong)
qed

text \<open>
  C24. The state that the program reaches is well typed: with a shuffle that permutes, whenever the program ends normally the
  data is still the lines of the data set in some order, exactly the requested hash functions are selected, and for each chunk size
  there are locations and entropies together or not at all, as many of each, and the locations are values of \<open>int\<close> - whatever
  the files of locations hold, and whatever benchmarks have run.
\<close>

theorem program_state_typed:
  assumes "main env vm (initial_state fs r) = Inr (full, ps)" "\<forall>r xs. mset (fst (env_shuffle env r xs)) = mset xs"
  shows "\<exists>dataset requested. opt_dataset vm = Some dataset \<and> mset full = mset (read_lines fs dataset) \<and>
    opt_hashfns vm = Some requested \<and> (\<forall>f. hashfuncs (config ps) f \<longleftrightarrow> f \<in> set requested) \<and> locations_ok ps"
proof -
  obtain full0 ps0 where up: "set_up env vm (initial_state fs r) = Inr (full0, ps0)"
    and run: "run_trials env vm (nat (num_trials ps0)) (full0, ps0) = Inr (full, ps)"
    using assms(1) by (auto simp: main_def bind_result_Inr split: if_splits)
  obtain dataset requested lines r1 hs p1 p2 where s: "opt_dataset vm = Some dataset"
    "env_shuffle env (rng (initial_state fs r)) (read_lines (files (initial_state fs r)) dataset) = (lines, r1)"
    "opt_hashfns vm = Some requested" "hs = fold (\<lambda>f h. h(f := True)) requested (hashfuncs (config (initial_state fs r)))"
    and g: "(if opt_regenerate vm
      then generateLocationData env vm lines ((initial_state fs r)\<lparr>rng := r1, config := (config (initial_state fs r))\<lparr>hashfuncs := hs\<rparr>\<rparr>)
      else Inr (lines, (initial_state fs r)\<lparr>rng := r1, config := (config (initial_state fs r))\<lparr>hashfuncs := hs\<rparr>\<rparr>)) = Inr (full0, p1)"
    and l: "setLocationData env vm p1 = Inr p2" "ps0 = initialize_args vm (with_options vm (length full0) p2)"
    using set_up_cases [OF up] .
  let ?p0 = "(initial_state fs r)\<lparr>rng := r1, config := (config (initial_state fs r))\<lparr>hashfuncs := hs\<rparr>\<rparr>"
  have g': "mset full0 = mset lines \<and> same_setting ?p0 p1"
    using g generateLocationData_keeps [OF _ assms(2)] by (cases "opt_regenerate vm") auto
  have "locations_ok p1" using g' by (simp add: same_setting_def locations_ok_def initial_state_def)
  then have p2: "locations_ok p2 \<and> hashfuncs (config p2) = hs"
    using setLocationData_ok [OF l(1)] g' by (simp add: same_setting_def)
  have "locations_ok ps0 \<and> hashfuncs (config ps0) = hs"
    using p2 initialize_args_keeps [of "with_options vm (length full0) p2" vm]
    by (simp add: l(2) same_setting_def with_options_def locations_ok_def)
  then have "locations_ok ps \<and> hashfuncs (config ps) = hs" "mset full = mset full0"
    using run_trials_keep [OF run assms(2)] by (simp_all add: same_setting_def locations_ok_def)
  moreover have "mset lines = mset (read_lines fs dataset)"
    using s(2) assms(2) by (metis fst_conv initial_state_def prog_state.select_convs(11))
  moreover have "hs f \<longleftrightarrow> f \<in> set requested" for f
    by (simp add: s(4) hashfuncs_fold initial_state_def initial_config_def)
  ultimately show ?thesis using s(1,3) g' by simp
qed

section \<open>Estimated locations through the file\<close>

lemma greedy_typed:
  assumes "greedyRenyiSelectorStopK log2 iter c maxLen xs vs [] [] n = Inr (ps, es, fixed, e)" "maxLen < 2 ^ 31"
  shows "length ps = length es" "length ps \<le> nat n" "\<forall>p \<in> set ps. - (2 ^ 31) \<le> p \<and> p < 2 ^ 31"
proof -
  obtain e' where g: "greedy_loop (nat n) log2 iter c maxLen xs vs [] [] (Fin 0) = Inr (ps, es, e')"
    using assms(1) by (auto simp: greedyRenyiSelectorStopK_def bind_result_Inr split: if_splits)
  have "maxLen div c < 2 ^ 31" using le_less_trans [OF div_le_dividend assms(2)] .
  then have m: "int (maxLen div c) < 2 ^ 31" by (simp only: of_nat_less_numeral_power_cancel_iff)
  have "- (2 ^ 31) \<le> p \<and> p < 2 ^ 31" if "p \<in> set ps" for p
  proof -
    have "p = - 1 \<or> 0 \<le> p \<and> p < int (maxLen div c)" using greedy_loop_positions [OF g] that by auto
    then show ?thesis using m by auto
  qed
  then show "length ps = length es" "length ps \<le> nat n" "\<forall>p \<in> set ps. - (2 ^ 31) \<le> p \<and> p < 2 ^ 31"
    using greedy_loop_positions [OF g] by auto
qed

text \<open>A longest key of at least a word, and at least one position asked for, give a position.\<close>

lemma greedy_not_Nil:
  assumes "greedyRenyiSelectorStopK log2 iter c maxLen xs vs [] [] n = Inr (ps, es, fixed, e)" "0 < n" "0 < maxLen div c"
  shows "ps \<noteq> []"
proof -
  obtain e' where g: "greedy_loop (nat n) log2 iter c maxLen xs vs [] [] (Fin 0) = Inr (ps, es, e')"
    using assms(1) by (auto simp: greedyRenyiSelectorStopK_def bind_result_Inr split: if_splits)
  obtain m where "nat n = Suc m" using assms(2) by (cases "nat n") auto
  then obtain pos e1 e2 where "greedy_loop m log2 iter c maxLen xs vs [pos] [e2] e2 = Inr (ps, es, e')"
    using g assms(3) by (auto simp: bind_result_Inr Let_def split: if_splits)
  from greedy_loop_positions [OF this] show ?thesis by auto
qed

text \<open>What an estimation leaves: the requested file can be read and gives the chosen locations, other files are as they were.\<close>

text \<open>The entropies that the estimator finds for a chunk size, and all those that \<open>generateLocationData\<close> writes to files.\<close>

definition found_entropies :: "('r, 't, 'g) environment \<Rightarrow> nat \<Rightarrow> int \<Rightarrow> bytes list \<Rightarrow> bytes list \<Rightarrow> bytes list \<Rightarrow> double list" where
  "found_entropies env chunk numPositions data xs vs =
     (case greedyRenyiSelectorStopK (lib_log2 (env_lib env)) (env_iter env) chunk (max_str_size data) xs vs [] [] numPositions of
        Inl e \<Rightarrow> [] | Inr (locs, es, fixed, e) \<Rightarrow> es)"

definition written_entropies :: "('r, 't, 'g) environment \<Rightarrow> options \<Rightarrow> bytes list \<Rightarrow> 'r prog_state \<Rightarrow> double list" where
  "written_entropies env vm data ps =
     (case get_subset (env_shuffle env) (rng ps) data (1 / 2) of
        Inl e \<Rightarrow> []
      | Inr ((xs, vs), data, r) \<Rightarrow> concat (map (\<lambda>(chunk, n).
          if opt_byteLocations vm (int chunk) = None then [] else found_entropies env chunk n data xs vs)
          [(1, 16), (4, 16), (8, 12)]))"

lemma estimate_locations_file:
  assumes "estimate_locations env vm c n first data xs vs fs = Inr fs'" "opt_byteLocations vm (int c) = Some name"
    "\<forall>d \<in> set (found_entropies env c n data xs vs). printable (env_show_double env) (env_stod env) reread d"
    "max_str_size data < 2 ^ 31" "n < 210000000"
  shows "\<exists>locs es fixed e. greedyRenyiSelectorStopK (lib_log2 (env_lib env)) (env_iter env) c (max_str_size data) xs vs [] [] n =
        Inr (locs, es, fixed, e) \<and>
      read_entropies (env_stod env) fs' name = Inr (locs, map reread es, fixed) \<and> (\<forall>other. other \<noteq> name \<longrightarrow> fs' other = fs other)"
proof -
  obtain locs es fixed e where g: "greedyRenyiSelectorStopK (lib_log2 (env_lib env)) (env_iter env) c (max_str_size data) xs vs [] [] n =
        Inr (locs, es, fixed, e)"
    and w: "write_entropies (env_show_double env) es locs fixed name (if first then write_locations locs name fs else fs) = Inr fs'"
    using assms(1,2) by (auto simp: estimate_locations_def bind_result_Inr Let_def)
  note t = greedy_typed [OF g assms(4)]
  have "length locs < max_lines" using t(2) assms(5) unfolding max_lines_def by linarith
  moreover have "\<forall>d \<in> set es. printable (env_show_double env) (env_stod env) reread d"
    using assms(3) by (simp add: found_entropies_def g)
  ultimately have "read_entropies (env_stod env) fs' name = Inr (locs, map reread es, fixed)"
      "\<forall>other. other \<noteq> name \<longrightarrow> fs' other = (if first then write_locations locs name fs else fs) other"
    using entropies_read_back(1) [OF t(3) _ t(1), of "env_show_double env" "env_stod env" reread fixed name
        "if first then write_locations locs name fs else fs"] w by auto
  then show ?thesis using g by (auto simp: write_locations_def)
qed

lemma read_entropies_cong: "fs name = fs' name \<Longrightarrow> read_entropies stod fs name = read_entropies stod fs' name"
  by (simp add: read_entropies_def read_lines_def)

text \<open>A file that can be read stays readable, whether it is written again or not.\<close>

lemma estimate_locations_readable:
  assumes "estimate_locations env vm c n first data xs vs fs = Inr fs'"
    "opt_byteLocations vm (int c) \<noteq> None \<longrightarrow>
      (\<forall>d \<in> set (found_entropies env c n data xs vs). printable (env_show_double env) (env_stod env) reread d)"
    "max_str_size data < 2 ^ 31" "n < 210000000" "(\<exists>t. read_entropies (env_stod env) fs name = Inr t) \<or> opt_byteLocations vm (int c) = Some name"
  shows "\<exists>t. read_entropies (env_stod env) fs' name = Inr t"
proof (cases "opt_byteLocations vm (int c)")
  case None
  then show ?thesis using assms(1,5) by (simp add: estimate_locations_def)
next
  case (Some written)
  then have p: "\<forall>d \<in> set (found_entropies env c n data xs vs). printable (env_show_double env) (env_stod env) reread d"
    using assms(2) by simp
  show ?thesis
  proof (cases "written = name")
    case False
    then show ?thesis
      using estimate_locations_file [OF assms(1) Some p assms(3,4)] assms(5) Some read_entropies_cong [of fs' name fs] by auto
  qed (use estimate_locations_file [OF assms(1) Some p assms(3,4)] in blast)
qed

lemma load_locations_readable:
  assumes "\<forall>name. opt_byteLocations vm k = Some name \<longrightarrow> (\<exists>t. read_entropies (env_stod env) (files ps) name = Inr t)"
  shows "\<exists>ps'. load_locations env vm k ps = Inr ps' \<and> files ps' = files ps"
  using assms by (cases "opt_byteLocations vm k") (auto simp: load_locations_def)

lemma load_locations_at:
  assumes "opt_byteLocations vm k = Some name" "read_entropies (env_stod env) (files ps) name = Inr (ls, es, fixed)"
  shows "\<exists>ps'. load_locations env vm k ps = Inr ps' \<and> locations ps' k = Some ls \<and> entropies ps' k = Some es"
  using assms by (simp add: load_locations_def)


section \<open>How many keys are inserted\<close>

text \<open>The fraction of a part of the data, as \<open>double\<close> and as \<open>float\<close>, is still a fraction.\<close>

lemma data_fraction_bounds:
  assumes "d < n" "n < 2 ^ 22"
  defines "q \<equiv> (of_nat d / of_nat n :: rat)" and "f \<equiv> data_fraction (int d) n"
  shows "sflt f = flt f" "q * (1 - 1 / 2 ^ 53) * (1 - 1 / 2 ^ 24) \<le> flt f" "flt f \<le> q * (1 + 1 / 2 ^ 53) * (1 + 1 / 2 ^ 24)"
    "f < 1" "flt f \<le> 1"
proof -
  have q: "0 \<le> q" by (simp add: q_def)
  have "q \<le> 1 - 1 / 2 ^ 22"
  proof -
    have n: "(0 :: rat) < of_nat n" "(of_nat n :: rat) < 2 ^ 22" using assms(1,2)
      by (simp, metis of_nat_less_iff of_nat_numeral of_nat_power)
    have "(of_nat d :: rat) \<le> of_nat n - 1" using assms(1) by (metis Suc_leI of_nat_Suc le_diff_eq of_nat_le_iff add.commute)
    then have "q \<le> 1 - 1 / of_nat n" using n(1) by (simp add: q_def field_simps)
    also have "\<dots> \<le> 1 - 1 / 2 ^ 22" using n by (simp add: frac_le)
    finally show ?thesis .
  qed
  then have u: "q * (1 + 1 / 2 ^ 53) * (1 + 1 / 2 ^ 24) \<le> 1" "q * (1 + 1 / 2 ^ 53) < 1" by simp_all
  have "of_int (int d) / of_nat n = q" by (simp add: q_def)
  then have f: "f = dbl q" using q unfolding f_def data_fraction_def sdbl_def by simp
  show "sflt f = flt f" using sflt_nonneg [of f] by (simp add: f)
  have d: "q * (1 - 1 / 2 ^ 53) \<le> f" "f \<le> q * (1 + 1 / 2 ^ 53)" using dbl_lower [OF q] dbl_upper [OF q] by (simp_all add: f)
  then show "f < 1" using u(2) by linarith
  have "0 \<le> f" by (simp add: f)
  then have "f * (1 - 1 / 2 ^ 24) \<le> flt f" "flt f \<le> f * (1 + 1 / 2 ^ 24)" using flt_lower [of f] flt_upper [of f] by simp_all
  then show "q * (1 - 1 / 2 ^ 53) * (1 - 1 / 2 ^ 24) \<le> flt f" "flt f \<le> q * (1 + 1 / 2 ^ 53) * (1 + 1 / 2 ^ 24)"
    using d mult_right_mono [OF d(1), of "1 - 1 / 2 ^ 24"] mult_right_mono [OF d(2), of "1 + 1 / 2 ^ 24"] by simp_all
  then show "flt f \<le> 1" using u(1) by linarith
qed

lemma data_size_rounded:
  assumes "d < n" "n < 2 ^ 22"
  shows "\<exists>k. fraction_of (sflt (data_fraction (int d) n)) n = Some k \<and> k \<le> d \<and> d \<le> k + 1"
proof -
  note b = data_fraction_bounds [OF assms]
  let ?f = "data_fraction (int d) n" and ?a = "(1 - 1 / 2 ^ 53) * (1 - 1 / 2 ^ 24) :: rat" and ?b = "(1 + 1 / 2 ^ 53) * (1 + 1 / 2 ^ 24) :: rat"
  let ?y = "flt ?f * of_nat n"
  have n: "(0 :: rat) < of_nat n" using assms(1) by simp
  have d: "(of_nat d :: rat) < 2 ^ 22" using assms by (metis of_nat_less_iff of_nat_numeral of_nat_power less_trans)
  have "of_nat d * ?a \<le> ?y" using mult_right_mono [OF b(2), of "of_nat n"] n by simp
  then have "of_nat d * ?a * (1 - 1 / 2 ^ 24) \<le> ?y * (1 - 1 / 2 ^ 24)" by (rule mult_right_mono) simp
  moreover have "?y \<le> of_nat d * ?b" using mult_right_mono [OF b(3), of "of_nat n"] n by simp
  then have "?y * (1 + 1 / 2 ^ 24) \<le> of_nat d * ?b * (1 + 1 / 2 ^ 24)" by (rule mult_right_mono) simp
  moreover have y: "?y * (1 - 1 / 2 ^ 24) \<le> flt ?y" "flt ?y \<le> ?y * (1 + 1 / 2 ^ 24)"
    using flt_lower [of ?y] flt_upper [of ?y] by simp_all
  ultimately have "of_nat d * ?a * (1 - 1 / 2 ^ 24) \<le> flt ?y" "flt ?y \<le> of_nat d * ?b * (1 + 1 / 2 ^ 24)" by linarith+
  moreover have "of_nat d - 1 < of_nat d * ?a * (1 - 1 / 2 ^ 24)" "of_nat d * ?b * (1 + 1 / 2 ^ 24) < of_nat d + 1" using d by simp_all
  ultimately have l: "of_nat d - 1 < flt ?y" "flt ?y < of_nat d + 1" by linarith+
  have fl: "\<lfloor>flt ?y\<rfloor> \<le> int d" "int d - 1 \<le> \<lfloor>flt ?y\<rfloor>"
    using l by (simp_all add: floor_le_iff le_floor_iff)
  have "flt ?y < 2 ^ 32" using l(2) d by simp
  moreover have "- 1 < flt ?y" using flt_nonneg [of ?y] by linarith
  ultimately have "fraction_of (sflt ?f) n = Some (nat \<lfloor>flt ?y\<rfloor>)"
    using flt_of_nat [of n] assms(2) by (simp add: fraction_of_def b(1) sflt_nonneg)
  then show ?thesis using fl by (intro exI [of _ "nat \<lfloor>flt ?y\<rfloor>"]) auto
qed
text \<open>The smaller number occurs: of 22 keys, 13 are asked for and 12 are inserted.\<close>

lemma data_size_one_less: "fraction_of (sflt (data_fraction 13 22)) 22 = Some 12"
proof -
  have a: "dbl (13 / 22) = 5322435923256041 / 2 ^ 53"
    using round_fp_value [of "-1" "13 / 22" 53 5322435923256041] powi_neg [of 53] powi_neg [of 1] by (simp add: dbl_def)
  have b: "flt (5322435923256041 / 2 ^ 53) = 9913809 / 2 ^ 24"
    using round_fp_value [of "-1" "5322435923256041 / 2 ^ 53" 24 9913809] powi_neg [of 24] powi_neg [of 1] by (simp add: flt_def)
  have c: "flt (9913809 / 2 ^ 24 * 22) = 13631487 / 2 ^ 20"
    using round_fp_value [of "3" "9913809 / 2 ^ 24 * 22" 24 13631487] powi_neg [of 20] by (simp add: flt_def)
  have d: "flt 22 = 22" using round_fp_exact [of 22 24 0] by (simp add: flt_def)
  have e: "data_fraction 13 22 = 5322435923256041 / 2 ^ 53" using a by (simp add: data_fraction_def sdbl_def)
  have g: "sflt (data_fraction 13 22) = 9913809 / 2 ^ 24" unfolding e using b sflt_nonneg [of "5322435923256041 / 2 ^ 53"] by simp
  have h: "sflt (9913809 / 2 ^ 24 * flt (of_nat 22)) = 13631487 / 2 ^ 20"
    using c d sflt_nonneg [of "9913809 / 2 ^ 24 * 22"] by simp
  have "\<lfloor>13631487 / 2 ^ 20 :: rat\<rfloor> = 12" by (simp add: floor_eq_iff)
  then show ?thesis unfolding fraction_of_def g h Let_def by simp
qed

text \<open>
  C26. How many keys a trial inserts: for a data set of fewer than \<open>2 ^ 22\<close> keys and an option \<open>data_size\<close> below their number, the split
  ends normally, loses no key, and inserts as many keys as asked for or one less, since the number goes through a quotient that
  is rounded to \<open>double\<close> and \<open>float\<close> and a product that is rounded again and truncated.
\<close>

theorem select_data_size:
  assumes "\<forall>r xs. mset (fst (env_shuffle env r xs)) = mset xs" "length full < 2 ^ 22" "0 \<le> data_size ps"
    "data_size ps < int (length full)"
  shows "\<exists>data uninserted full' ps'. select_data env full ps = Inr ((data, uninserted), full', ps') \<and>
    mset (data @ uninserted) = mset full \<and> int (length data) \<le> data_size ps \<and> data_size ps \<le> int (length data) + 1"
proof -
  obtain d where d: "data_size ps = int d" "d < length full" using assms(3,4) by (metis nonneg_int_cases of_nat_less_iff)
  note b = data_fraction_bounds [OF d(2) assms(2)]
  obtain k where k: "fraction_of (sflt (data_fraction (int d) (length full))) (length full) = Some k" "k \<le> d" "d \<le> k + 1"
    using data_size_rounded [OF d(2) assms(2)] by blast
  obtain full' r where sh: "env_shuffle env (rng ps) full = (full', r)" by fastforce
  then have m: "mset full' = mset full" using assms(1) by (metis fst_conv)
  have "get_subset (env_shuffle env) (rng ps) full (sflt (data_fraction (int d) (length full))) =
      Inr ((take k full', drop k full'), full', r)"
    using k(1) b(1,5) sh by (simp add: get_subset_def split_loop_eq)
  then have "select_data env full ps = Inr ((take k full', drop k full'), full', ps\<lparr>rng := r\<rparr>)"
    using b(4) d by (auto simp: select_data_def)
  moreover have "length (take k full') = k" using mset_eq_length [OF m] k(2) d(2) by simp
  moreover have "mset (take k full' @ drop k full') = mset full" using m by simp
  moreover have "int k \<le> data_size ps" "data_size ps \<le> int k + 1" using k(2,3) d(1) by simp_all
  ultimately show ?thesis by metis
qed

section \<open>Whether the program ends normally\<close>

lemma data_fraction_whole: "0 < n \<Longrightarrow> data_fraction (int n) n = 1"
  using dbl_of_nat [of 1] by (simp add: data_fraction_def sdbl_def)

lemma set_up_options:
  assumes "set_up env vm ps = Inr (full, ps')"
  shows "num_probes ps' = opt_num_probes vm" "fract_successful ps' = opt_fract_successful vm" "num_trials ps' = opt_num_trials vm"
    "data_size ps' = (case opt_data_size vm of Some n \<Rightarrow> n | None \<Rightarrow> c_int (int (length full)))"
proof -
  obtain p where p: "ps' = initialize_args vm (with_options vm (length full) p)" using set_up_cases [OF assms] by metis
  show "num_probes ps' = opt_num_probes vm" "fract_successful ps' = opt_fract_successful vm" "num_trials ps' = opt_num_trials vm"
    "data_size ps' = (case opt_data_size vm of Some n \<Rightarrow> n | None \<Rightarrow> c_int (int (length full)))"
    unfolding p by (simp_all add: initialize_args_def with_options_def Let_def)
qed

text \<open>Without keys there is nothing to draw.\<close>

lemma random_probes_Nil: "0 < n \<Longrightarrow> random_probes draw [] n r ps = None"
  by (cases n) (simp_all add: nth_opt_def case_prod_unfold Let_def)

lemma no_unsuccessful_probes:
  assumes "fraction_of fs n = Some k" "k < n" "n < 2 ^ 32"
  shows "generate_probes_with_unselected_keys_as_false draw shuffle r data [] fs n = None"
proof -
  have "unat (of_nat n - of_nat k :: u32) = n - k" using assms(2,3) by (simp add: unat_of_nat_small flip: of_nat_diff)
  then have "generate_unsuccessful_probes draw r' [] (unat (of_nat n - of_nat k :: u32)) ps = None" for r' ps
    using assms(2) by (simp add: generate_unsuccessful_probes_def random_probes_Nil)
  then show ?thesis using assms(1)
    by (cases "generate_successful_probes draw r data k []") (auto simp: generate_probes_with_unselected_keys_as_false_def)
qed

text \<open>
  C37. Without the option \<open>data_size\<close> the program cannot run its default workload: all keys are inserted, so there are no keys for
  unsuccessful probes, and as soon as one is asked for (half of the probes are, by default) the first trial reads outside
  the empty vector of keys, whatever is drawn and whatever benchmarks are requested.
\<close>

theorem whole_data_undefined:
  assumes "set_up env vm ps = Inr (full, ps1)" "\<not> opt_help vm" "opt_data_size vm = None" "full \<noteq> []" "length full < 2 ^ 31"
    "0 < opt_num_trials vm" "fraction_of (opt_fract_successful vm) (unat (of_int (opt_num_probes vm) :: u32)) = Some k"
    "k < unat (of_int (opt_num_probes vm) :: u32)"
  shows "main env vm ps = Inl bench_error.Undefined"
proof -
  note o = set_up_options [OF assms(1)]
  have "data_size ps1 = int (length full)" using o(4) assms(3,5) by (simp add: c_int_small)
  then have sel: "select_data env full ps1 = Inr ((full, []), full, ps1)"
    using assms(4) data_fraction_whole [of "length full"] by (simp add: select_data_def)
  have "unat (of_int (opt_num_probes vm) :: u32) < 2 ^ 32" using unsigned_less [of "of_int (opt_num_probes vm) :: u32"] by simp
  then have "run_trial env vm (full, ps1) = Inl bench_error.Undefined"
    by (simp add: run_trial_def sel o no_unsuccessful_probes [OF assms(7,8)])
  moreover obtain m where "nat (num_trials ps1) = Suc m" using assms(6) o(3) by (cases "nat (num_trials ps1)") auto
  ultimately show ?thesis using assms(1,2) by (simp add: main_def)
qed

text \<open>Benchmarks that return from every state with the same settings, one after the other.\<close>

lemma run_names_returns:
  assumes "\<And>f s'. f \<in> set names \<Longrightarrow> same_setting s s' \<Longrightarrow> \<exists>fn s''. table f = Some fn \<and> fn s' = Inr s'' \<and> same_setting s' s''"
  shows "\<exists>s'. run_names table names s = Inr s'"
  using assms
proof (induction names arbitrary: s)
  case (Cons f fs)
  obtain fn s1 where f: "table f = Some fn" "fn s = Inr s1" "same_setting s s1"
    using Cons.prems [of f s] by auto
  have "\<exists>s'. run_names table fs s1 = Inr s'"
  proof (rule Cons.IH)
    fix g s' assume "g \<in> set fs" "same_setting s1 s'"
    then show "\<exists>fn s''. table g = Some fn \<and> fn s' = Inr s'' \<and> same_setting s' s''"
      using Cons.prems [of g s'] same_setting_trans [OF f(3)] by simp
  qed
  then show ?case using f by simp
qed simp

text \<open>
  The partition benchmark and that of \<open>std::unordered_map\<close>, if they return from all states with the same settings.
\<close>

definition only_requests :: "string \<Rightarrow> string list option \<Rightarrow> bool" where
  "only_requests name requested = (case requested of None \<Rightarrow> True | Some names \<Rightarrow> set names \<subseteq> {name})"

lemma requested_name: "only_requests name requested \<Longrightarrow> requested = Some names \<Longrightarrow> f \<in> set names \<Longrightarrow> f = name"
  by (auto simp: only_requests_def)

lemma partition_trial_returns:
  assumes "only_requests ''partition'' requested"
    "\<And>ts ps'. same_setting ps ps' \<Longrightarrow> requested \<noteq> None \<Longrightarrow> \<exists>ts'. bench_partitioners (env_lib env) (bench_config.truncate (config ps'))
        (env_clock env) data (locations ps') (entropies ps') 1024 ts = Inr ts'"
  shows "\<exists>ps'. run_requested requested (run_names (partition_benchmarks env data)) ps = Inr ps'"
proof (cases requested)
  case (Some names)
  have "\<exists>ps'. run_names (partition_benchmarks env data) names ps = Inr ps'"
  proof (rule run_names_returns)
    fix f ps' assume f: "f \<in> set names" "same_setting ps ps'"
    obtain ts where "bench_partitioners (env_lib env) (bench_config.truncate (config ps'))
        (env_clock env) data (locations ps') (entropies ps') 1024 (partition_variances ps', bench ps') = Inr ts"
      using assms(2) [OF f(2)] Some by blast
    then show "\<exists>fn ps''. partition_benchmarks env data f = Some fn \<and> fn ps' = Inr ps'' \<and> same_setting ps' ps''"
      using requested_name [OF assms(1) Some f(1)] by (simp add: partition_benchmarks_def same_setting_def split: prod.split)
  qed
  then show ?thesis by (simp add: run_requested_def Some)
qed (simp add: run_requested_def)

lemma std_table_named:
  "table_benchmarks env data probes ''std_table'' = Some (\<lambda>ps.
     bind_result (bench_std_table (env_lib env) (config ps) (env_clock env) (env_rand env (table_runs ps)) data probes
       (locations ps) (entropies ps) (bench ps)) (\<lambda>st.
     Inr (ps\<lparr>bench := st, table_runs := table_runs ps + 1\<rparr>)))"
  by (simp add: table_benchmarks_def)

lemma std_trial_returns:
  assumes "only_requests ''std_table'' requested" "opt_metrics vm \<noteq> None"
    "\<And>st ps'. same_setting ps ps' \<Longrightarrow> \<exists>st'. bench_std_table (env_lib env) (config ps') (env_clock env) (env_rand env (table_runs ps'))
        data probes (locations ps') (entropies ps') st = Inr st'"
  shows "\<exists>ps'. run_requested requested (\<lambda>names ps.
        bind_result (setTableMetrics vm ps) (run_names (table_benchmarks env data probes) names)) ps = Inr ps'"
proof (cases requested)
  case (Some names)
  obtain ps1 where ps1: "setTableMetrics vm ps = Inr ps1" using assms(2) by (auto simp: setTableMetrics_def)
  have "\<exists>ps'. run_names (table_benchmarks env data probes) names ps1 = Inr ps'"
  proof (rule run_names_returns)
    fix f ps' assume f: "f \<in> set names" "same_setting ps1 ps'"
    obtain st where "bench_std_table (env_lib env) (config ps') (env_clock env) (env_rand env (table_runs ps'))
        data probes (locations ps') (entropies ps') (bench ps') = Inr st"
      using assms(3) same_setting_trans [OF setTableMetrics_keeps [OF ps1] f(2)] by blast
    then show "\<exists>fn ps''. table_benchmarks env data probes f = Some fn \<and> fn ps' = Inr ps'' \<and> same_setting ps' ps''"
      using requested_name [OF assms(1) Some f(1)] by (simp add: std_table_named same_setting_def)
  qed
  then show ?thesis by (simp add: run_requested_def Some ps1)
qed (simp add: run_requested_def)

lemma benchmarks_return:
  assumes "only_requests ''partition'' (opt_partition_benchmarks vm)" "opt_filter_benchmarks vm = None" "opt_hash_benchmarks vm = None"
    "only_requests ''std_table'' (opt_table_benchmarks vm)" "opt_metrics vm \<noteq> None"
    "\<And>ts ps'. same_setting ps ps' \<Longrightarrow> opt_partition_benchmarks vm \<noteq> None \<Longrightarrow> \<exists>ts'. bench_partitioners (env_lib env)
        (bench_config.truncate (config ps')) (env_clock env) data (locations ps') (entropies ps') 1024 ts = Inr ts'"
    "\<And>st ps'. same_setting ps ps' \<Longrightarrow> \<exists>st'. bench_std_table (env_lib env) (config ps') (env_clock env) (env_rand env (table_runs ps'))
        data probes (locations ps') (entropies ps') st = Inr st'"
  shows "\<exists>ps'. run_benchmarks env vm data probes npu ps = Inr ps'"
proof -
  obtain p1 where p1: "run_requested (opt_partition_benchmarks vm) (run_names (partition_benchmarks env data)) ps = Inr p1"
    using partition_trial_returns [OF assms(1,6)] by blast
  let ?ps = "p1\<lparr>config := (config p1)\<lparr>set_load_factor := opt_set_load_factor vm, cfg_load_factor := flt (opt_load_factor vm)\<rparr>\<rparr>"
  have "same_setting ps p1" by (rule run_requested_keeps [OF p1]) (blast intro: run_names_keeps partition_benchmarks_keep)
  also have "same_setting p1 ?ps" by (simp add: same_setting_def)
  finally have p: "same_setting ps ?ps" .
  have "\<exists>ps'. run_requested (opt_table_benchmarks vm) (\<lambda>names ps.
        bind_result (setTableMetrics vm ps) (run_names (table_benchmarks env data probes) names)) ?ps = Inr ps'"
    by (rule std_trial_returns [OF assms(4,5)]) (rule assms(7) [OF same_setting_trans [OF p]])
  then show ?thesis unfolding run_benchmarks_def p1 using assms(2,3) by (simp add: run_requested_def)
qed

text \<open>
  A data set, a fraction and options with which a trial splits the data into two nonempty parts and generates its probes.
\<close>

definition splits_data :: "bytes list \<Rightarrow> 'r prog_state \<Rightarrow> bool" where
  "splits_data full ps \<longleftrightarrow>
     (let fract = data_fraction (data_size ps) (length full) in
      0 \<le> sflt fract \<and> sflt fract \<le> 1 \<and> fract \<noteq> 1 \<and>
      (case fraction_of (sflt fract) (length full) of None \<Rightarrow> False | Some k \<Rightarrow> 0 < k \<and> k < length full))"

lemma select_data_returns:
  assumes "splits_data full ps" "\<forall>r xs. mset (fst (env_shuffle env r xs)) = mset xs"
  obtains data uninserted full' r where "select_data env full ps = Inr ((data, uninserted), full', ps\<lparr>rng := r\<rparr>)"
    "get_subset (env_shuffle env) (rng ps) full (sflt (data_fraction (data_size ps) (length full))) = Inr ((data, uninserted), full', r)"
    "data \<noteq> []" "uninserted \<noteq> []"
proof -
  let ?f = "data_fraction (data_size ps) (length full)"
  obtain k where k: "0 \<le> sflt ?f" "sflt ?f \<le> 1" "?f \<noteq> 1" "fraction_of (sflt ?f) (length full) = Some k" "0 < k" "k < length full"
    using assms(1) by (auto simp: splits_data_def Let_def split: option.splits)
  obtain full' r where sh: "env_shuffle env (rng ps) full = (full', r)" by fastforce
  have l: "length full' = length full" using assms(2) sh by (metis fst_conv mset_eq_length)
  have "get_subset (env_shuffle env) (rng ps) full (sflt ?f) = Inr ((take k full', drop k full'), full', r)"
    using k sh by (simp add: get_subset_def split_loop_eq)
  moreover from this have "select_data env full ps = Inr ((take k full', drop k full'), full', ps\<lparr>rng := r\<rparr>)"
    using k by (auto simp: select_data_def)
  moreover have "take k full' \<noteq> []" "drop k full' \<noteq> []" using k(5,6) l by auto
  ultimately show ?thesis using that by blast
qed

definition ready :: "bytes list \<Rightarrow> 'r prog_state \<Rightarrow> bool" where
  "ready full ps \<longleftrightarrow>
     splits_data full ps \<and> distinct full \<and> length full < 2 ^ 31 \<and> 0 \<le> num_probes ps \<and> num_probes ps < 2 ^ 22 \<and>
     0 \<le> fract_successful ps \<and> fract_successful ps \<le> 1 \<and>
     (\<forall>x \<in> set full. length x < 2 ^ 31 \<and> (dataIsFixedLength (config ps) \<longrightarrow> long_for (at_chunk (locations ps) 8) x)) \<and>
     2 \<le> length (at_chunk (entropies ps) 8) \<and> length (at_chunk (entropies ps) 8) \<le> length (at_chunk (locations ps) 8) \<and>
     usable_locs (at_chunk (locations ps) 8) \<and>
     4 \<le> length (at_chunk (locations ps) 4) \<and> (\<forall>l \<in> set (at_chunk (locations ps) 4). 0 \<le> l \<and> l < 2 ^ 31)"

lemma ready_kept:
  assumes "ready full ps" "mset full' = mset full" "same_setting ps ps'"
  shows "ready full' ps'"
proof -
  have l: "length full' = length full" "set full' = set full" "distinct full' \<longleftrightarrow> distinct full"
    using assms(2) by (metis mset_eq_length, metis mset_eq_setD, metis mset_eq_imp_distinct_iff)
  moreover have "splits_data full' ps' \<longleftrightarrow> splits_data full ps"
    using assms(3) by (simp only: splits_data_def same_setting_def l)
  ultimately show ?thesis using assms(1,3) by (simp add: ready_def same_setting_def)
qed

lemma std_table_ready:
  assumes "ready full ps" "set data \<subseteq> set full" "set probes \<subseteq> set full" "length data \<le> length full" "length probes < 2 ^ 22"
  shows "\<exists>st'. bench_std_table lib (config ps) clock rand data probes (locations ps) (entropies ps) st = Inr st'"
proof -
  obtain es where es: "entropies ps 8 = Some es" "2 \<le> length es" "length es \<le> length (at_chunk (locations ps) 8)"
    using assms(1) by (cases "entropies ps 8") (auto simp: ready_def at_chunk_def [of "entropies ps"])
  show ?thesis
    by (rule bench_std_table_ends [where entropies = "entropies ps", OF _ es]) (use assms in \<open>auto simp: ready_def\<close>)
qed

lemma partition_ready:
  assumes "ready full ps" "set data \<subseteq> set full" "log2_integral lib 1024"
  shows "\<exists>ts'. bench_partitioners lib (bench_config.truncate (config ps)) clock data (locations ps) (entropies ps) 1024 ts = Inr ts'"
proof -
  obtain es where es: "entropies ps 8 = Some es" "2 \<le> length es" "length es \<le> length (at_chunk (locations ps) 8)"
    using assms(1) by (cases "entropies ps 8") (auto simp: ready_def at_chunk_def [of "entropies ps"])
  then have "es \<noteq> []" by auto
  moreover have "\<forall>x \<in> set data. length x < 2 ^ 64 \<and>
      (dataIsFixedLength (bench_config.truncate (config ps)) \<longrightarrow> long_for (at_chunk (locations ps) 8) x)"
    using assms(1,2) by (fastforce simp: ready_def bench_config.truncate_def)
  ultimately show ?thesis
    using assms(1,3) es by (intro bench_partitioners_ends [where es = es]) (simp_all add: ready_def)
qed

lemma trial_returns:
  assumes "\<forall>r lo hi. lo \<le> hi \<longrightarrow> lo \<le> fst (env_draw env r lo hi) \<and> fst (env_draw env r lo hi) \<le> hi"
    "\<forall>r xs. mset (fst (env_shuffle env r xs)) = mset xs" "ready full ps"
    "only_requests ''partition'' (opt_partition_benchmarks vm)" "opt_filter_benchmarks vm = None" "opt_hash_benchmarks vm = None"
    "only_requests ''std_table'' (opt_table_benchmarks vm)" "opt_metrics vm \<noteq> None"
    "opt_partition_benchmarks vm \<noteq> None \<longrightarrow> log2_integral (env_lib env) 1024"
  shows "\<exists>s'. run_trial env vm (full, ps) = Inr s'"
proof -
  have sd: "splits_data full ps" using assms(3) by (simp add: ready_def)
  obtain data uninserted full' r where sel: "select_data env full ps = Inr ((data, uninserted), full', ps\<lparr>rng := r\<rparr>)"
    and g: "get_subset (env_shuffle env) (rng ps) full (sflt (data_fraction (data_size ps) (length full))) = Inr ((data, uninserted), full', r)"
    and ne: "data \<noteq> []" "uninserted \<noteq> []"
    using select_data_returns [OF sd assms(2)] .
  let ?n = "unat (of_int (num_probes ps) :: u32)"
  have n: "?n < 2 ^ 22" using assms(3) by (auto simp: ready_def unsigned_of_int take_bit_int_eq_self nat_less_iff)
  obtain probes npu r' where w: "generate_probes_with_unselected_keys_as_false (env_draw env) (env_shuffle env) r data uninserted
        (fract_successful ps) ?n = Some ((probes, npu), r')" "length probes = ?n" "set probes \<subseteq> set full"
    using workload_generated [OF assms(1,2) _ _ n _ _ g ne, of "fract_successful ps"] assms(3) by (auto simp: ready_def)
  have d: "set data \<subseteq> set full" "length data \<le> length full"
  proof -
    have "mset (data @ uninserted) = mset full" using select_data_keeps [OF sel assms(2)] by simp
    then show "set data \<subseteq> set full" "length data \<le> length full"
      by (metis Un_upper1 mset_eq_setD set_append, metis length_append le_add1 mset_eq_length)
  qed
  have "\<exists>st'. bench_std_table (env_lib env) (config ps') (env_clock env) (env_rand env (table_runs ps')) data probes
      (locations ps') (entropies ps') st = Inr st'" if "same_setting (ps\<lparr>rng := r'\<rparr>) ps'" for st ps'
  proof -
    have "same_setting ps ps'" using that by (simp add: same_setting_def)
    from ready_kept [OF assms(3) refl this] show ?thesis using d w(2,3) n by (intro std_table_ready) simp_all
  qed
  moreover have "\<exists>ts'. bench_partitioners (env_lib env) (bench_config.truncate (config ps')) (env_clock env) data
      (locations ps') (entropies ps') 1024 ts = Inr ts'"
    if "same_setting (ps\<lparr>rng := r'\<rparr>) ps'" "opt_partition_benchmarks vm \<noteq> None" for ts ps'
  proof -
    have "same_setting ps ps'" using that(1) by (simp add: same_setting_def)
    from ready_kept [OF assms(3) refl this] show ?thesis using d(1) assms(9) that(2) by (intro partition_ready) simp_all
  qed
  ultimately obtain ps' where
    "run_benchmarks env vm data probes (c_int (int npu)) (ps\<lparr>rng := r'\<rparr>) = Inr ps'"
    using benchmarks_return [OF assms(4-8), of "ps\<lparr>rng := r'\<rparr>" env data probes] by blast
  then show ?thesis using w(1) by (simp add: run_trial_def sel)
qed

lemma main_returns:
  assumes "\<forall>r lo hi. lo \<le> hi \<longrightarrow> lo \<le> fst (env_draw env r lo hi) \<and> fst (env_draw env r lo hi) \<le> hi"
    "\<forall>r xs. mset (fst (env_shuffle env r xs)) = mset xs"
    "set_up env vm ps = Inr (full, ps1)" "ready full ps1" "\<not> opt_help vm"
    "only_requests ''partition'' (opt_partition_benchmarks vm)" "opt_filter_benchmarks vm = None" "opt_hash_benchmarks vm = None"
    "only_requests ''std_table'' (opt_table_benchmarks vm)" "opt_metrics vm \<noteq> None"
    "opt_partition_benchmarks vm \<noteq> None \<longrightarrow> log2_integral (env_lib env) 1024"
  shows "\<exists>full' ps2. main env vm ps = Inr (full', ps2) \<and> mset full' = mset full"
proof -
  have "\<exists>full' ps2. run_trials env vm n (f, p) = Inr (full', ps2)" if "ready f p" for n f p
    using that
  proof (induction n arbitrary: f p)
    case (Suc n)
    obtain f' p' where t: "run_trial env vm (f, p) = Inr (f', p')"
      using trial_returns [OF assms(1,2) Suc.prems assms(6-11)] by auto
    have "ready f' p'" using run_trial_keeps [OF t assms(2)] ready_kept [OF Suc.prems] by blast
    then show ?case using Suc.IH t by simp
  qed simp
  then obtain full' ps2 where r: "run_trials env vm (nat (num_trials ps1)) (full, ps1) = Inr (full', ps2)"
    using assms(4) by blast
  then show ?thesis using run_trials_keep [OF r assms(2)] assms(3,5) by (simp add: main_def)
qed

text \<open>
  C11. A run of the whole program on partitioning and \<open>std::unordered_map\<close> ends normally: if the options request only these benchmarks and
  metrics, the logarithm of the number of partitions is an integer as its assertion asks, the generator draws within its bounds and the shuffle permutes, and what has been set up is a data set of distinct
  keys that the fraction splits into two nonempty parts, fewer than \<open>2 ^ 22\<close> probes, at least two entropies for usable locations of eight-byte
  words, four locations of four-byte words, and for data of fixed length only keys that have all the locations, then every
  trial returns, for every number of trials, every choice of hash functions and all clock readings, and at the end the data is
  the same set of keys.
\<close>

theorem program_returns:
  assumes "\<forall>r lo hi. lo \<le> hi \<longrightarrow> lo \<le> fst (env_draw env r lo hi) \<and> fst (env_draw env r lo hi) \<le> hi"
    "\<forall>r xs. mset (fst (env_shuffle env r xs)) = mset xs"
    "set_up env vm ps = Inr (full, ps1)" "ready full ps1" "\<not> opt_help vm"
    "only_requests ''partition'' (opt_partition_benchmarks vm)" "opt_filter_benchmarks vm = None" "opt_hash_benchmarks vm = None"
    "only_requests ''std_table'' (opt_table_benchmarks vm)" "opt_metrics vm \<noteq> None"
    "opt_partition_benchmarks vm \<noteq> None \<longrightarrow> log2_integral (env_lib env) 1024"
  shows "\<exists>full' ps2. main env vm ps = Inr (full', ps2) \<and> mset full' = mset full"
  using assms by (rule main_returns)

section \<open>Witnesses\<close>

definition sample_env :: "(unit, bytes \<rightharpoonup> int, bytes \<rightharpoonup> int) environment" where
  "sample_env = \<lparr>env_draw = (\<lambda>r lo hi. (lo, r)), env_shuffle = (\<lambda>r xs. (xs, r)), env_rand = (\<lambda>_ _ i. i), env_iter = id,
     env_lib = example_lib\<lparr>lib_log2 := sample_log2\<rparr>, env_clock = int, env_show_double = (\<lambda>_. [49]), env_stod = (\<lambda>_. Some (Fin 1)),
     env_max_size = 1000, env_flat_class = std_class, env_absl_hash = (\<lambda>_. 0), env_dense_class = std_class,
     env_set_empty_key = (\<lambda>_ t. t)\<rparr>"

definition sample_options :: options where
  "sample_options = \<lparr>opt_help = False, opt_hashfns = Some [''standard'', ''wyhash_sub8''], opt_partition_benchmarks = Some [''partition''],
     opt_filter_benchmarks = None, opt_hash_benchmarks = None, opt_table_benchmarks = Some [''std_table''], opt_num_trials = 2,
     opt_fract_successful = 1 / 2, opt_num_probes = 2, opt_data_size = Some 1, opt_dataset = Some ''keys'',
     opt_metrics = Some [''throughput''], opt_set_load_factor = False, opt_load_factor = 3 / 4,
     opt_byteLocations = [4 \<mapsto> ''loc4'', 8 \<mapsto> ''loc8''], opt_regenerate = False, opt_bits_per_element = 8,
     opt_bits_per_element_rb = 24, opt_added_fpr = 1 / 100\<rparr>"

definition sample_files :: file_system where
  "sample_files = [''keys'' \<mapsto> [97, 10, 98, 10], ''loc4'' \<mapsto> false_name @ [10, 48, 44, 49, 10, 49, 44, 49, 10, 50, 44, 49, 10, 51, 44, 49],
     ''loc8'' \<mapsto> false_name @ [10, 48, 44, 49, 10, 49, 44, 49]]"

lemma read_lines_short: "fs name = Some s \<Longrightarrow> lines_of s = ls \<Longrightarrow> length ls \<le> max_lines \<Longrightarrow> read_lines fs name = ls"
  by (simp add: read_lines_def)

lemma sample_lines: "read_lines sample_files ''keys'' = [[97], [98]]"
proof (rule read_lines_short)
  show "sample_files ''keys'' = Some [97, 10, 98, 10]" by (simp add: sample_files_def)
  show "lines_of [97, 10, 98, 10] = [[97], [98]]" by code_simp
qed (simp add: max_lines_def)

lemma sample_locations:
  "read_entropies (env_stod sample_env) sample_files ''loc4'' = Inr ([0, 1, 2, 3], replicate 4 (Fin 1), False)"
  "read_entropies (env_stod sample_env) sample_files ''loc8'' = Inr ([0, 1], [Fin 1, Fin 1], False)"
proof -
  have "lines_of (false_name @ [10, 48, 44, 49, 10, 49, 44, 49, 10, 50, 44, 49, 10, 51, 44, 49]) =
      [false_name, [48, 44, 49], [49, 44, 49], [50, 44, 49], [51, 44, 49]]"
    "lines_of (false_name @ [10, 48, 44, 49, 10, 49, 44, 49]) = [false_name, [48, 44, 49], [49, 44, 49]]"
    by code_simp+
  then have l: "read_lines sample_files ''loc4'' = [false_name, [48, 44, 49], [49, 44, 49], [50, 44, 49], [51, 44, 49]]"
    "read_lines sample_files ''loc8'' = [false_name, [48, 44, 49], [49, 44, 49]]"
    by (intro read_lines_short; simp add: sample_files_def max_lines_def)+
  have p: "read_pairs (env_stod sample_env) [[48, 44, 49], [49, 44, 49], [50, 44, 49], [51, 44, 49]] ([], []) =
      Inr ([0, 1, 2, 3], [Fin 1, Fin 1, Fin 1, Fin 1])"
    "read_pairs (env_stod sample_env) [[48, 44, 49], [49, 44, 49]] ([], []) = Inr ([0, 1], [Fin 1, Fin 1])"
    by code_simp+
  show "read_entropies (env_stod sample_env) sample_files ''loc4'' = Inr ([0, 1, 2, 3], replicate 4 (Fin 1), False)"
    by (simp add: read_entropies_def l p to_bool_names numeral_eq_Suc del: read_pairs.simps)
  show "read_entropies (env_stod sample_env) sample_files ''loc8'' = Inr ([0, 1], [Fin 1, Fin 1], False)"
    by (simp add: read_entropies_def l p to_bool_names del: read_pairs.simps)
qed

definition sample_setting :: "options \<Rightarrow> unit prog_state" where
  "sample_setting vm = initialize_args vm (with_options vm 2
     ((initial_state sample_files ())\<lparr>locations := [4 \<mapsto> [0, 1, 2, 3], 8 \<mapsto> [0, 1]],
       entropies := [4 \<mapsto> replicate 4 (Fin 1), 8 \<mapsto> [Fin 1, Fin 1]],
       config := initial_config\<lparr>hashfuncs := (\<lambda>_. False)(''standard'' := True, ''wyhash_sub8'' := True)\<rparr>\<rparr>))"

lemma sample_set_up:
  assumes "opt_dataset vm = opt_dataset sample_options" "opt_hashfns vm = opt_hashfns sample_options" "\<not> opt_regenerate vm"
    "opt_byteLocations vm = opt_byteLocations sample_options"
  shows "set_up sample_env vm (initial_state sample_files ()) = Inr ([[97], [98]], sample_setting vm)"
proof -
  have "env_shuffle sample_env r xs = (xs, r)" for r xs by (simp add: sample_env_def)
  then show ?thesis
    using assms sample_locations sample_lines
    by (simp add: set_up_def read_dataset_def setHashFunctions_def setLocationData_def load_locations_def sample_options_def
        initial_state_def initial_config_def sample_setting_def numeral_2_eq_2)
qed

lemma sample_fraction: "fraction_of (1 / 2) 2 = Some 1" "data_fraction 1 2 = 1 / 2" "sflt (1 / 2) = 1 / 2"
  by code_simp+

lemma sample_kept: "same_setting (with_options vm 2 ((initial_state sample_files ())\<lparr>locations := [4 \<mapsto> [0, 1, 2, 3], 8 \<mapsto> [0, 1]],
       entropies := [4 \<mapsto> replicate 4 (Fin 1), 8 \<mapsto> [Fin 1, Fin 1]],
       config := initial_config\<lparr>hashfuncs := (\<lambda>_. False)(''standard'' := True, ''wyhash_sub8'' := True)\<rparr>\<rparr>)) (sample_setting vm)"
  unfolding sample_setting_def by (rule initialize_args_keeps)

lemma sample_ready: "ready [[97], [98]] (sample_setting sample_options)"
proof (rule ready_kept [OF _ refl sample_kept])
  show "ready [[97], [98]] (with_options sample_options 2 ((initial_state sample_files ())\<lparr>
       locations := [4 \<mapsto> [0, 1, 2, 3], 8 \<mapsto> [0, 1]],
       entropies := [4 \<mapsto> replicate 4 (Fin 1), 8 \<mapsto> [Fin 1, Fin 1]],
       config := initial_config\<lparr>hashfuncs := (\<lambda>_. False)(''standard'' := True, ''wyhash_sub8'' := True)\<rparr>\<rparr>))"
    by (simp add: ready_def splits_data_def sample_fraction [unfolded numeral_2_eq_2] sample_options_def with_options_def initial_state_def
        initial_config_def at_chunk_def usable_locs_def numeral_2_eq_2 [symmetric] sample_fraction)
qed

lemma sample_laws:
  "\<forall>r lo hi. lo \<le> hi \<longrightarrow> lo \<le> fst (env_draw sample_env r lo hi) \<and> fst (env_draw sample_env r lo hi) \<le> hi"
  "\<forall>r xs. mset (fst (env_shuffle sample_env r xs)) = mset xs"
  by (simp_all add: sample_env_def)

lemma sample_requests:
  "\<not> opt_help sample_options" "only_requests ''partition'' (opt_partition_benchmarks sample_options)"
  "opt_filter_benchmarks sample_options = None" "opt_hash_benchmarks sample_options = None"
  "only_requests ''std_table'' (opt_table_benchmarks sample_options)" "opt_metrics sample_options \<noteq> None"
  "opt_partition_benchmarks sample_options \<noteq> None \<longrightarrow> log2_integral (env_lib sample_env) 1024"
  by (simp_all add: sample_options_def only_requests_def log2_integral_def sample_env_def sample_log2_def)

lemma sample_started:
  "set_up sample_env sample_options (initial_state sample_files ()) = Inr ([[97], [98]], sample_setting sample_options)"
  by (rule sample_set_up) (simp_all add: sample_options_def)

theorem program_returns_witness:
  "\<exists>full' ps2. main sample_env sample_options (initial_state sample_files ()) = Inr (full', ps2) \<and> mset full' = mset [[97], [98]]"
  by (rule program_returns [OF sample_laws sample_started sample_ready sample_requests])

theorem program_state_typed_witness:
  "\<exists>full ps. main sample_env sample_options (initial_state sample_files ()) = Inr (full, ps) \<and> mset full = mset [[97], [98]] \<and>
    locations_ok ps \<and> (\<forall>f. hashfuncs (config ps) f \<longleftrightarrow> f \<in> {''standard'', ''wyhash_sub8''})"
proof -
  obtain full ps where m: "main sample_env sample_options (initial_state sample_files ()) = Inr (full, ps)"
    using main_returns [OF sample_laws sample_started sample_ready sample_requests] by blast
  show ?thesis using program_state_typed [OF m sample_laws(2)] m sample_lines by (auto simp: sample_options_def)
qed

theorem whole_data_undefined_witness:
  "main sample_env (sample_options\<lparr>opt_data_size := None\<rparr>) (initial_state sample_files ()) = Inl bench_error.Undefined"
proof -
  have "set_up sample_env (sample_options\<lparr>opt_data_size := None\<rparr>) (initial_state sample_files ()) =
      Inr ([[97], [98]], sample_setting (sample_options\<lparr>opt_data_size := None\<rparr>))"
    by (rule sample_set_up) (simp_all add: sample_options_def)
  from whole_data_undefined [OF this, of 1] show ?thesis using sample_fraction(1) by (simp add: sample_options_def)
qed

definition regen_keys :: "bytes list" where
  "regen_keys = [[1, 1, 1, 1, 1, 1, 1, 1, 5, 5, 5, 5, 5, 5, 5, 5], [2, 1, 1, 1, 1, 1, 1, 1, 6, 6, 6, 6, 6, 6, 6, 6],
     [3, 1, 1, 1, 1, 1, 1, 1, 5, 5, 5, 5, 5, 5, 5, 5], [4, 1, 1, 1, 1, 1, 1, 1, 6, 6, 6, 6, 6, 6, 6, 6]]"

definition regen_options :: options where
  "regen_options = sample_options\<lparr>opt_byteLocations := [8 \<mapsto> ''loc8'']\<rparr>"

lemma regen_estimate:
  "\<exists>fixed. greedyRenyiSelectorStopK sample_log2 id 8 16 (take 2 regen_keys) (drop 2 regen_keys) [] [] 12 =
    Inr ([0, 1], [PInf, PInf], fixed, PInf)"
proof -
  have "greedy_loop 12 sample_log2 id 8 16 (take 2 regen_keys) (drop 2 regen_keys) [] [] (Fin 0) = Inr ([0, 1], [PInf, PInf], PInf)"
    by code_simp
  moreover obtain l where "getQuantileLength (take 2 regen_keys) (dbl (1 / 10)) = Some l"
    using getQuantileLength_defined [of "take 2 regen_keys"] by (auto simp: regen_keys_def)
  ultimately show ?thesis by (simp add: greedyRenyiSelectorStopK_def)
qed


theorem select_data_size_witness:
  "\<exists>data uninserted full' ps'. select_data sample_env [[97], [98]] (sample_setting sample_options) = Inr ((data, uninserted), full', ps') \<and>
    length data \<le> 1 \<and> mset (data @ uninserted) = mset [[97], [98]]"
proof -
  have d: "data_size (sample_setting sample_options) = 1"
    using sample_kept [of sample_options] by (simp add: same_setting_def with_options_def sample_options_def)
  from select_data_size [OF sample_laws(2), of "[[97], [98]]" "sample_setting sample_options"] show ?thesis using d by auto
qed

end
