(* ===== verification/Lib_Bloom.thy ===== *)
theory Lib_Bloom
  imports Float_Model Filter_Bench Murmur_Hash "HOL-Library.Signed_Division"
begin

text \<open>
  The C Bloom filter library (\<open>libbloom.cpp\<close>, \<open>include/libbloom.h\<close>) over MurmurHash2. The functions return the
  integer that the C code returns, with the struct they leave; \<open>None\<close> is undefined behaviour. The theorems show that
  adding and checking refine a set of bits, so that there are no false negatives, and that \<open>bloom_reset\<close>
  does not do what its documentation says.
\<close>

section \<open>The struct and its operations\<close>

record bloom =
  lb_entries :: int
  lb_error :: rat
  lb_bits :: int
  lb_bytes :: int
  lb_hashes :: u32
  lb_bpe :: rat
  lb_bf :: bytes
  lb_ready :: bool

text \<open>Returns whether the bit was set, and sets it if asked to.\<close>

definition test_bit_set_bit :: "bytes \<Rightarrow> u32 \<Rightarrow> bool \<Rightarrow> (bool \<times> bytes) option" where
  "test_bit_set_bit buf x setting =
     (let byte = unat (shr x 3); m = (shl 1 (unat (x mod 8)) :: u32) in do {
        hit \<leftarrow> byte_test buf byte m;
        if hit then Some (True, buf)
        else if setting then map_option (\<lambda>buf. (False, buf)) (byte_or buf byte m)
        else Some (False, buf)
      })"

text \<open>
  The loop over the hashes: it returns the number of hits, or \<open>None\<close> for the early \<open>return 0\<close> of a check. A remainder by 0 is
  undefined.
\<close>

primrec hash_loop :: "bool \<Rightarrow> u32 \<Rightarrow> u32 \<Rightarrow> u32 \<Rightarrow> nat list \<Rightarrow> u32 \<Rightarrow> bytes \<Rightarrow> (u32 option \<times> bytes) option" where
  "hash_loop add a b bits [] hits buf = Some (Some hits, buf)"
| "hash_loop add a b bits (i # is) hits buf =
     (if bits = 0 then None
      else do {
        (hit, buf) \<leftarrow> test_bit_set_bit buf ((a + of_nat i * b) mod bits) add;
        if hit then hash_loop add a b bits is (hits + 1) buf
        else if \<not> add then Some (None, buf)
        else hash_loop add a b bits is hits buf
      })"

definition bloom_check_add :: "bloom \<Rightarrow> bytes \<Rightarrow> int \<Rightarrow> bool \<Rightarrow> (int \<times> bloom) option" where
  "bloom_check_add bl buffer len add =
     (if \<not> lb_ready bl then Some (- 1, bl)
      else do {
        a \<leftarrow> orig_murmurhash2 buffer len 0x9747b28c;
        b \<leftarrow> orig_murmurhash2 buffer len a;
        (hits, buf) \<leftarrow> hash_loop add a b (of_int (lb_bits bl)) [0..<unat (lb_hashes bl)] 0 (lb_bf bl);
        Some (if hits = Some (lb_hashes bl) then 1 else 0, bl\<lparr>lb_bf := buf\<rparr>)
      })"

definition bloom_check :: "bloom \<Rightarrow> bytes \<Rightarrow> int \<Rightarrow> (int \<times> bloom) option" where
  "bloom_check bl buffer len = bloom_check_add bl buffer len False"

definition bloom_add :: "bloom \<Rightarrow> bytes \<Rightarrow> int \<Rightarrow> (int \<times> bloom) option" where
  "bloom_add bl buffer len = bloom_check_add bl buffer len True"

text \<open>The conversion of a \<open>double\<close> to \<open>int\<close> truncates and is undefined out of range.\<close>

definition double_to_int :: "rat \<Rightarrow> int option" where
  "double_to_int x =
     (let n = (if x < 0 then \<lceil>x\<rceil> else \<lfloor>x\<rfloor>) in if - (2 ^ 31) \<le> n \<and> n < 2 ^ 31 then Some n else None)"

text \<open>
  \<open>log\<close> is the library's on positive values; of a negative error it is not a number, whose conversion to \<open>int\<close> is
  undefined. \<open>calloc\<close> tells whether the allocation of so many bytes succeeds.
\<close>

definition bloom_init :: "(rat \<Rightarrow> rat) \<Rightarrow> (u64 \<Rightarrow> bool) \<Rightarrow> bloom \<Rightarrow> int \<Rightarrow> rat \<Rightarrow> (int \<times> bloom) option" where
  "bloom_init ln_lib calloc bl entries err =
     (let bl = bl\<lparr>lb_ready := False\<rparr> in
      if entries < 1000 \<or> err = 0 then Some (1, bl)
      else if err < 0 then None
      else do {
        let num = ln_lib err;
        let denom = dbl (480453013918201 / 10 ^ 15);
        let bpe = - sdbl (num / denom);
        bits \<leftarrow> double_to_int (sdbl (dbl (of_int entries) * bpe));
        let nbytes = (if bits smod 8 \<noteq> 0 then bits sdiv 8 + 1 else bits sdiv 8);
        hashes \<leftarrow> double_to_int (of_int \<lceil>sdbl (dbl (693147180559945 / 10 ^ 15) * bpe)\<rceil>);
        let bl = bl\<lparr>lb_entries := entries, lb_error := err, lb_bpe := bpe, lb_bits := bits, lb_bytes := nbytes,
                    lb_hashes := of_int hashes\<rparr>;
        if calloc (of_int nbytes)
        then Some (0, bl\<lparr>lb_bf := replicate (unat (of_int nbytes :: u64)) 0, lb_ready := True\<rparr>)
        else Some (1, bl)
      })"

definition bloom_free :: "bloom \<Rightarrow> bloom" where
  "bloom_free bl = (if lb_ready bl then bl\<lparr>lb_bf := [], lb_ready := False\<rparr> else bl\<lparr>lb_ready := False\<rparr>)"

definition bloom_reset :: "bloom \<Rightarrow> int \<times> bloom" where
  "bloom_reset bl = (if \<not> lb_ready bl then (1, bl) else (0, bl))"

section \<open>Invariant and abstraction\<close>

definition lb_ok :: "bloom \<Rightarrow> bool" where
  "lb_ok bl \<longleftrightarrow> lb_ready bl \<and> 0 < lb_bits bl \<and> lb_bits bl < 2 ^ 31 \<and> lb_bits bl \<le> 8 * int (length (lb_bf bl))"

text \<open>The bits that a key selects.\<close>

definition lb_positions :: "bloom \<Rightarrow> bytes \<Rightarrow> int \<Rightarrow> nat set" where
  "lb_positions bl key len =
     (case orig_murmurhash2 key len 0x9747b28c of None \<Rightarrow> {}
      | Some a \<Rightarrow> (case orig_murmurhash2 key len a of None \<Rightarrow> {}
        | Some b \<Rightarrow> (\<lambda>i. unat ((a + of_nat i * b) mod of_int (lb_bits bl) :: u32)) ` {..<unat (lb_hashes bl)}))"

lemma test_bit_set_bit_bits:
  assumes "unat x < 8 * length buf"
  shows "\<exists>buf'. test_bit_set_bit buf x add = Some (unat x \<in> bits_of buf, buf') \<and> length buf' = length buf \<and>
    bits_of buf' = (if add then insert (unat x) (bits_of buf) else bits_of buf) \<and> (add \<or> buf' = buf)"
proof -
  let ?i = "unat (shr x 3)" and ?k = "unat (x mod 8)"
  have p: "8 * ?i + ?k = unat x" by (simp add: unat_shr unat_mod)
  have i: "?i < length buf" using assms by (simp add: unat_shr less_mult_imp_div_less mult.commute)
  have k: "?k < 8" by (simp add: unat_mod)
  have t: "byte_test buf ?i (shl 1 ?k) = Some (unat x \<in> bits_of buf)" using byte_test_bits [OF i k] p by simp
  obtain cs where cs: "byte_or buf ?i (shl 1 ?k) = Some cs" "bytes_le buf cs" using byte_or_Some [OF i] by blast
  then have "bits_of cs = insert (unat x) (bits_of buf)" "length cs = length buf"
    using byte_or_bits [OF cs(1) k] p by (simp_all add: bytes_le_def)
  then show ?thesis using t cs(1)
    by (auto simp: test_bit_set_bit_def Let_def insert_absorb simp del: push_bit_of_1)
qed

lemma hash_loop_add:
  assumes "bits \<noteq> 0" "unat bits \<le> 8 * length buf"
  shows "\<exists>k buf'. hash_loop True a b bits is hits buf = Some (Some (hits + of_nat k), buf') \<and> k \<le> length is \<and>
    (k = length is \<longleftrightarrow> (\<lambda>i. unat ((a + of_nat i * b) mod bits)) ` set is \<subseteq> bits_of buf) \<and> length buf' = length buf \<and>
    bits_of buf' = bits_of buf \<union> (\<lambda>i. unat ((a + of_nat i * b) mod bits)) ` set is"
  using assms(2)
proof (induction "is" arbitrary: hits buf)
  case (Cons i "is")
  let ?x = "(a + of_nat i * b) mod bits"
  have "unat ?x < unat bits" using assms(1) by (simp add: unat_mod unat_gt_0)
  then have x: "unat ?x < 8 * length buf" using Cons.prems by linarith
  obtain buf1 where b: "test_bit_set_bit buf ?x True = Some (unat ?x \<in> bits_of buf, buf1)" "length buf1 = length buf"
    "bits_of buf1 = insert (unat ?x) (bits_of buf)"
    using test_bit_set_bit_bits [OF x, of True] by auto
  obtain k buf' where k: "hash_loop True a b bits is (if unat ?x \<in> bits_of buf then hits + 1 else hits) buf1 =
      Some (Some ((if unat ?x \<in> bits_of buf then hits + 1 else hits) + of_nat k), buf')" "k \<le> length is"
    "k = length is \<longleftrightarrow> (\<lambda>i. unat ((a + of_nat i * b) mod bits)) ` set is \<subseteq> bits_of buf1" "length buf' = length buf1"
    "bits_of buf' = bits_of buf1 \<union> (\<lambda>i. unat ((a + of_nat i * b) mod bits)) ` set is"
    using Cons.IH [of buf1] Cons.prems b(2) by metis
  show ?case
  proof (cases "unat ?x \<in> bits_of buf")
    case True
    then show ?thesis using assms(1) b k by (intro exI [of _ "Suc k"] exI [of _ buf']) (auto simp: insert_absorb algebra_simps)
  next
    case False
    then show ?thesis using assms(1) b k by (intro exI [of _ k] exI [of _ buf']) auto
  qed
qed simp

lemma hash_loop_check:
  assumes "bits \<noteq> 0" "unat bits \<le> 8 * length buf"
  shows "hash_loop False a b bits is hits buf =
    Some (if (\<lambda>i. unat ((a + of_nat i * b) mod bits)) ` set is \<subseteq> bits_of buf then Some (hits + of_nat (length is)) else None, buf)"
proof (induction "is" arbitrary: hits)
  case (Cons i "is")
  let ?x = "(a + of_nat i * b) mod bits"
  have "unat ?x < unat bits" using assms(1) by (simp add: unat_mod unat_gt_0)
  then have "unat ?x < 8 * length buf" using assms(2) by linarith
  then have "test_bit_set_bit buf ?x False = Some (unat ?x \<in> bits_of buf, buf)"
    using test_bit_set_bit_bits [of ?x buf False] by auto
  then show ?case using Cons assms(1) by (simp add: algebra_simps)
qed simp

section \<open>Refinement\<close>

lemma lb_hashes_of_key:
  obtains a b where "orig_murmurhash2 key (int (length key)) 0x9747b28c = Some a"
    "orig_murmurhash2 key (int (length key)) a = Some b"
    "lb_positions bl key (int (length key)) =
      (\<lambda>i. unat ((a + of_nat i * b) mod of_int (lb_bits bl) :: u32)) ` {..<unat (lb_hashes bl)}"
proof -
  obtain a where a: "orig_murmurhash2 key (int (length key)) 0x9747b28c = Some a"
    using orig_murmurhash2_total [of "int (length key)" key] by auto
  obtain b where b: "orig_murmurhash2 key (int (length key)) a = Some b"
    using orig_murmurhash2_total [of "int (length key)" key] by auto
  show ?thesis using that [OF a b] a b by (simp add: lb_positions_def)
qed

lemma lb_ok_bits:
  assumes "lb_ok bl"
  shows "(of_int (lb_bits bl) :: u32) \<noteq> 0" "unat (of_int (lb_bits bl) :: u32) \<le> 8 * length (lb_bf bl)"
proof -
  have "uint (of_int (lb_bits bl) :: u32) = lb_bits bl" using assms by (simp add: lb_ok_def uint_word_of_int)
  then have u: "unat (of_int (lb_bits bl) :: u32) = nat (lb_bits bl)" by (metis unat_eq_nat_uint)
  show "(of_int (lb_bits bl) :: u32) \<noteq> 0" using u assms by (auto simp: lb_ok_def word_unat_eq_iff)
  show "unat (of_int (lb_bits bl) :: u32) \<le> 8 * length (lb_bf bl)" using u assms by (simp add: lb_ok_def nat_le_iff)
qed

lemma bloom_add_refines:
  assumes "lb_ok bl"
  shows "\<exists>bl'. bloom_add bl key (int (length key)) =
      Some (if lb_positions bl key (int (length key)) \<subseteq> bits_of (lb_bf bl) then 1 else 0, bl') \<and>
    lb_ok bl' \<and> bits_of (lb_bf bl') = bits_of (lb_bf bl) \<union> lb_positions bl key (int (length key)) \<and>
    lb_bits bl' = lb_bits bl \<and> lb_hashes bl' = lb_hashes bl \<and> length (lb_bf bl') = length (lb_bf bl)"
proof -
  obtain a b where ab: "orig_murmurhash2 key (int (length key)) 0x9747b28c = Some a"
    "orig_murmurhash2 key (int (length key)) a = Some b"
    "lb_positions bl key (int (length key)) =
      (\<lambda>i. unat ((a + of_nat i * b) mod of_int (lb_bits bl) :: u32)) ` {..<unat (lb_hashes bl)}"
    by (rule lb_hashes_of_key)
  obtain k buf where k: "hash_loop True a b (of_int (lb_bits bl)) [0..<unat (lb_hashes bl)] 0 (lb_bf bl) = Some (Some (of_nat k), buf)"
    "k \<le> unat (lb_hashes bl)"
    "k = unat (lb_hashes bl) \<longleftrightarrow> lb_positions bl key (int (length key)) \<subseteq> bits_of (lb_bf bl)" "length buf = length (lb_bf bl)"
    "bits_of buf = bits_of (lb_bf bl) \<union> lb_positions bl key (int (length key))"
    using hash_loop_add [OF lb_ok_bits [OF assms], of a b "[0..<unat (lb_hashes bl)]" 0] ab(3)
    by (auto simp: atLeast0LessThan)
  have "(of_nat k :: u32) = lb_hashes bl \<longleftrightarrow> k = unat (lb_hashes bl)"
  proof -
    have "k < 2 ^ LENGTH(32)" using k(2) unat_u32_less [of "lb_hashes bl"] by simp
    then have "unat (of_nat k :: u32) = k" by (rule unat_of_nat_small)
    then show ?thesis by (simp add: word_unat_eq_iff)
  qed
  then show ?thesis using assms k ab(1,2)
    by (simp add: bloom_add_def bloom_check_add_def lb_ok_def)
qed

lemma bloom_check_refines:
  assumes "lb_ok bl"
  shows "bloom_check bl key (int (length key)) =
    Some (if lb_positions bl key (int (length key)) \<subseteq> bits_of (lb_bf bl) then 1 else 0, bl)"
proof -
  obtain a b where ab: "orig_murmurhash2 key (int (length key)) 0x9747b28c = Some a"
    "orig_murmurhash2 key (int (length key)) a = Some b"
    "lb_positions bl key (int (length key)) =
      (\<lambda>i. unat ((a + of_nat i * b) mod of_int (lb_bits bl) :: u32)) ` {..<unat (lb_hashes bl)}"
    by (rule lb_hashes_of_key)
  then show ?thesis
    using assms hash_loop_check [OF lb_ok_bits [OF assms], of a b "[0..<unat (lb_hashes bl)]" 0]
    by (auto simp: bloom_check_def bloom_check_add_def lb_ok_def atLeast0LessThan)
qed

text \<open>The library as a membership filter on keys.\<close>

definition lb_add_key :: "bytes \<Rightarrow> bloom \<Rightarrow> bloom option" where
  "lb_add_key key bl = map_option snd (bloom_add bl key (int (length key)))"

definition lb_test_key :: "bloom \<Rightarrow> bytes \<Rightarrow> bool option" where
  "lb_test_key bl key = map_option (\<lambda>(r, _). r = 1) (bloom_check bl key (int (length key)))"

definition lb_grows :: "bloom \<Rightarrow> bloom \<Rightarrow> bool" where
  "lb_grows f g \<longleftrightarrow> bits_of (lb_bf f) \<subseteq> bits_of (lb_bf g) \<and> lb_bits f = lb_bits g \<and> lb_hashes f = lb_hashes g"

lemma lb_positions_cong: "lb_bits f = lb_bits g \<Longrightarrow> lb_hashes f = lb_hashes g \<Longrightarrow> lb_positions f = lb_positions g"
  by (intro ext) (simp add: lb_positions_def split: option.split)

interpretation lib_bloom: membership_filter lb_add_key lb_test_key lb_ok lb_grows
proof (unfold_locales, goal_cases)
  case (1 f x)
  then show ?case using bloom_add_refines [of f x] by (auto simp: lb_add_key_def lb_grows_def)
next
  case (2 f x f')
  then have "lb_ok f'" "lb_positions f' x (int (length x)) \<subseteq> bits_of (lb_bf f')"
    using bloom_add_refines [of f x] lb_positions_cong [of f' f] by (auto simp: lb_add_key_def)
  then show ?case by (simp add: lb_test_key_def bloom_check_refines)
next
  case (3 f f' x)
  then show ?case using lb_positions_cong [of f f']
    by (auto simp: lb_test_key_def bloom_check_refines lb_grows_def split: if_splits)
next
  case (4 f x)
  then show ?case by (simp add: lb_test_key_def bloom_check_refines)
next
  case (5 f)
  show ?case by (simp add: lb_grows_def)
next
  case (6 f g h)
  then show ?case by (auto simp: lb_grows_def)
qed

text \<open>A successful initialisation for a positive number of bits establishes the invariant.\<close>

lemma bloom_init_ok:
  assumes "bloom_init ln_lib calloc bl0 entries err = Some (0, bl)" "0 < lb_bits bl"
  shows "lb_ok bl" "bits_of (lb_bf bl) = {}"
proof -
  obtain nb where nb: "nb = (if lb_bits bl smod 8 \<noteq> 0 then lb_bits bl sdiv 8 + 1 else lb_bits bl sdiv 8)"
    "lb_bf bl = replicate (unat (of_int nb :: u64)) 0" "lb_ready bl" "lb_bits bl < 2 ^ 31"
    using assms(1)
    by (auto simp: bloom_init_def Let_def double_to_int_def split: if_splits bind_splits)
  have d: "lb_bits bl sdiv 8 = lb_bits bl div 8" "lb_bits bl smod 8 = lb_bits bl mod 8"
    using assms(2) by (simp_all add: signed_divide_int_def signed_modulo_int_def sgn_if)
  have n: "lb_bits bl \<le> 8 * nb" "0 \<le> nb" "nb < 2 ^ 31"
    using nb(1,4) assms(2) by (auto simp: d split: if_splits)
  then have "int (unat (of_int nb :: u64)) = nb" by (simp add: uint_word_of_int)
  then show "lb_ok bl" using nb n assms(2) by (simp add: lb_ok_def)
  show "bits_of (lb_bf bl) = {}" by (simp add: nb(2))
qed

section \<open>Properties\<close>

text \<open>
  C27. The library keeps its documented contract for adding: on an initialised filter \<open>bloom_add\<close> returns what
  \<open>bloom_check\<close> would have returned, 1 when the key (or a collision) was already in and 0 when it was not, a check right after it
  returns 1, and so does every later check, whatever is added in between. Nothing outside the array is read or written.
\<close>

theorem bloom_add_contract:
  assumes "lb_ok bl"
  shows "\<exists>r bl' bl''. bloom_check bl key (int (length key)) = Some (r, bl) \<and> bloom_add bl key (int (length key)) = Some (r, bl') \<and>
    lb_ok bl' \<and> benchFilter_add lb_add_key others bl' = Some bl'' \<and>
    bloom_check bl' key (int (length key)) = Some (1, bl') \<and> bloom_check bl'' key (int (length key)) = Some (1, bl'')"
proof -
  let ?P = "lb_positions bl key (int (length key))"
  obtain bl' where a: "bloom_add bl key (int (length key)) = Some (if ?P \<subseteq> bits_of (lb_bf bl) then 1 else 0, bl')"
    "lb_ok bl'" "bits_of (lb_bf bl') = bits_of (lb_bf bl) \<union> ?P" "lb_bits bl' = lb_bits bl" "lb_hashes bl' = lb_hashes bl"
    using bloom_add_refines [OF assms] by blast
  obtain bl'' where b: "benchFilter_add lb_add_key others bl' = Some bl''" "lb_ok bl''" "lb_grows bl' bl''"
    using lib_bloom.add_all_total [OF a(2)] by blast
  have p: "lb_positions bl' = lb_positions bl" "lb_positions bl'' = lb_positions bl"
    using a(4,5) b(3) by (auto intro!: lb_positions_cong simp: lb_grows_def)
  have "bits_of (lb_bf bl') \<subseteq> bits_of (lb_bf bl'')" using b(3) by (simp add: lb_grows_def)
  then show ?thesis using a b(1) bloom_check_refines [OF assms] bloom_check_refines [OF a(2)] bloom_check_refines [OF b(2)] p
    by auto
qed

text \<open>
  \<open>bloom_reset\<close> reports success and erases nothing: the filter is the one before, and every key that was found is
  still found. The header promises that it erases all elements.
\<close>

theorem bloom_reset_keeps:
  assumes "lb_ok bl"
  shows "bloom_reset bl = (0, bl) \<and>
    (bloom_check bl key (int (length key)) = Some (1, bl) \<longrightarrow>
     bloom_check (snd (bloom_reset bl)) key (int (length key)) = Some (1, bl))"
  using assms by (simp add: bloom_reset_def lb_ok_def)

definition example_lb :: bloom where
  "example_lb = \<lparr>lb_entries = 1000, lb_error = 1 / 2, lb_bits = 20, lb_bytes = 3, lb_hashes = 2, lb_bpe = 1,
     lb_bf = [0, 0, 0], lb_ready = True\<rparr>"

lemma example_lb_ok: "lb_ok example_lb"
  by code_simp

theorem bloom_add_contract_witness:
  "\<exists>r bl' bl''. bloom_check example_lb [1, 2] 2 = Some (r, example_lb) \<and> bloom_add example_lb [1, 2] 2 = Some (r, bl') \<and>
    lb_ok bl' \<and> benchFilter_add lb_add_key [[3], [4, 5]] bl' = Some bl'' \<and>
    bloom_check bl' [1, 2] 2 = Some (1, bl') \<and> bloom_check bl'' [1, 2] 2 = Some (1, bl'')"
  using bloom_add_contract [OF example_lb_ok, of "[1, 2]" "[[3], [4, 5]]"] by simp

theorem bloom_reset_keeps_witness: "bloom_reset example_lb = (0, example_lb)"
  using bloom_reset_keeps [OF example_lb_ok, of "[]"] by blast

end
