(* ===== verification/XXH3_128.thy ===== *)
theory XXH3_128
  imports XXH3_Hash
begin

text \<open>
  XXH3 with a 128-bit result, XXH128 (include/hash/orig_xhash.hh): the hashes of short keys by the range of their
  length, the long hash that shares its accumulator loop with the 64-bit variant, the entry points, comparison,
  the canonical form and the derivation of a secret from a seed of any size. The theorems show that
  every branch stays inside its buffers and that the two forms of the multiplication in the middle of
  \<open>XXH3_len_9to16_128b\<close> agree.
\<close>

record XXH128_hash_t =
  low64 :: u64
  high64 :: u64

definition mult64to128 :: "u64 \<Rightarrow> u64 \<Rightarrow> XXH128_hash_t" where
  "mult64to128 lhs rhs = (let (lo, hi) = XXH_mult64to128 lhs rhs in \<lparr>low64 = lo, high64 = hi\<rparr>)"

section \<open>Short keys\<close>

definition XXH3_len_1to3_128b :: "bytes \<Rightarrow> nat \<Rightarrow> bytes \<Rightarrow> u64 \<Rightarrow> XXH128_hash_t option" where
  "XXH3_len_1to3_128b input len secret seed = do {
     XXH_ASSERT (1 \<le> len \<and> len \<le> 3);
     c1 \<leftarrow> read8 input 0;
     c2 \<leftarrow> read8 input (len div 2);
     c3 \<leftarrow> read8 input (len - 1);
     let combinedl = (shl (ucast c1) 16 OR shl (ucast c2) 24 OR shl (ucast c3) 0 OR shl (of_nat len) 8 :: u32);
     let combinedh = XXH_rotl32 (XXH_swap32 combinedl) 13;
     s0 \<leftarrow> XXH_readLE32 secret 0; s4 \<leftarrow> XXH_readLE32 secret 4;
     s8 \<leftarrow> XXH_readLE32 secret 8; s12 \<leftarrow> XXH_readLE32 secret 12;
     let bitflipl = ucast (s0 XOR s4) + seed;
     let bitfliph = ucast (s8 XOR s12) - seed;
     let keyed_lo = ucast combinedl XOR bitflipl;
     let keyed_hi = ucast combinedh XOR bitfliph;
     Some \<lparr>low64 = XXH64_avalanche keyed_lo, high64 = XXH64_avalanche keyed_hi\<rparr>
   }"

definition XXH3_len_4to8_128b :: "bytes \<Rightarrow> nat \<Rightarrow> bytes \<Rightarrow> u64 \<Rightarrow> XXH128_hash_t option" where
  "XXH3_len_4to8_128b input len secret seed = do {
     XXH_ASSERT (4 \<le> len \<and> len \<le> 8);
     let seed = seed XOR shl (ucast (XXH_swap32 (ucast seed))) 32;
     input_lo \<leftarrow> XXH_readLE32 input 0;
     input_hi \<leftarrow> XXH_readLE32 input (len - 4);
     let input_64 = (ucast input_lo + shl (ucast input_hi) 32 :: u64);
     s16 \<leftarrow> XXH_readLE64 secret 16; s24 \<leftarrow> XXH_readLE64 secret 24;
     let bitflip = (s16 XOR s24) + seed;
     let keyed = input_64 XOR bitflip;
     let m128 = mult64to128 keyed (XXH_PRIME64_1 + shl (of_nat len) 2);
     let high = high64 m128 + shl (low64 m128) 1;
     let low = low64 m128 XOR shr high 3;
     let low = XXH_xorshift64 low 35;
     let low = low * 0x9FB21C651E98DF25;
     let low = XXH_xorshift64 low 28;
     Some \<lparr>low64 = low, high64 = XXH3_avalanche high\<rparr>
   }"

text \<open>
  What is added to the upper half in the middle of the multiplication, in its forms for machines of 32 and 64 bits.
  \<open>XXH_PRIME32_2 - 1\<close> is the multiplier of the second.
\<close>

definition mix_high_32 :: "u64 \<Rightarrow> u64" where
  "mix_high_32 input_hi = (input_hi AND 0xFFFFFFFF00000000) + XXH_mult32to64 (ucast (ucast input_hi :: u32)) (ucast XXH_PRIME32_2)"

definition mix_high_64 :: "u64 \<Rightarrow> u64" where
  "mix_high_64 input_hi = input_hi + XXH_mult32to64 (ucast (ucast input_hi :: u32)) (ucast (XXH_PRIME32_2 - 1))"

definition XXH3_len_9to16_128b :: "bytes \<Rightarrow> nat \<Rightarrow> bytes \<Rightarrow> u64 \<Rightarrow> XXH128_hash_t option" where
  "XXH3_len_9to16_128b input len secret seed = do {
     XXH_ASSERT (9 \<le> len \<and> len \<le> 16);
     s32 \<leftarrow> XXH_readLE64 secret 32; s40 \<leftarrow> XXH_readLE64 secret 40;
     s48 \<leftarrow> XXH_readLE64 secret 48; s56 \<leftarrow> XXH_readLE64 secret 56;
     let bitflipl = (s32 XOR s40) - seed;
     let bitfliph = (s48 XOR s56) + seed;
     input_lo \<leftarrow> XXH_readLE64 input 0;
     input_hi \<leftarrow> XXH_readLE64 input (len - 8);
     let m128 = mult64to128 (input_lo XOR input_hi XOR bitflipl) XXH_PRIME64_1;
     let low = low64 m128 + shl (of_nat (len - 1)) 54;
     let input_hi = input_hi XOR bitfliph;
     let high = high64 m128 + mix_high_64 input_hi;
     let low = low XOR XXH_swap64 high;
     let h128 = mult64to128 low XXH_PRIME64_2;
     let h128_high = high64 h128 + high * XXH_PRIME64_2;
     Some \<lparr>low64 = XXH3_avalanche (low64 h128), high64 = XXH3_avalanche h128_high\<rparr>
   }"

definition XXH3_len_0to16_128b :: "bytes \<Rightarrow> nat \<Rightarrow> bytes \<Rightarrow> u64 \<Rightarrow> XXH128_hash_t option" where
  "XXH3_len_0to16_128b input len secret seed = XXH_ASSERT (len \<le> 16) \<bind> (\<lambda>_.
     (if len > 8 then XXH3_len_9to16_128b input len secret seed
      else if len \<ge> 4 then XXH3_len_4to8_128b input len secret seed
      else if len \<noteq> 0 then XXH3_len_1to3_128b input len secret seed
      else do {
        s64 \<leftarrow> XXH_readLE64 secret 64; s72 \<leftarrow> XXH_readLE64 secret 72;
        s80 \<leftarrow> XXH_readLE64 secret 80; s88 \<leftarrow> XXH_readLE64 secret 88;
        let bitflipl = s64 XOR s72;
        let bitfliph = s80 XOR s88;
        Some \<lparr>low64 = XXH64_avalanche (seed XOR bitflipl), high64 = XXH64_avalanche (seed XOR bitfliph)\<rparr>
      }))"

text \<open>The pointers are offsets into the two buffers.\<close>

definition XXH128_mix32B :: "XXH128_hash_t \<Rightarrow> bytes \<Rightarrow> nat \<Rightarrow> nat \<Rightarrow> bytes \<Rightarrow> nat \<Rightarrow> u64 \<Rightarrow> XXH128_hash_t option" where
  "XXH128_mix32B acc input i1 i2 secret s seed = do {
     m1 \<leftarrow> XXH3_mix16B input i1 secret s seed;
     a \<leftarrow> XXH_readLE64 input i2; b \<leftarrow> XXH_readLE64 input (i2 + 8);
     m2 \<leftarrow> XXH3_mix16B input i2 secret (s + 16) seed;
     c \<leftarrow> XXH_readLE64 input i1; d \<leftarrow> XXH_readLE64 input (i1 + 8);
     Some \<lparr>low64 = (low64 acc + m1) XOR (a + b), high64 = (high64 acc + m2) XOR (c + d)\<rparr>
   }"

text \<open>\<open>acc = XXH128_mix32B(acc, ...)\<close> for a list of offsets into the key (two) and the secret, in order.\<close>

definition XXH128_mix_all :: "bytes \<Rightarrow> bytes \<Rightarrow> u64 \<Rightarrow> (nat \<times> nat \<times> nat) list \<Rightarrow> XXH128_hash_t \<Rightarrow> XXH128_hash_t option" where
  "XXH128_mix_all input secret seed ps acc =
     for_opt ps (\<lambda>(i1, i2, s) acc. XXH128_mix32B acc input i1 i2 secret s seed) acc"

definition XXH128_merge :: "XXH128_hash_t \<Rightarrow> nat \<Rightarrow> u64 \<Rightarrow> XXH128_hash_t" where
  "XXH128_merge acc len seed =
     (let low = low64 acc + high64 acc;
          high = low64 acc * XXH_PRIME64_1 + high64 acc * XXH_PRIME64_4 + (of_nat len - seed) * XXH_PRIME64_2
      in \<lparr>low64 = XXH3_avalanche low, high64 = 0 - XXH3_avalanche high\<rparr>)"

definition XXH3_len_17to128_128b :: "bytes \<Rightarrow> nat \<Rightarrow> bytes \<Rightarrow> u64 \<Rightarrow> XXH128_hash_t option" where
  "XXH3_len_17to128_128b input len secret seed = do {
     XXH_ASSERT (16 < len \<and> len \<le> 128);
     let acc = \<lparr>low64 = of_nat len * XXH_PRIME64_1, high64 = 0\<rparr>;
     acc \<leftarrow> XXH128_mix_all input secret seed
       ((if len > 32
         then (if len > 64
               then (if len > 96 then [(48, len - 64, 96)] else [])
                    @ [(32, len - 48, 64)]
               else [])
              @ [(16, len - 32, 32)]
         else [])
        @ [(0, len - 16, 0)]) acc;
     Some (XXH128_merge acc len seed)
   }"

definition XXH3_len_129to240_128b :: "bytes \<Rightarrow> nat \<Rightarrow> bytes \<Rightarrow> u64 \<Rightarrow> XXH128_hash_t option" where
  "XXH3_len_129to240_128b input len secret seed = do {
     XXH_ASSERT (128 < len \<and> len \<le> 240);
     let nbRounds = len div 32;
     let acc = \<lparr>low64 = of_nat len * XXH_PRIME64_1, high64 = 0\<rparr>;
     acc \<leftarrow> XXH128_mix_all input secret seed (map (\<lambda>i. (32 * i, 32 * i + 16, 32 * i)) [0..<4]) acc;
     let acc = \<lparr>low64 = XXH3_avalanche (low64 acc), high64 = XXH3_avalanche (high64 acc)\<rparr>;
     XXH_ASSERT (nbRounds \<ge> 4);
     acc \<leftarrow> XXH128_mix_all input secret seed (map (\<lambda>i. (32 * i, 32 * i + 16, 3 + 32 * (i - 4))) [4..<nbRounds]) acc;
     acc \<leftarrow> XXH128_mix_all input secret (0 - seed) [(len - 16, len - 32, XXH3_SECRET_SIZE_MIN - 17 - 16)] acc;
     Some (XXH128_merge acc len seed)
   }"

section \<open>Long keys\<close>

definition XXH128_mergeAccs :: "u64 list \<Rightarrow> bytes \<Rightarrow> nat \<Rightarrow> u64 \<Rightarrow> XXH128_hash_t option" where
  "XXH128_mergeAccs acc secret secretSize len = do {
     lo \<leftarrow> XXH3_mergeAccs acc secret 11 (len * XXH_PRIME64_1);
     hi \<leftarrow> XXH3_mergeAccs acc secret (secretSize - 64 - 11) (NOT (len * XXH_PRIME64_2));
     Some \<lparr>low64 = lo, high64 = hi\<rparr>
   }"

definition XXH3_hashLong_128b_internal :: "bytes \<Rightarrow> nat \<Rightarrow> bytes \<Rightarrow> nat \<Rightarrow> XXH128_hash_t option" where
  "XXH3_hashLong_128b_internal input len secret secretSize = do {
     acc \<leftarrow> XXH3_hashLong_internal_loop XXH3_INIT_ACC input len secret secretSize;
     XXH128_mergeAccs acc secret secretSize (of_nat len)
   }"

definition XXH3_hashLong_128b_default :: "bytes \<Rightarrow> nat \<Rightarrow> u64 \<Rightarrow> bytes \<Rightarrow> nat \<Rightarrow> XXH128_hash_t option" where
  "XXH3_hashLong_128b_default input len seed64 secret secretLen =
     XXH3_hashLong_128b_internal input len XXH3_kSecret (length XXH3_kSecret)"

definition XXH3_hashLong_128b_withSecret :: "bytes \<Rightarrow> nat \<Rightarrow> u64 \<Rightarrow> bytes \<Rightarrow> nat \<Rightarrow> XXH128_hash_t option" where
  "XXH3_hashLong_128b_withSecret input len seed64 secret secretLen =
     XXH3_hashLong_128b_internal input len secret secretLen"

definition XXH3_hashLong_128b_withSeed :: "bytes \<Rightarrow> nat \<Rightarrow> u64 \<Rightarrow> bytes \<Rightarrow> nat \<Rightarrow> XXH128_hash_t option" where
  "XXH3_hashLong_128b_withSeed input len seed64 secret secretLen =
     (if seed64 = 0 then XXH3_hashLong_128b_internal input len XXH3_kSecret (length XXH3_kSecret)
      else do {
        custom \<leftarrow> XXH3_initCustomSecret seed64;
        XXH3_hashLong_128b_internal input len custom (length custom)
      })"

section \<open>Entry points\<close>

definition XXH3_128bits_internal :: "bytes \<Rightarrow> u64 \<Rightarrow> u64 \<Rightarrow> bytes \<Rightarrow> nat \<Rightarrow>
    (bytes \<Rightarrow> nat \<Rightarrow> u64 \<Rightarrow> bytes \<Rightarrow> nat \<Rightarrow> XXH128_hash_t option) \<Rightarrow> XXH128_hash_t option" where
  "XXH3_128bits_internal input len seed64 secret secretLen f_hl128 =
     (let n = unat len in
      if n \<le> 16 then XXH3_len_0to16_128b input n secret seed64
      else if n \<le> 128 then XXH3_len_17to128_128b input n secret seed64
      else if n \<le> 240 then XXH3_len_129to240_128b input n secret seed64
      else f_hl128 input n seed64 secret secretLen)"

definition XXH3_128bits :: "bytes \<Rightarrow> u64 \<Rightarrow> XXH128_hash_t option" where
  "XXH3_128bits input len =
     XXH3_128bits_internal input len 0 XXH3_kSecret (length XXH3_kSecret) XXH3_hashLong_128b_default"

definition XXH3_128bits_withSecret :: "bytes \<Rightarrow> u64 \<Rightarrow> bytes \<Rightarrow> nat \<Rightarrow> XXH128_hash_t option" where
  "XXH3_128bits_withSecret input len secret secretSize =
     XXH3_128bits_internal input len 0 secret secretSize XXH3_hashLong_128b_withSecret"

definition XXH3_128bits_withSeed :: "bytes \<Rightarrow> u64 \<Rightarrow> u64 \<Rightarrow> XXH128_hash_t option" where
  "XXH3_128bits_withSeed input len seed =
     XXH3_128bits_internal input len seed XXH3_kSecret (length XXH3_kSecret) XXH3_hashLong_128b_withSeed"

definition XXH128 :: "bytes \<Rightarrow> u64 \<Rightarrow> u64 \<Rightarrow> XXH128_hash_t option" where
  "XXH128 input len seed = XXH3_128bits_withSeed input len seed"

section \<open>Comparison and canonical form\<close>

text \<open>\<open>memcmp\<close> on the bytes of two hashes.\<close>

definition hash_bytes :: "XXH128_hash_t \<Rightarrow> bytes" where
  "hash_bytes h = le_bytes 8 (low64 h) @ le_bytes 8 (high64 h)"

definition XXH128_isEqual :: "XXH128_hash_t \<Rightarrow> XXH128_hash_t \<Rightarrow> bool" where
  "XXH128_isEqual h1 h2 = (hash_bytes h1 = hash_bytes h2)"

definition XXH128_cmp :: "XXH128_hash_t \<Rightarrow> XXH128_hash_t \<Rightarrow> int" where
  "XXH128_cmp h1 h2 =
     (let hcmp = of_bool (high64 h1 > high64 h2) - of_bool (high64 h2 > high64 h1)
      in if hcmp \<noteq> 0 then hcmp
         else of_bool (low64 h1 > low64 h2) - of_bool (low64 h2 > low64 h1))"

definition XXH128_canonicalFromHash :: "XXH128_hash_t \<Rightarrow> bytes" where
  "XXH128_canonicalFromHash hash = le_bytes 8 (XXH_swap64 (high64 hash)) @ le_bytes 8 (XXH_swap64 (low64 hash))"

definition XXH128_hashFromCanonical :: "bytes \<Rightarrow> XXH128_hash_t option" where
  "XXH128_hashFromCanonical src = do {
     hi \<leftarrow> XXH_readBE64 src 0;
     lo \<leftarrow> XXH_readBE64 src 8;
     Some \<lparr>low64 = lo, high64 = hi\<rparr>
   }"

section \<open>Secrets\<close>

text \<open>
  The seed fills twelve 64-bit numbers, cut or repeated: each \<open>memcpy\<close> doubles what is there.
\<close>

function fill_seeds :: "bytes \<Rightarrow> nat \<Rightarrow> bytes" where
  "fill_seeds seeds n =
     (if 0 < length seeds \<and> length seeds < n
      then fill_seeds (seeds @ take (min (length seeds) (n - length seeds)) seeds) n else seeds)"
  by pat_completeness auto
termination
  by (relation "measure (\<lambda>(seeds, n). n - length seeds)")
    (auto simp: min_def length_greater_0_conv [symmetric] simp del: length_greater_0_conv)

declare fill_seeds.simps [simp del]

definition XXH3_generateSecret :: "bytes \<Rightarrow> u64 \<Rightarrow> bytes option" where
  "XXH3_generateSecret customSeed customSeedSize =
     (if customSeedSize = 0 then Some XXH3_kSecret
      else do {
        h \<leftarrow> XXH128 customSeed customSeedSize 0;
        let scrambler = XXH128_canonicalFromHash h;
        start \<leftarrow> mem_read (min (unat customSeedSize) 96) customSeed 0;
        let seeds = fill_seeds start 96;
        for_opt [1..<12] (\<lambda>segnb secret. do {
          s \<leftarrow> XXH_readLE64 seeds (8 * segnb);
          h \<leftarrow> XXH128 scrambler 16 (s + of_nat segnb);
          Some (secret @ XXH128_canonicalFromHash h)
        }) scrambler
      })"

section \<open>The two forms of the middle multiplication\<close>

lemma split_halves: "(x AND 0xFFFFFFFF00000000) + ucast (ucast x :: u32) = (x :: u64)"
proof -
  have m: "(0xFFFFFFFF00000000 :: u64) = push_bit 32 (mask 32)" by code_simp
  have "(x AND 0xFFFFFFFF00000000) AND ucast (ucast x :: u32) = 0"
    unfolding m by (rule bit_word_eqI) (auto simp: bit_and_iff bit_push_bit_iff bit_ucast_iff bit_mask_iff)
  then have "(x AND 0xFFFFFFFF00000000) + ucast (ucast x :: u32) = (x AND 0xFFFFFFFF00000000) OR ucast (ucast x :: u32)"
    by (rule disjunctive_add_eq_or)
  also have "\<dots> = x"
    unfolding m by (rule bit_word_eqI) (auto simp: bit_and_iff bit_or_iff bit_push_bit_iff bit_ucast_iff bit_mask_iff)
  finally show ?thesis .
qed

lemma mix_high_eq: "mix_high_32 x = mix_high_64 x"
proof -
  let ?lo = "ucast (ucast x :: u32) :: u64"
  have p: "(ucast (ucast (ucast (XXH_PRIME32_2 - 1) :: u64) :: u32) :: u64) = ucast (ucast (ucast XXH_PRIME32_2 :: u64) :: u32) - 1"
    by code_simp
  have l: "(ucast (ucast ?lo :: u32) :: u64) = ?lo" by (rule bit_word_eqI) (auto simp: bit_ucast_iff)
  have "mix_high_64 x = ((x AND 0xFFFFFFFF00000000) + ?lo) + ?lo * (ucast (ucast (ucast XXH_PRIME32_2 :: u64) :: u32) - 1)"
    unfolding mix_high_64_def XXH_mult32to64_def l p split_halves ..
  also have "\<dots> = mix_high_32 x"
    unfolding mix_high_32_def XXH_mult32to64_def l by (simp add: algebra_simps)
  finally show ?thesis ..
qed

section \<open>Memory safety\<close>

lemma XXH3_len_0to16_128_total:
  assumes "n \<le> length input" "n \<le> 16" "96 \<le> length secret"
  shows "\<exists>h. XXH3_len_0to16_128b input n secret seed = Some h"
proof -
  have m: "n div 2 < length input" "read8 input 0 = Some (input ! 0)" if "n \<noteq> 0"
    using that assms(1) by (linarith, intro read8_Some, linarith)
  consider "8 < n" | "4 \<le> n" "n \<le> 8" | "0 < n" "n < 4" | "n = 0" by linarith
  then show ?thesis
  proof cases
    case 1
    then show ?thesis using assms
      by (simp add: XXH3_len_0to16_128b_def XXH3_len_9to16_128b_def xxh_read_defs safe_reads Let_def)
  next
    case 2
    then show ?thesis using assms
      by (simp add: XXH3_len_0to16_128b_def XXH3_len_4to8_128b_def xxh_read_defs safe_reads Let_def)
  next
    case 3
    then show ?thesis using assms m
      by (simp add: XXH3_len_0to16_128b_def XXH3_len_1to3_128b_def xxh_read_defs safe_reads Let_def)
  next
    case 4
    then show ?thesis using assms by (simp add: XXH3_len_0to16_128b_def xxh_read_defs safe_reads Let_def)
  qed
qed

lemma XXH128_mix_all_total:
  assumes "\<And>i j s. (i, j, s) \<in> set ps \<Longrightarrow> i + 16 \<le> length input \<and> j + 16 \<le> length input \<and> s + 32 \<le> length secret"
  shows "\<exists>h. XXH128_mix_all input secret seed ps acc = Some h"
proof -
  have "\<exists>h. XXH128_mix32B acc input i j secret s seed = Some h"
    if "i + 16 \<le> length input" "j + 16 \<le> length input" "s + 32 \<le> length secret" for acc i j s
    using that by (simp add: XXH128_mix32B_def XXH3_mix16B_def xxh_read_defs safe_reads)
  then have "\<exists>h. for_opt ps (\<lambda>(i, j, s) acc. XXH128_mix32B acc input i j secret s seed) acc = Some h \<and> True"
    by (intro for_opt_total) (use assms in fastforce)+
  then show ?thesis by (simp add: XXH128_mix_all_def)
qed

lemma XXH3_len_17to128_128_total:
  assumes "n \<le> length input" "16 < n" "n \<le> 128" "136 \<le> length secret"
  shows "\<exists>h. XXH3_len_17to128_128b input n secret seed = Some h"
proof -
  let ?ps = "(if n > 32
         then (if n > 64 then (if n > 96 then [(48, n - 64, 96)] else []) @ [(32, n - 48, 64)]
               else []) @ [(16, n - 32, 32)]
         else []) @ [(0, n - 16, 0)]"
  have "\<exists>h. XXH128_mix_all input secret seed ?ps \<lparr>low64 = of_nat n * XXH_PRIME64_1, high64 = 0\<rparr> = Some h"
    by (rule XXH128_mix_all_total) (use assms in \<open>auto split: if_splits\<close>)
  then show ?thesis by (auto simp: XXH3_len_17to128_128b_def)
qed

lemma XXH3_len_129to240_128_total:
  assumes "n \<le> length input" "128 < n" "n \<le> 240" "136 \<le> length secret"
  shows "\<exists>h. XXH3_len_129to240_128b input n secret seed = Some h"
proof -
  have k: "32 * i + 32 \<le> n" if "i < n div 32" for i
  proof -
    have "32 * Suc i \<le> 32 * (n div 32)" using that by (intro mult_le_mono) auto
    also have "\<dots> \<le> n" by simp
    finally show ?thesis by simp
  qed
  have r: "i < 7" if "i < n div 32" for i using that assms(3) by linarith
  have 1: "\<exists>h. XXH128_mix_all input secret seed (map (\<lambda>i. (32 * i, 32 * i + 16, 32 * i)) [0..<4]) acc = Some h" for acc
    by (rule XXH128_mix_all_total) (use assms in auto)
  have 2: "\<exists>h. XXH128_mix_all input secret seed (map (\<lambda>i. (32 * i, 32 * i + 16, 3 + 32 * (i - 4))) [4..<n div 32]) acc = Some h"
    for acc
    by (rule XXH128_mix_all_total) (use assms k r in fastforce)
  have 3: "\<exists>h. XXH128_mix_all input secret s [(n - 16, n - 32, XXH3_SECRET_SIZE_MIN - 17 - 16)] acc = Some h" for acc s
    by (rule XXH128_mix_all_total) (use assms in \<open>auto simp: XXH3_SECRET_SIZE_MIN_def\<close>)
  obtain a where a: "XXH128_mix_all input secret seed (map (\<lambda>i. (32 * i, 32 * i + 16, 32 * i)) [0..<4])
      \<lparr>low64 = of_nat n * XXH_PRIME64_1, high64 = 0\<rparr> = Some a" using 1 by blast
  obtain b where b: "XXH128_mix_all input secret seed (map (\<lambda>i. (32 * i, 32 * i + 16, 3 + 32 * (i - 4))) [4..<n div 32])
      \<lparr>low64 = XXH3_avalanche (low64 a), high64 = XXH3_avalanche (high64 a)\<rparr> = Some b" using 2 by blast
  obtain c where c: "XXH128_mix_all input secret (0 - seed) [(n - 16, n - 32, XXH3_SECRET_SIZE_MIN - 17 - 16)] b = Some c"
    using 3 by blast
  show ?thesis unfolding XXH3_len_129to240_128b_def Let_def a b c by (simp only: a b c bind.bind_lunit option.inject ex_simps) simp
qed

lemma XXH3_hashLong_128_total:
  assumes "n \<le> length input" "64 \<le> n" "136 \<le> S" "S \<le> length secret"
  shows "\<exists>h. XXH3_hashLong_128b_internal input n secret S = Some h"
proof -
  have "length XXH3_INIT_ACC = 8" by (simp add: XXH3_INIT_ACC_def)
  then obtain acc where acc: "XXH3_hashLong_internal_loop XXH3_INIT_ACC input n secret S = Some acc" "length acc = 8"
    using XXH3_hashLong_loop_total [OF assms] by blast
  obtain lo where "XXH3_mergeAccs acc secret 11 (of_nat n * XXH_PRIME64_1) = Some lo"
    using XXH3_mergeAccs_total [of 11 secret acc] assms acc(2) by auto
  moreover have "S - 64 - 11 + 64 \<le> length secret" using assms(3,4) by linarith
  then obtain hi where "XXH3_mergeAccs acc secret (S - 64 - 11) (NOT (of_nat n * XXH_PRIME64_2)) = Some hi"
    using XXH3_mergeAccs_total acc(2) by blast
  ultimately show ?thesis using acc(1) by (simp add: XXH3_hashLong_128b_internal_def XXH128_mergeAccs_def)
qed

lemma XXH3_128bits_internal_total:
  assumes "unat len \<le> length input" "136 \<le> length secret"
    "\<And>n. n \<le> length input \<Longrightarrow> 64 \<le> n \<Longrightarrow> \<exists>h. f input n seed secret S = Some h"
  shows "\<exists>h. XXH3_128bits_internal input len seed secret S f = Some h"
proof -
  consider "unat len \<le> 16" | "16 < unat len" "unat len \<le> 128" | "128 < unat len" "unat len \<le> 240" | "240 < unat len"
    by linarith
  then show ?thesis
    using XXH3_len_0to16_128_total [OF assms(1), of secret seed] XXH3_len_17to128_128_total [OF assms(1), of secret seed]
      XXH3_len_129to240_128_total [OF assms(1), of secret seed] assms
    by cases (simp_all add: XXH3_128bits_internal_def Let_def)
qed

lemma XXH3_128bits_withSeed_total:
  assumes "unat len \<le> length input"
  shows "\<exists>h. XXH3_128bits_withSeed input len seed = Some h"
proof -
  obtain c where c: "XXH3_initCustomSecret seed = Some c" "length c = 192" using initCustomSecret_length by blast
  show ?thesis unfolding XXH3_128bits_withSeed_def
    by (rule XXH3_128bits_internal_total [OF assms])
      (simp_all add: XXH3_hashLong_128b_withSeed_def XXH3_hashLong_128_total length_kSecret c)
qed

lemma XXH3_128bits_withSecret_total:
  assumes "unat len \<le> length input" "136 \<le> S" "S \<le> length secret"
  shows "\<exists>h. XXH3_128bits_withSecret input len secret S = Some h"
  unfolding XXH3_128bits_withSecret_def
  by (rule XXH3_128bits_internal_total [OF assms(1)])
    (use assms in \<open>simp_all add: XXH3_hashLong_128b_withSecret_def XXH3_hashLong_128_total\<close>)

section \<open>Secrets from seeds\<close>

lemma length_canonical128 [simp]: "length (XXH128_canonicalFromHash h) = 16"
  by (simp add: XXH128_canonicalFromHash_def)

lemma length_fill_seeds: "0 < length seeds \<Longrightarrow> length seeds \<le> n \<Longrightarrow> length (fill_seeds seeds n) = n"
proof (induction seeds n rule: fill_seeds.induct)
  case (1 seeds n)
  then show ?case by (subst fill_seeds.simps) (auto simp: min_def)
qed

lemma generateSecret_total:
  assumes "unat n \<le> length customSeed"
  shows "\<exists>secret. XXH3_generateSecret customSeed n = Some secret \<and> length secret = 192"
proof (cases "n = 0")
  case False
  then have n: "0 < unat n" by (simp add: unat_gt_0)
  obtain h where h: "XXH128 customSeed n 0 = Some h"
    using XXH3_128bits_withSeed_total [OF assms, of 0] by (auto simp: XXH128_def)
  let ?start = "window (min (unat n) 96) customSeed 0" and ?scr = "XXH128_canonicalFromHash h"
  have s: "mem_read (min (unat n) 96) customSeed 0 = Some ?start" using assms by (intro mem_read_Some) simp
  have l: "length (fill_seeds ?start 96) = 96" using n assms by (intro length_fill_seeds) (simp_all add: window_def)
  have seg: "\<exists>secret'. (do {
          s \<leftarrow> XXH_readLE64 (fill_seeds ?start 96) (8 * i);
          h \<leftarrow> XXH128 ?scr 16 (s + of_nat i);
          Some (secret @ XXH128_canonicalFromHash h)
        }) = Some secret' \<and> length secret' = length secret + 16" if "i < 12" for i secret
  proof -
    have "8 * i + 8 \<le> length (fill_seeds ?start 96)" using that l by linarith
    then obtain x where x: "XXH_readLE64 (fill_seeds ?start 96) (8 * i) = Some x" by (simp add: xxh_read_defs safe_reads)
    obtain g where "XXH128 ?scr 16 (x + of_nat i) = Some g"
      using XXH3_128bits_withSeed_total [of 16 ?scr] by (auto simp: XXH128_def)
    with x show ?thesis by simp
  qed
  have "\<exists>secret. for_opt [1..<k] (\<lambda>i secret. do {
          s \<leftarrow> XXH_readLE64 (fill_seeds ?start 96) (8 * i);
          h \<leftarrow> XXH128 ?scr 16 (s + of_nat i);
          Some (secret @ XXH128_canonicalFromHash h)
        }) ?scr = Some secret \<and> length secret = 16 * k" if "1 \<le> k" "k \<le> 12" for k
    using that
  proof (induction k rule: dec_induct)
    case (step k)
    then obtain sec where "for_opt [1..<k] (\<lambda>i secret. do {
          s \<leftarrow> XXH_readLE64 (fill_seeds ?start 96) (8 * i);
          h \<leftarrow> XXH128 ?scr 16 (s + of_nat i);
          Some (secret @ XXH128_canonicalFromHash h)
        }) ?scr = Some sec" "length sec = 16 * k" by auto
    with seg [of k sec] step show ?case by (auto simp: for_opt_append)
  qed simp
  from this [of 12] show ?thesis using False h s by (simp add: XXH3_generateSecret_def Let_def)
qed (simp add: XXH3_generateSecret_def length_kSecret)


section \<open>Properties\<close>

text \<open>
  C22. The 128-bit hash is defined for every key: for a key of any length the seeded entry point and the one with a
  secret of at least the minimum size return a hash, every read inside the key, the secret and the
  accumulators. With seed 0 the seeded hash is the default one. A secret derived from a seed of any
  length has the default size, hence is always accepted as a secret, and the form of the middle
  multiplication chosen for machines of 32 bits computes what the other form does.
\<close>

theorem XXH128_safe:
  assumes "unat len \<le> length input" "136 \<le> S" "S \<le> length secret"
  shows "(\<exists>h. XXH128 input len seed = Some h) \<and> XXH128 input len 0 = XXH3_128bits input len \<and>
    (\<exists>h. XXH3_128bits_withSecret input len secret S = Some h) \<and>
    (\<exists>s. XXH3_generateSecret input len = Some s \<and> length s = 192 \<and>
       (\<exists>h. XXH3_128bits_withSecret input len s (length s) = Some h)) \<and>
    mix_high_32 x = mix_high_64 x"
proof (intro conjI)
  show "\<exists>h. XXH128 input len seed = Some h" using XXH3_128bits_withSeed_total [OF assms(1)] by (simp add: XXH128_def)
  show "XXH128 input len 0 = XXH3_128bits input len"
    by (simp add: XXH128_def XXH3_128bits_withSeed_def XXH3_128bits_def XXH3_128bits_internal_def
        XXH3_hashLong_128b_withSeed_def XXH3_hashLong_128b_default_def Let_def)
  show "\<exists>h. XXH3_128bits_withSecret input len secret S = Some h" by (rule XXH3_128bits_withSecret_total [OF assms])
  obtain s where s: "XXH3_generateSecret input len = Some s" "length s = 192" using generateSecret_total [OF assms(1)] by blast
  with XXH3_128bits_withSecret_total [OF assms(1), of 192 s]
  show "\<exists>s. XXH3_generateSecret input len = Some s \<and> length s = 192 \<and>
      (\<exists>h. XXH3_128bits_withSecret input len s (length s) = Some h)" by auto
  show "mix_high_32 x = mix_high_64 x" by (rule mix_high_eq)
qed

theorem XXH128_safe_witness:
  "(\<exists>h. XXH128 (replicate 300 7) 300 5 = Some h) \<and>
   (\<exists>h. XXH3_128bits_withSecret (replicate 300 7) 300 (replicate 150 1) 140 = Some h) \<and>
   (\<exists>s. XXH3_generateSecret (replicate 300 7) 300 = Some s \<and> length s = 192)"
  using XXH128_safe [of 300 "replicate 300 7" 140 "replicate 150 1" 5] by auto

text \<open>The number a hash stands for.\<close>

definition hash_nat :: "XXH128_hash_t \<Rightarrow> nat" where
  "hash_nat h = unat (high64 h) * 2 ^ 64 + unat (low64 h)"

lemma hash_nat_less: "hash_nat h1 < hash_nat h2 \<longleftrightarrow> high64 h1 < high64 h2 \<or> high64 h1 = high64 h2 \<and> low64 h1 < low64 h2"
proof -
  have a: "unat x < 2 ^ 64" for x :: u64 using unat_u64_less [of x] by simp
  have lex: "a * 2 ^ 64 + b < c * 2 ^ 64 + d \<longleftrightarrow> a < c \<or> a = c \<and> b < d" if "b < 2 ^ 64" "d < 2 ^ 64" for a b c d :: nat
  proof (cases a c rule: linorder_cases)
    case less
    then have "Suc a * 2 ^ 64 \<le> c * 2 ^ 64" by (intro mult_le_mono1) simp
    then have "a * 2 ^ 64 + b < c * 2 ^ 64 + d" using that unfolding mult_Suc by linarith
    then show ?thesis using less by simp
  next
    case greater
    then have "Suc c * 2 ^ 64 \<le> a * 2 ^ 64" by (intro mult_le_mono1) simp
    then have "c * 2 ^ 64 + d < a * 2 ^ 64 + b" using that unfolding mult_Suc by linarith
    then show ?thesis using greater by simp
  qed simp
  show ?thesis unfolding hash_nat_def lex [OF a a] word_less_nat_alt by (auto simp: word_unat_eq_iff)
qed

lemma hash_nat_eq: "hash_nat h1 = hash_nat h2 \<longleftrightarrow> h1 = h2"
proof
  assume "hash_nat h1 = hash_nat h2"
  then have "\<not> hash_nat h1 < hash_nat h2" "\<not> hash_nat h2 < hash_nat h1" by simp_all
  then show "h1 = h2" unfolding hash_nat_less by (cases h1, cases h2) (auto simp: not_less)
qed simp

lemma hash_bytes_inject: "hash_bytes h1 = hash_bytes h2 \<longleftrightarrow> h1 = h2"
proof
  assume "hash_bytes h1 = hash_bytes h2"
  then have e: "le_bytes 8 (low64 h1) = le_bytes 8 (low64 h2)" "le_bytes 8 (high64 h1) = le_bytes 8 (high64 h2)"
    unfolding hash_bytes_def by (simp_all only: append_eq_append_conv length_le_bytes simp_thms)
  have w: "le_word (le_bytes 8 x) = x" for x :: u64 by (rule le_word_le_bytes) simp
  have "low64 h1 = low64 h2" "high64 h1 = high64 h2"
    using e w by metis+
  then show "h1 = h2" by simp
qed simp

text \<open>
  Comparing 128-bit hashes is comparing the numbers they stand for: \<open>XXH128_cmp\<close> is -1, 0 or 1 as the first
  number is smaller, equal or greater, \<open>XXH128_isEqual\<close> holds exactly in the second case, and the
  canonical form, sixteen bytes with the most significant first, is read back to the same hash.
\<close>

theorem XXH128_order:
  "XXH128_cmp h1 h2 = (if hash_nat h1 < hash_nat h2 then -1 else if hash_nat h1 = hash_nat h2 then 0 else 1) \<and>
   XXH128_isEqual h1 h2 = (XXH128_cmp h1 h2 = 0) \<and>
   XXH128_hashFromCanonical (XXH128_canonicalFromHash h1) = Some h1 \<and>
   XXH128_canonicalFromHash h1 = rev (hash_bytes h1)"
proof (intro conjI)
  show c: "XXH128_cmp h1 h2 = (if hash_nat h1 < hash_nat h2 then -1 else if hash_nat h1 = hash_nat h2 then 0 else 1)"
    unfolding hash_nat_less hash_nat_eq XXH128_cmp_def Let_def by (cases h1, cases h2) (auto simp: not_less)
  show "XXH128_isEqual h1 h2 = (XXH128_cmp h1 h2 = 0)"
    unfolding c XXH128_isEqual_def hash_bytes_inject by (auto simp: hash_nat_eq)
  show "XXH128_hashFromCanonical (XXH128_canonicalFromHash h1) = Some h1"
    by (simp add: XXH128_hashFromCanonical_def XXH128_canonicalFromHash_def xxh_read_defs safe_reads window_def le_word_le_bytes)
  show "XXH128_canonicalFromHash h1 = rev (hash_bytes h1)"
    by (simp add: XXH128_canonicalFromHash_def hash_bytes_def le_bytes_swap64)
qed

end
