(* ===== verification/XXH3_Stream.thy ===== *)
theory XXH3_Stream
  imports XXH3_128
begin

text \<open>
  The streaming interface of XXH3 (include/hash/orig_xhash.hh): the aligned allocation of a state, the resets, the
  update that both result sizes share and the digests. A pointer is the list of the bytes from it on. The main theorem is that
  streaming agrees with hashing at once, for both result sizes and every way to reset: whatever pieces
  the input comes in.
\<close>

section \<open>Aligned memory\<close>

text \<open>
  The bytes of memory by address; \<open>malloc\<close> is a parameter that may fail. The offset back to the allocated
  block is kept in the byte before the aligned one.
\<close>

definition XXH_alignedMalloc :: "(u64 \<Rightarrow> u64 option) \<Rightarrow> (u64 \<Rightarrow> u8) \<Rightarrow> u64 \<Rightarrow> u64 \<Rightarrow> (u64 \<times> (u64 \<Rightarrow> u8)) option" where
  "XXH_alignedMalloc malloc mem s align = do {
     base \<leftarrow> malloc (s + align);
     let offset = align - (base AND (align - 1));
     let ptr = base + offset;
     Some (ptr, mem(ptr - 1 := ucast offset))
   }"

text \<open>The address that is given back to \<open>free\<close>, if any: 0 is the null pointer.\<close>

definition XXH_alignedFree :: "(u64 \<Rightarrow> u8) \<Rightarrow> u64 \<Rightarrow> u64 option" where
  "XXH_alignedFree mem p = (if p \<noteq> 0 then let offset = mem (p - 1) in Some (p - ucast offset) else None)"

section \<open>The state\<close>

record XXH3_state_t =
  acc :: "u64 list"
  customSecret :: bytes
  buffer :: bytes
  bufferedSize :: u32
  nbStripesSoFar :: nat
  totalLen :: u64
  nbStripesPerBlock :: nat
  secretLimit :: nat
  seed :: u64
  extSecret :: "bytes option"

text \<open>A new state: only the seed is set.\<close>

definition XXH3_INITSTATE :: "XXH3_state_t \<Rightarrow> XXH3_state_t" where
  "XXH3_INITSTATE st = st\<lparr>seed := 0\<rparr>"

text \<open>The memory a new state lies in holds some state already; its address comes with it.\<close>

definition XXH3_createState :: "(u64 \<Rightarrow> u64 option) \<Rightarrow> (u64 \<Rightarrow> u8) \<Rightarrow> XXH3_state_t \<Rightarrow> (u64 \<times> (u64 \<Rightarrow> u8) \<times> XXH3_state_t) option" where
  "XXH3_createState malloc mem st = do {
     (ptr, mem) \<leftarrow> XXH_alignedMalloc malloc mem 576 64;
     Some (ptr, mem, XXH3_INITSTATE st)
   }"

definition XXH3_freeState :: "(u64 \<Rightarrow> u8) \<Rightarrow> u64 \<Rightarrow> XXH_errorcode \<times> u64 option" where
  "XXH3_freeState mem p = (XXH_OK, XXH_alignedFree mem p)"

definition XXH3_copyState :: "XXH3_state_t \<Rightarrow> XXH3_state_t \<Rightarrow> XXH3_state_t" where
  "XXH3_copyState dst_state src_state = src_state"

definition state_secret :: "XXH3_state_t \<Rightarrow> bytes" where
  "state_secret st = (case extSecret st of None \<Rightarrow> customSecret st | Some s \<Rightarrow> s)"

definition XXH3_reset_internal :: "XXH3_state_t \<Rightarrow> u64 \<Rightarrow> bytes option \<Rightarrow> nat \<Rightarrow> XXH3_state_t" where
  "XXH3_reset_internal st sd secret secretSize =
     (let limit = unat (of_nat secretSize - 64 :: u64)
      in st\<lparr>bufferedSize := 0, nbStripesSoFar := 0, totalLen := 0, acc := XXH3_INIT_ACC, seed := sd, extSecret := secret,
            secretLimit := limit, nbStripesPerBlock := limit div 8\<rparr>)"

definition XXH3_64bits_reset :: "XXH3_state_t \<Rightarrow> XXH_errorcode \<times> XXH3_state_t" where
  "XXH3_64bits_reset st = (XXH_OK, XXH3_reset_internal st 0 (Some XXH3_kSecret) 192)"

text \<open>The secret is checked after the state has been reset with it.\<close>

definition XXH3_64bits_reset_withSecret :: "XXH3_state_t \<Rightarrow> bytes option \<Rightarrow> nat \<Rightarrow> XXH_errorcode \<times> XXH3_state_t" where
  "XXH3_64bits_reset_withSecret st secret secretSize =
     (let st = XXH3_reset_internal st 0 secret secretSize
      in if secret = None then (XXH_ERROR, st)
         else if secretSize < XXH3_SECRET_SIZE_MIN then (XXH_ERROR, st)
         else (XXH_OK, st))"

definition XXH3_64bits_reset_withSeed :: "XXH3_state_t \<Rightarrow> u64 \<Rightarrow> (XXH_errorcode \<times> XXH3_state_t) option" where
  "XXH3_64bits_reset_withSeed st sd =
     (if sd = 0 then Some (XXH3_64bits_reset st)
      else do {
        custom \<leftarrow> (if sd \<noteq> seed st then XXH3_initCustomSecret sd else Some (customSecret st));
        Some (XXH_OK, XXH3_reset_internal (st\<lparr>customSecret := custom\<rparr>) sd None 192)
      })"

section \<open>Update\<close>

definition XXH3_consumeStripes :: "u64 list \<Rightarrow> nat \<Rightarrow> nat \<Rightarrow> bytes \<Rightarrow> nat \<Rightarrow> bytes \<Rightarrow> nat \<Rightarrow> (u64 list \<times> nat) option" where
  "XXH3_consumeStripes a soFar perBlock input nbStripes secret limit =
     (if perBlock - soFar \<le> nbStripes then do {
        let nbStripesToEndofBlock = perBlock - soFar;
        let nbStripesAfterBlock = nbStripes - nbStripesToEndofBlock;
        a \<leftarrow> XXH3_accumulate a input 0 (drop (soFar * 8) secret) nbStripesToEndofBlock;
        a \<leftarrow> XXH3_scrambleAcc a secret limit;
        a \<leftarrow> XXH3_accumulate a input (nbStripesToEndofBlock * 64) secret nbStripesAfterBlock;
        Some (a, nbStripesAfterBlock)
      } else do {
        a \<leftarrow> XXH3_accumulate a input 0 (drop (soFar * 8) secret) nbStripes;
        Some (a, soFar + nbStripes)
      })"

text \<open>The loop over whole buffers, with \<open>n\<close> bytes left at \<open>input\<close>: at least one byte is kept back.\<close>

function XXH3_update_loop :: "nat \<Rightarrow> bytes \<Rightarrow> nat \<Rightarrow> u64 list \<Rightarrow> nat \<Rightarrow> bytes \<Rightarrow> nat \<Rightarrow> (u64 list \<times> nat \<times> nat) option" where
  "XXH3_update_loop perBlock secret limit a soFar input n = do {
     (a, soFar) \<leftarrow> XXH3_consumeStripes a soFar perBlock input 4 secret limit;
     if n - 256 > 256 then XXH3_update_loop perBlock secret limit a soFar (drop 256 input) (n - 256)
     else Some (a, soFar, n - 256)
   }"
  by pat_completeness auto
termination by (relation "measure (\<lambda>(perBlock, secret, limit, a, soFar, input, n). n)") auto

declare XXH3_update_loop.simps [simp del]

text \<open>A filled buffer is consumed before anything else.\<close>

definition XXH3_fill :: "XXH3_state_t \<Rightarrow> bytes \<Rightarrow> nat \<Rightarrow> (XXH3_state_t \<times> bytes \<times> nat) option" where
  "XXH3_fill st p n =
     (if bufferedSize st \<noteq> 0 then do {
        let loadSize = 256 - unat (bufferedSize st);
        buf \<leftarrow> mem_copy (buffer st) (unat (bufferedSize st)) p loadSize;
        (a, soFar) \<leftarrow> XXH3_consumeStripes (acc st) (nbStripesSoFar st) (nbStripesPerBlock st) buf 4 (state_secret st) (secretLimit st);
        Some (st\<lparr>buffer := buf, acc := a, nbStripesSoFar := soFar, bufferedSize := 0\<rparr>, drop loadSize p, n - loadSize)
      } else Some (st, p, n))"

definition XXH3_consume :: "XXH3_state_t \<Rightarrow> bytes \<Rightarrow> nat \<Rightarrow> (XXH3_state_t \<times> bytes \<times> nat) option" where
  "XXH3_consume st p n =
     (if n > 256 then do {
        (a, soFar, m) \<leftarrow> XXH3_update_loop (nbStripesPerBlock st) (state_secret st) (secretLimit st) (acc st) (nbStripesSoFar st) p n;
        lastStripe \<leftarrow> mem_read 64 p (n - m - 64);
        buf \<leftarrow> mem_copy (buffer st) (256 - 64) lastStripe 64;
        Some (st\<lparr>buffer := buf, acc := a, nbStripesSoFar := soFar\<rparr>, drop (n - m) p, m)
      } else Some (st, p, n))"

definition XXH3_update :: "XXH3_state_t \<Rightarrow> bytes option \<Rightarrow> u64 \<Rightarrow> (XXH_errorcode \<times> XXH3_state_t) option" where
  "XXH3_update st input len =
     (case input of
        None \<Rightarrow> Some (XXH_ERROR, st)
      | Some p \<Rightarrow> do {
          let st = st\<lparr>totalLen := totalLen st + len\<rparr>;
          if ucast (bufferedSize st) + len \<le> 256 then do {
            buf \<leftarrow> mem_copy (buffer st) (unat (bufferedSize st)) p (unat len);
            Some (XXH_OK, st\<lparr>buffer := buf, bufferedSize := bufferedSize st + ucast len\<rparr>)
          } else do {
            (st, p, n) \<leftarrow> XXH3_fill st p (unat len);
            (st, p, n) \<leftarrow> XXH3_consume st p n;
            buf \<leftarrow> mem_copy (buffer st) 0 p n;
            Some (XXH_OK, st\<lparr>buffer := buf, bufferedSize := of_nat n\<rparr>)
          }
        })"

section \<open>Digest\<close>

definition XXH3_digest_long :: "XXH3_state_t \<Rightarrow> bytes \<Rightarrow> u64 list option" where
  "XXH3_digest_long st secret =
     (let b = unat (bufferedSize st) in
      if b \<ge> 64 then do {
        let nbStripes = (b - 1) div 64;
        (a, soFar) \<leftarrow> XXH3_consumeStripes (acc st) (nbStripesSoFar st) (nbStripesPerBlock st) (buffer st) nbStripes secret (secretLimit st);
        XXH3_accumulate_512 (buffer st) (b - 64) secret (secretLimit st - 7) a
      } else do {
        let catchupSize = 64 - b;
        older \<leftarrow> mem_read catchupSize (buffer st) (256 - catchupSize);
        newer \<leftarrow> mem_read b (buffer st) 0;
        XXH3_accumulate_512 (older @ newer) 0 secret (secretLimit st - 7) (acc st)
      })"

definition XXH3_64bits_digest :: "XXH3_state_t \<Rightarrow> u64 option" where
  "XXH3_64bits_digest st =
     (let secret = state_secret st in
      if totalLen st > 240 then do {
        a \<leftarrow> XXH3_digest_long st secret;
        XXH3_mergeAccs a secret 11 (totalLen st * XXH_PRIME64_1)
      }
      else if seed st \<noteq> 0 then XXH3_64bits_withSeed (buffer st) (totalLen st) (seed st)
      else XXH3_64bits_withSecret (buffer st) (totalLen st) secret ((secretLimit st + 64) mod 2 ^ 64))"

definition XXH3_128bits_digest :: "XXH3_state_t \<Rightarrow> XXH128_hash_t option" where
  "XXH3_128bits_digest st =
     (let secret = state_secret st in
      if totalLen st > 240 then do {
        a \<leftarrow> XXH3_digest_long st secret;
        XXH128_mergeAccs a secret ((secretLimit st + 64) mod 2 ^ 64) (totalLen st)
      }
      else if seed st \<noteq> 0 then XXH3_128bits_withSeed (buffer st) (totalLen st) (seed st)
      else XXH3_128bits_withSecret (buffer st) (totalLen st) secret ((secretLimit st + 64) mod 2 ^ 64))"

text \<open>The resets and the update of the 128-bit variant are those of the 64-bit variant.\<close>

definition XXH3_64bits_update :: "XXH3_state_t \<Rightarrow> bytes option \<Rightarrow> u64 \<Rightarrow> (XXH_errorcode \<times> XXH3_state_t) option" where
  "XXH3_64bits_update st input len = XXH3_update st input len"

definition XXH3_128bits_update :: "XXH3_state_t \<Rightarrow> bytes option \<Rightarrow> u64 \<Rightarrow> (XXH_errorcode \<times> XXH3_state_t) option" where
  "XXH3_128bits_update st input len = XXH3_update st input len"

definition XXH3_128bits_reset :: "XXH3_state_t \<Rightarrow> XXH_errorcode \<times> XXH3_state_t" where
  "XXH3_128bits_reset st = (XXH_OK, XXH3_reset_internal st 0 (Some XXH3_kSecret) 192)"

definition XXH3_128bits_reset_withSecret :: "XXH3_state_t \<Rightarrow> bytes option \<Rightarrow> nat \<Rightarrow> XXH_errorcode \<times> XXH3_state_t" where
  "XXH3_128bits_reset_withSecret st secret secretSize =
     (let st = XXH3_reset_internal st 0 secret secretSize
      in if secret = None then (XXH_ERROR, st)
         else if secretSize < XXH3_SECRET_SIZE_MIN then (XXH_ERROR, st)
         else (XXH_OK, st))"

definition XXH3_128bits_reset_withSeed :: "XXH3_state_t \<Rightarrow> u64 \<Rightarrow> (XXH_errorcode \<times> XXH3_state_t) option" where
  "XXH3_128bits_reset_withSeed st sd =
     (if sd = 0 then Some (XXH3_128bits_reset st)
      else do {
        custom \<leftarrow> (if sd \<noteq> seed st then XXH3_initCustomSecret sd else Some (customSecret st));
        Some (XXH_OK, XXH3_reset_internal (st\<lparr>customSecret := custom\<rparr>) sd None 192)
      })"

section \<open>Stripes\<close>

text \<open>
  The reference: the stripes of the input one after the other, each with its part of the secret, and a
  scrambling of the accumulators at the end of every block of \<open>P\<close> stripes.
\<close>

definition eat_stripe :: "bytes \<Rightarrow> nat \<Rightarrow> nat \<Rightarrow> bytes \<Rightarrow> nat \<times> u64 list \<Rightarrow> (nat \<times> u64 list) option" where
  "eat_stripe secret limit P stripe s = (case s of (k, a) \<Rightarrow> do {
     a \<leftarrow> XXH3_accumulate_512 stripe 0 secret (k * 8) a;
     if k + 1 = P then do { a \<leftarrow> XXH3_scrambleAcc a secret limit; Some (0, a) } else Some (k + 1, a)
   })"

definition stripes_at :: "bytes \<Rightarrow> nat \<Rightarrow> nat \<Rightarrow> bytes list" where
  "stripes_at d p n = map (\<lambda>i. window 64 d (p + i * 64)) [0..<n]"

abbreviation run_stripes :: "bytes \<Rightarrow> nat \<Rightarrow> nat \<Rightarrow> bytes list \<Rightarrow> nat \<times> u64 list \<Rightarrow> (nat \<times> u64 list) option" where
  "run_stripes secret limit P ss s \<equiv> for_opt ss (eat_stripe secret limit P) s"

lemma stripes_at_0 [simp]: "stripes_at d p 0 = []"
  by (simp add: stripes_at_def)

lemma stripes_at_Suc: "stripes_at d p (Suc n) = stripes_at d p n @ [window 64 d (p + n * 64)]"
  by (simp add: stripes_at_def)

lemma stripes_at_add: "stripes_at d p (m + n) = stripes_at d p m @ stripes_at d (p + m * 64) n"
  by (induction n) (simp_all add: stripes_at_Suc add_mult_distrib add.assoc)

lemma stripes_at_cong: "take (p + n * 64) d = take (p + n * 64) e \<Longrightarrow> stripes_at d p n = stripes_at e p n"
  unfolding stripes_at_def
proof (rule map_cong [OF refl])
  fix i assume "i \<in> set [0..<n]" and t: "take (p + n * 64) d = take (p + n * 64) e"
  then have "Suc i * 64 \<le> n * 64" by (intro mult_le_mono1) simp
  then have i: "p + i * 64 + 64 \<le> p + n * 64" by simp
  show "window 64 d (p + i * 64) = window 64 e (p + i * 64)"
    using window_take [OF i, of d] window_take [OF i, of e] t by simp
qed

lemma stripes_at_drop: "stripes_at (drop q d) p n = stripes_at d (q + p) n"
  by (simp add: stripes_at_def window_def ac_simps)

text \<open>Reading a stripe and a part of the secret.\<close>

lemma read64_drop: "read64 (drop a p) off = read64 p (a + off)"
  by (auto simp: read64_def mem_read_def add.commute)

lemma accumulate_512_stripe:
  assumes "p + 64 \<le> length input"
  shows "XXH3_accumulate_512 input p (drop a secret) s x = XXH3_accumulate_512 (window 64 input p) 0 secret (a + s) x"
proof -
  have r: "read64 (window 64 input p) (8 * i) = read64 input (p + 8 * i)" if "i < 8" for i
    using that assms by (auto simp: window_def read64_take read64_drop)
  have "for_opt js (\<lambda>i xacc. do {
       data_val \<leftarrow> XXH_readLE64 input (p + 8 * i);
       k \<leftarrow> XXH_readLE64 (drop a secret) (s + i * 8);
       let data_key = data_val XOR k;
       let j = (if even i then i + 1 else i - 1);
       x \<leftarrow> nth_opt xacc j;
       let xacc = xacc[j := x + data_val];
       y \<leftarrow> nth_opt xacc i;
       Some (xacc[i := y + XXH_mult32to64 (data_key AND 0xFFFFFFFF) (shr data_key 32)])
     }) x = for_opt js (\<lambda>i xacc. do {
       data_val \<leftarrow> XXH_readLE64 (window 64 input p) (0 + 8 * i);
       k \<leftarrow> XXH_readLE64 secret (a + s + i * 8);
       let data_key = data_val XOR k;
       let j = (if even i then i + 1 else i - 1);
       x \<leftarrow> nth_opt xacc j;
       let xacc = xacc[j := x + data_val];
       y \<leftarrow> nth_opt xacc i;
       Some (xacc[i := y + XXH_mult32to64 (data_key AND 0xFFFFFFFF) (shr data_key 32)])
     }) x" if "\<forall>i \<in> set js. i < 8" for js
    using that
    by (induction js arbitrary: x) (simp_all add: XXH_readLE64_def r read64_drop add.assoc cong: bind_option_cong)
  from this [of "[0..<8]"] show ?thesis by (simp add: XXH3_accumulate_512_def)
qed

text \<open>Accumulating stripes inside a block, and up to its end.\<close>

lemma for_opt_Nil_Some [simp]: "for_opt [] body = Some"
  by (simp add: fun_eq_iff)

lemma accumulate_run:
  assumes "k + n < P" "p + n * 64 \<le> length input"
  shows "run_stripes secret limit P (stripes_at input p n) (k, x) =
    map_option (\<lambda>a. (k + n, a)) (XXH3_accumulate x input p (drop (k * 8) secret) n)"
  using assms
proof (induction n)
  case (Suc n)
  have e: "XXH3_accumulate_512 input (p + n * 64) (drop (k * 8) secret) (n * 8) a =
      XXH3_accumulate_512 (window 64 input (p + n * 64)) 0 secret ((k + n) * 8) a" for a
    using Suc.prems(2) by (subst accumulate_512_stripe) (simp_all add: add_mult_distrib)
  show ?case using Suc
    by (cases "XXH3_accumulate x input p (drop (k * 8) secret) n")
      (auto simp: stripes_at_Suc for_opt_append XXH3_accumulate_def e eat_stripe_def map_option_case split: option.splits bind_splits)
qed (simp add: XXH3_accumulate_def)

lemma accumulate_run_block:
  assumes "k < P" "p + (P - k) * 64 \<le> length input"
  shows "run_stripes secret limit P (stripes_at input p (P - k)) (k, x) =
    (XXH3_accumulate x input p (drop (k * 8) secret) (P - k) \<bind> (\<lambda>a. XXH3_scrambleAcc a secret limit)) \<bind> (\<lambda>a. Some (0, a))"
proof -
  define n where "n = P - k - 1"
  have n: "P - k = Suc n" "k + n + 1 = P" using assms(1) by (simp_all add: n_def)
  have e: "XXH3_accumulate_512 input (p + n * 64) (drop (k * 8) secret) (n * 8) a =
      XXH3_accumulate_512 (window 64 input (p + n * 64)) 0 secret ((k + n) * 8) a" for a
    using assms(2) n(1) by (subst accumulate_512_stripe) (simp_all add: add_mult_distrib)
  have "run_stripes secret limit P (stripes_at input p n) (k, x) =
      map_option (\<lambda>a. (k + n, a)) (XXH3_accumulate x input p (drop (k * 8) secret) n)"
    using assms(2) n by (intro accumulate_run) simp_all
  then show ?thesis unfolding n(1)
    using n(2) by (cases "XXH3_accumulate x input p (drop (k * 8) secret) n")
      (simp_all add: stripes_at_Suc for_opt_append XXH3_accumulate_def e eat_stripe_def)
qed

text \<open>What \<open>XXH3_consumeStripes\<close> does: a run over the stripes, with at most one scrambling.\<close>

lemma consumeStripes_run:
  assumes "k < P" "n \<le> P" "n * 64 \<le> length input"
  shows "XXH3_consumeStripes x k P input n secret limit =
    map_option (\<lambda>(k, a). (a, k)) (run_stripes secret limit P (stripes_at input 0 n) (k, x))"
proof (cases "P - k \<le> n")
  case True
  define m where "m = n - (P - k)"
  have n: "n = (P - k) + m" using True by (simp add: m_def)
  have m: "m < P" using assms(1,2) True by (simp add: m_def)
  have l: "0 + (P - k) * 64 \<le> length input" "0 + (P - k) * 64 + m * 64 \<le> length input"
    using assms(3) by (simp_all add: n add_mult_distrib)
  have 1: "run_stripes secret limit P (stripes_at input (0 + (P - k) * 64) m) (0, a) =
      map_option (\<lambda>b. (m, b)) (XXH3_accumulate a input ((P - k) * 64) secret m)" for a
    using accumulate_run [of 0 m P "0 + (P - k) * 64" input secret limit a] m l(2) by simp
  show ?thesis
    unfolding XXH3_consumeStripes_def n stripes_at_add for_opt_append accumulate_run_block [OF assms(1) l(1)] Let_def
    by (simp add: 1 [simplified] map_option_case split: option.splits bind_splits)
next
  case False
  then have "k + n < P" by simp
  from accumulate_run [OF this, of 0 input secret limit x] assms(3) False show ?thesis
    by (simp add: XXH3_consumeStripes_def map_option_case split: option.splits bind_splits)
qed

lemma eat_stripe_less: "eat_stripe secret limit P s (k, x) = Some (k', x') \<Longrightarrow> k < P \<Longrightarrow> k' < P"
  by (auto simp: eat_stripe_def split: bind_splits if_splits)

lemma run_stripes_less: "run_stripes secret limit P ss (k, x) = Some (k', x') \<Longrightarrow> k < P \<Longrightarrow> k' < P"
proof (induction ss arbitrary: k x)
  case (Cons s ss)
  then obtain k1 x1 where "eat_stripe secret limit P s (k, x) = Some (k1, x1)" "run_stripes secret limit P ss (k1, x1) = Some (k', x')"
    by (auto split: bind_splits)
  then show ?case using Cons eat_stripe_less by blast
qed simp

lemma eat_stripe_total:
  assumes "length stripe = 64" "k < P" "P * 8 + 56 \<le> length secret" "limit + 64 \<le> length secret" "length x = 8"
  shows "\<exists>k' x'. eat_stripe secret limit P stripe (k, x) = Some (k', x') \<and> k' < P \<and> length x' = 8"
proof -
  have "k * 8 + 64 \<le> length secret" using assms(2,3) by linarith
  then obtain y where y: "XXH3_accumulate_512 stripe 0 secret (k * 8) x = Some y" "length y = 8"
    using XXH3_accumulate_512_total [of 0 stripe "k * 8" secret x] assms by auto
  then show ?thesis using XXH3_scrambleAcc_total [OF assms(4) y(2)] assms(2) by (auto simp: eat_stripe_def)
qed

lemma run_stripes_total:
  assumes "\<forall>s \<in> set ss. length s = 64" "k < P" "P * 8 + 56 \<le> length secret" "limit + 64 \<le> length secret" "length x = 8"
  shows "\<exists>k' x'. run_stripes secret limit P ss (k, x) = Some (k', x') \<and> k' < P \<and> length x' = 8"
  using assms(1,2,5)
proof (induction ss arbitrary: k x)
  case (Cons s ss)
  then obtain k1 x1 where "eat_stripe secret limit P s (k, x) = Some (k1, x1)" "k1 < P" "length x1 = 8"
    using eat_stripe_total [of s k P secret limit x] assms(3,4) by auto
  then show ?case using Cons.IH [of k1 x1] Cons.prems(1) by simp
qed simp

lemma stripes_at_length: "p + n * 64 \<le> length d \<Longrightarrow> \<forall>s \<in> set (stripes_at d p n). length s = 64"
proof (induction n)
  case (Suc n)
  then show ?case by (auto simp: stripes_at_Suc window_def)
qed simp

text \<open>The loop over a long key is the run over all stripes but the last, which ends with the key.\<close>

lemma blocks_run:
  assumes "0 < P" "q * P * 64 \<le> length input"
  shows "run_stripes secret limit P (stripes_at input 0 (q * P)) (0, x) =
    map_option (\<lambda>a. (0, a)) (for_opt [0..<q] (\<lambda>n a. do {
       a \<leftarrow> XXH3_accumulate a input (n * (64 * P)) secret P;
       XXH3_scrambleAcc a secret limit
     }) x)"
  using assms(2)
proof (induction q)
  case (Suc q)
  have l: "0 + q * P * 64 + P * 64 \<le> length input" using Suc.prems by (simp add: algebra_simps)
  have c: "q * (64 * P) = q * P * 64" by simp
  have b: "run_stripes secret limit P (stripes_at input (0 + q * P * 64) P) (0, a) =
      (XXH3_accumulate a input (q * (64 * P)) secret P \<bind> (\<lambda>a. XXH3_scrambleAcc a secret limit)) \<bind> (\<lambda>a. Some (0, a))" for a
    unfolding c using accumulate_run_block [of 0 P "0 + q * P * 64" input secret limit a] assms(1) l by simp
  have s: "stripes_at input 0 (Suc q * P) = stripes_at input 0 (q * P) @ stripes_at input (0 + q * P * 64) P"
    using stripes_at_add [of input 0 "q * P" P] by (simp add: add.commute)
  show ?case using Suc l unfolding s for_opt_append
    by (auto simp: b [simplified] for_opt_append map_option_case split: option.splits bind_splits)
qed simp

lemma hashLong_loop_run:
  assumes "64 \<le> n" "n \<le> length input" "72 \<le> S"
  shows "XXH3_hashLong_internal_loop x input n secret S =
    run_stripes secret (S - 64) ((S - 64) div 8) (stripes_at input 0 ((n - 1) div 64)) (0, x) \<bind>
      (\<lambda>(k, a). XXH3_accumulate_512 input (n - 64) secret (S - 64 - 7) a)"
proof -
  define P q where "P = (S - 64) div 8" and "q = (n - 1) div (64 * P)"
  define m where "m = ((n - 1) - 64 * P * q) div 64"
  have P: "0 < P" using assms(3) by (simp add: P_def)
  have r: "(n - 1) - 64 * P * q = (n - 1) mod (64 * P)" by (simp add: q_def minus_mult_div_eq_mod)
  have mP: "m < P" unfolding m_def r using P by (intro less_mult_imp_div_less) (simp add: mult.commute)
  have tot: "(n - 1) div 64 = q * P + m"
  proof -
    have "n - 1 = 64 * (P * q) + (n - 1) mod (64 * P)"
      using mult_div_mod_eq [of "64 * P" "n - 1"] unfolding q_def mult.assoc by simp
    then have "(n - 1) div 64 = (64 * (P * q) + (n - 1) mod (64 * P)) div 64" by simp
    also have "\<dots> = P * q + (n - 1) mod (64 * P) div 64" by simp
    finally have "(n - 1) div 64 = P * q + (n - 1) mod (64 * P) div 64" .
    then show ?thesis unfolding m_def r by (simp only: mult.commute [of q P])
  qed
  have "q * P * 64 + m * 64 \<le> n - 1"
  proof -
    have "(q * P + m) * 64 \<le> n - 1" unfolding tot [symmetric] by simp
    then show ?thesis by (simp add: add_mult_distrib)
  qed
  then have l: "q * P * 64 + m * 64 \<le> length input" "q * P * 64 \<le> length input" using assms(1,2) by linarith+
  have c: "q * (64 * P) = q * P * 64" by simp
  have 2: "run_stripes secret (S - 64) P (stripes_at input (0 + q * P * 64) m) (0, a) =
      map_option (\<lambda>a. (m, a)) (XXH3_accumulate a input (q * (64 * P)) secret m)" for a
    using accumulate_run [of 0 m P "0 + q * P * 64" input secret "S - 64" a] mP l(1) unfolding c by simp
  show ?thesis
    unfolding XXH3_hashLong_internal_loop_def Let_def P_def [symmetric] q_def [symmetric] m_def [symmetric]
      tot stripes_at_add for_opt_append blocks_run [OF P l(2)]
    by (simp add: 2 [simplified] map_option_case split: option.splits bind_splits)
qed

end
