(* ===== verification/XXH3_Stream_Props.thy ===== *)
theory XXH3_Stream_Props
  imports XXH3_Stream
begin

text \<open>
  Streaming with XXH3 agrees with hashing at once. The representation relation of a state says which part
  of the input has been consumed, which part is in the buffer, and that the end of the buffer still holds the last
  consumed bytes, which the digest of a long input may need again.
\<close>

section \<open>Memory of a state\<close>

text \<open>
  The aligned allocator returns an aligned block inside the one it got from \<open>malloc\<close>, and gives that one back: for an alignment
  that is a power of two from 8 to 128, the pointer is a multiple of the alignment, the requested number of
  bytes from it on lies inside the allocated block, at least one byte after its start, the only byte of
  memory that is written is the one before the pointer, and \<open>XXH_alignedFree\<close> frees the address \<open>malloc\<close> returned.
\<close>

theorem XXH_alignedMalloc_ok:
  assumes "3 \<le> k" "k \<le> 7" "malloc (s + 2 ^ k) = Some base" "unat base + unat s + 2 ^ k < 2 ^ 64"
  shows "\<exists>ptr m. XXH_alignedMalloc malloc mem s (2 ^ k) = Some (ptr, m) \<and>
    2 ^ k dvd unat ptr \<and> unat base < unat ptr \<and> unat ptr + unat s \<le> unat base + (unat s + 2 ^ k) \<and>
    (\<forall>a. a \<noteq> ptr - 1 \<longrightarrow> m a = mem a) \<and> XXH_alignedFree m ptr = Some base"
proof -
  define off where "off = (2 ^ k :: u64) - (base AND (2 ^ k - 1))"
  let ?r = "unat base mod 2 ^ k" and ?ptr = "base + off"
  let ?m = "mem(?ptr - 1 := ucast off)"
  have k7: "(2 :: nat) ^ k \<le> 2 ^ 7" using assms(2) by (intro power_increasing) simp_all
  have pk: "unat (2 ^ k :: u64) = 2 ^ k" using unat_of_nat_small [of "2 ^ k", where 'a = 64] k7 by simp
  have "(base AND (2 ^ k - 1)) = take_bit k base" by (simp add: take_bit_eq_mask mask_eq_exp_minus_1)
  then have r: "unat (base AND (2 ^ k - 1)) = ?r" by (simp add: unsigned_take_bit_eq) (simp add: take_bit_eq_mod)
  have rl: "?r < 2 ^ k" by simp
  have uo: "unat off = 2 ^ k - ?r" unfolding off_def using r rl pk by (subst unat_sub) (auto simp: word_le_nat_alt)
  then have o: "0 < unat off" "unat off \<le> 128" "unat off \<le> 2 ^ k" using rl k7 by auto
  have up: "unat ?ptr = unat base + unat off" using assms(4) o(3) by (simp add: unat_word_ariths)
  have "unat ?ptr = unat base div 2 ^ k * 2 ^ k + 2 ^ k"
    using uo rl div_mult_mod_eq [of "unat base" "2 ^ k"] unfolding up by linarith
  then have al: "2 ^ k dvd unat ?ptr" by simp
  have "?ptr \<noteq> 0" using up o(1) by (metis add_is_0 less_numeral_extra(3) unat_0)
  moreover have "(ucast (ucast off :: u8) :: u64) = off"
    using o(2) by (simp add: word_unat_eq_iff unsigned_ucast_eq unsigned_take_bit_eq take_bit_nat_eq_self_iff)
  ultimately have "XXH_alignedFree ?m ?ptr = Some base" by (simp add: XXH_alignedFree_def)
  moreover have "XXH_alignedMalloc malloc mem s (2 ^ k) = Some (?ptr, ?m)"
    by (simp add: XXH_alignedMalloc_def assms(3) off_def Let_def)
  ultimately show ?thesis using al up o by (intro exI [of _ ?ptr] exI [of _ ?m]) simp
qed

theorem XXH_alignedMalloc_ok_witness:
  "\<exists>ptr m. XXH_alignedMalloc (\<lambda>n. if n = 640 then Some 1016 else None) (\<lambda>a. 0) 576 64 = Some (ptr, m) \<and>
     64 dvd unat ptr \<and> XXH_alignedFree m ptr = Some 1016"
  using XXH_alignedMalloc_ok [of 6 "\<lambda>n. if n = 640 then Some 1016 else None" 576 1016 "\<lambda>a. 0"] by auto

section \<open>The representation of the input read so far\<close>

lemma state_secret_update [simp]:
  "state_secret (st\<lparr>acc := a\<rparr>) = state_secret st" "state_secret (st\<lparr>nbStripesSoFar := k\<rparr>) = state_secret st"
  "state_secret (st\<lparr>buffer := buf\<rparr>) = state_secret st" "state_secret (st\<lparr>bufferedSize := s\<rparr>) = state_secret st"
  "state_secret (st\<lparr>totalLen := n\<rparr>) = state_secret st"
  by (simp_all add: state_secret_def split: option.splits)

text \<open>The parameters a reset sets, for a secret that is long enough.\<close>

definition XXH3_config :: "bytes \<Rightarrow> nat \<Rightarrow> u64 \<Rightarrow> XXH3_state_t \<Rightarrow> bool" where
  "XXH3_config secret limit sd st \<longleftrightarrow>
     72 \<le> limit \<and> limit + 64 \<le> length secret \<and> limit + 64 < 2 ^ 64 \<and>
     state_secret st = secret \<and> secretLimit st = limit \<and> nbStripesPerBlock st = limit div 8 \<and> seed st = sd \<and>
     length (buffer st) = 256"

text \<open>The accumulators after the first \<open>c\<close> bytes of \<open>d\<close>, and the last of these bytes at the end of the buffer.\<close>

definition XXH3_consumed :: "bytes \<Rightarrow> nat \<Rightarrow> nat \<Rightarrow> nat \<Rightarrow> XXH3_state_t \<Rightarrow> bool" where
  "XXH3_consumed d c b limit st \<longleftrightarrow>
     256 dvd c \<and> c \<le> length d \<and>
     run_stripes (state_secret st) limit (limit div 8) (stripes_at d 0 (c div 64)) (0, XXH3_INIT_ACC) =
       Some (nbStripesSoFar st, acc st) \<and>
     (0 < c \<longrightarrow> drop (max 192 b) (buffer st) = drop (max 192 b) (window 256 d (c - 256)))"

definition XXH3_rep :: "bytes \<Rightarrow> nat \<Rightarrow> u64 \<Rightarrow> bytes \<Rightarrow> XXH3_state_t \<Rightarrow> bool" where
  "XXH3_rep secret limit sd d st \<longleftrightarrow> (let b = unat (bufferedSize st); c = length d - b in
     XXH3_config secret limit sd st \<and> XXH3_consumed d c b limit st \<and>
     b \<le> 256 \<and> b \<le> length d \<and> (0 < c \<longrightarrow> 0 < b) \<and>
     take b (buffer st) = drop c d \<and> totalLen st = of_nat (length d))"

lemma XXH3_totalLen:
  "XXH3_config secret limit sd (st\<lparr>totalLen := n\<rparr>) = XXH3_config secret limit sd st"
  "XXH3_consumed d c b limit (st\<lparr>totalLen := n\<rparr>) = XXH3_consumed d c b limit st"
  by (simp_all add: XXH3_config_def XXH3_consumed_def)

lemma XXH3_rep_reset:
  assumes "72 \<le> limit" "limit + 64 \<le> length secret" "limit + 64 < 2 ^ 64" "length (buffer st) = 256"
    "(case ext of None \<Rightarrow> customSecret st | Some s \<Rightarrow> s) = secret"
  shows "XXH3_rep secret limit sd [] (XXH3_reset_internal st sd ext (limit + 64))"
proof -
  have u: "unat (of_nat (limit + 64) - 64 :: u64) = limit"
    using assms(3) by (simp add: unat_of_nat_small)
  then show ?thesis using assms
    by (simp add: XXH3_rep_def XXH3_config_def XXH3_consumed_def XXH3_reset_internal_def u state_secret_def split: option.splits)
qed

text \<open>A full buffer more of the input.\<close>

lemma consume_4:
  assumes c: "XXH3_consumed d c b limit st" and cf: "XXH3_config secret limit sd st"
    and buf: "take 256 buf = window 256 d c" and l: "c + 256 \<le> length d"
  shows "\<exists>a k. XXH3_consumeStripes (acc st) (nbStripesSoFar st) (limit div 8) buf 4 secret limit = Some (a, k) \<and>
    run_stripes secret limit (limit div 8) (stripes_at d 0 ((c + 256) div 64)) (0, XXH3_INIT_ACC) = Some (k, a)"
proof -
  let ?P = "limit div 8" and ?run = "run_stripes secret limit (limit div 8)"
  have P: "4 \<le> ?P" "?P * 8 + 56 \<le> length secret" "limit + 64 \<le> length secret"
    using cf by (auto simp: XXH3_config_def)
  have r: "?run (stripes_at d 0 (c div 64)) (0, XXH3_INIT_ACC) = Some (nbStripesSoFar st, acc st)" "256 dvd c"
    using c cf by (simp_all add: XXH3_consumed_def XXH3_config_def)
  then obtain q where q: "c = 256 * q" by (auto elim: dvdE)
  have k: "nbStripesSoFar st < ?P" using run_stripes_less [OF r(1)] P(1) by simp
  have lb: "256 \<le> length buf"
    using arg_cong [OF buf, of length] l by (simp add: window_def min_def split: if_splits)
  have s: "stripes_at buf 0 4 = stripes_at d (0 + c div 64 * 64) 4"
  proof -
    have "stripes_at buf 0 4 = stripes_at (drop c d) 0 4"
      using buf by (intro stripes_at_cong) (simp add: window_def)
    then show ?thesis by (simp add: stripes_at_drop q)
  qed
  have a: "stripes_at d 0 ((c + 256) div 64) = stripes_at d 0 (c div 64) @ stripes_at d (0 + c div 64 * 64) 4"
    unfolding stripes_at_add [symmetric] by (simp add: q)
  have init: "length XXH3_INIT_ACC = 8" by (simp add: XXH3_INIT_ACC_def)
  obtain k' a' where ka: "?run (stripes_at d 0 ((c + 256) div 64)) (0, XXH3_INIT_ACC) = Some (k', a')"
  proof -
    have "0 + (c + 256) div 64 * 64 \<le> length d" using l by (simp add: q)
    then show ?thesis
      using run_stripes_total [OF stripes_at_length _ P(2,3) init, of 0 "(c + 256) div 64" d 0] P(1) that by auto
  qed
  then have "?run (stripes_at d (0 + c div 64 * 64) 4) (nbStripesSoFar st, acc st) = Some (k', a')"
    unfolding a for_opt_append r(1) by simp
  then have "XXH3_consumeStripes (acc st) (nbStripesSoFar st) ?P buf 4 secret limit = Some (a', k')"
    using consumeStripes_run [OF k P(1), of buf] lb s by simp
  with ka show ?thesis by blast
qed


lemma window_drop_take: "take n p = drop c d \<Longrightarrow> m + k \<le> n \<Longrightarrow> window k p m = window k d (c + m)"
proof -
  assume t: "take n p = drop c d" and m: "m + k \<le> n"
  have "window k p m = window k (take n p) m" using window_take [OF m] by simp
  then show ?thesis by (simp add: t window_def add.commute)
qed

lemma update_loop_run:
  assumes "XXH3_consumed d c b limit st" "XXH3_config secret limit sd st" "take n p = drop c d" "256 < n" "c + n = length d"
  shows "\<exists>a k m. XXH3_update_loop (limit div 8) secret limit (acc st) (nbStripesSoFar st) p n = Some (a, k, m) \<and>
    0 < m \<and> m \<le> 256 \<and> m + 256 \<le> n \<and> 256 dvd (n - m) \<and>
    run_stripes secret limit (limit div 8) (stripes_at d 0 ((length d - m) div 64)) (0, XXH3_INIT_ACC) = Some (k, a)"
  using assms
proof (induction n arbitrary: c b st p rule: less_induct)
  case (less n)
  have "c + 256 \<le> length d" using less.prems by simp
  moreover have "take 256 p = window 256 d c"
    using window_drop_take [OF less.prems(3), of 0 256] less.prems(4) by (simp add: window_def)
  ultimately obtain a k where ak: "XXH3_consumeStripes (acc st) (nbStripesSoFar st) (limit div 8) p 4 secret limit = Some (a, k)"
    "run_stripes secret limit (limit div 8) (stripes_at d 0 ((c + 256) div 64)) (0, XXH3_INIT_ACC) = Some (k, a)"
    using consume_4 [OF less.prems(1,2)] by blast
  show ?case
  proof (cases "256 < n - 256")
    case False
    have e: "length d - (n - 256) = c + 256" using less.prems(4,5) by simp
    have "XXH3_update_loop (limit div 8) secret limit (acc st) (nbStripesSoFar st) p n = Some (a, k, n - 256)"
      using False ak(1) by (subst XXH3_update_loop.simps) simp
    then show ?thesis using False less.prems(4) ak(2) e by (intro exI [of _ a] exI [of _ k] exI [of _ "n - 256"]) simp
  next
    case True
    let ?st = "st\<lparr>acc := a, nbStripesSoFar := k, buffer := window 256 d c\<rparr>"
    have sec: "state_secret st = secret" using less.prems(2) by (simp add: XXH3_config_def)
    have cf: "XXH3_config secret limit sd ?st"
      using less.prems by (simp add: XXH3_config_def window_def)
    have co: "XXH3_consumed d (c + 256) 0 limit ?st"
      using less.prems ak(2) sec by (simp add: XXH3_consumed_def)
    have t: "take (n - 256) (drop 256 p) = drop (c + 256) d"
      using less.prems(3) by (metis add.commute drop_drop drop_take)
    obtain a' k' m where m: "XXH3_update_loop (limit div 8) secret limit a k (drop 256 p) (n - 256) = Some (a', k', m)"
      "0 < m" "m \<le> 256" "m + 256 \<le> n - 256" "256 dvd (n - 256 - m)"
      "run_stripes secret limit (limit div 8) (stripes_at d 0 ((length d - m) div 64)) (0, XXH3_INIT_ACC) = Some (k', a')"
      using less.IH [OF _ co cf t True] less.prems(4,5) True by auto
    have "256 dvd (n - 256 - m) + 256" using m(5) by (rule dvd_add) simp
    then have "256 dvd (n - m)" using m(4) by simp
    moreover have "XXH3_update_loop (limit div 8) secret limit (acc st) (nbStripesSoFar st) p n = Some (a', k', m)"
      using True ak(1) m(1) by (subst XXH3_update_loop.simps) simp
    ultimately show ?thesis using m(2-4,6) by (intro exI [of _ a'] exI [of _ k'] exI [of _ m]) simp
  qed
qed

section \<open>The parts of an update\<close>

lemma XXH3_fill_run:
  assumes b: "b = unat (bufferedSize st)" "b \<le> 256" "b \<le> length d" and c: "c = length d - b"
    and co: "XXH3_consumed (d @ take n p) c b limit st" and cf: "XXH3_config secret limit sd st"
    and t: "take b (buffer st) = drop c d" and z: "0 < c \<longrightarrow> 0 < b" and n: "256 < b + n" "n \<le> length p"
  shows "\<exists>st' p' c'. XXH3_fill st p n = Some (st', p', length (d @ take n p) - c') \<and>
    XXH3_consumed (d @ take n p) c' 0 limit st' \<and> XXH3_config secret limit sd st' \<and> totalLen st' = totalLen st \<and>
    take (length (d @ take n p) - c') p' = drop c' (d @ take n p) \<and> c' < length (d @ take n p) \<and>
    (c' = 0 \<longrightarrow> 256 < length (d @ take n p))"
proof (cases "b = 0")
  case True
  then have "c = 0" "d = []" using z c by auto
  then show ?thesis using True b c co cf n
    by (intro exI [of _ st] exI [of _ p] exI [of _ 0]) (auto simp: XXH3_fill_def unat_eq_0 XXH3_consumed_def)
next
  case False
  let ?D = "d @ take n p" and ?k = "256 - b" and ?buf = "take b (buffer st) @ take (256 - b) p"
  have lb: "length (buffer st) = 256" "state_secret st = secret" "secretLimit st = limit" "nbStripesPerBlock st = limit div 8"
    using cf by (simp_all add: XXH3_config_def)
  have kn: "?k < n" using n(1) b(2) by linarith
  have buf: "?buf = window 256 ?D c"
    using b(2,3) c kn unfolding t by (simp add: window_def)
  have buf': "take 256 ?buf = window 256 ?D c"
    unfolding buf by (simp only: window_def take_take min.idem)
  have cp: "mem_copy (buffer st) b p ?k = Some ?buf"
    using lb b(2) kn n(2) by (simp add: mem_copy_def)
  have "c + 256 \<le> length ?D" using c b n by simp
  then obtain a k where ak: "XXH3_consumeStripes (acc st) (nbStripesSoFar st) (limit div 8) ?buf 4 secret limit = Some (a, k)"
    "run_stripes secret limit (limit div 8) (stripes_at ?D 0 ((c + 256) div 64)) (0, XXH3_INIT_ACC) = Some (k, a)"
    using consume_4 [OF co cf buf'] by blast
  let ?st = "st\<lparr>buffer := ?buf, acc := a, nbStripesSoFar := k, bufferedSize := 0\<rparr>"
  have "bufferedSize st \<noteq> 0" using False b(1) by auto
  then have "XXH3_fill st p n = Some (?st, drop ?k p, n - ?k)"
    using cp ak(1) lb by (simp add: XXH3_fill_def b(1) Let_def)
  moreover have "n - ?k = length ?D - (c + 256)" using b c n by simp
  moreover have "XXH3_consumed ?D (c + 256) 0 limit ?st"
    using co ak(2) lb(2) buf \<open>c + 256 \<le> length ?D\<close> by (simp add: XXH3_consumed_def del: append_take_drop_id)
  moreover have "XXH3_config secret limit sd ?st"
    using cf lb b(2) n(2) kn by (simp add: XXH3_config_def)
  moreover have "take (n - ?k) (drop ?k p) = drop (c + 256) ?D"
    using b(2,3) c by (simp add: drop_take)
  moreover have "c + 256 < length ?D" using c b n by simp
  ultimately show ?thesis
    by (intro exI [of _ ?st] exI [of _ "drop ?k p"] exI [of _ "c + 256"]) auto
qed

lemma XXH3_consume_run:
  assumes co: "XXH3_consumed d c 0 limit st" and cf: "XXH3_config secret limit sd st"
    and t: "take (length d - c) p = drop c d" and c: "c < length d" "c = 0 \<longrightarrow> 256 < length d"
  shows "\<exists>st' p' c'. XXH3_consume st p (length d - c) = Some (st', p', length d - c') \<and>
    XXH3_consumed d c' 0 limit st' \<and> XXH3_config secret limit sd st' \<and> totalLen st' = totalLen st \<and>
    take (length d - c') p' = drop c' d \<and> 0 < c' \<and> c' < length d \<and> length d - c' \<le> 256"
proof (cases "256 < length d - c")
  case False
  then show ?thesis using assms by (intro exI [of _ st] exI [of _ p] exI [of _ c]) (auto simp: XXH3_consume_def)
next
  case True
  let ?n = "length d - c"
  have sec: "state_secret st = secret" "secretLimit st = limit" "nbStripesPerBlock st = limit div 8" "length (buffer st) = 256"
    using cf by (simp_all add: XXH3_config_def)
  have lp: "?n \<le> length p" using arg_cong [OF t, of length] by (simp add: min_def split: if_splits)
  obtain a k m where m: "XXH3_update_loop (limit div 8) secret limit (acc st) (nbStripesSoFar st) p ?n = Some (a, k, m)"
    "0 < m" "m \<le> 256" "m + 256 \<le> ?n" "256 dvd (?n - m)"
    "run_stripes secret limit (limit div 8) (stripes_at d 0 ((length d - m) div 64)) (0, XXH3_INIT_ACC) = Some (k, a)"
    using update_loop_run [OF co cf t True] c(1) by auto
  define c' where "c' = length d - m"
  have c': "c' = c + (?n - m)" "length d - c' = m" "?n - m = c' - c" "c + 256 \<le> c'" using m(4) c(1) by (simp_all add: c'_def)
  let ?stripe = "window 64 p (?n - m - 64)"
  let ?buf = "take 192 (buffer st) @ ?stripe"
  have s: "?stripe = window 64 d (c' - 64)"
  proof -
    have "c + (?n - m - 64) = c' - 64" using c'(1) m(4) by linarith
    then show ?thesis using window_drop_take [OF t, of "?n - m - 64" 64] m(4) by simp
  qed
  have "c' \<le> length d" "64 \<le> c'" using c'(4) by (simp_all add: c'_def)
  then have ls: "length ?stripe = 64" unfolding s by (simp add: window_def)
  have r: "mem_read 64 p (?n - m - 64) = Some ?stripe" using lp m(4) by (intro mem_read_Some) simp
  have cp: "mem_copy (buffer st) 192 ?stripe 64 = Some ?buf" using sec(4) ls by (simp add: mem_copy_def)
  let ?st = "st\<lparr>buffer := ?buf, acc := a, nbStripesSoFar := k\<rparr>"
  have "XXH3_consume st p ?n = Some (?st, drop (?n - m) p, m)"
    using True m(1) r cp sec by (simp add: XXH3_consume_def)
  moreover have "256 dvd c'" unfolding c'(1) using co m(5) by (intro dvd_add) (simp_all add: XXH3_consumed_def)
  moreover have "drop 192 ?buf = drop 192 (window 256 d (c' - 256))"
  proof -
    have "drop 192 ?buf = ?stripe" using sec(4) by simp
    also have "\<dots> = drop 192 (window 256 d (c' - 256))" unfolding s using c'(4) by (simp add: window_def drop_take)
    finally show ?thesis .
  qed
  ultimately have "XXH3_consumed d c' 0 limit ?st"
    using m(6) sec(1) by (simp add: XXH3_consumed_def c'_def [symmetric]) (simp add: c'_def)
  moreover have "XXH3_config secret limit sd ?st"
    using cf ls by (simp add: XXH3_config_def)
  moreover have "take m (drop (?n - m) p) = drop c' d"
  proof -
    have "take m (drop (?n - m) p) = drop (?n - m) (take ?n p)" using m(4) by (simp add: drop_take)
    then show ?thesis by (simp add: t c'(1) add.commute)
  qed
  ultimately show ?thesis using \<open>XXH3_consume st p ?n = _\<close> m(2,3) c'(2,4)
    by (intro exI [of _ ?st] exI [of _ "drop (?n - m) p"] exI [of _ c']) simp
qed


text \<open>The bytes already consumed do not change when more input follows.\<close>

lemma XXH3_consumed_append:
  assumes "XXH3_consumed d c b limit st"
  shows "XXH3_consumed (d @ e) c b limit st"
proof -
  have c: "256 dvd c" "c \<le> length d" using assms by (simp_all add: XXH3_consumed_def)
  have "c div 64 * 64 \<le> c" by simp
  then have le: "0 + c div 64 * 64 \<le> length d" using c(2) by linarith
  then have "stripes_at (d @ e) 0 (c div 64) = stripes_at d 0 (c div 64)"
    by (intro stripes_at_cong) simp
  moreover have "window 256 (d @ e) (c - 256) = window 256 d (c - 256)" if "0 < c"
    using c(2) dvd_imp_le [OF c(1) that] by (simp add: window_def)
  ultimately show ?thesis using assms by (simp add: XXH3_consumed_def)
qed

lemma XXH3_rep_keep:
  assumes co: "XXH3_consumed d c 0 limit st" and cf: "XXH3_config secret limit sd st" and tl: "totalLen st = of_nat (length d)"
    and t: "take (length d - c) p = drop c d" and c: "c < length d" "length d - c \<le> 256"
  shows "\<exists>buf. mem_copy (buffer st) 0 p (length d - c) = Some buf \<and>
    XXH3_rep secret limit sd d (st\<lparr>buffer := buf, bufferedSize := of_nat (length d - c)\<rparr>)"
proof -
  define n where "n = length d - c"
  have n: "0 < n" "n \<le> 256" "n \<le> length d" "length d - n = c" using c by (simp_all add: n_def)
  have lb: "length (buffer st) = 256" using cf by (simp add: XXH3_config_def)
  have lp: "n \<le> length p" using arg_cong [OF t, of length] by (simp add: n_def min_def split: if_splits)
  have u: "unat (of_nat n :: u32) = n" using n(2) by (intro unat_of_nat_small) simp
  let ?buf = "take n p @ drop n (buffer st)" and ?st = "st\<lparr>buffer := take n p @ drop n (buffer st), bufferedSize := of_nat n\<rparr>"
  have m: "mem_copy (buffer st) 0 p n = Some ?buf" using lb lp n(2) by (simp add: mem_copy_def)
  have "drop (max 192 n) ?buf = drop (max 192 n) (buffer st)" using lp by simp
  moreover have "drop (max 192 n) (buffer st) = drop (max 192 n) (window 256 d (c - 256))" if "0 < c"
  proof -
    have "drop (max 192 n - 192) (drop 192 (buffer st)) = drop (max 192 n - 192) (drop 192 (window 256 d (c - 256)))"
      using co that by (simp add: XXH3_consumed_def)
    then show ?thesis by simp
  qed
  ultimately have "XXH3_consumed d c n limit ?st" using co by (simp add: XXH3_consumed_def)
  moreover have "XXH3_config secret limit sd ?st" using cf lp n(2) by (simp add: XXH3_config_def)
  ultimately have "XXH3_rep secret limit sd d ?st"
    using n tl t lp by (simp add: XXH3_rep_def u n_def [symmetric])
  with m show ?thesis unfolding n_def by blast
qed

text \<open>An update adds its bytes to the input, and always returns.\<close>

lemma XXH3_rep_update:
  assumes rep: "XXH3_rep secret limit sd d st" and p: "unat len \<le> length p" and small: "length d + unat len < 2 ^ 64"
  shows "\<exists>st'. XXH3_update st (Some p) len = Some (XXH_OK, st') \<and> XXH3_rep secret limit sd (d @ take (unat len) p) st'"
proof -
  define n b c where nbc: "n = unat len" "b = unat (bufferedSize st)" "c = length d - b"
  let ?st = "st\<lparr>totalLen := totalLen st + len\<rparr>" and ?D = "d @ take n p"
  have r: "XXH3_config secret limit sd ?st" "XXH3_consumed d c b limit ?st" "b \<le> 256" "b \<le> length d" "0 < c \<longrightarrow> 0 < b"
    "take b (buffer st) = drop c d" "totalLen st = of_nat (length d)"
    using rep unfolding XXH3_rep_def Let_def nbc(2) [symmetric] nbc(3) [symmetric] XXH3_totalLen by blast+
  have lb: "length (buffer st) = 256" using r(1) by (simp add: XXH3_config_def)
  have np: "n \<le> length p" using p by (simp add: nbc)
  have tl: "totalLen ?st = of_nat (length ?D)" using r(7) np by (simp add: nbc min_absorb2)
  have co: "XXH3_consumed ?D c b limit ?st" by (rule XXH3_consumed_append [OF r(2)])
  have sum: "unat (ucast (bufferedSize st) + len) = b + n"
  proof -
    have "b + n < 2 ^ 64" using small r(4) by (simp add: nbc)
    then show ?thesis by (simp add: unat_word_ariths unat_ucast_up nbc)
  qed
  show ?thesis
  proof (cases "b + n \<le> 256")
    case True
    let ?buf = "take b (buffer st) @ take n p @ drop (b + n) (buffer st)"
    let ?st' = "?st\<lparr>buffer := ?buf, bufferedSize := bufferedSize st + ucast len\<rparr>"
    have le: "ucast (bufferedSize st) + len \<le> 256" using True sum by (simp add: word_le_nat_alt)
    have m: "mem_copy (buffer st) b p n = Some ?buf" using True lb np by (simp add: mem_copy_def)
    have ul: "unat (ucast len :: u32) = n"
      using True by (simp add: nbc unsigned_ucast_eq take_bit_nat_eq_self_iff)
    have u: "unat (bufferedSize st + ucast len) = b + n"
      using True by (simp add: unat_word_ariths ul nbc(2) [symmetric])
    have "drop (max 192 (b + n)) ?buf = drop (max 192 (b + n)) (buffer st)"
      using lb np True by (auto simp: max_def)
    moreover have "drop (max 192 (b + n)) (buffer st) = drop (max 192 (b + n)) (window 256 ?D (c - 256))" if "0 < c"
    proof -
      have "drop (max 192 (b + n) - max 192 b) (drop (max 192 b) (buffer st)) =
          drop (max 192 (b + n) - max 192 b) (drop (max 192 b) (window 256 ?D (c - 256)))"
        using co that by (simp add: XXH3_consumed_def)
      then show ?thesis by (simp add: max_def split: if_splits)
    qed
    ultimately have "XXH3_consumed ?D c (b + n) limit ?st'" using co by (simp add: XXH3_consumed_def)
    moreover have "XXH3_config secret limit sd ?st'" using r(1) lb np True by (simp add: XXH3_config_def)
    moreover have "take (b + n) ?buf = drop c ?D"
      using r(4,6) np nbc(3) lb True by (simp add: take_drop)
    moreover have "length ?D - unat (bufferedSize ?st') = c" "unat (bufferedSize ?st') = b + n"
      using np u nbc(3) by simp_all
    ultimately have "XXH3_rep secret limit sd ?D ?st'"
      using r(3-5) tl np True unfolding XXH3_rep_def Let_def by auto
    moreover have "XXH3_update st (Some p) len = Some (XXH_OK, ?st')"
      using le m by (simp add: XXH3_update_def nbc Let_def)
    ultimately show ?thesis by (auto simp: nbc)
  next
    case False
    have le: "\<not> ucast (bufferedSize st) + len \<le> 256" using False sum by (simp add: word_le_nat_alt)
    obtain st1 p1 c1 where 1: "XXH3_fill ?st p n = Some (st1, p1, length ?D - c1)"
      "XXH3_consumed ?D c1 0 limit st1" "XXH3_config secret limit sd st1" "totalLen st1 = totalLen ?st"
      "take (length ?D - c1) p1 = drop c1 ?D" "c1 < length ?D" "c1 = 0 \<longrightarrow> 256 < length ?D"
      using XXH3_fill_run [of b ?st d c n p limit secret sd] r co np False nbc by auto
    obtain st2 p2 c2 where 2: "XXH3_consume st1 p1 (length ?D - c1) = Some (st2, p2, length ?D - c2)"
      "XXH3_consumed ?D c2 0 limit st2" "XXH3_config secret limit sd st2" "totalLen st2 = totalLen st1"
      "take (length ?D - c2) p2 = drop c2 ?D" "c2 < length ?D" "length ?D - c2 \<le> 256"
      using XXH3_consume_run [OF 1(2,3,5,6,7)] by blast
    obtain buf where 3: "mem_copy (buffer st2) 0 p2 (length ?D - c2) = Some buf"
      "XXH3_rep secret limit sd ?D (st2\<lparr>buffer := buf, bufferedSize := of_nat (length ?D - c2)\<rparr>)"
      using XXH3_rep_keep [OF 2(2,3) _ 2(5-7)] 2(4) 1(4) tl by auto
    have "XXH3_update st (Some p) len = Some (XXH_OK, st2\<lparr>buffer := buf, bufferedSize := of_nat (length ?D - c2)\<rparr>)"
      unfolding XXH3_update_def Let_def option.case using le 1(1) 2(1) 3(1) unfolding nbc(1) by simp
    with 3(2) show ?thesis by (auto simp: nbc)
  qed
qed


section \<open>The digest of a long input\<close>

lemma XXH3_rep_facts:
  assumes "XXH3_rep secret limit sd d st" "b = unat (bufferedSize st)" "c = length d - b"
  shows "XXH3_config secret limit sd st" "XXH3_consumed d c b limit st" "b \<le> 256" "length d = c + b" "0 < c \<longrightarrow> 0 < b"
    "take b (buffer st) = drop c d" "64 dvd c"
    "run_stripes secret limit (limit div 8) (stripes_at d 0 (c div 64)) (0, XXH3_INIT_ACC) = Some (nbStripesSoFar st, acc st)"
proof -
  have r: "XXH3_config secret limit sd st \<and> XXH3_consumed d c b limit st \<and> b \<le> 256 \<and> b \<le> length d \<and> (0 < c \<longrightarrow> 0 < b) \<and>
      take b (buffer st) = drop c d" using assms(1) unfolding XXH3_rep_def Let_def assms(2,3) by blast
  then show "XXH3_config secret limit sd st" "XXH3_consumed d c b limit st" "b \<le> 256" "0 < c \<longrightarrow> 0 < b"
    "take b (buffer st) = drop c d" "length d = c + b" by (simp_all add: assms(3))
  have "256 dvd c" using r by (simp add: XXH3_consumed_def)
  then show "64 dvd c" by (rule dvd_trans [rotated]) simp
  show "run_stripes secret limit (limit div 8) (stripes_at d 0 (c div 64)) (0, XXH3_INIT_ACC) = Some (nbStripesSoFar st, acc st)"
    using r unfolding XXH3_consumed_def XXH3_config_def by blast
qed

text \<open>The buffer holds at least one stripe, or the last stripe starts in what has been consumed.\<close>

lemma digest_long_buffered:
  assumes rep: "XXH3_rep secret limit sd d st" and bc: "b = unat (bufferedSize st)" "c = length d - b" and b: "64 \<le> b"
  shows "XXH3_digest_long st secret =
    run_stripes secret limit (limit div 8) (stripes_at d c ((b - 1) div 64)) (nbStripesSoFar st, acc st) \<bind>
      (\<lambda>(k, a). XXH3_accumulate_512 d (length d - 64) secret (limit - 7) a)"
proof -
  let ?P = "limit div 8" and ?m = "(b - 1) div 64" and ?n = "length d"
  note r = XXH3_rep_facts [OF rep bc]
  have cf: "4 \<le> ?P" "secretLimit st = limit" "nbStripesPerBlock st = ?P" "length (buffer st) = 256"
    using r(1) by (auto simp: XXH3_config_def)
  have k: "nbStripesSoFar st < ?P" using run_stripes_less [OF r(8)] cf(1) by simp
  have m: "?m \<le> ?P" "?m * 64 \<le> b" using r(3) cf(1) by linarith+
  have "stripes_at (buffer st) 0 ?m = stripes_at (drop c d) 0 ?m"
  proof (rule stripes_at_cong)
    have "take (?m * 64) (take b (buffer st)) = take (?m * 64) (take b (drop c d))" unfolding r(6) r(4) by simp
    then show "take (0 + ?m * 64) (buffer st) = take (0 + ?m * 64) (drop c d)" using m(2) by (simp add: min_absorb1)
  qed
  then have s: "stripes_at (buffer st) 0 ?m = stripes_at d c ?m" by (simp add: stripes_at_drop)
  have "window 64 (buffer st) (b - 64) = window 64 d (?n - 64)"
    using window_drop_take [OF r(6), of "b - 64" 64] b r(4) by simp
  moreover have "b - 64 + 64 \<le> length (buffer st)" "?n - 64 + 64 \<le> length d" using b r(3,4) cf(4) by auto
  ultimately have last: "XXH3_accumulate_512 (buffer st) (b - 64) secret (limit - 7) a =
      XXH3_accumulate_512 d (?n - 64) secret (limit - 7) a" for a
    using accumulate_512_stripe [of "b - 64" "buffer st" 0 secret "limit - 7" a]
      accumulate_512_stripe [of "?n - 64" d 0 secret "limit - 7" a] by simp
  have "XXH3_consumeStripes (acc st) (nbStripesSoFar st) ?P (buffer st) ?m secret limit =
      map_option (\<lambda>(k, a). (a, k)) (run_stripes secret limit ?P (stripes_at d c ?m) (nbStripesSoFar st, acc st))"
    using consumeStripes_run [OF k m(1), of "buffer st" "acc st" secret limit] m(2) r(3) cf(4) s by simp
  then show ?thesis unfolding XXH3_digest_long_def bc(1) [symmetric] Let_def cf(2,3)
    using b by (simp add: last map_option_case split: option.splits bind_splits)
qed

lemma digest_long_catch_up:
  assumes rep: "XXH3_rep secret limit sd d st" and bc: "b = unat (bufferedSize st)" "c = length d - b" and b: "b < 64" "0 < c"
  shows "XXH3_digest_long st secret = XXH3_accumulate_512 d (length d - 64) secret (limit - 7) (acc st)"
proof -
  let ?n = "length d"
  note r = XXH3_rep_facts [OF rep bc]
  have cf: "secretLimit st = limit" "length (buffer st) = 256" using r(1) by (auto simp: XXH3_config_def)
  have "256 dvd c" using r(2) by (simp add: XXH3_consumed_def)
  then have c: "256 \<le> c" using b(2) by (rule dvd_imp_le)
  have "drop b (drop 192 (buffer st)) = drop b (drop 192 (window 256 d (c - 256)))"
    using r(2) b by (simp add: XXH3_consumed_def)
  then have old: "drop (192 + b) (buffer st) = take (64 - b) (drop (c - 64 + b) d)"
    using c by (simp add: window_def drop_take add.commute)
  have "window 64 d (?n - 64) = take ((64 - b) + b) (drop (c - 64 + b) d)" using b c r(4) by (simp add: window_def)
  also have "\<dots> = take (64 - b) (drop (c - 64 + b) d) @ take b (drop (64 - b) (drop (c - 64 + b) d))" by (rule take_add)
  also have "drop (64 - b) (drop (c - 64 + b) d) = drop c d" using b c by simp
  finally have w: "drop (192 + b) (buffer st) @ take b (buffer st) = window 64 d (?n - 64)" unfolding old r(6) using r(4) by simp
  have "mem_read (64 - b) (buffer st) (256 - (64 - b)) = Some (drop (192 + b) (buffer st))"
    "mem_read b (buffer st) 0 = Some (take b (buffer st))" using b cf(2) by (simp_all add: mem_read_def)
  moreover have "XXH3_accumulate_512 (window 64 d (?n - 64)) 0 secret (limit - 7) (acc st) =
      XXH3_accumulate_512 d (?n - 64) secret (limit - 7) (acc st)"
    using accumulate_512_stripe [of "?n - 64" d 0 secret "limit - 7"] c r(4) by simp
  ultimately show ?thesis unfolding XXH3_digest_long_def bc(1) [symmetric] Let_def cf(1) using b by (simp add: w)
qed

lemma XXH3_digest_long_run:
  assumes rep: "XXH3_rep secret limit sd d st" and long: "240 < length d"
  shows "XXH3_digest_long st secret = XXH3_hashLong_internal_loop XXH3_INIT_ACC d (length d) secret (limit + 64)"
proof -
  let ?n = "length d"
  define b c where bc: "b = unat (bufferedSize st)" "c = ?n - b"
  note r = XXH3_rep_facts [OF rep bc]
  obtain q where q: "c = q * 64" using r(7) by (auto elim: dvdE simp: mult.commute)
  have b0: "0 < b" using r(4,5) long by auto
  have stripes: "(?n - 1) div 64 = c div 64 + (b - 1) div 64"
  proof -
    have "?n - 1 = q * 64 + (b - 1)" using r(4) q b0 by simp
    then show ?thesis by (simp add: q)
  qed
  have loop: "XXH3_hashLong_internal_loop XXH3_INIT_ACC d ?n secret (limit + 64) =
      run_stripes secret limit (limit div 8) (stripes_at d c ((b - 1) div 64)) (nbStripesSoFar st, acc st) \<bind>
        (\<lambda>(k, a). XXH3_accumulate_512 d (?n - 64) secret (limit - 7) a)"
    using hashLong_loop_run [of ?n d "limit + 64" XXH3_INIT_ACC secret] long r(1,8) q
    by (simp add: stripes [simplified] stripes_at_add for_opt_append XXH3_config_def)
  show ?thesis
  proof (cases "64 \<le> b")
    case True
    then show ?thesis unfolding loop by (rule digest_long_buffered [OF rep bc])
  next
    case False
    then have "0 < c" using r(4) long by linarith
    then show ?thesis using digest_long_catch_up [OF rep bc] False by (simp add: loop)
  qed
qed

section \<open>The digest of a short input\<close>

text \<open>A hash of a short key reads nothing after the key.\<close>

lemma XXH3_len_0to16_take:
  assumes "n \<le> 16"
  shows "XXH3_len_0to16_64b (take n p) n secret sd = XXH3_len_0to16_64b p n secret sd"
    "XXH3_len_0to16_128b (take n p) n secret sd = XXH3_len_0to16_128b p n secret sd"
proof -
  have "n div 2 < n" if "n \<noteq> 0" using that by simp
  then show "XXH3_len_0to16_64b (take n p) n secret sd = XXH3_len_0to16_64b p n secret sd"
    "XXH3_len_0to16_128b (take n p) n secret sd = XXH3_len_0to16_128b p n secret sd"
    by (simp_all add: XXH3_len_0to16_64b_def XXH3_len_9to16_64b_def XXH3_len_4to8_64b_def XXH3_len_1to3_64b_def
        XXH3_len_0to16_128b_def XXH3_len_9to16_128b_def XXH3_len_4to8_128b_def XXH3_len_1to3_128b_def
        XXH_readLE64_def XXH_readLE32_def read64_take read32_take read8_take)
qed

lemma XXH3_mix_all_take:
  "\<forall>(i, s) \<in> set ps. i + 16 \<le> n \<Longrightarrow> XXH3_mix_all (take n p) secret sd ps a = XXH3_mix_all p secret sd ps a"
  unfolding XXH3_mix_all_def
  by (rule for_opt_cong) (auto simp: XXH3_mix16B_def XXH_readLE64_def read64_take)

lemma XXH128_mix_all_take:
  "\<forall>(i, j, s) \<in> set ps. i + 16 \<le> n \<and> j + 16 \<le> n \<Longrightarrow>
     XXH128_mix_all (take n p) secret sd ps a = XXH128_mix_all p secret sd ps a"
  unfolding XXH128_mix_all_def
  by (rule for_opt_cong) (auto simp: XXH128_mix32B_def XXH3_mix16B_def XXH_readLE64_def read64_take)

lemma XXH3_len_17to128_take:
  assumes "16 < n"
  shows "XXH3_len_17to128_64b (take n p) n secret sd = XXH3_len_17to128_64b p n secret sd"
    "XXH3_len_17to128_128b (take n p) n secret sd = XXH3_len_17to128_128b p n secret sd"
  unfolding XXH3_len_17to128_64b_def XXH3_len_17to128_128b_def Let_def
  by (subst XXH3_mix_all_take XXH128_mix_all_take, use assms in auto)+

lemma XXH3_len_129to240_take:
  assumes "128 < n"
  shows "XXH3_len_129to240_64b (take n p) n secret sd = XXH3_len_129to240_64b p n secret sd"
    "XXH3_len_129to240_128b (take n p) n secret sd = XXH3_len_129to240_128b p n secret sd"
proof -
  have 16: "16 * i + 16 \<le> n" if "i < n div 16" for i using that by linarith
  have 32: "32 * i + 32 \<le> n" if "i < n div 32" for i using that by linarith
  show "XXH3_len_129to240_64b (take n p) n secret sd = XXH3_len_129to240_64b p n secret sd"
    unfolding XXH3_len_129to240_64b_def Let_def
    by (subst XXH3_mix_all_take, use assms 16 in auto)+
  show "XXH3_len_129to240_128b (take n p) n secret sd = XXH3_len_129to240_128b p n secret sd"
    unfolding XXH3_len_129to240_128b_def Let_def
    by (subst XXH128_mix_all_take, use assms in \<open>auto dest: 32\<close>)+
qed


lemma XXH3_internal_take:
  assumes "unat len \<le> 240" "take (unat len) p = d"
  shows "XXH3_64bits_internal p len sd secret S f = XXH3_64bits_internal d len sd secret S f"
    "XXH3_128bits_internal p len sd secret S g = XXH3_128bits_internal d len sd secret S g"
  unfolding XXH3_64bits_internal_def XXH3_128bits_internal_def Let_def assms(2) [symmetric] using assms(1)
  by (simp_all add: XXH3_len_0to16_take XXH3_len_17to128_take XXH3_len_129to240_take)

lemma XXH3_rep_short:
  assumes rep: "XXH3_rep secret limit sd d st" and n: "length d \<le> 240"
  shows "take (length d) (buffer st) = d"
proof -
  let ?b = "unat (bufferedSize st)"
  have c: "XXH3_consumed d (length d - ?b) ?b limit st" "?b \<le> length d" "take ?b (buffer st) = drop (length d - ?b) d"
    using rep unfolding XXH3_rep_def Let_def by blast+
  then have "256 dvd length d - ?b" by (simp add: XXH3_consumed_def)
  then have "length d - ?b = 0" using n dvd_imp_le [of 256 "length d - ?b"] by (cases "length d - ?b = 0") auto
  then show ?thesis using c(2,3) by simp
qed

text \<open>The hash of the input at once, in the form both ways of calling it share.\<close>

lemma XXH3_rep_digest:
  assumes rep: "XXH3_rep secret limit sd d st" and n: "length d < 2 ^ 64"
  shows "XXH3_64bits_digest st =
    (if 240 < length d then XXH3_hashLong_64b_internal d (length d) secret (limit + 64)
     else if sd \<noteq> 0 then XXH3_64bits_withSeed d (of_nat (length d)) sd
     else XXH3_64bits_withSecret d (of_nat (length d)) secret (limit + 64))" (is ?h64)
    and "XXH3_128bits_digest st =
    (if 240 < length d then XXH3_hashLong_128b_internal d (length d) secret (limit + 64)
     else if sd \<noteq> 0 then XXH3_128bits_withSeed d (of_nat (length d)) sd
     else XXH3_128bits_withSecret d (of_nat (length d)) secret (limit + 64))" (is ?h128)
proof -
  have r: "totalLen st = of_nat (length d)" "state_secret st = secret" "secretLimit st = limit" "seed st = sd" "limit + 64 < 2 ^ 64"
    using rep by (simp_all add: XXH3_rep_def XXH3_config_def Let_def)
  have u: "unat (of_nat (length d) :: u64) = length d" using n by (intro unat_of_nat_small) simp
  then have g: "totalLen st > 240 \<longleftrightarrow> 240 < length d" by (simp add: r(1) word_less_nat_alt)
  have le: "unat (of_nat (length d) :: u64) \<le> 240" "take (unat (of_nat (length d) :: u64)) (buffer st) = d" if "\<not> 240 < length d"
    using that XXH3_rep_short [OF rep] u by simp_all
  have m: "(limit + 64) mod 2 ^ 64 = limit + 64" using r(5) by simp
  show ?h64
  proof (cases "240 < length d")
    case False
    then show ?thesis
      using XXH3_internal_take(1) [OF le [OF False]] False
      unfolding XXH3_64bits_digest_def Let_def g unfolding r(1-4) m XXH3_64bits_withSeed_def XXH3_64bits_withSecret_def by simp
  qed (simp add: XXH3_64bits_digest_def g [unfolded r(1)] r XXH3_digest_long_run [OF rep] XXH3_hashLong_64b_internal_def)
  show ?h128
  proof (cases "240 < length d")
    case False
    then show ?thesis
      using XXH3_internal_take(2) [OF le [OF False]] False
      unfolding XXH3_128bits_digest_def Let_def g unfolding r(1-4) m XXH3_128bits_withSeed_def XXH3_128bits_withSecret_def by simp
  qed (use m in \<open>simp add: XXH3_128bits_digest_def g [unfolded r(1)] r XXH3_digest_long_run [OF rep] XXH3_hashLong_128b_internal_def\<close>)
qed


section \<open>Reuse of a state\<close>

text \<open>
  The states a program gets from \<open>XXH3_INITSTATE\<close>, the resets, which may report an error, and updates.
\<close>

inductive XXH3_reachable :: "XXH3_state_t \<Rightarrow> bool" where
  init: "length (buffer st) = 256 \<Longrightarrow> XXH3_reachable (XXH3_INITSTATE st)"
| reset: "XXH3_reachable st \<Longrightarrow> XXH3_64bits_reset st = (e, st') \<Longrightarrow> XXH3_reachable st'"
| reset_withSecret: "XXH3_reachable st \<Longrightarrow> XXH3_64bits_reset_withSecret st secret S = (e, st') \<Longrightarrow> XXH3_reachable st'"
| reset_withSeed: "XXH3_reachable st \<Longrightarrow> XXH3_64bits_reset_withSeed st sd = Some (e, st') \<Longrightarrow> XXH3_reachable st'"
| update: "XXH3_reachable st \<Longrightarrow> XXH3_update st input len = Some (e, st') \<Longrightarrow> XXH3_reachable st'"

text \<open>The secret kept in the state belongs to its seed, which is what \<open>XXH3_64bits_reset_withSeed\<close> relies on.\<close>

definition XXH3_synced :: "XXH3_state_t \<Rightarrow> bool" where
  "XXH3_synced st \<longleftrightarrow> length (buffer st) = 256 \<and> (seed st \<noteq> 0 \<longrightarrow> XXH3_initCustomSecret (seed st) = Some (customSecret st))"

lemma mem_copy_length: "mem_copy dst off src n = Some buf \<Longrightarrow> length buf = length dst"
  by (auto simp: mem_copy_def split: if_splits)

lemma XXH3_update_keeps:
  assumes "XXH3_update st input len = Some (e, st')"
  shows "seed st' = seed st \<and> customSecret st' = customSecret st \<and> length (buffer st') = length (buffer st)"
proof -
  have f: "seed s' = seed s \<and> customSecret s' = customSecret s \<and> length (buffer s') = length (buffer s)"
    if "XXH3_fill s p n = Some (s', q, m)" for s s' p q n m
    using that by (auto simp: XXH3_fill_def Let_def split: if_splits bind_splits dest!: mem_copy_length)
  have c: "seed s' = seed s \<and> customSecret s' = customSecret s \<and> length (buffer s') = length (buffer s)"
    if "XXH3_consume s p n = Some (s', q, m)" for s s' p q n m
    using that by (auto simp: XXH3_consume_def split: if_splits bind_splits dest!: mem_copy_length)
  show ?thesis using assms
    by (auto simp: XXH3_update_def Let_def split: option.splits if_splits bind_splits dest!: f c mem_copy_length)
qed

lemma XXH3_reachable_synced: "XXH3_reachable st \<Longrightarrow> XXH3_synced st"
proof (induction rule: XXH3_reachable.induct)
  case (reset_withSeed st sd e st')
  then show ?case
    by (auto simp: XXH3_synced_def XXH3_64bits_reset_withSeed_def XXH3_64bits_reset_def XXH3_reset_internal_def Let_def
        split: if_splits bind_splits)
next
  case (update st input len e st')
  then show ?case using XXH3_update_keeps [OF update.hyps(2)] by (simp add: XXH3_synced_def)
qed (auto simp: XXH3_synced_def XXH3_INITSTATE_def XXH3_64bits_reset_def XXH3_64bits_reset_withSecret_def
    XXH3_reset_internal_def Let_def split: if_splits)

section \<open>Streams\<close>

primrec XXH3_updates :: "bytes list \<Rightarrow> XXH3_state_t \<Rightarrow> XXH3_state_t option" where
  "XXH3_updates [] st = Some st"
| "XXH3_updates (x # xs) st =
     XXH3_update st (Some x) (of_nat (length x)) \<bind> (\<lambda>(e, st). if e = XXH_OK then XXH3_updates xs st else None)"

lemma XXH3_rep_updates:
  "XXH3_rep secret limit sd d st \<Longrightarrow> length d + length (concat xs) < 2 ^ 64 \<Longrightarrow>
     \<exists>st'. XXH3_updates xs st = Some st' \<and> XXH3_rep secret limit sd (d @ concat xs) st'"
proof (induction xs arbitrary: d st)
  case (Cons x xs)
  have n: "unat (of_nat (length x) :: u64) = length x" using Cons.prems(2) by (intro unat_of_nat_small) simp
  obtain st1 where "XXH3_update st (Some x) (of_nat (length x)) = Some (XXH_OK, st1)" "XXH3_rep secret limit sd (d @ x) st1"
    using XXH3_rep_update [OF Cons.prems(1), of "of_nat (length x)" x] Cons.prems(2) n by auto
  moreover have "length (d @ x) + length (concat xs) < 2 ^ 64" using Cons.prems(2) by simp
  ultimately show ?case using Cons.IH [of "d @ x" st1] by simp
qed simp

text \<open>A reset, updates with the pieces in order, and a digest.\<close>

definition XXH3_stream :: "(XXH_errorcode \<times> XXH3_state_t) option \<Rightarrow> (XXH3_state_t \<Rightarrow> 'h option) \<Rightarrow> bytes list \<Rightarrow> 'h option" where
  "XXH3_stream reset digest xs =
     reset \<bind> (\<lambda>(e, st). if e = XXH_OK then XXH3_updates xs st \<bind> digest else None)"

lemma XXH3_reset_128:
  "XXH3_128bits_reset_withSeed st sd = XXH3_64bits_reset_withSeed st sd"
  "XXH3_128bits_reset_withSecret st secret S = XXH3_64bits_reset_withSecret st secret S"
  by (simp_all add: XXH3_128bits_reset_withSeed_def XXH3_64bits_reset_withSeed_def XXH3_128bits_reset_withSecret_def
      XXH3_64bits_reset_withSecret_def XXH3_128bits_reset_def XXH3_64bits_reset_def)

lemma XXH3_stream_rep:
  assumes "XXH3_rep secret limit sd [] st" "length (concat xs) < 2 ^ 64"
  shows "\<exists>st'. XXH3_stream (Some (XXH_OK, st)) digest xs = digest st' \<and> XXH3_rep secret limit sd (concat xs) st'"
  using XXH3_rep_updates [OF assms(1), of xs] assms(2) by (auto simp: XXH3_stream_def)

text \<open>The states after a reset, as representations of the empty input.\<close>

lemma XXH3_rep_withSeed:
  assumes "XXH3_synced st"
  shows "\<exists>st' secret. XXH3_64bits_reset_withSeed st sd = Some (XXH_OK, st') \<and> XXH3_rep secret 128 sd [] st' \<and>
    XXH3_initCustomSecret sd = Some secret \<and> length secret = 192"
proof -
  obtain c where c: "XXH3_initCustomSecret sd = Some c" "length c = 192" using initCustomSecret_length by blast
  have l: "length (buffer st) = 256" using assms by (simp add: XXH3_synced_def)
  show ?thesis
  proof (cases "sd = 0")
    case True
    then have "c = XXH3_kSecret" using c(1) initCustomSecret_0 by simp
    with True c l show ?thesis using XXH3_rep_reset [of 128 c st "Some c" 0]
      by (auto simp: XXH3_64bits_reset_withSeed_def XXH3_64bits_reset_def)
  next
    case False
    have "(if sd \<noteq> seed st then XXH3_initCustomSecret sd else Some (customSecret st)) = Some c"
      using assms False c(1) by (auto simp: XXH3_synced_def)
    with False c l show ?thesis using XXH3_rep_reset [of 128 c "st\<lparr>customSecret := c\<rparr>" None sd]
      by (simp add: XXH3_64bits_reset_withSeed_def)
  qed
qed

lemma XXH3_long_eq:
  assumes "240 < length d" "length d < 2 ^ 64" "XXH3_initCustomSecret sd = Some c"
  shows "XXH3_64bits_withSeed d (of_nat (length d)) sd = XXH3_hashLong_64b_internal d (length d) c (length c)"
    "XXH3_128bits_withSeed d (of_nat (length d)) sd = XXH3_hashLong_128b_internal d (length d) c (length c)"
    "XXH3_64bits_withSecret d (of_nat (length d)) s S = XXH3_hashLong_64b_internal d (length d) s S"
    "XXH3_128bits_withSecret d (of_nat (length d)) s S = XXH3_hashLong_128b_internal d (length d) s S"
proof -
  have u: "unat (of_nat (length d) :: u64) = length d" using assms(2) by (intro unat_of_nat_small) simp
  have "c = XXH3_kSecret" if "sd = 0" using that assms(3) initCustomSecret_0 by simp
  then show "XXH3_64bits_withSeed d (of_nat (length d)) sd = XXH3_hashLong_64b_internal d (length d) c (length c)"
    "XXH3_128bits_withSeed d (of_nat (length d)) sd = XXH3_hashLong_128b_internal d (length d) c (length c)"
    using assms(1,3)
    by (auto simp: XXH3_64bits_withSeed_def XXH3_128bits_withSeed_def XXH3_64bits_internal_def XXH3_128bits_internal_def u
        XXH3_hashLong_64b_withSeed_def XXH3_hashLong_128b_withSeed_def Let_def)
  show "XXH3_64bits_withSecret d (of_nat (length d)) s S = XXH3_hashLong_64b_internal d (length d) s S"
    "XXH3_128bits_withSecret d (of_nat (length d)) s S = XXH3_hashLong_128b_internal d (length d) s S"
    using assms(1)
    by (simp_all add: XXH3_64bits_withSecret_def XXH3_128bits_withSecret_def XXH3_64bits_internal_def XXH3_128bits_internal_def u
        XXH3_hashLong_64b_withSecret_def XXH3_hashLong_128b_withSecret_def Let_def)
qed

text \<open>With seed 0 and the default secret, a short key has the same hash from both entry points.\<close>

lemma XXH3_short_seed_0:
  "unat len \<le> 240 \<Longrightarrow> XXH3_64bits_withSeed d len 0 = XXH3_64bits_withSecret d len XXH3_kSecret 192"
  "unat len \<le> 240 \<Longrightarrow> XXH3_128bits_withSeed d len 0 = XXH3_128bits_withSecret d len XXH3_kSecret 192"
  by (simp_all add: XXH3_64bits_withSeed_def XXH3_64bits_withSecret_def XXH3_64bits_internal_def
      XXH3_128bits_withSeed_def XXH3_128bits_withSecret_def XXH3_128bits_internal_def Let_def)

lemma XXH3_stream_seed_eq:
  assumes "XXH3_synced st" and n: "length (concat xs) < 2 ^ 64"
  shows "XXH3_stream (XXH3_64bits_reset_withSeed st sd) XXH3_64bits_digest xs =
      XXH3_64bits_withSeed (concat xs) (of_nat (length (concat xs))) sd"
    "XXH3_stream (XXH3_64bits_reset_withSeed st sd) XXH3_128bits_digest xs =
      XXH3_128bits_withSeed (concat xs) (of_nat (length (concat xs))) sd"
proof -
  let ?d = "concat xs"
  obtain st' c where r: "XXH3_64bits_reset_withSeed st sd = Some (XXH_OK, st')" "XXH3_rep c 128 sd [] st'"
    "XXH3_initCustomSecret sd = Some c" "length c = 192" using XXH3_rep_withSeed [OF assms(1)] by blast
  have k: "c = XXH3_kSecret" if "sd = 0" using that r(3) initCustomSecret_0 by simp
  have u: "unat (of_nat (length ?d) :: u64) = length ?d" using n by (intro unat_of_nat_small) simp
  note long = XXH3_long_eq(1,2) [OF _ n r(3)]
  obtain s1 where s1: "XXH3_stream (Some (XXH_OK, st')) XXH3_64bits_digest xs = XXH3_64bits_digest s1" "XXH3_rep c 128 sd ?d s1"
    using XXH3_stream_rep [OF r(2) n] by blast
  obtain s2 where s2: "XXH3_stream (Some (XXH_OK, st')) XXH3_128bits_digest xs = XXH3_128bits_digest s2" "XXH3_rep c 128 sd ?d s2"
    using XXH3_stream_rep [OF r(2) n] by blast
  show "XXH3_stream (XXH3_64bits_reset_withSeed st sd) XXH3_64bits_digest xs = XXH3_64bits_withSeed ?d (of_nat (length ?d)) sd"
    unfolding r(1) s1(1) XXH3_rep_digest(1) [OF s1(2) n] using long(1) r(4) k XXH3_short_seed_0(1) [of "of_nat (length ?d)" ?d] u
    by (cases "240 < length ?d") auto
  show "XXH3_stream (XXH3_64bits_reset_withSeed st sd) XXH3_128bits_digest xs = XXH3_128bits_withSeed ?d (of_nat (length ?d)) sd"
    unfolding r(1) s2(1) XXH3_rep_digest(2) [OF s2(2) n] using long(2) r(4) k XXH3_short_seed_0(2) [of "of_nat (length ?d)" ?d] u
    by (cases "240 < length ?d") auto
qed

lemma XXH3_stream_secret_eq:
  assumes "length (buffer st) = 256" "136 \<le> S" "S \<le> length secret" "S < 2 ^ 64" and n: "length (concat xs) < 2 ^ 64"
  shows "XXH3_stream (Some (XXH3_64bits_reset_withSecret st (Some secret) S)) XXH3_64bits_digest xs =
      XXH3_64bits_withSecret (concat xs) (of_nat (length (concat xs))) secret S"
    "XXH3_stream (Some (XXH3_64bits_reset_withSecret st (Some secret) S)) XXH3_128bits_digest xs =
      XXH3_128bits_withSecret (concat xs) (of_nat (length (concat xs))) secret S"
proof -
  let ?d = "concat xs" and ?st = "XXH3_reset_internal st 0 (Some secret) S"
  have e: "XXH3_64bits_reset_withSecret st (Some secret) S = (XXH_OK, ?st)"
    using assms(2) by (simp add: XXH3_64bits_reset_withSecret_def XXH3_SECRET_SIZE_MIN_def)
  have r: "XXH3_rep secret (S - 64) 0 [] ?st"
    using XXH3_rep_reset [of "S - 64" secret st "Some secret" 0] assms by simp
  have S: "S - 64 + 64 = S" using assms(2) by simp
  note long = XXH3_long_eq(3,4) [OF _ n initCustomSecret_0]
  obtain s1 where s1: "XXH3_stream (Some (XXH_OK, ?st)) XXH3_64bits_digest xs = XXH3_64bits_digest s1" "XXH3_rep secret (S - 64) 0 ?d s1"
    using XXH3_stream_rep [OF r n] by blast
  obtain s2 where s2: "XXH3_stream (Some (XXH_OK, ?st)) XXH3_128bits_digest xs = XXH3_128bits_digest s2" "XXH3_rep secret (S - 64) 0 ?d s2"
    using XXH3_stream_rep [OF r n] by blast
  show "XXH3_stream (Some (XXH3_64bits_reset_withSecret st (Some secret) S)) XXH3_64bits_digest xs =
      XXH3_64bits_withSecret ?d (of_nat (length ?d)) secret S"
    unfolding e s1(1) XXH3_rep_digest(1) [OF s1(2) n] S using long(1) by auto
  show "XXH3_stream (Some (XXH3_64bits_reset_withSecret st (Some secret) S)) XXH3_128bits_digest xs =
      XXH3_128bits_withSecret ?d (of_nat (length ?d)) secret S"
    unfolding e s2(1) XXH3_rep_digest(2) [OF s2(2) n] S using long(2) by auto
qed

text \<open>
  C18. Streaming with XXH3 agrees with hashing at once, for both result sizes, with a seed and with a
  secret of the caller's, whatever the state was used for before: take any state that was initialised once and
  then reset and updated in any way. Resetting it, updating it with the pieces of a buffer of less than
  \<open>2 ^ 64\<close> bytes in order, whatever the buffer is cut into, and taking the digest returns the hash of the buffer. The
  secret kept in the state, which a reset with the same seed does not derive again, is always the one of its seed.
\<close>

theorem XXH3_stream_eq:
  assumes "XXH3_reachable st" "length (concat xs) < 2 ^ 64" "136 \<le> S" "S \<le> length secret" "S < 2 ^ 64"
  shows "XXH3_stream (XXH3_64bits_reset_withSeed st sd) XXH3_64bits_digest xs =
      XXH3_64bits_withSeed (concat xs) (of_nat (length (concat xs))) sd \<and>
    XXH3_stream (XXH3_128bits_reset_withSeed st sd) XXH3_128bits_digest xs =
      XXH3_128bits_withSeed (concat xs) (of_nat (length (concat xs))) sd \<and>
    XXH3_stream (Some (XXH3_64bits_reset_withSecret st (Some secret) S)) XXH3_64bits_digest xs =
      XXH3_64bits_withSecret (concat xs) (of_nat (length (concat xs))) secret S \<and>
    XXH3_stream (Some (XXH3_128bits_reset_withSecret st (Some secret) S)) XXH3_128bits_digest xs =
      XXH3_128bits_withSecret (concat xs) (of_nat (length (concat xs))) secret S \<and>
    (\<exists>h1 h2 h3 h4. XXH3_64bits_withSeed (concat xs) (of_nat (length (concat xs))) sd = Some h1 \<and>
       XXH3_128bits_withSeed (concat xs) (of_nat (length (concat xs))) sd = Some h2 \<and>
       XXH3_64bits_withSecret (concat xs) (of_nat (length (concat xs))) secret S = Some h3 \<and>
       XXH3_128bits_withSecret (concat xs) (of_nat (length (concat xs))) secret S = Some h4)"
proof -
  have "XXH3_synced st" by (rule XXH3_reachable_synced [OF assms(1)])
  moreover have "unat (of_nat (length (concat xs)) :: u64) \<le> length (concat xs)"
    using assms(2) by (simp add: unat_of_nat_small)
  ultimately show ?thesis
    using XXH3_stream_seed_eq [OF _ assms(2)] XXH3_stream_secret_eq [OF _ assms(3-5,2)]
      XXH3_64bits_withSeed_total XXH3_128bits_withSeed_total
      XXH3_64bits_withSecret_total [OF _ assms(3,4)] XXH3_128bits_withSecret_total [OF _ assms(3,4)]
    by (simp add: XXH3_reset_128 XXH3_synced_def)
qed

text \<open>A state whose memory is all zero.\<close>

definition zero_state :: XXH3_state_t where
  "zero_state = \<lparr>acc = replicate 8 0, customSecret = replicate 192 0, buffer = replicate 256 0, bufferedSize = 0,
     nbStripesSoFar = 0, totalLen = 0, nbStripesPerBlock = 0, secretLimit = 0, seed = 0, extSecret = None\<rparr>"

theorem XXH3_stream_eq_witness:
  "XXH3_stream (XXH3_64bits_reset_withSeed (XXH3_INITSTATE zero_state) 7) XXH3_64bits_digest
     [replicate 200 1, [], replicate 500 2, [3]] =
   XXH3_64bits_withSeed (replicate 200 1 @ replicate 500 2 @ [3]) 701 7"
proof -
  have "XXH3_reachable (XXH3_INITSTATE zero_state)" by (rule XXH3_reachable.init) (simp add: zero_state_def)
  from XXH3_stream_eq [OF this, of "[replicate 200 1, [], replicate 500 2, [3]]" 136 "replicate 136 0" 7] show ?thesis by simp
qed

end
