(* ===== verification/XXH3_Vector.thy ===== *)
theory XXH3_Vector
  imports XXH3_128
begin

text \<open>
  The vector versions of the inner loops of XXH3 (\<open>hash/orig_xhash.hh\<close>), one of which the build selects by the processor:
  AVX-512, AVX2, SSE2, NEON and VSX. A vector register is the list of its 64-bit lanes, the lowest first; the intrinsics are
  defined as their documentation says. The theorems show that each version computes what the scalar one computes, and so the same
  hash.
\<close>

section \<open>Intrinsics\<close>

text \<open>The two 32-bit elements of a lane, and a lane made of two.\<close>

definition dword_lo :: "u64 \<Rightarrow> u32" where
  "dword_lo x = ucast x"

definition dword_hi :: "u64 \<Rightarrow> u32" where
  "dword_hi x = ucast (shr x 32)"

definition make_lane :: "u32 \<Rightarrow> u32 \<Rightarrow> u64" where
  "make_lane lo hi = ucast lo OR shl (ucast hi) 32"

text \<open>An unaligned load of \<open>n\<close> lanes.\<close>

primrec vec_loadu :: "nat \<Rightarrow> bytes \<Rightarrow> nat \<Rightarrow> u64 list option" where
  "vec_loadu 0 p off = Some []"
| "vec_loadu (Suc n) p off = do { x \<leftarrow> read64 p off; xs \<leftarrow> vec_loadu n p (off + 8); Some (x # xs) }"

definition vec_xor :: "u64 list \<Rightarrow> u64 list \<Rightarrow> u64 list" where
  "vec_xor a b = map2 (XOR) a b"

definition add_epi64 :: "u64 list \<Rightarrow> u64 list \<Rightarrow> u64 list" where
  "add_epi64 a b = map2 (+) a b"

text \<open>The product of the low elements of each lane, as 64 bits.\<close>

definition mul_epu32 :: "u64 list \<Rightarrow> u64 list \<Rightarrow> u64 list" where
  "mul_epu32 a b = map2 (\<lambda>x y. ucast (dword_lo x) * ucast (dword_lo y)) a b"

definition srli_epi64 :: "u64 list \<Rightarrow> nat \<Rightarrow> u64 list" where
  "srli_epi64 a k = map (\<lambda>x. shr x k) a"

definition slli_epi64 :: "u64 list \<Rightarrow> nat \<Rightarrow> u64 list" where
  "slli_epi64 a k = map (\<lambda>x. shl x k) a"

text \<open>
  \<open>shuffle_epi32(a, _MM_SHUFFLE(z, y, x, w))\<close>: in each 128 bits, the elements \<open>w\<close>, \<open>x\<close>, \<open>y\<close>, \<open>z\<close>, the lowest first.
\<close>

fun shuffle_epi32 :: "u64 list \<Rightarrow> nat \<times> nat \<times> nat \<times> nat \<Rightarrow> u64 list" where
  "shuffle_epi32 (a # b # r) (z, y, x, w) =
     (let d = [dword_lo a, dword_hi a, dword_lo b, dword_hi b]
      in make_lane (d ! w) (d ! x) # make_lane (d ! y) (d ! z) # shuffle_epi32 r (z, y, x, w))"
| "shuffle_epi32 _ _ = []"

definition set1_epi32 :: "nat \<Rightarrow> u32 \<Rightarrow> u64 list" where
  "set1_epi32 n v = replicate n (make_lane v v)"

text \<open>A lane is replaced where its bit of the mask is set.\<close>

definition mask_set1_epi64 :: "u64 list \<Rightarrow> u8 \<Rightarrow> u64 \<Rightarrow> u64 list" where
  "mask_set1_epi64 src m v = map (\<lambda>(i, x). if bit m i then v else x) (zip [0..<length src] src)"

section \<open>SSE2, AVX2 and AVX-512\<close>

text \<open>
  The three versions differ in the number of lanes of a register: the bodies of their loops, on one register of accumulators.
\<close>

definition accumulate_x86 :: "u64 list \<Rightarrow> u64 list \<Rightarrow> u64 list \<Rightarrow> u64 list" where
  "accumulate_x86 data_vec key_vec xacc =
     (let data_key = vec_xor data_vec key_vec;
          data_key_lo = shuffle_epi32 data_key (0, 3, 0, 1);
          product = mul_epu32 data_key data_key_lo;
          data_swap = shuffle_epi32 data_vec (1, 0, 3, 2);
          sum = add_epi64 xacc data_swap
      in add_epi64 product sum)"

definition scramble_x86 :: "u64 list \<Rightarrow> u64 list \<Rightarrow> u64 list" where
  "scramble_x86 key_vec acc_vec =
     (let prime32 = set1_epi32 (length acc_vec) XXH_PRIME32_1;
          shifted = srli_epi64 acc_vec 47;
          data_vec = vec_xor acc_vec shifted;
          data_key = vec_xor data_vec key_vec;
          data_key_hi = shuffle_epi32 data_key (0, 3, 0, 1);
          prod_lo = mul_epu32 data_key prime32;
          prod_hi = mul_epu32 data_key_hi prime32
      in add_epi64 prod_lo (slli_epi64 prod_hi 32))"

text \<open>The register \<open>xacc[i]\<close> of \<open>n\<close> lanes, and storing it.\<close>

definition vec_at :: "nat \<Rightarrow> nat \<Rightarrow> u64 list \<Rightarrow> u64 list" where
  "vec_at n i acc = take n (drop (n * i) acc)"

definition vec_put :: "nat \<Rightarrow> nat \<Rightarrow> u64 list \<Rightarrow> u64 list \<Rightarrow> u64 list" where
  "vec_put n i v acc = take (n * i) acc @ v @ drop (n * i + n) acc"

text \<open>The loops \<open>for (i=0; i < XXH_STRIPE_LEN/sizeof(vector); i++)\<close> over the registers of a stripe.\<close>

definition accumulate_loop :: "nat \<Rightarrow> (u64 list \<Rightarrow> u64 list \<Rightarrow> u64 list \<Rightarrow> u64 list) \<Rightarrow> bytes \<Rightarrow> nat \<Rightarrow> bytes \<Rightarrow> nat \<Rightarrow>
    u64 list \<Rightarrow> u64 list option" where
  "accumulate_loop n body input p secret s acc =
     for_opt [0..<64 div (8 * n)] (\<lambda>i xacc. do {
       data_vec \<leftarrow> vec_loadu n input (p + 8 * n * i);
       key_vec \<leftarrow> vec_loadu n secret (s + 8 * n * i);
       Some (vec_put n i (body data_vec key_vec (vec_at n i xacc)) xacc)
     }) acc"

definition scramble_loop :: "nat \<Rightarrow> (u64 list \<Rightarrow> u64 list \<Rightarrow> u64 list) \<Rightarrow> u64 list \<Rightarrow> bytes \<Rightarrow> nat \<Rightarrow> u64 list option" where
  "scramble_loop n body acc secret s =
     for_opt [0..<64 div (8 * n)] (\<lambda>i xacc. do {
       key_vec \<leftarrow> vec_loadu n secret (s + 8 * n * i);
       Some (vec_put n i (body key_vec (vec_at n i xacc)) xacc)
     }) acc"

definition XXH3_accumulate_512_avx512 :: "bytes \<Rightarrow> nat \<Rightarrow> bytes \<Rightarrow> nat \<Rightarrow> u64 list \<Rightarrow> u64 list option" where
  "XXH3_accumulate_512_avx512 input p secret s xacc = do {
     data_vec \<leftarrow> vec_loadu 8 input p;
     key_vec \<leftarrow> vec_loadu 8 secret s;
     Some (accumulate_x86 data_vec key_vec xacc)
   }"

definition XXH3_scrambleAcc_avx512 :: "u64 list \<Rightarrow> bytes \<Rightarrow> nat \<Rightarrow> u64 list option" where
  "XXH3_scrambleAcc_avx512 xacc secret s = do {
     key_vec \<leftarrow> vec_loadu 8 secret s;
     Some (scramble_x86 key_vec xacc)
   }"

definition XXH3_accumulate_512_avx2 :: "bytes \<Rightarrow> nat \<Rightarrow> bytes \<Rightarrow> nat \<Rightarrow> u64 list \<Rightarrow> u64 list option" where
  "XXH3_accumulate_512_avx2 = accumulate_loop 4 accumulate_x86"

definition XXH3_scrambleAcc_avx2 :: "u64 list \<Rightarrow> bytes \<Rightarrow> nat \<Rightarrow> u64 list option" where
  "XXH3_scrambleAcc_avx2 = scramble_loop 4 scramble_x86"

definition XXH3_accumulate_512_sse2 :: "bytes \<Rightarrow> nat \<Rightarrow> bytes \<Rightarrow> nat \<Rightarrow> u64 list \<Rightarrow> u64 list option" where
  "XXH3_accumulate_512_sse2 = accumulate_loop 2 accumulate_x86"

definition XXH3_scrambleAcc_sse2 :: "u64 list \<Rightarrow> bytes \<Rightarrow> nat \<Rightarrow> u64 list option" where
  "XXH3_scrambleAcc_sse2 = scramble_loop 2 scramble_x86"

text \<open>The secret for a seed: each register of the default secret is added to a register of seeds, alternately positive and negative.\<close>

definition store_vec :: "u64 list \<Rightarrow> bytes" where
  "store_vec v = concat (map (le_bytes 8) v)"

definition add_seed :: "nat \<Rightarrow> u64 list \<Rightarrow> nat \<Rightarrow> bytes \<Rightarrow> bytes option" where
  "add_seed n seed i dest = do {
     v \<leftarrow> vec_loadu n XXH3_kSecret (8 * n * i);
     Some (dest @ store_vec (add_epi64 v seed))
   }"

definition XXH3_initCustomSecret_avx512 :: "u64 \<Rightarrow> bytes option" where
  "XXH3_initCustomSecret_avx512 seed64 =
     (let nbRounds = 192 div 64; seed = mask_set1_epi64 (replicate 8 seed64) 0xAA (- seed64)
      in for_opt [0..<nbRounds] (add_seed 8 seed) [])"

definition XXH3_initCustomSecret_avx2 :: "u64 \<Rightarrow> bytes option" where
  "XXH3_initCustomSecret_avx2 seed64 =
     (let seed = [seed64, - seed64, seed64, - seed64] in for_opt [0, 1, 2, 3, 4, 5] (add_seed 4 seed) [])"

definition XXH3_initCustomSecret_sse2 :: "u64 \<Rightarrow> bytes option" where
  "XXH3_initCustomSecret_sse2 seed64 =
     (let nbRounds = 192 div 16; seed = [seed64, - seed64] in for_opt [0..<nbRounds] (add_seed 2 seed) [])"

section \<open>NEON\<close>

text \<open>
  Both forms of \<open>XXH_SPLIT_IN_PLACE\<close>: the instruction \<open>vzip.32\<close> on the halves of the register, and narrowing.
\<close>

definition split_vzip :: "u64 list \<Rightarrow> u32 list \<times> u32 list" where
  "split_vzip v =
     (case v of
        [a, b] \<Rightarrow> let (d0, d1) = ([dword_lo a, dword_hi a], [dword_lo b, dword_hi b])
                  in ([d0 ! 0, d1 ! 0], [d0 ! 1, d1 ! 1])
      | _ \<Rightarrow> ([], []))"

definition split_narrow :: "u64 list \<Rightarrow> u32 list \<times> u32 list" where
  "split_narrow v = (map ucast v, map (\<lambda>x. ucast (shr x 32)) v)"

definition vmull_u32 :: "u32 list \<Rightarrow> u32 list \<Rightarrow> u64 list" where
  "vmull_u32 a b = map2 (\<lambda>x y. ucast x * ucast y) a b"

definition vmlal_u32 :: "u64 list \<Rightarrow> u32 list \<Rightarrow> u32 list \<Rightarrow> u64 list" where
  "vmlal_u32 acc a b = map2 (+) acc (vmull_u32 a b)"

text \<open>\<open>vextq_u64(a, b, 1)\<close>: the upper lane of \<open>a\<close> and the lower lane of \<open>b\<close>.\<close>

definition vextq_u64_1 :: "u64 list \<Rightarrow> u64 list \<Rightarrow> u64 list" where
  "vextq_u64_1 a b = drop 1 a @ take 1 b"

definition accumulate_neon :: "(u64 list \<Rightarrow> u32 list \<times> u32 list) \<Rightarrow> u64 list \<Rightarrow> u64 list \<Rightarrow> u64 list \<Rightarrow> u64 list" where
  "accumulate_neon split_in_place data_vec key_vec xacc =
     (let swapped = vextq_u64_1 data_vec data_vec;
          xacc = add_epi64 xacc swapped;
          data_key = vec_xor data_vec key_vec;
          (data_key_lo, data_key_hi) = split_in_place data_key
      in vmlal_u32 xacc data_key_lo data_key_hi)"

definition scramble_neon :: "(u64 list \<Rightarrow> u32 list \<times> u32 list) \<Rightarrow> u64 list \<Rightarrow> u64 list \<Rightarrow> u64 list" where
  "scramble_neon split_in_place key_vec acc_vec =
     (let prime = [XXH_PRIME32_1, XXH_PRIME32_1];
          shifted = srli_epi64 acc_vec 47;
          data_vec = vec_xor acc_vec shifted;
          data_key = vec_xor data_vec key_vec;
          (data_key_lo, data_key_hi) = split_in_place data_key;
          prod_hi = vmull_u32 data_key_hi prime
      in vmlal_u32 (slli_epi64 prod_hi 32) data_key_lo prime)"

definition XXH3_accumulate_512_neon :: "(u64 list \<Rightarrow> u32 list \<times> u32 list) \<Rightarrow> bytes \<Rightarrow> nat \<Rightarrow> bytes \<Rightarrow> nat \<Rightarrow> u64 list \<Rightarrow>
    u64 list option" where
  "XXH3_accumulate_512_neon split_in_place = accumulate_loop 2 (accumulate_neon split_in_place)"

definition XXH3_scrambleAcc_neon :: "(u64 list \<Rightarrow> u32 list \<times> u32 list) \<Rightarrow> u64 list \<Rightarrow> bytes \<Rightarrow> nat \<Rightarrow> u64 list option" where
  "XXH3_scrambleAcc_neon split_in_place = scramble_loop 2 (scramble_neon split_in_place)"

section \<open>VSX\<close>

text \<open>
  The rotation of each lane, and the products of the odd (low) and of the even (high) elements; the swap of the two lanes.
\<close>

definition vec_rl :: "u64 list \<Rightarrow> u64 list" where
  "vec_rl v = map (\<lambda>x. make_lane (dword_hi x) (dword_lo x)) v"

definition XXH_vec_mulo :: "u64 list \<Rightarrow> u64 list \<Rightarrow> u64 list" where
  "XXH_vec_mulo a b = map2 (\<lambda>x y. ucast (dword_lo x) * ucast (dword_lo y)) a b"

definition XXH_vec_mule :: "u64 list \<Rightarrow> u64 list \<Rightarrow> u64 list" where
  "XXH_vec_mule a b = map2 (\<lambda>x y. ucast (dword_hi x) * ucast (dword_hi y)) a b"

definition vec_xxpermdi_2 :: "u64 list \<Rightarrow> u64 list \<Rightarrow> u64 list" where
  "vec_xxpermdi_2 a b = drop 1 a @ take 1 b"

definition accumulate_vsx :: "u64 list \<Rightarrow> u64 list \<Rightarrow> u64 list \<Rightarrow> u64 list" where
  "accumulate_vsx data_vec key_vec xacc =
     (let data_key = vec_xor data_vec key_vec;
          shuffled = vec_rl data_key;
          product = XXH_vec_mulo data_key shuffled;
          xacc = add_epi64 xacc product
      in add_epi64 xacc (vec_xxpermdi_2 data_vec data_vec))"

definition scramble_vsx :: "u64 list \<Rightarrow> u64 list \<Rightarrow> u64 list" where
  "scramble_vsx key_vec acc_vec =
     (let prime = replicate 2 (make_lane XXH_PRIME32_1 XXH_PRIME32_1);
          data_vec = vec_xor acc_vec (srli_epi64 acc_vec 47);
          data_key = vec_xor data_vec key_vec;
          prod_even = XXH_vec_mule data_key prime;
          prod_odd = XXH_vec_mulo data_key prime
      in add_epi64 prod_odd (slli_epi64 prod_even 32))"

definition XXH3_accumulate_512_vsx :: "bytes \<Rightarrow> nat \<Rightarrow> bytes \<Rightarrow> nat \<Rightarrow> u64 list \<Rightarrow> u64 list option" where
  "XXH3_accumulate_512_vsx = accumulate_loop 2 accumulate_vsx"

definition XXH3_scrambleAcc_vsx :: "u64 list \<Rightarrow> bytes \<Rightarrow> nat \<Rightarrow> u64 list option" where
  "XXH3_scrambleAcc_vsx = scramble_loop 2 scramble_vsx"

section \<open>The hash over a choice of inner loops\<close>

text \<open>The functions that take the inner loops as arguments, with the chosen ones.\<close>

type_synonym f_accumulate_512 = "bytes \<Rightarrow> nat \<Rightarrow> bytes \<Rightarrow> nat \<Rightarrow> u64 list \<Rightarrow> u64 list option"
type_synonym f_scrambleAcc = "u64 list \<Rightarrow> bytes \<Rightarrow> nat \<Rightarrow> u64 list option"
type_synonym f_initCustomSecret = "u64 \<Rightarrow> bytes option"

definition accumulate_with :: "f_accumulate_512 \<Rightarrow> u64 list \<Rightarrow> bytes \<Rightarrow> nat \<Rightarrow> bytes \<Rightarrow> nat \<Rightarrow> u64 list option" where
  "accumulate_with f_acc512 acc input p secret nbStripes =
     for_opt [0..<nbStripes] (\<lambda>n acc. f_acc512 input (p + n * 64) secret (n * 8) acc) acc"

definition hashLong_internal_loop_with :: "f_accumulate_512 \<Rightarrow> f_scrambleAcc \<Rightarrow> u64 list \<Rightarrow> bytes \<Rightarrow> nat \<Rightarrow> bytes \<Rightarrow> nat \<Rightarrow>
    u64 list option" where
  "hashLong_internal_loop_with f_acc512 f_scramble acc input len secret secretSize = do {
     let nbStripesPerBlock = (secretSize - 64) div 8;
     let block_len = 64 * nbStripesPerBlock;
     let nb_blocks = (len - 1) div block_len;
     acc \<leftarrow> for_opt [0..<nb_blocks] (\<lambda>n acc. do {
       acc \<leftarrow> accumulate_with f_acc512 acc input (n * block_len) secret nbStripesPerBlock;
       f_scramble acc secret (secretSize - 64)
     }) acc;
     let nbStripes = ((len - 1) - block_len * nb_blocks) div 64;
     acc \<leftarrow> accumulate_with f_acc512 acc input (nb_blocks * block_len) secret nbStripes;
     f_acc512 input (len - 64) secret (secretSize - 64 - 7) acc
   }"

definition hashLong_64b_internal_with :: "f_accumulate_512 \<Rightarrow> f_scrambleAcc \<Rightarrow> bytes \<Rightarrow> nat \<Rightarrow> bytes \<Rightarrow> nat \<Rightarrow> u64 option" where
  "hashLong_64b_internal_with f_acc512 f_scramble input len secret secretSize = do {
     acc \<leftarrow> hashLong_internal_loop_with f_acc512 f_scramble XXH3_INIT_ACC input len secret secretSize;
     XXH3_mergeAccs acc secret 11 (of_nat len * XXH_PRIME64_1)
   }"

definition hashLong_128b_internal_with :: "f_accumulate_512 \<Rightarrow> f_scrambleAcc \<Rightarrow> bytes \<Rightarrow> nat \<Rightarrow> bytes \<Rightarrow> nat \<Rightarrow> XXH128_hash_t option" where
  "hashLong_128b_internal_with f_acc512 f_scramble input len secret secretSize = do {
     acc \<leftarrow> hashLong_internal_loop_with f_acc512 f_scramble XXH3_INIT_ACC input len secret secretSize;
     XXH128_mergeAccs acc secret secretSize (of_nat len)
   }"

text \<open>With a seed, the long hash takes the default secret or one made from the seed.\<close>

definition hashLong_withSeed_with :: "f_initCustomSecret \<Rightarrow> (bytes \<Rightarrow> nat \<Rightarrow> bytes \<Rightarrow> nat \<Rightarrow> 'h option) \<Rightarrow> bytes \<Rightarrow> nat \<Rightarrow> u64 \<Rightarrow>
    bytes \<Rightarrow> nat \<Rightarrow> 'h option" where
  "hashLong_withSeed_with f_initSec f_internal input len seed secret secretLen =
     (if seed = 0 then f_internal input len XXH3_kSecret (length XXH3_kSecret)
      else do { custom \<leftarrow> f_initSec seed; f_internal input len custom (length custom) })"

definition XXH3_64bits_with :: "f_accumulate_512 \<Rightarrow> f_scrambleAcc \<Rightarrow> bytes \<Rightarrow> u64 \<Rightarrow> u64 option" where
  "XXH3_64bits_with f_acc512 f_scramble input len =
     XXH3_64bits_internal input len 0 XXH3_kSecret (length XXH3_kSecret)
       (\<lambda>input len seed64 secret secretLen. hashLong_64b_internal_with f_acc512 f_scramble input len XXH3_kSecret (length XXH3_kSecret))"

definition XXH3_64bits_withSeed_with :: "f_accumulate_512 \<Rightarrow> f_scrambleAcc \<Rightarrow> f_initCustomSecret \<Rightarrow> bytes \<Rightarrow> u64 \<Rightarrow> u64 \<Rightarrow> u64 option" where
  "XXH3_64bits_withSeed_with f_acc512 f_scramble f_initSec input len seed =
     XXH3_64bits_internal input len seed XXH3_kSecret (length XXH3_kSecret)
       (hashLong_withSeed_with f_initSec (hashLong_64b_internal_with f_acc512 f_scramble))"

definition XXH3_128bits_withSeed_with :: "f_accumulate_512 \<Rightarrow> f_scrambleAcc \<Rightarrow> f_initCustomSecret \<Rightarrow> bytes \<Rightarrow> u64 \<Rightarrow> u64 \<Rightarrow>
    XXH128_hash_t option" where
  "XXH3_128bits_withSeed_with f_acc512 f_scramble f_initSec input len seed =
     XXH3_128bits_internal input len seed XXH3_kSecret (length XXH3_kSecret)
       (hashLong_withSeed_with f_initSec (hashLong_128b_internal_with f_acc512 f_scramble))"

text \<open>The choices of \<open>XXH_VECTOR\<close>; NEON with either form of its split.\<close>

definition vector_versions :: "(f_accumulate_512 \<times> f_scrambleAcc \<times> f_initCustomSecret) list" where
  "vector_versions =
     [(XXH3_accumulate_512_avx512, XXH3_scrambleAcc_avx512, XXH3_initCustomSecret_avx512),
      (XXH3_accumulate_512_avx2, XXH3_scrambleAcc_avx2, XXH3_initCustomSecret_avx2),
      (XXH3_accumulate_512_sse2, XXH3_scrambleAcc_sse2, XXH3_initCustomSecret_sse2),
      (XXH3_accumulate_512_neon split_vzip, XXH3_scrambleAcc_neon split_vzip, XXH3_initCustomSecret),
      (XXH3_accumulate_512_neon split_narrow, XXH3_scrambleAcc_neon split_narrow, XXH3_initCustomSecret),
      (XXH3_accumulate_512_vsx, XXH3_scrambleAcc_vsx, XXH3_initCustomSecret)]"

section \<open>Lanes\<close>

lemma dword_lo_make [simp]: "dword_lo (make_lane a b) = a"
  unfolding dword_lo_def make_lane_def
  by (rule bit_word_eqI) (simp add: bit_ucast_iff bit_or_iff bit_push_bit_iff)

lemma dword_hi_make [simp]: "dword_hi (make_lane a b) = b"
  unfolding dword_hi_def make_lane_def
  by (rule bit_word_eqI) (auto simp: bit_ucast_iff bit_or_iff bit_push_bit_iff bit_drop_bit_eq dest: bit_imp_le_length)

lemma make_lane_dwords [simp]: "make_lane (dword_lo x) (dword_hi x) = x"
  unfolding dword_hi_def dword_lo_def make_lane_def
  by (rule bit_word_eqI) (auto simp: bit_ucast_iff bit_or_iff bit_push_bit_iff bit_drop_bit_eq)

lemma mult32to64_dwords: "XXH_mult32to64 (x AND 0xFFFFFFFF) (shr x 32) = ucast (dword_lo x) * ucast (dword_hi x)"
proof -
  have "x AND 0xFFFFFFFF = take_bit 32 x" by (simp add: take_bit_eq_mask mask_eq_exp_minus_1)
  then have "(ucast (x AND 0xFFFFFFFF) :: u32) = ucast x"
    by (intro bit_word_eqI) (simp add: bit_ucast_iff bit_take_bit_iff)
  then show ?thesis by (simp add: XXH_mult32to64_def dword_lo_def dword_hi_def)
qed

lemma mult_dwords: "x * ucast c = ucast (dword_lo x) * ucast c + shl (ucast (dword_hi x) * ucast c) 32" for x :: u64 and c :: u32
proof -
  have "x = ucast (dword_lo x) + shl (ucast (dword_hi x)) 32"
  proof -
    have "(ucast (dword_lo x) :: u64) AND shl (ucast (dword_hi x)) 32 = 0"
      by (rule bit_word_eqI) (auto simp: bit_and_iff bit_ucast_iff bit_push_bit_iff dword_lo_def dword_hi_def)
    then show ?thesis using make_lane_dwords [of x] by (simp add: make_lane_def disjunctive_add_eq_or)
  qed
  then have "x * ucast c = (ucast (dword_lo x) + ucast (dword_hi x) * 2 ^ 32) * ucast c" by (simp add: push_bit_eq_mult)
  then show ?thesis by (simp add: push_bit_eq_mult algebra_simps)
qed

text \<open>What a lane of a stripe contributes, and how a lane is scrambled.\<close>

definition lane_product :: "u64 \<Rightarrow> u64 \<Rightarrow> u64" where
  "lane_product d k = ucast (dword_lo (d XOR k)) * ucast (dword_hi (d XOR k))"

definition lane_scramble :: "u64 \<Rightarrow> u64 \<Rightarrow> u64" where
  "lane_scramble k x = (x XOR shr x 47 XOR k) * ucast XXH_PRIME32_1"

lemma lane_scramble_eq:
  "lane_scramble k x = ucast (dword_lo (x XOR shr x 47 XOR k)) * ucast XXH_PRIME32_1 +
     shl (ucast (dword_hi (x XOR shr x 47 XOR k)) * ucast XXH_PRIME32_1) 32"
  unfolding lane_scramble_def by (rule mult_dwords)

lemma split_narrow_eq: "split_narrow v = (map dword_lo v, map dword_hi v)"
  by (simp add: split_narrow_def dword_lo_def dword_hi_def)

lemmas vec_defs = vec_xor_def add_epi64_def mul_epu32_def srli_epi64_def slli_epi64_def set1_epi32_def
  XXH_vec_mulo_def XXH_vec_mule_def vec_rl_def vec_xxpermdi_2_def vextq_u64_1_def vmlal_u32_def vmull_u32_def split_vzip_def split_narrow_eq

text \<open>One pair of lanes, in each of the versions.\<close>

lemma accumulate_pair:
  "accumulate_x86 [d0, d1] [k0, k1] [a0, a1] = [a0 + d1 + lane_product d0 k0, a1 + d0 + lane_product d1 k1]"
  "accumulate_neon split_vzip [d0, d1] [k0, k1] [a0, a1] = [a0 + d1 + lane_product d0 k0, a1 + d0 + lane_product d1 k1]"
  "accumulate_neon split_narrow [d0, d1] [k0, k1] [a0, a1] = [a0 + d1 + lane_product d0 k0, a1 + d0 + lane_product d1 k1]"
  "accumulate_vsx [d0, d1] [k0, k1] [a0, a1] = [a0 + d1 + lane_product d0 k0, a1 + d0 + lane_product d1 k1]"
  by (simp_all add: accumulate_x86_def accumulate_neon_def accumulate_vsx_def vec_defs lane_product_def Let_def ac_simps)

lemma scramble_pair:
  "scramble_x86 [k0, k1] [a0, a1] = [lane_scramble k0 a0, lane_scramble k1 a1]"
  "scramble_neon split_vzip [k0, k1] [a0, a1] = [lane_scramble k0 a0, lane_scramble k1 a1]"
  "scramble_neon split_narrow [k0, k1] [a0, a1] = [lane_scramble k0 a0, lane_scramble k1 a1]"
  "scramble_vsx [k0, k1] [a0, a1] = [lane_scramble k0 a0, lane_scramble k1 a1]"
  by (simp_all add: scramble_x86_def scramble_neon_def scramble_vsx_def vec_defs lane_scramble_eq Let_def numeral_2_eq_2 ac_simps)

text \<open>Longer registers are pairs of lanes side by side.\<close>

lemma accumulate_x86_Cons:
  "accumulate_x86 (d0 # d1 # ds) (k0 # k1 # ks) (a0 # a1 # as) = accumulate_x86 [d0, d1] [k0, k1] [a0, a1] @ accumulate_x86 ds ks as"
  by (simp add: accumulate_x86_def vec_defs Let_def)

lemma scramble_x86_Cons:
  "scramble_x86 (k0 # k1 # ks) (a0 # a1 # as) = scramble_x86 [k0, k1] [a0, a1] @ scramble_x86 ks as"
  by (simp add: scramble_x86_def vec_defs Let_def)

section \<open>Stripes\<close>

text \<open>The lanes of a stripe that can be read, and a stripe that cannot.\<close>

definition stripe_lanes :: "bytes \<Rightarrow> nat \<Rightarrow> u64 list \<Rightarrow> bool" where
  "stripe_lanes p off ds \<longleftrightarrow> length ds = 8 \<and> (\<forall>i < 8. read64 p (off + 8 * i) = Some (ds ! i))"

lemma stripe_lanes_ex: "off + 64 \<le> length p \<Longrightarrow> \<exists>ds. stripe_lanes p off ds"
  by (intro exI [of _ "map (\<lambda>i. le_word (window 8 p (off + 8 * i))) [0..<8]"]) (simp add: stripe_lanes_def safe_reads)

lemma stripe_lanes_reads:
  assumes "stripe_lanes p off [d0, d1, d2, d3, d4, d5, d6, d7]"
  shows "read64 p off = Some d0" "read64 p (off + 8) = Some d1" "read64 p (off + 16) = Some d2" "read64 p (off + 24) = Some d3" "read64 p (off + 32) = Some d4" "read64 p (off + 40) = Some d5" "read64 p (off + 48) = Some d6" "read64 p (off + 56) = Some d7"
proof -
  have h: "i < 8 \<Longrightarrow> read64 p (off + 8 * i) = Some ([d0, d1, d2, d3, d4, d5, d6, d7] ! i)" for i using assms by (simp add: stripe_lanes_def)
  show "read64 p off = Some d0" "read64 p (off + 8) = Some d1" "read64 p (off + 16) = Some d2" "read64 p (off + 24) = Some d3" "read64 p (off + 32) = Some d4" "read64 p (off + 40) = Some d5" "read64 p (off + 48) = Some d6" "read64 p (off + 56) = Some d7"
    using h [of 0] h [of 1] h [of 2] h [of 3] h [of 4] h [of 5] h [of 6] h [of 7] by simp_all
qed

lemma scalar_accumulate_lanes:
  assumes "stripe_lanes input p [d0, d1, d2, d3, d4, d5, d6, d7]" "stripe_lanes secret s [k0, k1, k2, k3, k4, k5, k6, k7]"
  shows "XXH3_accumulate_512 input p secret s [a0, a1, a2, a3, a4, a5, a6, a7] = Some [a0 + d1 + lane_product d0 k0, a1 + d0 + lane_product d1 k1, a2 + d3 + lane_product d2 k2, a3 + d2 + lane_product d3 k3, a4 + d5 + lane_product d4 k4, a5 + d4 + lane_product d5 k5, a6 + d7 + lane_product d6 k6, a7 + d6 + lane_product d7 k7]"
  using stripe_lanes_reads [OF assms(1)] stripe_lanes_reads [OF assms(2)]
  by (simp add: XXH3_accumulate_512_def XXH_readLE64_def upt_rec nth_opt_def mult32to64_dwords lane_product_def Let_def ac_simps)

lemma scalar_scramble_lanes:
  assumes "stripe_lanes secret s [k0, k1, k2, k3, k4, k5, k6, k7]"
  shows "XXH3_scrambleAcc [a0, a1, a2, a3, a4, a5, a6, a7] secret s = Some [lane_scramble k0 a0, lane_scramble k1 a1, lane_scramble k2 a2, lane_scramble k3 a3, lane_scramble k4 a4, lane_scramble k5 a5, lane_scramble k6 a6, lane_scramble k7 a7]"
  using stripe_lanes_reads [OF assms(1)]
  by (simp add: XXH3_scrambleAcc_def XXH_readLE64_def upt_rec nth_opt_def XXH_xorshift64_def lane_scramble_def Let_def xor.assoc)

text \<open>Registers of two, four and eight lanes.\<close>

lemma stripe_loads:
  assumes "stripe_lanes p off [d0, d1, d2, d3, d4, d5, d6, d7]"
  shows "vec_loadu 2 p off = Some [d0, d1]" "vec_loadu 2 p (off + 16) = Some [d2, d3]" "vec_loadu 2 p (off + 32) = Some [d4, d5]" "vec_loadu 2 p (off + 48) = Some [d6, d7]"
    "vec_loadu 4 p off = Some [d0, d1, d2, d3]" "vec_loadu 4 p (off + 32) = Some [d4, d5, d6, d7]"
    "vec_loadu 8 p off = Some [d0, d1, d2, d3, d4, d5, d6, d7]"
proof -
  note r = stripe_lanes_reads [OF assms]
  have c: "read64 p (8 + off) = Some d1" "read64 p (16 + off) = Some d2" "read64 p (24 + off) = Some d3" "read64 p (32 + off) = Some d4" "read64 p (40 + off) = Some d5" "read64 p (48 + off) = Some d6" "read64 p (56 + off) = Some d7"
    using r by (simp_all add: add.commute [of _ off])
  show "vec_loadu 2 p off = Some [d0, d1]" "vec_loadu 2 p (off + 16) = Some [d2, d3]" "vec_loadu 2 p (off + 32) = Some [d4, d5]" "vec_loadu 2 p (off + 48) = Some [d6, d7]"
    using r c by (simp_all add: numeral_2_eq_2)
  show "vec_loadu 4 p off = Some [d0, d1, d2, d3]" "vec_loadu 4 p (off + 32) = Some [d4, d5, d6, d7]"
    using r c by (simp_all add: eval_nat_numeral(2,3) numeral_2_eq_2)
  show "vec_loadu 8 p off = Some [d0, d1, d2, d3, d4, d5, d6, d7]"
    using r c by (simp add: numeral_eq_Suc)
qed

lemma accumulate_loop_2:
  assumes "stripe_lanes input p [d0, d1, d2, d3, d4, d5, d6, d7]" "stripe_lanes secret s [k0, k1, k2, k3, k4, k5, k6, k7]"
    "\<forall>d0 d1 k0 k1 a0 a1. body [d0, d1] [k0, k1] [a0, a1] = [a0 + d1 + lane_product d0 k0, a1 + d0 + lane_product d1 k1]"
  shows "accumulate_loop 2 body input p secret s [a0, a1, a2, a3, a4, a5, a6, a7] = Some [a0 + d1 + lane_product d0 k0, a1 + d0 + lane_product d1 k1, a2 + d3 + lane_product d2 k2, a3 + d2 + lane_product d3 k3, a4 + d5 + lane_product d4 k4, a5 + d4 + lane_product d5 k5, a6 + d7 + lane_product d6 k6, a7 + d6 + lane_product d7 k7]"
  using stripe_loads [OF assms(1)] stripe_loads [OF assms(2)] assms(3)
  by (simp add: accumulate_loop_def upt_rec vec_at_def vec_put_def)

lemma accumulate_loop_4:
  assumes "stripe_lanes input p [d0, d1, d2, d3, d4, d5, d6, d7]" "stripe_lanes secret s [k0, k1, k2, k3, k4, k5, k6, k7]"
  shows "accumulate_loop 4 accumulate_x86 input p secret s [a0, a1, a2, a3, a4, a5, a6, a7] = Some [a0 + d1 + lane_product d0 k0, a1 + d0 + lane_product d1 k1, a2 + d3 + lane_product d2 k2, a3 + d2 + lane_product d3 k3, a4 + d5 + lane_product d4 k4, a5 + d4 + lane_product d5 k5, a6 + d7 + lane_product d6 k6, a7 + d6 + lane_product d7 k7]"
  using stripe_loads [OF assms(1)] stripe_loads [OF assms(2)]
  by (simp add: accumulate_loop_def upt_rec vec_at_def vec_put_def accumulate_pair accumulate_x86_Cons [of _ _ "_ # _"])

lemma accumulate_8:
  assumes "stripe_lanes input p [d0, d1, d2, d3, d4, d5, d6, d7]" "stripe_lanes secret s [k0, k1, k2, k3, k4, k5, k6, k7]"
  shows "XXH3_accumulate_512_avx512 input p secret s [a0, a1, a2, a3, a4, a5, a6, a7] = Some [a0 + d1 + lane_product d0 k0, a1 + d0 + lane_product d1 k1, a2 + d3 + lane_product d2 k2, a3 + d2 + lane_product d3 k3, a4 + d5 + lane_product d4 k4, a5 + d4 + lane_product d5 k5, a6 + d7 + lane_product d6 k6, a7 + d6 + lane_product d7 k7]"
  using stripe_loads [OF assms(1)] stripe_loads [OF assms(2)]
  by (simp add: XXH3_accumulate_512_avx512_def accumulate_pair accumulate_x86_Cons [of _ _ "_ # _"])

lemma scramble_loop_2:
  assumes "stripe_lanes secret s [k0, k1, k2, k3, k4, k5, k6, k7]"
    "\<forall>k0 k1 a0 a1. body [k0, k1] [a0, a1] = [lane_scramble k0 a0, lane_scramble k1 a1]"
  shows "scramble_loop 2 body [a0, a1, a2, a3, a4, a5, a6, a7] secret s = Some [lane_scramble k0 a0, lane_scramble k1 a1, lane_scramble k2 a2, lane_scramble k3 a3, lane_scramble k4 a4, lane_scramble k5 a5, lane_scramble k6 a6, lane_scramble k7 a7]"
  using stripe_loads [OF assms(1)] assms(2) by (simp add: scramble_loop_def upt_rec vec_at_def vec_put_def)

lemma scramble_loop_4:
  assumes "stripe_lanes secret s [k0, k1, k2, k3, k4, k5, k6, k7]"
  shows "scramble_loop 4 scramble_x86 [a0, a1, a2, a3, a4, a5, a6, a7] secret s = Some [lane_scramble k0 a0, lane_scramble k1 a1, lane_scramble k2 a2, lane_scramble k3 a3, lane_scramble k4 a4, lane_scramble k5 a5, lane_scramble k6 a6, lane_scramble k7 a7]"
  using stripe_loads [OF assms(1)]
  by (simp add: scramble_loop_def upt_rec vec_at_def vec_put_def scramble_pair scramble_x86_Cons [of _ _ "_ # _"])

lemma scramble_8:
  assumes "stripe_lanes secret s [k0, k1, k2, k3, k4, k5, k6, k7]"
  shows "XXH3_scrambleAcc_avx512 [a0, a1, a2, a3, a4, a5, a6, a7] secret s = Some [lane_scramble k0 a0, lane_scramble k1 a1, lane_scramble k2 a2, lane_scramble k3 a3, lane_scramble k4 a4, lane_scramble k5 a5, lane_scramble k6 a6, lane_scramble k7 a7]"
  using stripe_loads [OF assms(1)] by (simp add: XXH3_scrambleAcc_avx512_def scramble_pair scramble_x86_Cons [of _ _ "_ # _"])

text \<open>A stripe that ends outside its buffer cannot be read by any version.\<close>

lemma vec_loadu_None: "0 < n \<Longrightarrow> length p < off + 8 * n \<Longrightarrow> vec_loadu n p off = None"
proof (induction n arbitrary: off)
  case (Suc n)
  show ?case
  proof (cases n)
    case 0
    then have "read64 p off = None" using Suc.prems by (simp add: read64_None)
    then show ?thesis by simp
  next
    case (Suc m)
    then have "vec_loadu n p (off + 8) = None" using Suc.prems by (intro Suc.IH) simp_all
    then show ?thesis by (cases "read64 p off") simp_all
  qed
qed simp

lemma last_register: "n \<in> {2, 4} \<Longrightarrow> 8 * n * (64 div (8 * n) - 1) + 8 * n = 64 \<and> 0 < n \<and> 64 div (8 * n) - 1 < 64 div (8 * n)"
  for n :: nat
  by (elim insertE emptyE) simp_all

lemma accumulate_loop_None:
  assumes "n \<in> {2, 4}" "length input < p + 64 \<or> length secret < s + 64"
  shows "accumulate_loop n body input p secret s acc = None"
  unfolding accumulate_loop_def
proof (rule for_opt_None)
  let ?i = "64 div (8 * n) - 1"
  note l = last_register [OF assms(1)]
  show "?i \<in> set [0..<64 div (8 * n)]" using l by simp
  have "length input < p + 8 * n * ?i + 8 * n \<or> length secret < s + 8 * n * ?i + 8 * n" "0 < n"
    using assms(2) l by (simp_all only: add.assoc)
  then have n: "vec_loadu n input (p + 8 * n * ?i) = None \<or> vec_loadu n secret (s + 8 * n * ?i) = None"
    using vec_loadu_None [of n input "p + 8 * n * ?i"] vec_loadu_None [of n secret "s + 8 * n * ?i"] by argo
  show "(do { data_vec \<leftarrow> vec_loadu n input (p + 8 * n * ?i); key_vec \<leftarrow> vec_loadu n secret (s + 8 * n * ?i);
       Some (vec_put n ?i (body data_vec key_vec (vec_at n ?i xacc)) xacc) }) = None" for xacc
    using n by (elim disjE) (simp_all only: bind.bind_lzero bind_rzero)
qed

lemma scramble_loop_None:
  assumes "n \<in> {2, 4}" "length secret < s + 64"
  shows "scramble_loop n body acc secret s = None"
  unfolding scramble_loop_def
proof (rule for_opt_None)
  let ?i = "64 div (8 * n) - 1"
  note l = last_register [OF assms(1)]
  show "?i \<in> set [0..<64 div (8 * n)]" using l by simp
  have "length secret < s + 8 * n * ?i + 8 * n" "0 < n" using assms(2) l by (simp_all only: add.assoc)
  then show "(do { key_vec \<leftarrow> vec_loadu n secret (s + 8 * n * ?i);
       Some (vec_put n ?i (body key_vec (vec_at n ?i xacc)) xacc) }) = None" for xacc
    using vec_loadu_None by (simp only: bind.bind_lzero)
qed

lemma scalar_None:
  "length input < p + 64 \<or> length secret < s + 64 \<Longrightarrow> XXH3_accumulate_512 input p secret s acc = None"
  "length secret < s + 64 \<Longrightarrow> XXH3_scrambleAcc acc secret s = None"
proof -
  assume "length input < p + 64 \<or> length secret < s + 64"
  then have "read64 input (p + 8 * 7) = None \<or> read64 secret (s + 7 * 8) = None" unfolding read64_None by linarith
  then show "XXH3_accumulate_512 input p secret s acc = None"
    unfolding XXH3_accumulate_512_def XXH_readLE64_def
    by (intro for_opt_None [of 7]) (auto split: bind_splits)
next
  assume "length secret < s + 64"
  then have "read64 secret (s + 8 * 7) = None" unfolding read64_None by linarith
  then show "XXH3_scrambleAcc acc secret s = None"
    unfolding XXH3_scrambleAcc_def XXH_readLE64_def by (intro for_opt_None [of 7]) auto
qed

section \<open>The contract of the inner loops\<close>

text \<open>
  What the hash relies on when it is given inner loops: on eight accumulators they do what the scalar versions do, and so does
  the derivation of a secret.
\<close>

locale vector_version =
  fixes f_acc512 :: f_accumulate_512 and f_scramble :: f_scrambleAcc and f_initSec :: f_initCustomSecret
  assumes acc512_eq: "length acc = 8 \<Longrightarrow> f_acc512 input p secret s acc = XXH3_accumulate_512 input p secret s acc"
    and scramble_eq: "length acc = 8 \<Longrightarrow> f_scramble acc secret s = XXH3_scrambleAcc acc secret s"
    and initSec_eq: "f_initSec seed = XXH3_initCustomSecret seed"

text \<open>A loop whose body keeps the number of accumulators can be replaced by one that agrees on that many.\<close>

lemma for_opt_same:
  assumes "length acc = n" "\<forall>i acc. length acc = n \<longrightarrow> f i acc = g i acc"
    "\<forall>i acc acc'. g i acc = Some acc' \<longrightarrow> length acc = n \<longrightarrow> length acc' = n"
  shows "for_opt is f acc = for_opt is g acc"
  using assms(1)
proof (induction "is" arbitrary: acc)
  case (Cons i js)
  then show ?case using assms(2,3) by (cases "g i acc") auto
qed simp

lemma for_opt_length:
  assumes "for_opt is g acc = Some acc'" "length acc = n" "\<forall>i acc acc'. g i acc = Some acc' \<longrightarrow> length acc = n \<longrightarrow> length acc' = n"
  shows "length acc' = n"
  using assms(1,2)
proof (induction "is" arbitrary: acc)
  case (Cons i js)
  then show ?case using assms(3) by (cases "g i acc") auto
qed simp

lemma scalar_length:
  "XXH3_accumulate_512 input p secret s acc = Some acc' \<Longrightarrow> length acc = 8 \<Longrightarrow> length acc' = 8"
  "XXH3_scrambleAcc acc secret s = Some acc' \<Longrightarrow> length acc = 8 \<Longrightarrow> length acc' = 8"
  "XXH3_accumulate acc input p secret n = Some acc' \<Longrightarrow> length acc = 8 \<Longrightarrow> length acc' = 8"
proof -
  show a: "length acc' = 8" if "XXH3_accumulate_512 input p secret s acc = Some acc'" "length acc = 8" for p s acc acc'
    using that XXH3_accumulate_512_total [of p input s secret acc] scalar_None(1) [of input p secret s acc]
    by (cases "p + 64 \<le> length input \<and> s + 64 \<le> length secret") auto
  show "length acc' = 8" if "XXH3_scrambleAcc acc secret s = Some acc'" "length acc = 8"
    using that XXH3_scrambleAcc_total [of s secret acc] scalar_None(2) [of secret s acc] by (cases "s + 64 \<le> length secret") auto
  show "length acc' = 8" if "XXH3_accumulate acc input p secret n = Some acc'" "length acc = 8"
    using for_opt_length [OF that(1) [unfolded XXH3_accumulate_def] that(2)] a by blast
qed

context vector_version
begin

lemma accumulate_eq:
  "length acc = 8 \<Longrightarrow> accumulate_with f_acc512 acc input p secret n = XXH3_accumulate acc input p secret n"
  unfolding accumulate_with_def XXH3_accumulate_def
  by (rule for_opt_same) (auto simp: acc512_eq dest: scalar_length(1))

lemma block_eq:
  "length acc = 8 \<Longrightarrow> (do { acc \<leftarrow> accumulate_with f_acc512 acc input p secret n; f_scramble acc secret s }) =
     (do { acc \<leftarrow> XXH3_accumulate acc input p secret n; XXH3_scrambleAcc acc secret s })"
  by (cases "XXH3_accumulate acc input p secret n") (auto simp: accumulate_eq scramble_eq dest: scalar_length(3))

lemma internal_loop_eq:
  assumes "length acc = 8"
  shows "hashLong_internal_loop_with f_acc512 f_scramble acc input len secret S = XXH3_hashLong_internal_loop acc input len secret S"
proof -
  define P where "P = (S - 64) div 8"
  define q where "q = (len - 1) div (64 * P)"
  let ?g = "\<lambda>n acc. do { acc \<leftarrow> XXH3_accumulate acc input (n * (64 * P)) secret P; XXH3_scrambleAcc acc secret (S - 64) }"
  have l: "length acc' = 8" if "?g n acc = Some acc'" "length acc = 8" for n acc acc'
    using that scalar_length(2,3) by (auto split: bind_splits)
  have loop: "for_opt [0..<q] (\<lambda>n acc. do { acc \<leftarrow> accumulate_with f_acc512 acc input (n * (64 * P)) secret P;
      f_scramble acc secret (S - 64) }) acc = for_opt [0..<q] ?g acc"
    using assms l block_eq by (intro for_opt_same) blast+
  have "length b = 8" if "for_opt [0..<q] ?g acc = Some b" for b
    using for_opt_length [OF that assms] l by blast
  then have "for_opt [0..<q] ?g acc \<bind> (\<lambda>b. accumulate_with f_acc512 b input (q * (64 * P)) secret m \<bind>
      f_acc512 input (len - 64) secret (S - 64 - 7)) =
    for_opt [0..<q] ?g acc \<bind> (\<lambda>b. XXH3_accumulate b input (q * (64 * P)) secret m \<bind>
      XXH3_accumulate_512 input (len - 64) secret (S - 64 - 7))" for m
    by (auto simp: accumulate_eq acc512_eq dest: scalar_length(3) intro!: bind_option_cong)
  then show ?thesis
    unfolding hashLong_internal_loop_with_def XXH3_hashLong_internal_loop_def Let_def
    by (simp only: P_def [symmetric] q_def [symmetric] loop)
qed

lemma internal_64b_eq: "hashLong_64b_internal_with f_acc512 f_scramble = XXH3_hashLong_64b_internal"
  by (intro ext) (simp add: hashLong_64b_internal_with_def XXH3_hashLong_64b_internal_def internal_loop_eq XXH3_INIT_ACC_def)

lemma internal_128b_eq: "hashLong_128b_internal_with f_acc512 f_scramble = XXH3_hashLong_128b_internal"
  by (intro ext) (simp add: hashLong_128b_internal_with_def XXH3_hashLong_128b_internal_def internal_loop_eq XXH3_INIT_ACC_def)

lemma XXH3_64bits_eq: "XXH3_64bits_with f_acc512 f_scramble input len = XXH3_64bits input len"
  by (simp add: XXH3_64bits_with_def XXH3_64bits_def XXH3_hashLong_64b_default_def [abs_def] internal_64b_eq)

lemma withSeed_eq:
  "XXH3_64bits_withSeed_with f_acc512 f_scramble f_initSec input len seed = XXH3_64bits_withSeed input len seed"
  "XXH3_128bits_withSeed_with f_acc512 f_scramble f_initSec input len seed = XXH3_128bits_withSeed input len seed"
proof -
  have "hashLong_withSeed_with f_initSec XXH3_hashLong_64b_internal = XXH3_hashLong_64b_withSeed"
    "hashLong_withSeed_with f_initSec XXH3_hashLong_128b_internal = XXH3_hashLong_128b_withSeed"
    by (intro ext; simp add: hashLong_withSeed_with_def XXH3_hashLong_64b_withSeed_def XXH3_hashLong_128b_withSeed_def initSec_eq)+
  then show "XXH3_64bits_withSeed_with f_acc512 f_scramble f_initSec input len seed = XXH3_64bits_withSeed input len seed"
    "XXH3_128bits_withSeed_with f_acc512 f_scramble f_initSec input len seed = XXH3_128bits_withSeed input len seed"
    by (simp_all add: XXH3_64bits_withSeed_with_def XXH3_64bits_withSeed_def XXH3_128bits_withSeed_with_def XXH3_128bits_withSeed_def
        internal_64b_eq internal_128b_eq)
qed

end

section \<open>The versions keep the contract\<close>

lemma eight_lanes: "length xs = 8 \<Longrightarrow> \<exists>a0 a1 a2 a3 a4 a5 a6 a7. xs = [a0, a1, a2, a3, a4, a5, a6, a7]"
  by (simp add: numeral_eq_Suc length_Suc_conv) blast

lemma accumulate_eqI:
  assumes "\<forall>d0 d1 d2 d3 d4 d5 d6 d7 k0 k1 k2 k3 k4 k5 k6 k7 a0 a1 a2 a3 a4 a5 a6 a7. stripe_lanes input p [d0, d1, d2, d3, d4, d5, d6, d7] \<longrightarrow> stripe_lanes secret s [k0, k1, k2, k3, k4, k5, k6, k7] \<longrightarrow>
      f input p secret s [a0, a1, a2, a3, a4, a5, a6, a7] = Some [a0 + d1 + lane_product d0 k0, a1 + d0 + lane_product d1 k1, a2 + d3 + lane_product d2 k2, a3 + d2 + lane_product d3 k3, a4 + d5 + lane_product d4 k4, a5 + d4 + lane_product d5 k5, a6 + d7 + lane_product d6 k6, a7 + d6 + lane_product d7 k7]"
    "length input < p + 64 \<or> length secret < s + 64 \<Longrightarrow> f input p secret s acc = None" "length acc = 8"
  shows "f input p secret s acc = XXH3_accumulate_512 input p secret s acc"
proof (cases "length input < p + 64 \<or> length secret < s + 64")
  case False
  then obtain ds ks where l: "stripe_lanes input p ds" "stripe_lanes secret s ks"
    using stripe_lanes_ex [of p input] stripe_lanes_ex [of s secret] by auto
  have "length ds = 8" "length ks = 8" using l by (simp_all add: stripe_lanes_def)
  obtain d0 d1 d2 d3 d4 d5 d6 d7 where "ds = [d0, d1, d2, d3, d4, d5, d6, d7]" using eight_lanes [OF \<open>length ds = 8\<close>] by blast
  moreover obtain k0 k1 k2 k3 k4 k5 k6 k7 where "ks = [k0, k1, k2, k3, k4, k5, k6, k7]" using eight_lanes [OF \<open>length ks = 8\<close>] by blast
  moreover obtain a0 a1 a2 a3 a4 a5 a6 a7 where "acc = [a0, a1, a2, a3, a4, a5, a6, a7]" using eight_lanes [OF assms(3)] by blast
  ultimately show ?thesis using l assms(1) by (simp add: scalar_accumulate_lanes)
qed (simp add: assms(2) scalar_None(1))

lemma scramble_eqI:
  assumes "\<forall>k0 k1 k2 k3 k4 k5 k6 k7 a0 a1 a2 a3 a4 a5 a6 a7. stripe_lanes secret s [k0, k1, k2, k3, k4, k5, k6, k7] \<longrightarrow> f [a0, a1, a2, a3, a4, a5, a6, a7] secret s = Some [lane_scramble k0 a0, lane_scramble k1 a1, lane_scramble k2 a2, lane_scramble k3 a3, lane_scramble k4 a4, lane_scramble k5 a5, lane_scramble k6 a6, lane_scramble k7 a7]"
    "length secret < s + 64 \<Longrightarrow> f acc secret s = None" "length acc = 8"
  shows "f acc secret s = XXH3_scrambleAcc acc secret s"
proof (cases "length secret < s + 64")
  case False
  then obtain ks where l: "stripe_lanes secret s ks" using stripe_lanes_ex [of s secret] by auto
  have "length ks = 8" using l by (simp add: stripe_lanes_def)
  obtain k0 k1 k2 k3 k4 k5 k6 k7 where "ks = [k0, k1, k2, k3, k4, k5, k6, k7]" using eight_lanes [OF \<open>length ks = 8\<close>] by blast
  moreover obtain a0 a1 a2 a3 a4 a5 a6 a7 where "acc = [a0, a1, a2, a3, a4, a5, a6, a7]" using eight_lanes [OF assms(3)] by blast
  ultimately show ?thesis using l assms(1) by (simp add: scalar_scramble_lanes)
qed (simp add: assms(2) scalar_None(2))

text \<open>Secrets: the lanes of the default secret plus and minus the seed in turn.\<close>

lemma vec_loadu_Some:
  "off + 8 * n \<le> length p \<Longrightarrow> vec_loadu n p off = Some (map (\<lambda>i. le_word (window 8 p (off + 8 * i))) [0..<n])"
proof (induction n arbitrary: off)
  case (Suc n)
  have "map (\<lambda>i. le_word (window 8 p (off + 8 * i)) :: u64) [0..<Suc n] =
      le_word (window 8 p off) # map (\<lambda>i. le_word (window 8 p (off + 8 + 8 * i))) [0..<n]"
    by (simp add: map_upt_Suc add.assoc del: upt_Suc)
  then show ?case using Suc by (simp add: safe_reads del: upt_Suc)
qed simp

definition seeded_lane :: "u64 \<Rightarrow> nat \<Rightarrow> bytes" where
  "seeded_lane seed64 j = le_bytes 8 (le_word (window 8 XXH3_kSecret (8 * j)) + (if even j then seed64 else - seed64))"

definition alternating :: "nat \<Rightarrow> u64 \<Rightarrow> u64 list" where
  "alternating n x = map (\<lambda>k. if even k then x else - x) [0..<n]"

lemma add_seed_lanes:
  assumes "even n" "n * Suc m \<le> 24"
  shows "add_seed n (alternating n x) m dest = Some (dest @ concat (map (seeded_lane x) [n * m..<n * m + n]))"
proof -
  let ?v = "map (\<lambda>i. le_word (window 8 XXH3_kSecret (8 * n * m + 8 * i))) [0..<n]"
  have "8 * n * m + 8 * n \<le> length XXH3_kSecret" using assms(2) by (simp add: length_kSecret algebra_simps)
  then have v: "vec_loadu n XXH3_kSecret (8 * n * m) = Some ?v" by (rule vec_loadu_Some)
  have "map (le_bytes 8) (add_epi64 ?v (alternating n x)) = map (seeded_lane x) [n * m..<n * m + n]"
  proof (rule nth_equalityI)
    fix i assume "i < length (map (le_bytes 8) (add_epi64 ?v (alternating n x)))"
    then have i: "i < n" by (simp add: add_epi64_def alternating_def)
    then have "map (le_bytes 8) (add_epi64 ?v (alternating n x)) ! i =
        le_bytes 8 (le_word (window 8 XXH3_kSecret (8 * n * m + 8 * i)) + (if even i then x else - x))"
      by (simp add: add_epi64_def alternating_def)
    also have "\<dots> = seeded_lane x (n * m + i)"
      using assms(1) by (simp add: seeded_lane_def add_mult_distrib2 mult.assoc)
    finally show "map (le_bytes 8) (add_epi64 ?v (alternating n x)) ! i = map (seeded_lane x) [n * m..<n * m + n] ! i" using i by simp
  qed (simp add: add_epi64_def alternating_def)
  then show ?thesis using v by (simp only: add_seed_def store_vec_def bind.bind_lunit)
qed

lemma seed_loop:
  assumes "even n" "n * m \<le> 24"
  shows "for_opt [0..<m] (add_seed n (alternating n x)) [] = Some (concat (map (seeded_lane x) [0..<n * m]))"
  using assms(2)
proof (induction m)
  case (Suc m)
  have "[0..<n * Suc m] = [0..<n * m] @ [n * m..<n * m + n]" using upt_add_eq_append [of 0 "n * m" n] by (simp add: add.commute)
  moreover have "for_opt [0..<m] (add_seed n (alternating n x)) [] = Some (concat (map (seeded_lane x) [0..<n * m]))"
    using Suc.prems by (intro Suc.IH) simp
  ultimately show ?case using add_seed_lanes [OF assms(1) Suc.prems] by (simp add: for_opt_append del: mult_Suc_right)
qed simp

lemma initSec_sse2: "XXH3_initCustomSecret_sse2 seed = XXH3_initCustomSecret seed"
  unfolding XXH3_initCustomSecret_sse2_def XXH3_initCustomSecret_def Let_def
  by (simp add: add_seed_def [abs_def] store_vec_def add_epi64_def XXH_readLE64_def numeral_2_eq_2 mult.commute)

lemma small_upts: "[0..<2] = [0, 1 :: nat]" "[0..<4] = [0, 1, 2, 3 :: nat]" "[0..<6] = [0, 1, 2, 3, 4, 5 :: nat]"
    "[0..<8] = [0, 1, 2, 3, 4, 5, 6, 7 :: nat]"
  by code_simp+

lemma alternating_eq:
  "alternating 2 x = [x, - x]" "alternating 4 x = [x, - x, x, - x]" "alternating 8 x = mask_set1_epi64 (replicate 8 x) 0xAA (- x)"
proof -
  have "replicate 8 x = [x, x, x, x, x, x, x, x]" by (simp add: numeral_eq_Suc)
  then show "alternating 2 x = [x, - x]" "alternating 4 x = [x, - x, x, - x]"
      "alternating 8 x = mask_set1_epi64 (replicate 8 x) 0xAA (- x)"
    by (simp_all add: alternating_def mask_set1_epi64_def small_upts)
qed

lemma initSec_avx2: "XXH3_initCustomSecret_avx2 seed = XXH3_initCustomSecret seed"
  using initSec_sse2 [of seed] seed_loop [of 2 12 seed] seed_loop [of 4 6 seed]
  by (simp add: XXH3_initCustomSecret_avx2_def XXH3_initCustomSecret_sse2_def alternating_eq small_upts)

lemma initSec_avx512: "XXH3_initCustomSecret_avx512 seed = XXH3_initCustomSecret seed"
  using initSec_sse2 [of seed] seed_loop [of 2 12 seed] seed_loop [of 8 3 seed]
  by (simp add: XXH3_initCustomSecret_avx512_def XXH3_initCustomSecret_sse2_def alternating_eq)

text \<open>The loops of registers of two lanes need only the law for a pair.\<close>

lemma vector_version_2:
  assumes "\<forall>d0 d1 k0 k1 a0 a1. acc_body [d0, d1] [k0, k1] [a0, a1] = [a0 + d1 + lane_product d0 k0, a1 + d0 + lane_product d1 k1]"
    "\<forall>k0 k1 a0 a1. scr_body [k0, k1] [a0, a1] = [lane_scramble k0 a0, lane_scramble k1 a1]"
    "\<forall>seed. init seed = XXH3_initCustomSecret seed"
  shows "vector_version (accumulate_loop 2 acc_body) (scramble_loop 2 scr_body) init"
proof
  fix input p secret s acc assume l: "length (acc :: u64 list) = 8"
  show "accumulate_loop 2 acc_body input p secret s acc = XXH3_accumulate_512 input p secret s acc"
    using l assms(1) by (intro accumulate_eqI) (auto intro: accumulate_loop_2 accumulate_loop_None)
  show "scramble_loop 2 scr_body acc secret s = XXH3_scrambleAcc acc secret s"
    using l assms(2) by (intro scramble_eqI) (auto intro: scramble_loop_2 scramble_loop_None)
qed (simp add: assms(3))

interpretation sse2: vector_version XXH3_accumulate_512_sse2 XXH3_scrambleAcc_sse2 XXH3_initCustomSecret_sse2
  unfolding XXH3_accumulate_512_sse2_def XXH3_scrambleAcc_sse2_def
  by (rule vector_version_2) (simp_all add: accumulate_pair scramble_pair initSec_sse2)

interpretation neon_zip: vector_version "XXH3_accumulate_512_neon split_vzip" "XXH3_scrambleAcc_neon split_vzip" XXH3_initCustomSecret
  unfolding XXH3_accumulate_512_neon_def XXH3_scrambleAcc_neon_def
  by (rule vector_version_2) (simp_all add: accumulate_pair scramble_pair)

interpretation neon_narrow: vector_version "XXH3_accumulate_512_neon split_narrow" "XXH3_scrambleAcc_neon split_narrow" XXH3_initCustomSecret
  unfolding XXH3_accumulate_512_neon_def XXH3_scrambleAcc_neon_def
  by (rule vector_version_2) (simp_all add: accumulate_pair scramble_pair)

interpretation vsx: vector_version XXH3_accumulate_512_vsx XXH3_scrambleAcc_vsx XXH3_initCustomSecret
  unfolding XXH3_accumulate_512_vsx_def XXH3_scrambleAcc_vsx_def
  by (rule vector_version_2) (simp_all add: accumulate_pair scramble_pair)

interpretation avx2: vector_version XXH3_accumulate_512_avx2 XXH3_scrambleAcc_avx2 XXH3_initCustomSecret_avx2
  unfolding XXH3_accumulate_512_avx2_def XXH3_scrambleAcc_avx2_def
proof
  fix input p secret s acc assume l: "length (acc :: u64 list) = 8"
  show "accumulate_loop 4 accumulate_x86 input p secret s acc = XXH3_accumulate_512 input p secret s acc"
    using l by (intro accumulate_eqI) (auto intro: accumulate_loop_4 accumulate_loop_None)
  show "scramble_loop 4 scramble_x86 acc secret s = XXH3_scrambleAcc acc secret s"
    using l by (intro scramble_eqI) (auto intro: scramble_loop_4 scramble_loop_None)
qed (rule initSec_avx2)

interpretation avx512: vector_version XXH3_accumulate_512_avx512 XXH3_scrambleAcc_avx512 XXH3_initCustomSecret_avx512
proof
  fix input p secret s acc assume l: "length (acc :: u64 list) = 8"
  have "XXH3_accumulate_512_avx512 input p secret s acc = None" if "length input < p + 64 \<or> length secret < s + 64"
    using that vec_loadu_None [of 8 input p] vec_loadu_None [of 8 secret s]
    by (elim disjE) (simp_all add: XXH3_accumulate_512_avx512_def)
  then show "XXH3_accumulate_512_avx512 input p secret s acc = XXH3_accumulate_512 input p secret s acc"
    using l by (intro accumulate_eqI) (auto intro: accumulate_8)
  have "XXH3_scrambleAcc_avx512 acc secret s = None" if "length secret < s + 64"
    using that vec_loadu_None [of 8 secret s] by (simp add: XXH3_scrambleAcc_avx512_def)
  then show "XXH3_scrambleAcc_avx512 acc secret s = XXH3_scrambleAcc acc secret s"
    using l by (intro scramble_eqI) (auto intro: scramble_8)
qed (rule initSec_avx512)

section \<open>The property\<close>

text \<open>
  C19. Whichever vector version the build selects - AVX-512, AVX2, SSE2, NEON with either split, or VSX - XXH3 gives the same
  result as in the scalar version, without and with a seed, for both result sizes, every key, length and seed; and where one reads outside its buffers, so does the other.
\<close>

theorem XXH3_vector_eq:
  assumes "(f_acc512, f_scramble, f_initSec) \<in> set vector_versions"
  shows "XXH3_64bits_with f_acc512 f_scramble input len = XXH3_64bits input len \<and>
    XXH3_64bits_withSeed_with f_acc512 f_scramble f_initSec input len seed = XXH3_64bits_withSeed input len seed \<and>
    XXH3_128bits_withSeed_with f_acc512 f_scramble f_initSec input len seed = XXH3_128bits_withSeed input len seed"
proof -
  have "vector_version f_acc512 f_scramble f_initSec"
    using assms avx512.vector_version_axioms avx2.vector_version_axioms sse2.vector_version_axioms neon_zip.vector_version_axioms
      neon_narrow.vector_version_axioms vsx.vector_version_axioms
    unfolding vector_versions_def by (auto simp only: list.set insert_iff empty_iff prod.inject)
  then show ?thesis using vector_version.withSeed_eq vector_version.XXH3_64bits_eq by blast
qed

theorem XXH3_vector_eq_witness:
  "XXH3_64bits_withSeed_with XXH3_accumulate_512_avx2 XXH3_scrambleAcc_avx2 XXH3_initCustomSecret_avx2 (replicate 300 7) 300 5 =
    XXH3_64bits_withSeed (replicate 300 7) 300 5"
  using XXH3_vector_eq [of XXH3_accumulate_512_avx2 XXH3_scrambleAcc_avx2 XXH3_initCustomSecret_avx2] by (simp add: vector_versions_def)

end
