(* ===== verification/Spec2Isabelle.thy ===== *)
theory Spec2Isabelle
  imports Benchmarker Lib_Bloom
    XXH32_Hash XXH64_Hash XXH3_Stream_Props XXH3_Vector
begin

text \<open>
  Entropy-learned hashing: a verification library of the repository, a C++ program that learns from
  a sample which words of the keys carry entropy, hashes only these words, and measures what this gains in Bloom
  filters, partitioning and hash tables.

  \<^bold>\<open>The parts of the program and how they interact.\<close>
  The estimator (include/entropyEstimation/entropy_estimators.hh) chooses word positions of the keys, one after the
  other, by the Renyi entropy of the partial keys. The drivers of the benchmarks (benchmark_filters.cpp,
  benchmark_partitions.cpp, benchmark_tables.cpp) compare the estimated entropies with what they need, take that many locations, sort them,
  and construct a functor of one of three families (include/hash/wyhash_customs.hh, crc_wyhash_customs.hh,
  xxhash_customs.hh) for them, or the hash of the whole key (include/hash.hh over wyhash.hh,
  crc32_hash.hh, orig_xhash.hh). The functor hashes the keys of a Bloom filter (include/self_reg_bloom.hh, self_block_bloom.hh,
  register_blocked_bloom.hh), numbers partitions, or hashes the keys of a table (tsl/robin_map.h over robin_hash.h and
  robin_growth_policy.h). benchmark_hashes.cpp measures
  the functions alone. Data sets and probes come from storage.cpp and workload_generator.cpp. The program itself (benchmarker.cpp)
  reads the data set, lets the estimator write locations and entropies to files when asked to, loads them, and runs the requested benchmarks in a number of trials. libbloom.cpp is a second Bloom filter.

  \<^bold>\<open>The theories.\<close>
  \<^item> ELH_Prelude: machine words, byte buffers with checked reads, bits of byte arrays, loops that may fail.
    Float_Model: binary floating point on rationals, rounded to 24 or 53 bits.
  \<^item> Growth_Policy (tsl/robin_growth_policy.h): the three policies. Robin_Hash (tsl/robin_hash.h): buckets, table and operations, one definition per
    member function and loop. Robin_Inv, Robin_Loops, Robin_Table, Robin_Ops: the Robin Hood invariant and its lemmas, loop by
    loop and operation by operation. Robin_Map (tsl/robin_map.h, further members of robin_hash.h): iteration, element access, range operations.
    Robin_Props: the theorems; the table refines a finite map. Table_Bench: the benchmark's use of a table
    (benchmark_tables.cpp) as a locale, interpreted on the Robin Hood map.
  \<^item> Filter_Bench: the use of a filter (benchmark_filters.cpp) and the contract \<open>membership_filter\<close>. Self_Bloom, Block_Bloom,
    Register_Bloom: the three filters. The first two and libbloom (Lib_Bloom, libbloom.cpp) interpret the contract; the operations of the third
    are undefined for half of the hashes, which Register_Bloom characterises.
  \<^item> Wyhash (hash/wyhash.hh), Crc_Hash (hash/crc32_hash.hh, crc_wyhash_customs.hh), Murmur_Hash (murmurhash2.h, hash/mmh_var.hh, o1hash.hh,
    hash.hh), Xxh_Common, Stripe_Stream, XXH32_Hash, XXH64_Hash, XXH3_Hash (hash/orig_xhash.hh): the hash functions.
    Stripe_Stream holds the buffering that the streaming of XXH32 and XXH64 shares, as the locale \<open>stripe_reader\<close>. XXH3_128: the 128-bit result of XXH3 and
    secrets from seeds. XXH3_Stream: the state of XXH3, aligned allocation, resets, update, digests, and the run over stripes that update, digest and
    the one-shot hash share. XXH3_Stream_Props: the representation relation of a state and the theorems. XXH3_Vector: the five vector versions
    of the inner loops, over intrinsics on lists of lanes, each an interpretation of the locale \<open>vector_version\<close>.
  \<^item> Partial_Hash: what a functor on chosen words promises, as the locale \<open>partial_hash\<close>; Wyhash_Customs, Crc_Hash and XXH3_Customs interpret it
    for one to four locations. Hash_Select: the choice of a functor.
  \<^item> Bench_Common: outcomes (undefined behaviour, failed assertion, exit), the globals of benchmarker.cpp, timed steps. Filter_Driver: the throughput
    and latency benchmarks and the three drivers of benchmark_filters.cpp, over the locale \<open>hashed_filter\<close>. Partition_Bench: benchmark_partitions.cpp.
    Bench_Timing (include/benchmarks.hh): the clock, the recorded times of all benchmarks and the function that measures. Table_Driver: the throughput and latency benchmarks and the drivers of
    benchmark_tables.cpp, over the locale \<open>benchmark_table\<close>, interpreted on the Robin Hood map and on \<open>std::unordered_map\<close>. Hash_Bench: benchmark_hashes.cpp.
  \<^item> Entropy_Estimator: the estimator. Workload: splitting and probes of storage.cpp, workload_generator.cpp and helpers of entropyEstimatorMain.cpp.
    Storage: the files of storage.cpp and entropyEstimatorMain.cpp, as bytes by name.
  \<^item> Benchmarker (benchmarker.cpp): options and globals as records, setting up, the trials and the printed averages, over all the drivers.

  \<^bold>\<open>How code is represented.\<close>
  Unsigned integers are words of their width and wrap around; \<open>int\<close> values are integers with the conversions written out. A pointer into a
  buffer is the list of bytes from it on, or an offset; a read or write outside is \<open>None\<close>, as is every other undefined
  operation (a shift by too much, a remainder by 0, a conversion that does not fit). Exceptions and failed assertions are values of
  error types. Keys are byte lists; \<open>str.data()\<close> has one more byte, the terminating zero. The machine is little-endian. Library functions on real
  numbers (\<open>log2\<close>, \<open>pow\<close>, \<open>sqrt\<close>), \<open>std::hash\<close>, the random number generator and the iteration order of an
  \<open>unordered_map\<close> are parameters; what a theorem needs of them is one of its hypotheses.

  \<^bold>\<open>Loops.\<close>
  Counted loops are folds over their indices. The loops of wyhash, XXH64, MurmurHash and the CRC hash are functions with a measure. So are the loop of the XXH3 update over whole buffers and the filling of seeds. The probe loops of the Robin Hood
  table take fuel, one more than the number of buckets; the theorems on lookup, insertion and erasing show that it is enough whenever the invariant holds. \<open>make_secret\<close> and
  the estimator that stops at an entropy are partial functions; the latter is shown to return. The walks of the latency benchmark of the tables,
  whose steps are values found in the table, are partial functions too and are shown to end.

  \<^bold>\<open>What the theorems show.\<close>
  Up to 32767 operations on a Robin Hood table refine the same ones on a finite map; each operation is characterised, insertion while the 16-bit distances
  cannot wrap, and the invariant holds of every table reached within these bounds. Erasing a range up to the end can lose a
  key. The filters refine sets of bits and have no false negatives; the register-blocked filter shifts out of range. Streaming equals one-shot hashing, for XXH3 with both
  result sizes and for states that were used before, the vector versions of XXH3 equal the scalar one, the
  portable multiplications equal those by 128-bit arithmetic, XXH3 with its assertions off reads only its input and secret, the order of 128-bit hashes is that of numbers.
  A learned functor for data of varying length is defined on every key, one for data of fixed length on the keys that have all its locations; the former
  hashes short keys as a whole and long ones by their length and chosen words. If the estimator finds a position each time, its positions are usable. The estimate counts
  collisions, keys with equal partial keys that reach the last location collide, and the greedy search takes a best position. Given usable locations and
  enough estimates, the drivers of the standard filter (throughput, six of its hashes), of partitioning and of the tables run to the end; the benchmark of a standard filter
  reports the exact rate for a multiple of 100 probes, and the time of its lookups; the workload generated from distinct keys meets its assumptions. The benchmark of a Robin
  Hood map of at most 32767 keys reports the values last stored, and the hash benchmark hashes with the functions of the functors. Of the program as a whole: files of
  locations are read back as written if the printed entropies can be read, regenerated locations without \<open>- 1\<close> are usable by the hash functions, the state that it reaches is
  well typed, a run over partitioning and \<open>std::unordered_map\<close> ends normally when the data set, the split and the locations are as \<open>ready\<close> says,
  a trial on fewer than \<open>2 ^ 22\<close> keys inserts the requested number or one less, and without that number the default workload is undefined. The reported deviation and recorded
  time of partitioning, the recorded time of the hash benchmark, the latency benchmark of filters, the choices of the blocked filter and of the tables in corner cases,
  the reader of malformed files and the estimator's reads past short keys are shown to be wrong or undefined.

  \<^bold>\<open>Not modelled, and why.\<close>
  The copy and move members of the filters do not compile when instantiated. Alignment and prefetching are not modelled, and hash/xxhash_var.hh is not used by the program. Abseil,
  sparsehash, csv.h and the other tables under tsl are third-party code: the Abseil map in the latency benchmark is a finite map, and the drivers of the
  Abseil and sparsehash tables take the class of the table as a parameter. The variants of the table benchmarks that read the counters of the
  Abseil table are never called; benchmark_tables_mt.cpp runs threads over third-party tables. Parsing command-line options is Boost's and the
  record of options is an input. Of the assertions of
  hash/orig_xhash.hh, which are off by default, those on the lengths of short keys are modelled. The rest is printing and the optional result files.
\<close>

end
